(* ===== verification/Ytdl_Prelude.thy ===== *)
theory Ytdl_Prelude
  imports Main "HOL-Library.Word" "HOL-Library.Monad_Syntax"
begin

text \<open>
  What the component theories share: the machine integers of the C code, checked memory
  access, and the characters and NUL-terminated strings of the C library.

  A C operation whose behaviour is undefined (an access outside a block, a null pointer
  dereference, a failed \<open>assert\<close>) is the value \<^term>\<open>None\<close> of an option type; every
  loop of the model reads and writes its buffers through \<open>rd\<close> and \<open>wr\<close>, so a theorem
  that a function returns \<^term>\<open>Some r\<close> is also a theorem that it stays inside its
  buffers.
\<close>

unbundle bit_operations_syntax

section \<open>Machine integers\<close>

type_synonym u8 = "8 word"
type_synonym u16 = "16 word"
type_synonym u32 = "32 word"
type_synonym u64 = "64 word"

section \<open>Checked memory\<close>

definition rd :: "'a list \<Rightarrow> nat \<Rightarrow> 'a option" where
  "rd m i = (if i < length m then Some (m ! i) else None)"

definition wr :: "'a list \<Rightarrow> nat \<Rightarrow> 'a \<Rightarrow> 'a list option" where
  "wr m i x = (if i < length m then Some (m[i := x]) else None)"

lemma rd_in [simp]: "i < length m \<Longrightarrow> rd m i = Some (m ! i)"
  by (simp add: rd_def)

lemma rd_out [simp]: "length m \<le> i \<Longrightarrow> rd m i = None"
  by (simp add: rd_def)

lemma rd_SomeD: "rd m i = Some x \<Longrightarrow> i < length m \<and> x = m ! i"
  by (simp add: rd_def split: if_splits)

lemma wr_in [simp]: "i < length m \<Longrightarrow> wr m i x = Some (m[i := x])"
  by (simp add: wr_def)

lemma wr_out [simp]: "length m \<le> i \<Longrightarrow> wr m i x = None"
  by (simp add: wr_def)

lemma wr_SomeD: "wr m i x = Some m' \<Longrightarrow> i < length m \<and> m' = m[i := x]"
  by (simp add: wr_def split: if_splits)

text \<open>\<open>memcpy (dst + d) src n\<close> of the bytes \<open>src[0..n)\<close>.\<close>

definition blit :: "'a list \<Rightarrow> nat \<Rightarrow> 'a list \<Rightarrow> nat \<Rightarrow> 'a list option" where
  "blit dst d src n =
     (if n \<le> length src \<and> d + n \<le> length dst
      then Some (take d dst @ take n src @ drop (d + n) dst) else None)"

lemma blit_length: "blit dst d src n = Some dst' \<Longrightarrow> length dst' = length dst"
  by (auto simp: blit_def split: if_splits)

section \<open>Characters\<close>

text \<open>
  \<open>char\<close> of C is a signed byte on the platforms the project supports: \<open>schar\<close> is its
  value as an \<open>int\<close>, \<open>uchar\<close> its value after a cast to \<open>unsigned char\<close>.
\<close>

abbreviation NUL :: char where "NUL \<equiv> CHR 0x00"
abbreviation CR :: char where "CR \<equiv> CHR 0x0D"
abbreviation LF :: char where "LF \<equiv> CHR 0x0A"

definition uchar :: "char \<Rightarrow> nat" where "uchar c = of_char c"

definition schar :: "char \<Rightarrow> int" where
  "schar c = (if uchar c < 128 then int (uchar c) else int (uchar c) - 256)"

lemma uchar_less [simp]: "uchar c < 256"
  by (simp add: uchar_def)

lemma uchar_inj: "uchar c = uchar d \<longleftrightarrow> c = d"
  by (simp add: uchar_def)

lemma uchar_char_of [simp]: "uchar (char_of n) = n mod 256"
  by (simp add: uchar_def)

lemma char_of_uchar [simp]: "char_of (uchar c) = c"
  by (simp add: uchar_def)

text \<open>Exhaustion over the byte values, one instance per value.\<close>

lemma unat_of_char: "unat (of_char c :: u8) = uchar c"
  using uchar_less [of c] by (simp add: uchar_def of_char_def unat_of_nat)

lemma upt256: "[0..<256] = [0, 1, 2, 3, 4, 5, 6, 7, 8, 9, 10, 11, 12, 13, 14, 15, 16, 17, 18, 19, 20, 21, 22, 23, 24, 25, 26, 27, 28, 29, 30, 31, 32, 33, 34, 35, 36, 37, 38, 39, 40, 41, 42, 43, 44, 45, 46, 47, 48, 49, 50, 51, 52, 53, 54, 55, 56, 57, 58, 59, 60, 61, 62, 63, 64, 65, 66, 67, 68, 69, 70, 71, 72, 73, 74, 75, 76, 77, 78, 79, 80, 81, 82, 83, 84, 85, 86, 87, 88, 89, 90, 91, 92, 93, 94, 95, 96, 97, 98, 99, 100, 101, 102, 103, 104, 105, 106, 107, 108, 109, 110, 111, 112, 113, 114, 115, 116, 117, 118, 119, 120, 121, 122, 123, 124, 125, 126, 127, 128, 129, 130, 131, 132, 133, 134, 135, 136, 137, 138, 139, 140, 141, 142, 143, 144, 145, 146, 147, 148, 149, 150, 151, 152, 153, 154, 155, 156, 157, 158, 159, 160, 161, 162, 163, 164, 165, 166, 167, 168, 169, 170, 171, 172, 173, 174, 175, 176, 177, 178, 179, 180, 181, 182, 183, 184, 185, 186, 187, 188, 189, 190, 191, 192, 193, 194, 195, 196, 197, 198, 199, 200, 201, 202, 203, 204, 205, 206, 207, 208, 209, 210, 211, 212, 213, 214, 215, 216, 217, 218, 219, 220, 221, 222, 223, 224, 225, 226, 227, 228, 229, 230, 231, 232, 233, 234, 235, 236, 237, 238, 239, 240, 241, 242, 243, 244, 245, 246, 247, 248, 249, 250, 251, 252, 253, 254, 255]"
  by code_simp

lemma less256: "list_all P [0..<256] \<Longrightarrow> n < 256 \<Longrightarrow> P n"
  by (simp add: list_all_iff)

section \<open>Strings\<close>

text \<open>
  What the functions of \<open>string.h\<close> see of a buffer: its bytes up to the first NUL. \<open>strcmp\<close> is
  the difference of the first bytes that differ, as \<open>unsigned char\<close>.
\<close>

definition cstr :: "string \<Rightarrow> string" where
  "cstr s = takeWhile (\<lambda>c. c \<noteq> NUL) s"

fun byte_diff :: "string \<Rightarrow> string \<Rightarrow> int" where
  "byte_diff [] [] = 0"
| "byte_diff [] (d # ds) = - int (uchar d)"
| "byte_diff (c # cs) [] = int (uchar c)"
| "byte_diff (c # cs) (d # ds) = (if c = d then byte_diff cs ds else int (uchar c) - int (uchar d))"

definition strcmp :: "string \<Rightarrow> string \<Rightarrow> int" where
  "strcmp s t = byte_diff (cstr s) (cstr t)"

lemma uchar_0: "uchar c = 0 \<longleftrightarrow> c = NUL"
  using uchar_inj[of c NUL] by (simp add: uchar_def)

lemma byte_diff_0: "NUL \<notin> set s \<Longrightarrow> NUL \<notin> set t \<Longrightarrow> byte_diff s t = 0 \<longleftrightarrow> s = t"
  by (induction s t rule: byte_diff.induct) (auto simp: uchar_0 uchar_inj)

lemma cstr_no_NUL [simp]: "NUL \<notin> set (cstr s)"
  by (auto simp: cstr_def dest: set_takeWhileD)

lemma cstr_id: "NUL \<notin> set s \<Longrightarrow> cstr s = s"
  unfolding cstr_def by (rule takeWhile_eq_all_conv[THEN iffD2]) auto

lemma cstr_cstr [simp]: "cstr (cstr s) = cstr s"
  by (simp add: cstr_id)

lemma strcmp_0: "strcmp s t = 0 \<longleftrightarrow> cstr s = cstr t"
  by (simp add: strcmp_def byte_diff_0)

section \<open>More of the C library\<close>

text \<open>\<open>strncmp (m + p) s n\<close> for a C string \<open>s\<close> of the program.\<close>

fun strncmp_at :: "string \<Rightarrow> nat \<Rightarrow> string \<Rightarrow> nat \<Rightarrow> int option" where
  "strncmp_at m p s 0 = Some 0"
| "strncmp_at m p s (Suc n) =
     (case rd m p of
        None \<Rightarrow> None
      | Some c \<Rightarrow>
          let d = (case s of [] \<Rightarrow> NUL | d # _ \<Rightarrow> d) in
          if c \<noteq> d then Some (int (uchar c) - int (uchar d))
          else if c = NUL then Some 0 else strncmp_at m (Suc p) (tl s) n)"

text \<open>
  \<open>strlen\<close> of a block, \<open>n\<close> bytes of a block from \<open>p\<close> on, and \<open>snprintf\<close> of a text that is
  already formatted: at most \<open>n - 1\<close> characters and a NUL are written.
\<close>

definition strlen :: "string \<Rightarrow> nat option" where
  "strlen m = (if NUL \<in> set m then Some (length (cstr m)) else None)"

definition slice :: "'a list \<Rightarrow> nat \<Rightarrow> nat \<Rightarrow> 'a list option" where
  "slice m p n = (if p + n \<le> length m then Some (take n (drop p m)) else None)"

definition snprintf :: "string \<Rightarrow> nat \<Rightarrow> string \<Rightarrow> string option" where
  "snprintf m n s =
    (if n = 0 then Some m
     else let k = min (n - 1) (length s) in
       if k < length m then Some (take k s @ NUL # drop (Suc k) m) else None)"

text \<open>\<open>%.*s\<close>: at most \<open>n\<close> bytes of the block, an \<open>int\<close>, up to a NUL.\<close>

definition fmt_prec :: "nat \<Rightarrow> string \<Rightarrow> string option" where
  "fmt_prec n m =
    (if n < 2 ^ 31 \<and> (n \<le> length m \<or> NUL \<in> set m) then Some (cstr (take n m)) else None)"

text \<open>\<open>%d\<close> and \<open>%zu\<close> of a number that is not negative.\<close>

fun dec :: "nat \<Rightarrow> string" where
  "dec n = (if n < 10 then [char_of (48 + n)] else dec (n div 10) @ [char_of (48 + n mod 10)])"

declare dec.simps [simp del]

lemma cstr_append: "NUL \<notin> set s \<Longrightarrow> cstr (s @ NUL # t) = s"
  by (simp add: cstr_def takeWhile_append)

lemma snprintf_fits:
  assumes "length s < n" "n \<le> length m" "NUL \<notin> set s"
  shows "\<exists>m'. snprintf m n s = Some m' \<and> cstr m' = s \<and> strlen m' = Some (length s) \<and> length m' = length m"
  using assms by (auto simp: snprintf_def strlen_def cstr_append)

lemma snprintf_cut:
  assumes "0 < n" "n \<le> length s" "n \<le> length m" "NUL \<notin> set s"
  shows "\<exists>m'. snprintf m n s = Some m' \<and> cstr m' = take (n - 1) s \<and> strlen m' = Some (n - 1) \<and> length m' = length m"
proof -
  have "NUL \<notin> set (take (n - 1) s)" using assms(4) by (auto dest: in_set_takeD)
  thus ?thesis using assms by (auto simp: snprintf_def strlen_def cstr_append Let_def min_def)
qed

lemma fmt_prec_plain: "n < 2 ^ 31 \<Longrightarrow> n \<le> length m \<Longrightarrow> NUL \<notin> set (take n m) \<Longrightarrow> fmt_prec n m = Some (take n m)"
  by (simp add: fmt_prec_def cstr_id)

lemma slice_in: "p + n \<le> length m \<Longrightarrow> slice m p n = Some (take n (drop p m))"
  by (simp add: slice_def)

lemma digit_uchar: "d < 10 \<Longrightarrow> uchar (char_of (48 + d)) = 48 + d"
  by simp

lemma dec_digits: "c \<in> set (dec n) \<Longrightarrow> 48 \<le> uchar c \<and> uchar c \<le> 57"
proof (induction n rule: dec.induct)
  case (1 n)
  have "n mod 10 < 10" by simp
  thus ?case using 1 by (subst (asm) (2) dec.simps) (auto split: if_splits simp del: uchar_char_of simp: digit_uchar)
qed

lemma dec_plain: "NUL \<notin> set (dec n)" "CR \<notin> set (dec n)" "LF \<notin> set (dec n)"
  using dec_digits[of NUL n] dec_digits[of CR n] dec_digits[of LF n] by (auto simp: uchar_def)

lemma dec_length: "0 < k \<Longrightarrow> n < 10 ^ k \<Longrightarrow> length (dec n) \<le> k"
proof (induction n arbitrary: k rule: dec.induct)
  case (1 n)
  show ?case
  proof (cases "n < 10")
    case False
    then obtain k' where k: "k = Suc k'" "0 < k'" using 1(2,3) by (cases k; cases "k - 1") auto
    have "n div 10 < 10 ^ k'" using 1(3) k by (simp add: less_mult_imp_div_less mult.commute)
    hence "length (dec (n div 10)) \<le> k'" using 1(1)[OF False k(2)] by simp
    thus ?thesis using False k by (subst dec.simps) simp
  qed (use 1(2) in \<open>simp add: dec.simps[of n]\<close>)
qed

lemma dec_length_u64: "length (dec (unat (w :: u64))) \<le> 20"
proof -
  have "unat w < 2 ^ 64" using unsigned_less[of w] by simp
  also have "(2::nat) ^ 64 < 10 ^ 20" by simp
  finally show ?thesis by (intro dec_length) simp_all
qed

lemma dec_pos: "0 < length (dec n)"
  by (subst dec.simps) simp

text \<open>The lines of a text, at the pairs CR LF.\<close>

fun crlf_lines :: "string \<Rightarrow> string list" where
  "crlf_lines [] = [[]]"
| "crlf_lines (c # cs) =
     (if c = CR \<and> cs \<noteq> [] \<and> hd cs = LF then [] # crlf_lines (tl cs)
      else (case crlf_lines cs of l # ls \<Rightarrow> (c # l) # ls | [] \<Rightarrow> [[c]]))"

lemma crlf_lines_line: "CR \<notin> set l \<Longrightarrow> crlf_lines (l @ CR # LF # s) = l # crlf_lines s"
  by (induction l) auto

end
