(* ===== verification/Url_Parser.thy ===== *)
theory Url_Parser
  imports Ytdl_Prelude
begin

text \<open>
  The URL parser \<open>src/url_parser.c\<close> (with \<open>include/ytdl/url_parser.h\<close>): the character
  classes, the two state machines \<open>parse_url_char\<close> and \<open>http_parse_host_char\<close>, and the
  drivers \<open>http_parse_host\<close> and \<open>http_parser_parse_url\<close> over a checked buffer.
  \<open>HTTP_PARSER_STRICT\<close> is not defined in the build, so the strict branch is absent and
  the \<open>T(v)\<close> entries of the table are 0.
\<close>

section \<open>Character classes\<close>

definition BIT_AT :: "u8 list \<Rightarrow> nat \<Rightarrow> bool" where
  "BIT_AT a i \<longleftrightarrow> a ! (i div 8) AND push_bit (i mod 8) 1 \<noteq> 0"

definition normal_url_char :: "u8 list" where
  "normal_url_char =
    [0, 0, 0, 0,
     2 OR 4 OR 16 OR 32 OR 64 OR 128,
     1 OR 2 OR 4 OR 8 OR 16 OR 32 OR 64 OR 128,
     1 OR 2 OR 4 OR 8 OR 16 OR 32 OR 64 OR 128,
     1 OR 2 OR 4 OR 8 OR 16 OR 32 OR 64 OR 0,
     1 OR 2 OR 4 OR 8 OR 16 OR 32 OR 64 OR 128,
     1 OR 2 OR 4 OR 8 OR 16 OR 32 OR 64 OR 128,
     1 OR 2 OR 4 OR 8 OR 16 OR 32 OR 64 OR 128,
     1 OR 2 OR 4 OR 8 OR 16 OR 32 OR 64 OR 128,
     1 OR 2 OR 4 OR 8 OR 16 OR 32 OR 64 OR 128,
     1 OR 2 OR 4 OR 8 OR 16 OR 32 OR 64 OR 128,
     1 OR 2 OR 4 OR 8 OR 16 OR 32 OR 64 OR 128,
     1 OR 2 OR 4 OR 8 OR 16 OR 32 OR 64 OR 0,
     0, 0, 0, 0, 0, 0, 0, 0, 0, 0, 0, 0, 0, 0, 0, 0]"

definition LOWER :: "char \<Rightarrow> u8" where
  "LOWER c = of_char c OR 0x20"

definition IS_ALPHA :: "char \<Rightarrow> bool" where
  "IS_ALPHA c \<longleftrightarrow> of_char CHR ''a'' \<le> LOWER c \<and> LOWER c \<le> of_char CHR ''z''"

definition IS_NUM :: "char \<Rightarrow> bool" where
  "IS_NUM c \<longleftrightarrow> schar CHR ''0'' \<le> schar c \<and> schar c \<le> schar CHR ''9''"

definition IS_ALPHANUM :: "char \<Rightarrow> bool" where
  "IS_ALPHANUM c \<longleftrightarrow> IS_ALPHA c \<or> IS_NUM c"

definition IS_HEX :: "char \<Rightarrow> bool" where
  "IS_HEX c \<longleftrightarrow> IS_NUM c \<or> of_char CHR ''a'' \<le> LOWER c \<and> LOWER c \<le> of_char CHR ''f''"

definition IS_MARK :: "char \<Rightarrow> bool" where
  "IS_MARK c \<longleftrightarrow> c = CHR ''-'' \<or> c = CHR ''_'' \<or> c = CHR ''.'' \<or> c = CHR ''!'' \<or> c = CHR ''~''
     \<or> c = CHR ''*'' \<or> c = CHR 0x27 \<or> c = CHR ''('' \<or> c = CHR '')''"

definition IS_USERINFO_CHAR :: "char \<Rightarrow> bool" where
  "IS_USERINFO_CHAR c \<longleftrightarrow> IS_ALPHANUM c \<or> IS_MARK c \<or> c = CHR ''%'' \<or> c = CHR '';'' \<or>
     c = CHR '':'' \<or> c = CHR ''&'' \<or> c = CHR ''='' \<or> c = CHR ''+'' \<or> c = CHR ''$'' \<or> c = CHR '',''"

definition IS_URL_CHAR :: "char \<Rightarrow> bool" where
  "IS_URL_CHAR c \<longleftrightarrow> BIT_AT normal_url_char (uchar c)"

definition IS_HOST_CHAR :: "char \<Rightarrow> bool" where
  "IS_HOST_CHAR c \<longleftrightarrow> IS_ALPHANUM c \<or> c = CHR ''.'' \<or> c = CHR ''-''"

section \<open>States\<close>

datatype (plugins only: code size) state =
    s_dead
  | s_start_req_or_res | s_res_or_resp_H | s_start_res | s_res_H | s_res_HT | s_res_HTT
  | s_res_HTTP | s_res_http_major | s_res_http_dot | s_res_http_minor | s_res_http_end
  | s_res_first_status_code | s_res_status_code | s_res_status_start | s_res_status
  | s_res_line_almost_done
  | s_start_req
  | s_req_method | s_req_spaces_before_url | s_req_schema | s_req_schema_slash
  | s_req_schema_slash_slash | s_req_server_start | s_req_server | s_req_server_with_at
  | s_req_path | s_req_query_string_start | s_req_query_string | s_req_fragment_start
  | s_req_fragment | s_req_http_start | s_req_http_H | s_req_http_HT | s_req_http_HTT
  | s_req_http_HTTP | s_req_http_I | s_req_http_IC | s_req_http_major | s_req_http_dot
  | s_req_http_minor | s_req_http_end | s_req_line_almost_done
  | s_header_field_start | s_header_field | s_header_value_discard_ws
  | s_header_value_discard_ws_almost_done | s_header_value_discard_lws
  | s_header_value_start | s_header_value | s_header_value_lws
  | s_header_almost_done
  | s_chunk_size_start | s_chunk_size | s_chunk_parameters | s_chunk_size_almost_done
  | s_headers_almost_done | s_headers_done
  | s_chunk_data | s_chunk_data_almost_done | s_chunk_data_done
  | s_body_identity | s_body_identity_eof
  | s_message_done

datatype http_host_state =
    s_http_host_dead | s_http_userinfo_start | s_http_userinfo | s_http_host_start
  | s_http_host_v6_start | s_http_host | s_http_host_v6 | s_http_host_v6_end
  | s_http_host_v6_zone_start | s_http_host_v6_zone | s_http_host_port_start
  | s_http_host_port

text \<open>
  \<open>case s_req_server_with_at\<close> falls through into the two server states, so the three share
  \<open>server\<close>; the code's \<open>break\<close> leaves the switch for the final \<open>return s_dead\<close>.
\<close>

definition parse_url_char :: "state \<Rightarrow> char \<Rightarrow> state" where
  "parse_url_char s ch =
    (let server =
           (if ch = CHR ''/'' then s_req_path
            else if ch = CHR ''?'' then s_req_query_string_start
            else if ch = CHR ''@'' then s_req_server_with_at
            else if IS_USERINFO_CHAR ch \<or> ch = CHR ''['' \<or> ch = CHR '']'' then s_req_server
            else s_dead);
         query =
           (if IS_URL_CHAR ch then s_req_query_string
            else if ch = CHR ''?'' then s_req_query_string
            else if ch = CHR ''#'' then s_req_fragment_start
            else s_dead)
     in if ch = CHR '' '' \<or> ch = CR \<or> ch = LF then s_dead
     else case s of
       s_req_spaces_before_url \<Rightarrow>
         (if ch = CHR ''/'' \<or> ch = CHR ''*'' then s_req_path
          else if IS_ALPHA ch then s_req_schema
          else s_dead)
     | s_req_schema \<Rightarrow>
         (if IS_ALPHA ch then s
          else if ch = CHR '':'' then s_req_schema_slash
          else s_dead)
     | s_req_schema_slash \<Rightarrow>
         (if ch = CHR ''/'' then s_req_schema_slash_slash else s_dead)
     | s_req_schema_slash_slash \<Rightarrow>
         (if ch = CHR ''/'' then s_req_server_start else s_dead)
     | s_req_server_with_at \<Rightarrow> (if ch = CHR ''@'' then s_dead else server)
     | s_req_server_start \<Rightarrow> server
     | s_req_server \<Rightarrow> server
     | s_req_path \<Rightarrow>
         (if IS_URL_CHAR ch then s
          else if ch = CHR ''?'' then s_req_query_string_start
          else if ch = CHR ''#'' then s_req_fragment_start
          else s_dead)
     | s_req_query_string_start \<Rightarrow> query
     | s_req_query_string \<Rightarrow> query
     | s_req_fragment_start \<Rightarrow>
         (if IS_URL_CHAR ch then s_req_fragment
          else if ch = CHR ''?'' then s_req_fragment
          else if ch = CHR ''#'' then s
          else s_dead)
     | s_req_fragment \<Rightarrow>
         (if IS_URL_CHAR ch then s
          else if ch = CHR ''?'' \<or> ch = CHR ''#'' then s
          else s_dead)
     | _ \<Rightarrow> s_dead)"

definition http_parse_host_char :: "http_host_state \<Rightarrow> char \<Rightarrow> http_host_state" where
  "http_parse_host_char s ch =
    (let userinfo = (if ch = CHR ''@'' then s_http_host_start
                     else if IS_USERINFO_CHAR ch then s_http_userinfo
                     else s_http_host_dead);
         v6_end = (if ch = CHR '':'' then s_http_host_port_start else s_http_host_dead);
         v6 = (if IS_HEX ch \<or> ch = CHR '':'' \<or> ch = CHR ''.'' then s_http_host_v6
               else if s = s_http_host_v6 \<and> ch = CHR ''%'' then s_http_host_v6_zone_start
               else s_http_host_dead);
         zone = (if IS_ALPHANUM ch \<or> ch = CHR ''%'' \<or> ch = CHR ''.'' \<or> ch = CHR ''-'' \<or>
                    ch = CHR ''_'' \<or> ch = CHR ''~'' then s_http_host_v6_zone
                 else s_http_host_dead);
         port = (if IS_NUM ch then s_http_host_port else s_http_host_dead)
     in case s of
       s_http_userinfo \<Rightarrow> userinfo
     | s_http_userinfo_start \<Rightarrow> userinfo
     | s_http_host_start \<Rightarrow>
         (if ch = CHR ''['' then s_http_host_v6_start
          else if IS_HOST_CHAR ch then s_http_host
          else s_http_host_dead)
     | s_http_host \<Rightarrow> (if IS_HOST_CHAR ch then s_http_host else v6_end)
     | s_http_host_v6_end \<Rightarrow> v6_end
     | s_http_host_v6 \<Rightarrow> (if ch = CHR '']'' then s_http_host_v6_end else v6)
     | s_http_host_v6_start \<Rightarrow> v6
     | s_http_host_v6_zone \<Rightarrow> (if ch = CHR '']'' then s_http_host_v6_end else zone)
     | s_http_host_v6_zone_start \<Rightarrow> zone
     | s_http_host_port \<Rightarrow> port
     | s_http_host_port_start \<Rightarrow> port
     | s_http_host_dead \<Rightarrow> s_http_host_dead)"

section \<open>The result structure\<close>

datatype http_parser_url_fields =
    UF_SCHEMA | UF_HOST | UF_PORT | UF_PATH | UF_QUERY | UF_FRAGMENT | UF_USERINFO | UF_MAX

fun uf_num :: "http_parser_url_fields \<Rightarrow> nat" where
  "uf_num UF_SCHEMA = 0"
| "uf_num UF_HOST = 1"
| "uf_num UF_PORT = 2"
| "uf_num UF_PATH = 3"
| "uf_num UF_QUERY = 4"
| "uf_num UF_FRAGMENT = 5"
| "uf_num UF_USERINFO = 6"
| "uf_num UF_MAX = 7"

record url_field =
  off :: u16
  len :: u16

record http_parser_url =
  field_set :: u16
  port :: u16
  field_data :: "http_parser_url_fields \<Rightarrow> url_field"

definition http_parser_url_init :: "http_parser_url" where
  "http_parser_url_init =
     \<lparr>field_set = 0, port = 0, field_data = (\<lambda>_. \<lparr>off = 0, len = 0\<rparr>)\<rparr>"

text \<open>The bit test and the assignments the parsers make on the structure.\<close>

definition has_field :: "http_parser_url \<Rightarrow> http_parser_url_fields \<Rightarrow> bool" where
  "has_field u f \<longleftrightarrow> field_set u AND push_bit (uf_num f) 1 \<noteq> 0"

definition set_field :: "http_parser_url_fields \<Rightarrow> http_parser_url \<Rightarrow> http_parser_url" where
  "set_field f u = u\<lparr>field_set := field_set u OR push_bit (uf_num f) 1\<rparr>"

definition set_off :: "http_parser_url_fields \<Rightarrow> nat \<Rightarrow> http_parser_url \<Rightarrow> http_parser_url" where
  "set_off f p u =
     u\<lparr>field_data := (field_data u)(f := (field_data u f)\<lparr>off := of_nat p\<rparr>)\<rparr>"

definition set_len :: "http_parser_url_fields \<Rightarrow> u16 \<Rightarrow> http_parser_url \<Rightarrow> http_parser_url" where
  "set_len f n u = u\<lparr>field_data := (field_data u)(f := (field_data u f)\<lparr>len := n\<rparr>)\<rparr>"

definition inc_len :: "http_parser_url_fields \<Rightarrow> http_parser_url \<Rightarrow> http_parser_url" where
  "inc_len f u = set_len f (len (field_data u f) + 1) u"

section \<open>The host part\<close>

text \<open>
  What one iteration of the loop of \<open>http_parse_host\<close> records, at offset \<open>p\<close> of the buffer,
  going from state \<open>s\<close> to \<open>new_s\<close>.
\<close>

definition host_note :: "http_host_state \<Rightarrow> http_host_state \<Rightarrow> nat \<Rightarrow> http_parser_url \<Rightarrow> http_parser_url" where
  "host_note s new_s p u =
    (case new_s of
       s_http_host \<Rightarrow>
         inc_len UF_HOST (if s \<noteq> s_http_host then set_off UF_HOST p u else u)
     | s_http_host_v6 \<Rightarrow>
         inc_len UF_HOST (if s \<noteq> s_http_host_v6 then set_off UF_HOST p u else u)
     | s_http_host_v6_zone_start \<Rightarrow> inc_len UF_HOST u
     | s_http_host_v6_zone \<Rightarrow> inc_len UF_HOST u
     | s_http_host_port \<Rightarrow>
         inc_len UF_PORT
           (if s \<noteq> s_http_host_port
            then set_field UF_PORT (set_len UF_PORT 0 (set_off UF_PORT p u)) else u)
     | s_http_userinfo \<Rightarrow>
         inc_len UF_USERINFO
           (if s \<noteq> s_http_userinfo
            then set_field UF_USERINFO (set_len UF_USERINFO 0 (set_off UF_USERINFO p u)) else u)
     | _ \<Rightarrow> u)"

text \<open>
  The loop, with \<open>n\<close> characters to go: the final state, or \<open>Inl\<close> where the code returns
  1 from inside the loop.
\<close>

fun host_loop :: "char list \<Rightarrow> nat \<Rightarrow> nat \<Rightarrow> http_host_state \<Rightarrow> http_parser_url
    \<Rightarrow> (http_parser_url + http_host_state \<times> http_parser_url) option" where
  "host_loop buf 0 p s u = Some (Inr (s, u))"
| "host_loop buf (Suc n) p s u =
     (case rd buf p of
        None \<Rightarrow> None
      | Some ch \<Rightarrow>
          let new_s = http_parse_host_char s ch in
          if new_s = s_http_host_dead then Some (Inl u)
          else host_loop buf n (Suc p) new_s (host_note s new_s p u))"

definition host_end_bad :: "http_host_state \<Rightarrow> bool" where
  "host_end_bad s \<longleftrightarrow>
     s \<in> {s_http_host_start, s_http_host_v6_start, s_http_host_v6, s_http_host_v6_zone_start,
          s_http_host_v6_zone, s_http_host_port_start, s_http_userinfo, s_http_userinfo_start}"

definition http_parse_host :: "char list \<Rightarrow> http_parser_url \<Rightarrow> bool
    \<Rightarrow> (int \<times> http_parser_url) option" where
  "http_parse_host buf u found_at =
    (if \<not> has_field u UF_HOST then None
     else
       let h = field_data u UF_HOST;
           u = set_len UF_HOST 0 u;
           s = (if found_at then s_http_userinfo_start else s_http_host_start)
       in case host_loop buf (unat (len h)) (unat (off h)) s u of
            None \<Rightarrow> None
          | Some (Inl u) \<Rightarrow> Some (1, u)
          | Some (Inr (s, u)) \<Rightarrow> Some (if host_end_bad s then 1 else 0, u))"

section \<open>The whole URL\<close>

text \<open>
  The field a state belongs to: \<open>Inl True\<close> for the delimiters the loop skips,
  \<open>Inl False\<close> where the code runs into \<open>assert(!"Unexpected state")\<close>.
\<close>

definition state_field :: "state \<Rightarrow> bool + http_parser_url_fields" where
  "state_field s =
    (case s of
       s_req_schema_slash \<Rightarrow> Inl True
     | s_req_schema_slash_slash \<Rightarrow> Inl True
     | s_req_server_start \<Rightarrow> Inl True
     | s_req_query_string_start \<Rightarrow> Inl True
     | s_req_fragment_start \<Rightarrow> Inl True
     | s_req_schema \<Rightarrow> Inr UF_SCHEMA
     | s_req_server_with_at \<Rightarrow> Inr UF_HOST
     | s_req_server \<Rightarrow> Inr UF_HOST
     | s_req_path \<Rightarrow> Inr UF_PATH
     | s_req_query_string \<Rightarrow> Inr UF_QUERY
     | s_req_fragment \<Rightarrow> Inr UF_FRAGMENT
     | _ \<Rightarrow> Inl False)"

fun url_loop :: "char list \<Rightarrow> nat \<Rightarrow> nat \<Rightarrow> state \<Rightarrow> http_parser_url_fields \<Rightarrow> bool
    \<Rightarrow> http_parser_url \<Rightarrow> (http_parser_url + bool \<times> http_parser_url) option" where
  "url_loop buf 0 p s old_uf found_at u = Some (Inr (found_at, u))"
| "url_loop buf (Suc n) p s old_uf found_at u =
     (case rd buf p of
        None \<Rightarrow> None
      | Some ch \<Rightarrow>
          let s = parse_url_char s ch;
              found_at = (found_at \<or> s = s_req_server_with_at)
          in if s = s_dead then Some (Inl u)
             else (case state_field s of
               Inl skip \<Rightarrow> if skip then url_loop buf n (Suc p) s old_uf found_at u else None
             | Inr uf \<Rightarrow>
                 if uf = old_uf
                 then url_loop buf n (Suc p) s old_uf found_at (inc_len uf u)
                 else url_loop buf n (Suc p) s uf found_at
                        (set_field uf (set_len uf 1 (set_off uf p u)))))"

text \<open>The port number: \<open>Inl ()\<close> where the value exceeds \<open>0xffff\<close>.\<close>

fun port_loop :: "char list \<Rightarrow> nat \<Rightarrow> nat \<Rightarrow> u64 \<Rightarrow> (unit + u64) option" where
  "port_loop buf 0 p v = Some (Inr v)"
| "port_loop buf (Suc n) p v =
     (case rd buf p of
        None \<Rightarrow> None
      | Some ch \<Rightarrow>
          let v = v * 10 + word_of_int (schar ch - schar CHR ''0'') in
          if v > 0xffff then Some (Inl ()) else port_loop buf n (Suc p) v)"

definition parse_port :: "char list \<Rightarrow> nat \<Rightarrow> http_parser_url \<Rightarrow> (int \<times> http_parser_url) option" where
  "parse_port buf buflen u =
    (let f = field_data u UF_PORT in
     if \<not> unat (off f) + unat (len f) \<le> buflen then None
     else case port_loop buf (unat (len f)) (unat (off f)) 0 of
            None \<Rightarrow> None
          | Some (Inl _) \<Rightarrow> Some (1, u)
          | Some (Inr v) \<Rightarrow> Some (0, u\<lparr>port := ucast v\<rparr>))"

definition http_parser_parse_url :: "char list \<Rightarrow> nat \<Rightarrow> bool \<Rightarrow> http_parser_url
    \<Rightarrow> (int \<times> http_parser_url) option" where
  "http_parser_parse_url buf buflen is_connect u =
    (if buflen = 0 then Some (1, u)
     else
       let u = u\<lparr>port := 0, field_set := 0\<rparr>;
           s = (if is_connect then s_req_server_start else s_req_spaces_before_url)
       in case url_loop buf buflen 0 s UF_MAX False u of
            None \<Rightarrow> None
          | Some (Inl u) \<Rightarrow> Some (1, u)
          | Some (Inr (found_at, u)) \<Rightarrow>
              if has_field u UF_SCHEMA \<and> \<not> has_field u UF_HOST then Some (1, u)
              else (case (if has_field u UF_HOST then http_parse_host buf u found_at else Some (0, u)) of
                None \<Rightarrow> None
              | Some (r, u) \<Rightarrow>
                  if r \<noteq> 0 then Some (1, u)
                  else if is_connect \<and>
                    field_set u \<noteq> push_bit (uf_num UF_HOST) 1 OR push_bit (uf_num UF_PORT) 1
                  then Some (1, u)
                  else if has_field u UF_PORT then parse_port buf buflen u
                  else Some (0, u)))"
section \<open>Facts\<close>

lemma IS_NUM_iff: "IS_NUM c \<longleftrightarrow> uchar c \<in> {48..57}"
proof -
  have "schar CHR ''0'' = 48" "schar CHR ''9'' = 57" by (simp_all add: schar_def uchar_def)
  with uchar_less [of c] show ?thesis by (auto simp: IS_NUM_def schar_def [of c] simp del: uchar_less)
qed

lemma LOWER_range:
  "a \<le> LOWER c \<and> LOWER c \<le> b \<longleftrightarrow> unat a \<le> or (uchar c) 32 \<and> or (uchar c) 32 \<le> unat b"
  by (simp add: LOWER_def word_le_nat_alt unsigned_or_eq unat_of_char)

lemma IS_ALPHA_iff: "IS_ALPHA c \<longleftrightarrow> uchar c \<in> {65..90} \<union> {97..122}"
proof -
  have "list_all (\<lambda>n::nat. 97 \<le> or n 32 \<and> or n 32 \<le> 122 \<longleftrightarrow> n \<in> {65..90} \<union> {97..122}) [0..<256]"
    unfolding upt256 by simp
  from less256 [OF this uchar_less [of c]] show ?thesis
    by (simp add: IS_ALPHA_def LOWER_range)
qed

lemma IS_HEX_iff: "IS_HEX c \<longleftrightarrow> uchar c \<in> {48..57} \<union> {65..70} \<union> {97..102}"
proof -
  have "list_all (\<lambda>n::nat. 97 \<le> or n 32 \<and> or n 32 \<le> 102 \<longleftrightarrow> n \<in> {65..70} \<union> {97..102}) [0..<256]"
    unfolding upt256 by simp
  from less256 [OF this uchar_less [of c]] show ?thesis
    by (simp add: IS_HEX_def LOWER_range IS_NUM_iff)
qed

lemma IS_URL_CHAR_iff:
  "IS_URL_CHAR c \<longleftrightarrow> 33 \<le> uchar c \<and> uchar c \<le> 126 \<and> c \<noteq> CHR ''#'' \<and> c \<noteq> CHR ''?''"
proof -
  have "list_all (\<lambda>n. BIT_AT normal_url_char n \<longleftrightarrow> 33 \<le> n \<and> n \<le> 126 \<and> n \<noteq> 35 \<and> n \<noteq> 63) [0..<256]"
    unfolding upt256 by (simp add: BIT_AT_def normal_url_char_def)
  from less256 [OF this uchar_less [of c]] show ?thesis
    by (auto simp: IS_URL_CHAR_def simp flip: uchar_inj) (simp_all add: uchar_def)
qed

lemma uf_num_less: "uf_num f < 16"
  by (cases f) auto

lemma uf_num_inj: "uf_num f = uf_num g \<longleftrightarrow> f = g"
  by (cases f; cases g) auto

lemma has_field_bit: "has_field u f \<longleftrightarrow> bit (field_set u) (uf_num f)"
  by (simp add: has_field_def bit_iff_and_push_bit_not_eq_0)

lemma has_set_field [simp]: "has_field (set_field f u) g \<longleftrightarrow> f = g \<or> has_field u g"
  by (auto simp: has_field_bit set_field_def bit_simps uf_num_less uf_num_inj)

lemma field_data_upd [simp]:
  "field_data (set_field f u) = field_data u"
  "field_set (set_off f p u) = field_set u"
  "field_set (set_len f n u) = field_set u"
  "field_set (inc_len f u) = field_set u"
  "port (set_field f u) = port u"
  "port (set_off f p u) = port u"
  "port (set_len f n u) = port u"
  "port (inc_len f u) = port u"
  by (simp_all add: set_field_def set_off_def set_len_def inc_len_def)

lemma has_field_upd [simp]:
  "has_field (set_off f p u) g = has_field u g"
  "has_field (set_len f n u) g = has_field u g"
  "has_field (inc_len f u) g = has_field u g"
  by (simp_all add: has_field_def)

lemma off_len_upd [simp]:
  "off (field_data (set_off f p u) g) = (if f = g then of_nat p else off (field_data u g))"
  "len (field_data (set_off f p u) g) = len (field_data u g)"
  "off (field_data (set_len f n u) g) = off (field_data u g)"
  "len (field_data (set_len f n u) g) = (if f = g then n else len (field_data u g))"
  "off (field_data (inc_len f u) g) = off (field_data u g)"
  "len (field_data (inc_len f u) g) = (if f = g then len (field_data u g) + 1 else len (field_data u g))"
  by (simp_all add: set_off_def set_len_def inc_len_def)

section \<open>The loops as runs over lists of characters\<close>

type_synonym url_state = "state \<times> http_parser_url_fields \<times> bool \<times> http_parser_url"

fun url_run :: "char list \<Rightarrow> nat \<Rightarrow> url_state \<Rightarrow> http_parser_url + url_state" where
  "url_run [] p st = Inr st"
| "url_run (ch # cs) p (s, old_uf, found_at, u) =
     (let s' = parse_url_char s ch; f' = (found_at \<or> s' = s_req_server_with_at) in
      if s' = s_dead then Inl u
      else (case state_field s' of
        Inl _ \<Rightarrow> url_run cs (Suc p) (s', old_uf, f', u)
      | Inr uf \<Rightarrow>
          if uf = old_uf then url_run cs (Suc p) (s', old_uf, f', inc_len uf u)
          else url_run cs (Suc p)
                 (s', uf, f', set_field uf (set_len uf 1 (set_off uf p u)))))"

lemma state_field_live: "state_field (parse_url_char s ch) = Inl False \<Longrightarrow> parse_url_char s ch = s_dead"
  by (cases s) (auto simp: parse_url_char_def state_field_def Let_def split: if_splits)

lemma take_Suc_drop: "p < length xs \<Longrightarrow> take (Suc n) (drop p xs) = xs ! p # take n (drop (Suc p) xs)"
  by (simp add: Cons_nth_drop_Suc [symmetric])

lemma url_loop_run:
  assumes "p + n \<le> length buf"
  shows "url_loop buf n p s old_uf found_at u =
    Some (case url_run (take n (drop p buf)) p (s, old_uf, found_at, u) of
            Inl u \<Rightarrow> Inl u | Inr (s, old_uf, found_at, u) \<Rightarrow> Inr (found_at, u))"
  using assms
proof (induction n arbitrary: p s old_uf found_at u)
  case 0
  then show ?case by simp
next
  case (Suc n)
  then have "p < length buf" "Suc p + n \<le> length buf" by simp_all
  then show ?case
    by (auto simp: take_Suc_drop Suc.IH Let_def split: sum.split dest: state_field_live)
qed

fun host_run :: "char list \<Rightarrow> nat \<Rightarrow> http_host_state \<times> http_parser_url
    \<Rightarrow> http_parser_url + http_host_state \<times> http_parser_url" where
  "host_run [] p st = Inr st"
| "host_run (ch # cs) p (s, u) =
     (let s' = http_parse_host_char s ch in
      if s' = s_http_host_dead then Inl u else host_run cs (Suc p) (s', host_note s s' p u))"

lemma host_loop_run:
  assumes "p + n \<le> length buf"
  shows "host_loop buf n p s u = Some (host_run (take n (drop p buf)) p (s, u))"
  using assms by (induction n arbitrary: p s u) (auto simp: take_Suc_drop Let_def)

fun port_run :: "char list \<Rightarrow> u64 \<Rightarrow> unit + u64" where
  "port_run [] v = Inr v"
| "port_run (ch # cs) v =
     (let v = v * 10 + word_of_int (schar ch - schar CHR ''0'') in
      if v > 0xffff then Inl () else port_run cs v)"

lemma port_loop_run:
  assumes "p + n \<le> length buf"
  shows "port_loop buf n p v = Some (port_run (take n (drop p buf)) v)"
  using assms by (induction n arbitrary: p v) (auto simp: take_Suc_drop Let_def)

section \<open>Where the fields lie\<close>

definition fld_end :: "http_parser_url \<Rightarrow> http_parser_url_fields \<Rightarrow> nat" where
  "fld_end u f = unat (off (field_data u f)) + unat (len (field_data u f))"

lemma unat_inc_le: "unat (w + 1) \<le> Suc (unat w)" for w :: "'a::len word"
  by (metis Suc_eq_plus1 mod_less_eq_dividend unat_1 unat_word_ariths(1))

lemma unat_of_nat_le: "unat (of_nat p :: 'a::len word) \<le> p"
  by (simp add: unat_of_nat)

definition url_inv :: "nat \<Rightarrow> http_parser_url \<Rightarrow> bool" where
  "url_inv p u \<longleftrightarrow> (\<forall>f. has_field u f \<longrightarrow> fld_end u f \<le> p \<and> f \<notin> {UF_PORT, UF_USERINFO, UF_MAX})"

lemma state_field_range: "state_field s = Inr uf \<Longrightarrow> uf \<notin> {UF_PORT, UF_USERINFO, UF_MAX}"
  by (cases s) (auto simp: state_field_def)

lemma url_run_inv:
  assumes "url_run cs p (s, old_uf, found_at, u) = Inr (s', old_uf', found_at', u')" and "url_inv p u"
  shows "url_inv (p + length cs) u'"
  using assms
proof (induction cs arbitrary: p s old_uf found_at u)
  case Nil
  then show ?case by simp
next
  case (Cons c cs)
  have inc: "url_inv (Suc p) (inc_len f u)" for f
    using Cons.prems(2) unat_inc_le [of "len (field_data u f)"] by (fastforce simp: url_inv_def fld_end_def)
  have skip: "url_inv (Suc p) u"
    using Cons.prems(2) by (fastforce simp: url_inv_def)
  have start: "url_inv (Suc p) (set_field f (set_len f 1 (set_off f p u)))"
    if "state_field x = Inr f" for f x
    unfolding url_inv_def
  proof (intro allI impI)
    fix g
    assume "has_field (set_field f (set_len f 1 (set_off f p u))) g"
    then show "fld_end (set_field f (set_len f 1 (set_off f p u))) g \<le> Suc p
        \<and> g \<notin> {UF_PORT, UF_USERINFO, UF_MAX}"
      using Cons.prems(2) state_field_range [OF that] unat_of_nat_le [of p, where 'a = 16]
      by (cases "g = f") (auto simp: url_inv_def fld_end_def le_SucI)
  qed
  from Cons.prems(1) inc skip start show ?case
    by (fastforce simp: Let_def split: if_splits sum.splits dest: Cons.IH)
qed




definition host_base :: "nat \<Rightarrow> nat \<Rightarrow> http_parser_url \<Rightarrow> bool" where
  "host_base N p u \<longleftrightarrow> (\<forall>f. has_field u f \<longrightarrow> fld_end u f \<le> N \<and> f \<noteq> UF_MAX) \<and>
     (\<forall>f\<in>{UF_HOST, UF_PORT, UF_USERINFO}. has_field u f \<longrightarrow> fld_end u f \<le> p)"

lemma host_base_mono: "host_base N p u \<Longrightarrow> p \<le> q \<Longrightarrow> host_base N q u"
  by (auto simp: host_base_def dest: le_trans)

lemma fld_end_inc: "fld_end (inc_len f u) g \<le> (if f = g then Suc (fld_end u g) else fld_end u g)"
  using unat_inc_le [of "len (field_data u f)"] by (cases "f = g") (simp_all add: fld_end_def)

lemma host_base_inc:
  assumes "host_base N p u" "Suc p \<le> N" "f \<in> {UF_HOST, UF_PORT, UF_USERINFO}"
  shows "host_base N (Suc p) (inc_len f u)"
  unfolding host_base_def
proof (intro conjI allI ballI impI)
  fix g assume g: "has_field (inc_len f u) g"
  show "fld_end (inc_len f u) g \<le> N"
    using assms g fld_end_inc [of f u g] by (force simp: host_base_def split: if_splits)
  show "g \<noteq> UF_MAX" using assms g by (auto simp: host_base_def)
next
  fix g assume "g \<in> {UF_HOST, UF_PORT, UF_USERINFO}" "has_field (inc_len f u) g"
  then show "fld_end (inc_len f u) g \<le> Suc p"
    using assms fld_end_inc [of f u g] by (force simp: host_base_def split: if_splits)
qed

lemma host_base_off:
  assumes "host_base N p u" "Suc p \<le> N" "len (field_data u f) = 0"
  shows "host_base N p (set_off f p u)"
  using assms unat_of_nat_le [of p, where 'a = 16] by (auto simp: host_base_def fld_end_def)

lemma host_base_fresh:
  assumes "host_base N p u" "Suc p \<le> N" "f \<noteq> UF_MAX"
  shows "host_base N p (set_field f (set_len f 0 (set_off f p u)))"
  using assms unat_of_nat_le [of p, where 'a = 16] by (auto simp: host_base_def fld_end_def)

lemmas host_base_intros = host_base_inc host_base_off host_base_fresh

text \<open>Before the host name starts its length is still the 0 the code stored.\<close>

definition host_len0 :: "http_host_state \<Rightarrow> http_parser_url \<Rightarrow> bool" where
  "host_len0 s u \<longleftrightarrow>
     (s \<in> {s_http_userinfo_start, s_http_userinfo, s_http_host_start, s_http_host_v6_start}
        \<longrightarrow> len (field_data u UF_HOST) = 0)"

lemma host_char_from:
  "http_parse_host_char s ch = s_http_host \<Longrightarrow> s \<in> {s_http_host_start, s_http_host}"
  "http_parse_host_char s ch = s_http_host_v6 \<Longrightarrow> s \<in> {s_http_host_v6_start, s_http_host_v6}"
  "http_parse_host_char s ch = s_http_host_v6_start \<Longrightarrow> s = s_http_host_start"
  "http_parse_host_char s ch = s_http_host_start \<Longrightarrow> s \<in> {s_http_userinfo_start, s_http_userinfo}"
  "http_parse_host_char s ch = s_http_userinfo \<Longrightarrow> s \<in> {s_http_userinfo_start, s_http_userinfo}"
  "http_parse_host_char s ch \<noteq> s_http_userinfo_start"
  "http_parse_host_char s ch = s_http_host_port \<Longrightarrow> s \<in> {s_http_host_port_start, s_http_host_port}"
  by (cases s; simp add: http_parse_host_char_def Let_def split: if_splits)+


lemma host_note_len0:
  "host_len0 s u \<Longrightarrow> s' = http_parse_host_char s ch \<Longrightarrow> host_len0 s' (host_note s s' p u)"
  using host_char_from [of s ch] by (cases s') (auto simp: host_len0_def host_note_def)

lemma host_note_base:
  assumes inv: "host_base N p u" and l0: "host_len0 s u" and p: "Suc p \<le> N"
    and s': "s' = http_parse_host_char s ch"
  shows "host_base N (Suc p) (host_note s s' p u)"
proof -
  have mono: "host_base N (Suc p) u" using inv by (rule host_base_mono) simp
  have z: "s' = s_http_host \<Longrightarrow> s \<noteq> s_http_host \<Longrightarrow> len (field_data u UF_HOST) = 0"
    "s' = s_http_host_v6 \<Longrightarrow> s \<noteq> s_http_host_v6 \<Longrightarrow> len (field_data u UF_HOST) = 0"
    using host_char_from(1,2) [of s ch] l0 s' by (auto simp: host_len0_def)
  show ?thesis
    using inv mono p z by (cases s') (auto simp: host_note_def intro!: host_base_intros)
qed

lemma host_run_base:
  assumes "host_run cs p (s, u) = Inr (s', u')" "host_base N p u" "host_len0 s u"
    "p + length cs \<le> N"
  shows "host_base N (p + length cs) u'"
  using assms
proof (induction cs arbitrary: p s u)
  case Nil
  then show ?case by simp
next
  case (Cons c cs)
  let ?s = "http_parse_host_char s c"
  from Cons.prems have run: "host_run cs (Suc p) (?s, host_note s ?s p u) = Inr (s', u')"
    by (auto simp: Let_def split: if_splits)
  have "host_base N (Suc p) (host_note s ?s p u)" "host_len0 ?s (host_note s ?s p u)"
    using Cons.prems host_note_base [of N p u s ?s c] host_note_len0 [of s u ?s c p] by auto
  from Cons.IH [OF run this] Cons.prems show ?case by simp
qed

text \<open>The host pass adds only the port and the user information, and drops no field.\<close>

lemma host_note_fields:
  "has_field (host_note s s' p u) f \<longleftrightarrow> has_field u f \<or>
     f = UF_PORT \<and> s' = s_http_host_port \<and> s \<noteq> s_http_host_port \<or>
     f = UF_USERINFO \<and> s' = s_http_userinfo \<and> s \<noteq> s_http_userinfo"
  by (cases s') (auto simp: host_note_def)

lemma host_run_fields:
  assumes "host_run cs p (s, u) = Inr (s', u')"
  shows "has_field u' f \<longrightarrow> has_field u f \<or> f = UF_PORT \<or> f = UF_USERINFO"
    and "has_field u f \<longrightarrow> has_field u' f"
proof -
  have "(has_field u' f \<longrightarrow> has_field u f \<or> f = UF_PORT \<or> f = UF_USERINFO) \<and>
      (has_field u f \<longrightarrow> has_field u' f)"
    using assms
  proof (induction cs arbitrary: p s u)
    case Nil
    then show ?case by simp
  next
    case (Cons c cs)
    let ?s = "http_parse_host_char s c"
    from Cons.prems have "host_run cs (Suc p) (?s, host_note s ?s p u) = Inr (s', u')"
      by (auto simp: Let_def split: if_splits)
    from Cons.IH [OF this] show ?case by (auto simp: host_note_fields)
  qed
  then show "has_field u' f \<longrightarrow> has_field u f \<or> f = UF_PORT \<or> f = UF_USERINFO"
    and "has_field u f \<longrightarrow> has_field u' f" by blast+
qed

lemma http_parse_host_ok:
  assumes "\<forall>f. has_field u f \<longrightarrow> fld_end u f \<le> N \<and> f \<notin> {UF_PORT, UF_USERINFO, UF_MAX}"
    and "has_field u UF_HOST" and "N \<le> length buf"
  obtains r u' where "http_parse_host buf u found_at = Some (r, u')" "r = 0 \<or> r = 1"
    "r = 0 \<Longrightarrow> (\<forall>f. has_field u' f \<longrightarrow> fld_end u' f \<le> N \<and> f \<noteq> UF_MAX)"
    "r = 0 \<Longrightarrow> (\<forall>f. has_field u f \<longrightarrow> has_field u' f)"
proof -
  let ?h = "field_data u UF_HOST" and ?u = "set_len UF_HOST 0 u"
  let ?s = "if found_at then s_http_userinfo_start else s_http_host_start"
  let ?cs = "take (unat (len ?h)) (drop (unat (off ?h)) buf)"
  have le: "unat (off ?h) + unat (len ?h) \<le> N"
    using assms(1,2) by (auto simp: fld_end_def)
  with assms(3) have loop: "host_loop buf (unat (len ?h)) (unat (off ?h)) ?s ?u
      = Some (host_run ?cs (unat (off ?h)) (?s, ?u))"
    by (intro host_loop_run) simp
  have len: "length ?cs = unat (len ?h)" using le assms(3) by simp
  have base: "host_base N (unat (off ?h)) ?u" "host_len0 ?s ?u"
    using assms(1) le by (auto simp: host_base_def fld_end_def host_len0_def)
  show thesis
  proof (cases "host_run ?cs (unat (off ?h)) (?s, ?u)")
    case (Inl v)
    with loop assms(2) show ?thesis by (intro that [of 1 v]) (simp_all add: http_parse_host_def Let_def)
  next
    case (Inr sv)
    then obtain s' v where run: "host_run ?cs (unat (off ?h)) (?s, ?u) = Inr (s', v)"
      by (cases sv) auto
    show ?thesis
    proof (rule that [of "if host_end_bad s' then 1 else 0" v])
      show "http_parse_host buf u found_at = Some (if host_end_bad s' then 1 else 0, v)"
        using loop run assms(2) by (simp add: http_parse_host_def Let_def)
      show "\<forall>f. has_field v f \<longrightarrow> fld_end v f \<le> N \<and> f \<noteq> UF_MAX"
        using host_run_base [OF run base] len le by (auto simp: host_base_def)
      show "\<forall>f. has_field u f \<longrightarrow> has_field v f"
        using host_run_fields(2) [OF run] by simp
    qed simp
  qed
qed


text \<open>The whole call: no read outside the buffer, no assertion fails, fields inside.\<close>

definition parse_ok :: "nat \<Rightarrow> http_parser_url \<Rightarrow> bool" where
  "parse_ok N u \<longleftrightarrow> (\<forall>f. has_field u f \<longrightarrow> fld_end u f \<le> N \<and> f \<noteq> UF_MAX) \<and>
     (has_field u UF_SCHEMA \<longrightarrow> has_field u UF_HOST)"

lemma parse_port_ok:
  assumes "parse_ok N u" "has_field u UF_PORT" "N \<le> length buf"
  shows "\<exists>r u'. parse_port buf N u = Some (r, u') \<and> r \<in> {0, 1} \<and> parse_ok N u'"
proof -
  let ?f = "field_data u UF_PORT"
  from assms(1,2) have le: "unat (off ?f) + unat (len ?f) \<le> N"
    by (auto simp: parse_ok_def fld_end_def)
  with assms(3) have loop: "port_loop buf (unat (len ?f)) (unat (off ?f)) 0
      = Some (port_run (take (unat (len ?f)) (drop (unat (off ?f)) buf)) 0)"
    by (intro port_loop_run) simp
  have "parse_ok N (u\<lparr>port := w\<rparr>)" for w
    using assms(1) by (simp add: parse_ok_def has_field_def fld_end_def)
  with le loop assms(1) show ?thesis
    by (auto simp: parse_port_def Let_def split: sum.split)
qed

text \<open>The call split at its loops.\<close>

definition url_start :: "bool \<Rightarrow> state" where
  "url_start is_connect = (if is_connect then s_req_server_start else s_req_spaces_before_url)"

definition url_finish :: "char list \<Rightarrow> nat \<Rightarrow> bool \<Rightarrow> http_parser_url \<Rightarrow> (int \<times> http_parser_url) option" where
  "url_finish buf buflen is_connect u =
    (if is_connect \<and> field_set u \<noteq> push_bit (uf_num UF_HOST) 1 OR push_bit (uf_num UF_PORT) 1
     then Some (1, u)
     else if has_field u UF_PORT then parse_port buf buflen u
     else Some (0, u))"

lemma parse_url_run:
  assumes "buflen \<le> length buf" "0 < buflen"
  shows "http_parser_parse_url buf buflen is_connect u =
    (case url_run (take buflen buf) 0 (url_start is_connect, UF_MAX, False, u\<lparr>port := 0, field_set := 0\<rparr>) of
       Inl u \<Rightarrow> Some (1, u)
     | Inr (s, old_uf, found_at, u) \<Rightarrow>
         if has_field u UF_SCHEMA \<and> \<not> has_field u UF_HOST then Some (1, u)
         else if has_field u UF_HOST then
           (case http_parse_host buf u found_at of
              None \<Rightarrow> None
            | Some (r, u) \<Rightarrow> if r \<noteq> 0 then Some (1, u) else url_finish buf buflen is_connect u)
         else url_finish buf buflen is_connect u)"
  using assms
  by (simp add: http_parser_parse_url_def url_loop_run url_start_def url_finish_def Let_def
      split: sum.split option.split)

lemma url_finish_ok:
  assumes "parse_ok N u" "N \<le> length buf"
  shows "\<exists>r u'. url_finish buf N is_connect u = Some (r, u') \<and> r \<in> {0, 1} \<and> parse_ok N u'"
  using parse_port_ok [OF assms(1) _ assms(2)] assms(1) by (auto simp: url_finish_def)

lemma http_parser_parse_url_ok:
  assumes "buflen \<le> length buf"
  shows "\<exists>r u'. http_parser_parse_url buf buflen is_connect u = Some (r, u') \<and> r \<in> {0, 1} \<and>
    (r = 0 \<longrightarrow> parse_ok buflen u')"
proof (cases "buflen = 0")
  case True
  then show ?thesis by (simp add: http_parser_parse_url_def)
next
  case False
  let ?u = "u\<lparr>port := 0, field_set := 0\<rparr>"
  let ?run = "url_run (take buflen buf) 0 (url_start is_connect, UF_MAX, False, ?u)"
  note eq = parse_url_run [OF assms, of is_connect u]
  show ?thesis
  proof (cases ?run)
    case (Inl v)
    with eq False show ?thesis by simp
  next
    case (Inr st)
    then obtain s old_uf found_at v where run: "?run = Inr (s, old_uf, found_at, v)"
      by (cases st) auto
    have "url_inv 0 ?u" by (simp add: url_inv_def has_field_def)
    from url_run_inv [OF run this] assms have inv: "url_inv buflen v" by simp
    show ?thesis
    proof (cases "has_field v UF_HOST")
      case True
      from inv have "\<forall>f. has_field v f \<longrightarrow> fld_end v f \<le> buflen \<and> f \<notin> {UF_PORT, UF_USERINFO, UF_MAX}"
        by (simp add: url_inv_def)
      then obtain r w where host: "http_parse_host buf v found_at = Some (r, w)" "r = 0 \<or> r = 1"
        and fields: "r = 0 \<Longrightarrow> (\<forall>f. has_field w f \<longrightarrow> fld_end w f \<le> buflen \<and> f \<noteq> UF_MAX)"
          "r = 0 \<Longrightarrow> (\<forall>f. has_field v f \<longrightarrow> has_field w f)"
        using http_parse_host_ok [OF _ True assms] by metis
      then have "r = 0 \<Longrightarrow> parse_ok buflen w" using True by (simp add: parse_ok_def)
      then show ?thesis
        using eq run host False True url_finish_ok [of buflen w buf is_connect] assms by auto
    next
      case False2: False
      show ?thesis
      proof (cases "has_field v UF_SCHEMA")
        case True
        with eq run False False2 show ?thesis by simp
      next
        case no: False
        with inv have "parse_ok buflen v" by (simp add: parse_ok_def url_inv_def)
        with eq run False False2 no url_finish_ok [of buflen v buf is_connect] assms
        show ?thesis by auto
      qed
    qed
  qed
qed

section \<open>Accepted URLs are printable\<close>

lemma IS_USERINFO_CHAR_printable: "IS_USERINFO_CHAR c \<Longrightarrow> 33 \<le> uchar c \<and> uchar c \<le> 126"
  by (auto simp: IS_USERINFO_CHAR_def IS_ALPHANUM_def IS_ALPHA_iff IS_NUM_iff IS_MARK_def)
    (simp_all add: uchar_def)

lemma parse_url_char_live:
  "parse_url_char s c \<noteq> s_dead \<Longrightarrow>
     IS_ALPHA c \<or> IS_USERINFO_CHAR c \<or> IS_URL_CHAR c \<or> c \<in> set ''/*:?#@[]''"
  unfolding parse_url_char_def Let_def
  by (simp split: if_split_asm; cases s; simp split: if_split_asm)

lemma parse_url_char_printable:
  assumes "parse_url_char s c \<noteq> s_dead"
  shows "33 \<le> uchar c \<and> uchar c \<le> 126"
proof -
  have "c \<in> set ''/*:?#@[]'' \<Longrightarrow> 33 \<le> uchar c \<and> uchar c \<le> 126"
    by (auto simp: uchar_def)
  moreover have "IS_ALPHA c \<Longrightarrow> 33 \<le> uchar c \<and> uchar c \<le> 126"
    by (auto simp: IS_ALPHA_iff)
  moreover have "IS_URL_CHAR c \<Longrightarrow> 33 \<le> uchar c \<and> uchar c \<le> 126"
    by (simp add: IS_URL_CHAR_iff)
  ultimately show ?thesis
    using parse_url_char_live [OF assms] IS_USERINFO_CHAR_printable [of c] by blast
qed

lemma url_run_append:
  "url_run (xs @ ys) p st =
     (case url_run xs p st of Inl u \<Rightarrow> Inl u | Inr st' \<Rightarrow> url_run ys (p + length xs) st')"
proof (induction xs arbitrary: p st)
  case Nil
  then show ?case by simp
next
  case (Cons c xs)
  obtain s old_uf f u where st: "st = (s, old_uf, f, u)" by (cases st) auto
  show ?case by (auto simp: st Let_def Cons.IH split: sum.split)
qed

lemma url_run_printable:
  "url_run cs p st = Inr st' \<Longrightarrow> \<forall>c\<in>set cs. 33 \<le> uchar c \<and> uchar c \<le> 126"
proof (induction cs arbitrary: p st)
  case Nil
  then show ?case by simp
next
  case (Cons c cs)
  then obtain st2 where "url_run [c] p st = Inr st2" and run: "url_run cs (p + 1) st2 = Inr st'"
    using url_run_append [of "[c]" cs p st] by (auto split: sum.splits)
  then have "parse_url_char (fst st) c \<noteq> s_dead"
    by (cases st) (auto simp: Let_def)
  with Cons.IH [OF run] parse_url_char_printable show ?case by auto
qed

section \<open>Round trip\<close>

definition add_len :: "http_parser_url_fields \<Rightarrow> nat \<Rightarrow> http_parser_url \<Rightarrow> http_parser_url" where
  "add_len f n u = set_len f (len (field_data u f) + of_nat n) u"

definition put_field :: "http_parser_url_fields \<Rightarrow> nat \<Rightarrow> nat \<Rightarrow> http_parser_url \<Rightarrow> http_parser_url" where
  "put_field f p n u = set_field f (set_len f (of_nat n) (set_off f p u))"

lemma host_run_append:
  "host_run (xs @ ys) p st =
     (case host_run xs p st of Inl u \<Rightarrow> Inl u | Inr st' \<Rightarrow> host_run ys (p + length xs) st')"
  by (induction xs arbitrary: p st) (auto simp: Let_def split: sum.split)

lemma set_len_set_len [simp]: "set_len f m (set_len f n u) = set_len f m u"
  by (simp add: set_len_def)

lemma add_len_0 [simp]: "add_len f 0 u = u"
  by (simp add: add_len_def set_len_def)

lemma add_len_Suc: "add_len f n (inc_len f u) = add_len f (Suc n) u"
  by (simp add: add_len_def inc_len_def algebra_simps)

lemma set_len_set_field: "set_len f m (set_field g u) = set_field g (set_len f m u)"
  by (simp add: set_len_def set_field_def)

lemma add_len_put: "add_len f n (put_field f p m u) = put_field f p (m + n) u"
  by (simp add: add_len_def put_field_def set_len_set_field)

text \<open>A run of characters that keeps the state extends the current field.\<close>

lemma url_run_stay:
  assumes "\<forall>c\<in>set cs. parse_url_char s c = s" "state_field s = Inr uf" "s \<noteq> s_req_server_with_at"
  shows "url_run cs p (s, uf, f, u) = Inr (s, uf, f, add_len uf (length cs) u)"
proof -
  have "s \<noteq> s_dead" using assms(2) by (auto simp: state_field_def)
  with assms show ?thesis
    by (induction cs arbitrary: p u) (auto simp: Let_def add_len_Suc)
qed

text \<open>A run that enters a state of another field starts that field.\<close>

lemma url_run_enter:
  assumes "parse_url_char s0 c = s" "\<forall>c\<in>set cs. parse_url_char s c = s"
    and "state_field s = Inr uf" "uf \<noteq> old_uf" "s \<noteq> s_req_server_with_at"
  shows "url_run (c # cs) p (s0, old_uf, f, u) = Inr (s, uf, f, put_field uf p (Suc (length cs)) u)"
proof -
  have "s \<noteq> s_dead" using assms(3) by (auto simp: state_field_def)
  with assms show ?thesis
    using add_len_put [of uf "length cs" p 1 u] by (simp add: Let_def url_run_stay put_field_def)
qed

lemma IS_ALPHA_next: "IS_ALPHA c \<Longrightarrow>
  parse_url_char s_req_spaces_before_url c = s_req_schema \<and> parse_url_char s_req_schema c = s_req_schema"
  by (auto simp: parse_url_char_def Let_def IS_ALPHA_iff) (auto simp: uchar_def)

lemma IS_USERINFO_next:
  assumes "IS_USERINFO_CHAR c"
  shows "parse_url_char s_req_server_start c = s_req_server"
    and "parse_url_char s_req_server c = s_req_server"
    and "parse_url_char s_req_server_with_at c = s_req_server"
proof -
  have "c \<notin> set '' /?@[]'' \<union> {CR, LF}"
    using assms by (auto simp: IS_USERINFO_CHAR_def IS_ALPHANUM_def IS_ALPHA_iff IS_NUM_iff IS_MARK_def)
     (auto simp: uchar_def)
  with assms show "parse_url_char s_req_server_start c = s_req_server"
    "parse_url_char s_req_server c = s_req_server"
    "parse_url_char s_req_server_with_at c = s_req_server"
    by (auto simp: parse_url_char_def Let_def)
qed

lemma IS_URL_next:
  assumes "IS_URL_CHAR c"
  shows "parse_url_char s_req_path c = s_req_path"
    and "parse_url_char s_req_query_string_start c = s_req_query_string"
    and "parse_url_char s_req_query_string c = s_req_query_string"
    and "parse_url_char s_req_fragment_start c = s_req_fragment"
    and "parse_url_char s_req_fragment c = s_req_fragment"
proof -
  have "c \<notin> {CHR '' '', CR, LF}"
    using assms by (auto simp: IS_URL_CHAR_iff) (auto simp: uchar_def)
  with assms show "parse_url_char s_req_path c = s_req_path"
    "parse_url_char s_req_query_string_start c = s_req_query_string"
    "parse_url_char s_req_query_string c = s_req_query_string"
    "parse_url_char s_req_fragment_start c = s_req_fragment"
    "parse_url_char s_req_fragment c = s_req_fragment"
    by (auto simp: parse_url_char_def Let_def)
qed

text \<open>The parts of an absolute URL and the text they make.\<close>

record url_parts =
  u_schema :: string
  u_user :: "string option"
  u_host :: string
  u_port :: "string option"
  u_path :: string
  u_query :: "string option"
  u_fragment :: "string option"

definition opt_text :: "string \<Rightarrow> string option \<Rightarrow> string \<Rightarrow> string" where
  "opt_text pre x post = (case x of None \<Rightarrow> [] | Some t \<Rightarrow> pre @ t @ post)"

definition authority_text :: "url_parts \<Rightarrow> string" where
  "authority_text t = opt_text [] (u_user t) ''@'' @ u_host t @ opt_text '':'' (u_port t) []"

definition url_text :: "url_parts \<Rightarrow> string" where
  "url_text t = u_schema t @ ''://'' @ authority_text t @ CHR ''/'' # u_path t
     @ opt_text ''?'' (u_query t) [] @ opt_text ''#'' (u_fragment t) []"

definition dec_val :: "string \<Rightarrow> nat" where
  "dec_val ds = foldl (\<lambda>v d. v * 10 + (uchar d - 48)) 0 ds"

definition wf_parts :: "url_parts \<Rightarrow> bool" where
  "wf_parts t \<longleftrightarrow>
     u_schema t \<noteq> [] \<and> list_all IS_ALPHA (u_schema t) \<and>
     pred_option (\<lambda>w. w \<noteq> [] \<and> list_all IS_USERINFO_CHAR w) (u_user t) \<and>
     u_host t \<noteq> [] \<and> list_all IS_HOST_CHAR (u_host t) \<and>
     pred_option (\<lambda>d. d \<noteq> [] \<and> list_all IS_NUM d \<and> dec_val d < 2 ^ 16) (u_port t) \<and>
     list_all IS_URL_CHAR (u_path t) \<and>
     pred_option (\<lambda>q. q \<noteq> [] \<and> list_all IS_URL_CHAR q) (u_query t) \<and>
     pred_option (\<lambda>f. f \<noteq> [] \<and> list_all IS_URL_CHAR f) (u_fragment t)"

text \<open>The text of a field, as a caller reads it off the buffer.\<close>

definition field_text :: "char list \<Rightarrow> http_parser_url \<Rightarrow> http_parser_url_fields \<Rightarrow> string option" where
  "field_text buf u f =
     (if has_field u f
      then Some (take (unat (len (field_data u f))) (drop (unat (off (field_data u f))) buf))
      else None)"

lemma IS_HOST_CHAR_userinfo: "IS_HOST_CHAR c \<Longrightarrow> IS_USERINFO_CHAR c"
  by (auto simp: IS_HOST_CHAR_def IS_USERINFO_CHAR_def IS_MARK_def)

lemma IS_NUM_userinfo: "IS_NUM c \<Longrightarrow> IS_USERINFO_CHAR c"
  by (simp add: IS_USERINFO_CHAR_def IS_ALPHANUM_def)

lemma state_field_simps [simp]:
  "state_field s_req_schema_slash = Inl True"
  "state_field s_req_schema_slash_slash = Inl True"
  "state_field s_req_server_start = Inl True"
  "state_field s_req_query_string_start = Inl True"
  "state_field s_req_fragment_start = Inl True"
  "state_field s_req_schema = Inr UF_SCHEMA"
  "state_field s_req_server_with_at = Inr UF_HOST"
  "state_field s_req_server = Inr UF_HOST"
  "state_field s_req_path = Inr UF_PATH"
  "state_field s_req_query_string = Inr UF_QUERY"
  "state_field s_req_fragment = Inr UF_FRAGMENT"
  by (simp_all add: state_field_def)

lemma run_schema:
  assumes "cs \<noteq> []" "list_all IS_ALPHA cs"
  shows "url_run (cs @ ''://'') p (s_req_spaces_before_url, UF_MAX, f, u)
    = Inr (s_req_server_start, UF_SCHEMA, f, put_field UF_SCHEMA p (length cs) u)"
proof -
  obtain c ds where cs: "cs = c # ds" using assms(1) by (cases cs) auto
  have "url_run (c # ds) p (s_req_spaces_before_url, UF_MAX, f, u)
      = Inr (s_req_schema, UF_SCHEMA, f, put_field UF_SCHEMA p (Suc (length ds)) u)"
    using assms(2) IS_ALPHA_next by (intro url_run_enter) (auto simp: cs list_all_iff)
  moreover have "url_run ''://'' q (s_req_schema, UF_SCHEMA, f, v)
      = Inr (s_req_server_start, UF_SCHEMA, f, v)" for q v
    by (simp add: parse_url_char_def Let_def IS_ALPHA_iff uchar_def)
  ultimately show ?thesis by (simp only: cs url_run_append sum.case length_Cons)
qed

lemma run_host:
  assumes "cs \<noteq> []" "list_all IS_USERINFO_CHAR cs"
  shows "url_run cs p (s_req_server_start, UF_SCHEMA, f, u)
    = Inr (s_req_server, UF_HOST, f, put_field UF_HOST p (length cs) u)"
proof -
  obtain c ds where cs: "cs = c # ds" using assms(1) by (cases cs) auto
  show ?thesis
    unfolding cs using assms(2) IS_USERINFO_next
    by (subst url_run_enter) (auto simp: cs list_all_iff)
qed

lemma run_host_at:
  assumes "cs \<noteq> []" "list_all IS_USERINFO_CHAR cs"
  shows "url_run (CHR ''@'' # cs) p (s_req_server, UF_HOST, f, put_field UF_HOST q n u)
    = Inr (s_req_server, UF_HOST, True, put_field UF_HOST q (Suc (n + length cs)) u)"
proof -
  obtain c ds where cs: "cs = c # ds" using assms(1) by (cases cs) auto
  have "parse_url_char s_req_server CHR ''@'' = s_req_server_with_at"
    by (simp add: parse_url_char_def Let_def)
  then show ?thesis
    using assms(2) IS_USERINFO_next add_len_put [of UF_HOST _ q n u]
    by (simp add: cs Let_def list_all_iff url_run_stay add_len_Suc)
qed

lemma run_path:
  assumes "list_all IS_URL_CHAR cs" "old_uf \<noteq> UF_PATH"
  shows "url_run (CHR ''/'' # cs) p (s_req_server, old_uf, f, u)
    = Inr (s_req_path, UF_PATH, f, put_field UF_PATH p (Suc (length cs)) u)"
  using assms IS_URL_next(1)
  by (intro url_run_enter) (auto simp: list_all_iff parse_url_char_def Let_def)

lemma run_query:
  assumes "cs \<noteq> []" "list_all IS_URL_CHAR cs"
  shows "url_run (CHR ''?'' # cs) p (s_req_path, UF_PATH, f, u)
    = Inr (s_req_query_string, UF_QUERY, f, put_field UF_QUERY (Suc p) (length cs) u)"
proof -
  obtain c ds where cs: "cs = c # ds" using assms(1) by (cases cs) auto
  have "parse_url_char s_req_path CHR ''?'' = s_req_query_string_start"
    by (simp add: parse_url_char_def Let_def IS_URL_CHAR_iff)
  moreover have "url_run (c # ds) (Suc p) (s_req_query_string_start, UF_PATH, f, u)
      = Inr (s_req_query_string, UF_QUERY, f, put_field UF_QUERY (Suc p) (Suc (length ds)) u)"
    using assms(2) IS_URL_next by (intro url_run_enter) (auto simp: cs list_all_iff)
  ultimately show ?thesis by (simp add: cs Let_def)
qed

lemma run_fragment:
  assumes "cs \<noteq> []" "list_all IS_URL_CHAR cs" "s \<in> {s_req_path, s_req_query_string}"
    "old_uf \<noteq> UF_FRAGMENT"
  shows "url_run (CHR ''#'' # cs) p (s, old_uf, f, u)
    = Inr (s_req_fragment, UF_FRAGMENT, f, put_field UF_FRAGMENT (Suc p) (length cs) u)"
proof -
  obtain c ds where cs: "cs = c # ds" using assms(1) by (cases cs) auto
  have "parse_url_char s CHR ''#'' = s_req_fragment_start"
    using assms(3) by (auto simp: parse_url_char_def Let_def IS_URL_CHAR_iff)
  moreover have "url_run (c # ds) (Suc p) (s_req_fragment_start, old_uf, f, u)
      = Inr (s_req_fragment, UF_FRAGMENT, f, put_field UF_FRAGMENT (Suc p) (Suc (length ds)) u)"
    using assms(2,4) IS_URL_next by (intro url_run_enter) (auto simp: cs list_all_iff)
  ultimately show ?thesis by (simp add: cs Let_def)
qed

definition put_opt :: "http_parser_url_fields \<Rightarrow> nat \<Rightarrow> string option \<Rightarrow> http_parser_url \<Rightarrow> http_parser_url" where
  "put_opt f p x u = (case x of None \<Rightarrow> u | Some t \<Rightarrow> put_field f p (length t) u)"

lemma has_put [simp]:
  "has_field (put_field f p n u) g \<longleftrightarrow> f = g \<or> has_field u g"
  "has_field (put_opt f p x u) g \<longleftrightarrow> f = g \<and> x \<noteq> None \<or> has_field u g"
  by (auto simp: put_field_def put_opt_def split: option.split)

lemma data_put [simp]:
  "field_data (put_field f p n u) g = (if f = g then \<lparr>off = of_nat p, len = of_nat n\<rparr> else field_data u g)"
  "field_data (put_opt f p x u) g =
     (case x of Some t \<Rightarrow> if f = g then \<lparr>off = of_nat p, len = of_nat (length t)\<rparr> else field_data u g
      | None \<Rightarrow> field_data u g)"
  by (auto simp: put_field_def put_opt_def set_off_def set_len_def split: option.split)

lemma wf_partsD:
  assumes "wf_parts t"
  shows "u_schema t \<noteq> []" "list_all IS_ALPHA (u_schema t)" "u_host t \<noteq> []"
    "list_all IS_HOST_CHAR (u_host t)" "list_all IS_URL_CHAR (u_path t)"
    "u_user t = Some w \<Longrightarrow> w \<noteq> [] \<and> list_all IS_USERINFO_CHAR w"
    "u_port t = Some w \<Longrightarrow> w \<noteq> [] \<and> list_all IS_NUM w \<and> dec_val w < 2 ^ 16"
    "u_query t = Some w \<Longrightarrow> w \<noteq> [] \<and> list_all IS_URL_CHAR w"
    "u_fragment t = Some w \<Longrightarrow> w \<noteq> [] \<and> list_all IS_URL_CHAR w"
  using assms by (auto simp: wf_parts_def)

lemma colon_userinfo: "IS_USERINFO_CHAR CHR '':''"
  by (simp add: IS_USERINFO_CHAR_def)

lemma host_port_userinfo:
  assumes "wf_parts t"
  shows "list_all IS_USERINFO_CHAR (u_host t @ opt_text '':'' (u_port t) [])"
  using wf_partsD(4) [OF assms] wf_partsD(7) [OF assms] IS_HOST_CHAR_userinfo IS_NUM_userinfo
    colon_userinfo
  by (cases "u_port t") (auto simp: opt_text_def list_all_iff)

lemma run_authority:
  assumes "wf_parts t"
  shows "url_run (authority_text t) p (s_req_server_start, UF_SCHEMA, False, u)
    = Inr (s_req_server, UF_HOST, u_user t \<noteq> None, put_field UF_HOST p (length (authority_text t)) u)"
proof -
  let ?rest = "u_host t @ opt_text '':'' (u_port t) []"
  have rest: "?rest \<noteq> []" "list_all IS_USERINFO_CHAR ?rest"
    using host_port_userinfo [OF assms] wf_partsD(3) [OF assms] by simp_all
  show ?thesis
  proof (cases "u_user t")
    case None
    with rest run_host [of ?rest] show ?thesis by (simp add: authority_text_def opt_text_def)
  next
    case (Some w)
    with wf_partsD(6) [OF assms] have w: "w \<noteq> []" "list_all IS_USERINFO_CHAR w" by auto
    have "authority_text t = w @ CHR ''@'' # ?rest" using Some by (simp add: authority_text_def opt_text_def)
    with run_host [OF w] run_host_at [OF rest] show ?thesis
      by (simp only: url_run_append sum.case) (simp add: Some)
  qed
qed

definition tail_text :: "url_parts \<Rightarrow> string" where
  "tail_text t = CHR ''/'' # u_path t @ opt_text ''?'' (u_query t) [] @ opt_text ''#'' (u_fragment t) []"

definition query_pos :: "url_parts \<Rightarrow> nat" where
  "query_pos t = Suc (Suc (length (u_path t)))"

definition fragment_pos :: "url_parts \<Rightarrow> nat" where
  "fragment_pos t = Suc (Suc (length (u_path t) + length (opt_text ''?'' (u_query t) [])))"

lemma run_tail:
  assumes "wf_parts t"
  shows "\<exists>s uf. url_run (tail_text t) p (s_req_server, UF_HOST, f, u) = Inr (s, uf, f,
    put_opt UF_FRAGMENT (p + fragment_pos t) (u_fragment t)
      (put_opt UF_QUERY (p + query_pos t) (u_query t)
        (put_field UF_PATH p (Suc (length (u_path t))) u)))"
proof -
  have path: "url_run (CHR ''/'' # u_path t) p (s_req_server, UF_HOST, f, u)
      = Inr (s_req_path, UF_PATH, f, put_field UF_PATH p (Suc (length (u_path t))) u)"
    using wf_partsD(5) [OF assms] by (intro run_path) auto
  have query: "\<exists>s\<in>{s_req_path, s_req_query_string}. \<exists>uf. uf \<noteq> UF_FRAGMENT \<and>
     url_run (opt_text ''?'' (u_query t) []) (p + Suc (length (u_path t))) (s_req_path, UF_PATH, f, v)
       = Inr (s, uf, f, put_opt UF_QUERY (p + query_pos t) (u_query t) v)" for v
    using wf_partsD(8) [OF assms] run_query [of "the (u_query t)"]
    by (cases "u_query t") (auto simp: opt_text_def put_opt_def query_pos_def)
  have fragment: "\<exists>s' uf'. url_run (opt_text ''#'' (u_fragment t) []) (p + (fragment_pos t - 1)) (s, uf, f, v)
       = Inr (s', uf', f, put_opt UF_FRAGMENT (p + fragment_pos t) (u_fragment t) v)"
    if "s \<in> {s_req_path, s_req_query_string}" "uf \<noteq> UF_FRAGMENT" for s uf v
    using wf_partsD(9) [OF assms] run_fragment [OF _ _ that, of "the (u_fragment t)"]
    by (cases "u_fragment t") (auto simp: opt_text_def put_opt_def fragment_pos_def)
  have split: "tail_text t = (CHR ''/'' # u_path t) @ opt_text ''?'' (u_query t) [] @ opt_text ''#'' (u_fragment t) []"
    by (simp add: tail_text_def)
  obtain s uf where s: "s\<in>{s_req_path, s_req_query_string}" "uf \<noteq> UF_FRAGMENT"
    and q: "url_run (opt_text ''?'' (u_query t) []) (p + Suc (length (u_path t)))
        (s_req_path, UF_PATH, f, put_field UF_PATH p (Suc (length (u_path t))) u)
       = Inr (s, uf, f, put_opt UF_QUERY (p + query_pos t) (u_query t) (put_field UF_PATH p (Suc (length (u_path t))) u))"
    using query by blast
  have pos: "p + Suc (length (u_path t)) + length (opt_text ''?'' (u_query t) []) = p + (fragment_pos t - 1)"
    by (simp add: fragment_pos_def)
  show ?thesis
    unfolding split url_run_append path sum.case length_Cons q pos by (rule fragment [OF s])
qed

lemma IS_NUM_not_host_end: "\<not> IS_HOST_CHAR CHR '':''" "\<not> IS_USERINFO_CHAR CHR ''@''"
  by (simp_all add: IS_HOST_CHAR_def IS_USERINFO_CHAR_def IS_ALPHANUM_def IS_ALPHA_iff IS_NUM_iff
      IS_MARK_def uchar_def)

lemma host_run_inc:
  assumes "\<forall>c\<in>set cs. http_parse_host_char s c = s"
    and "\<And>p u. host_note s s p u = inc_len f u" "s \<noteq> s_http_host_dead"
  shows "host_run cs p (s, u) = Inr (s, add_len f (length cs) u)"
  using assms by (induction cs arbitrary: p u) (auto simp: Let_def add_len_Suc)

lemma host_char_steps:
  "IS_USERINFO_CHAR c \<Longrightarrow> http_parse_host_char s_http_userinfo_start c = s_http_userinfo"
  "IS_USERINFO_CHAR c \<Longrightarrow> http_parse_host_char s_http_userinfo c = s_http_userinfo"
  "http_parse_host_char s_http_userinfo CHR ''@'' = s_http_host_start"
  "IS_HOST_CHAR c \<Longrightarrow> http_parse_host_char s_http_host c = s_http_host"
  "http_parse_host_char s_http_host CHR '':'' = s_http_host_port_start"
  "IS_NUM c \<Longrightarrow> http_parse_host_char s_http_host_port_start c = s_http_host_port"
  "IS_NUM c \<Longrightarrow> http_parse_host_char s_http_host_port c = s_http_host_port"
  using IS_NUM_not_host_end by (auto simp: http_parse_host_char_def Let_def)

lemma host_char_start: "IS_HOST_CHAR c \<Longrightarrow> http_parse_host_char s_http_host_start c = s_http_host"
proof -
  have "\<not> IS_HOST_CHAR CHR ''[''"
    by (simp add: IS_HOST_CHAR_def IS_ALPHANUM_def IS_ALPHA_iff IS_NUM_iff uchar_def)
  then show "IS_HOST_CHAR c \<Longrightarrow> http_parse_host_char s_http_host_start c = s_http_host"
    by (auto simp: http_parse_host_char_def Let_def)
qed

lemma host_notes:
  "host_note s_http_userinfo s_http_userinfo p u = inc_len UF_USERINFO u"
  "host_note s_http_host s_http_host p u = inc_len UF_HOST u"
  "host_note s_http_host_port s_http_host_port p u = inc_len UF_PORT u"
  "host_note s s_http_host_start p u = u"
  "host_note s s_http_host_port_start p u = u"
  "host_note s_http_userinfo_start s_http_userinfo p u = put_field UF_USERINFO p 1 u"
  "host_note s_http_host_port_start s_http_host_port p u = put_field UF_PORT p 1 u"
  "host_note s_http_host_start s_http_host p u = inc_len UF_HOST (set_off UF_HOST p u)"
  by (simp_all add: host_note_def put_field_def inc_len_def set_len_set_field)

lemma host_run_user:
  assumes "w \<noteq> []" "list_all IS_USERINFO_CHAR w"
  shows "host_run (w @ ''@'') p (s_http_userinfo_start, u)
    = Inr (s_http_host_start, put_field UF_USERINFO p (length w) u)"
proof -
  obtain c ds where w: "w = c # ds" using assms(1) by (cases w) auto
  have "host_run ds q (s_http_userinfo, v) = Inr (s_http_userinfo, add_len UF_USERINFO (length ds) v)" for q v
    using assms(2) host_char_steps(2)
    by (intro host_run_inc) (simp_all add: w list_all_iff host_notes)
  with assms(2) show ?thesis
    by (simp add: w host_char_steps host_notes host_run_append add_len_put)
qed

lemma host_run_host:
  assumes "h \<noteq> []" "list_all IS_HOST_CHAR h" "len (field_data u UF_HOST) = 0"
  shows "host_run h p (s_http_host_start, u)
    = Inr (s_http_host, set_len UF_HOST (of_nat (length h)) (set_off UF_HOST p u))"
proof -
  obtain c ds where h: "h = c # ds" using assms(1) by (cases h) auto
  have "host_run ds q (s_http_host, v) = Inr (s_http_host, add_len UF_HOST (length ds) v)" for q v
    using assms(2) host_char_steps(4)
    by (intro host_run_inc) (simp_all add: h list_all_iff host_notes)
  with assms(2,3) show ?thesis
    by (simp add: h host_char_start host_notes add_len_Suc) (simp add: add_len_def)
qed

lemma host_run_port:
  assumes "d \<noteq> []" "list_all IS_NUM d"
  shows "host_run (CHR '':'' # d) p (s_http_host, u)
    = Inr (s_http_host_port, put_field UF_PORT (Suc p) (length d) u)"
proof -
  obtain c ds where d: "d = c # ds" using assms(1) by (cases d) auto
  have "host_run ds q (s_http_host_port, v) = Inr (s_http_host_port, add_len UF_PORT (length ds) v)" for q v
    using assms(2) host_char_steps(7)
    by (intro host_run_inc) (simp_all add: d list_all_iff host_notes)
  with assms(2) show ?thesis
    by (simp add: d host_char_steps host_notes add_len_put)
qed
definition user_text :: "url_parts \<Rightarrow> string" where
  "user_text t = opt_text [] (u_user t) ''@''"

definition host_fields :: "url_parts \<Rightarrow> nat \<Rightarrow> http_parser_url \<Rightarrow> http_parser_url" where
  "host_fields t p u =
     put_opt UF_PORT (p + length (user_text t) + length (u_host t) + 1) (u_port t)
       (set_len UF_HOST (of_nat (length (u_host t)))
         (set_off UF_HOST (p + length (user_text t))
           (put_opt UF_USERINFO p (u_user t) (set_len UF_HOST 0 u))))"

lemma host_run_authority:
  assumes "wf_parts t"
  shows "\<exists>s. \<not> host_end_bad s \<and> host_run (authority_text t) p
      (if u_user t \<noteq> None then s_http_userinfo_start else s_http_host_start, set_len UF_HOST 0 u)
    = Inr (s, host_fields t p u)"
proof -
  let ?u = "set_len UF_HOST 0 u"
  let ?s0 = "if u_user t \<noteq> None then s_http_userinfo_start else s_http_host_start"
  have user: "host_run (user_text t) p (?s0, ?u) = Inr (s_http_host_start, put_opt UF_USERINFO p (u_user t) ?u)"
    using wf_partsD(6) [OF assms] host_run_user [of "the (u_user t)"]
    by (cases "u_user t") (auto simp: user_text_def opt_text_def put_opt_def)
  have host: "host_run (u_host t) q (s_http_host_start, put_opt UF_USERINFO p (u_user t) ?u)
      = Inr (s_http_host, set_len UF_HOST (of_nat (length (u_host t))) (set_off UF_HOST q
          (put_opt UF_USERINFO p (u_user t) ?u)))" for q
    using wf_partsD(3,4) [OF assms] by (intro host_run_host) (auto split: option.split)
  have port: "\<exists>s. \<not> host_end_bad s \<and> host_run (opt_text '':'' (u_port t) []) q (s_http_host, v)
      = Inr (s, put_opt UF_PORT (q + 1) (u_port t) v)" for q v
    using wf_partsD(7) [OF assms] host_run_port [of "the (u_port t)"]
    by (cases "u_port t") (auto simp: opt_text_def put_opt_def host_end_bad_def)
  have split: "authority_text t = user_text t @ u_host t @ opt_text '':'' (u_port t) []"
    by (simp add: authority_text_def user_text_def)
  show ?thesis
    unfolding split host_run_append user sum.case host host_fields_def by (rule port)
qed

lemma unat_of_nat_small: "n < 2 ^ 16 \<Longrightarrow> unat (of_nat n :: u16) = n"
  by (simp add: unat_of_nat)

lemma http_parse_host_authority:
  assumes "wf_parts t" "buf = pre @ authority_text t @ post" "length buf < 2 ^ 16"
    and "has_field u UF_HOST"
    and "field_data u UF_HOST = \<lparr>off = of_nat (length pre), len = of_nat (length (authority_text t))\<rparr>"
  shows "http_parse_host buf u (u_user t \<noteq> None) = Some (0, host_fields t (length pre) u)"
proof -
  obtain s where s: "\<not> host_end_bad s" "host_run (authority_text t) (length pre)
      (if u_user t \<noteq> None then s_http_userinfo_start else s_http_host_start, set_len UF_HOST 0 u)
    = Inr (s, host_fields t (length pre) u)"
    using host_run_authority [OF assms(1)] by blast
  have "host_loop buf (length (authority_text t)) (length pre) s0 v
      = Some (host_run (authority_text t) (length pre) (s0, v))" for s0 v
    using host_loop_run [of "length pre" "length (authority_text t)" buf] assms(2) by simp
  with s assms(2-5) show ?thesis
    by (simp add: http_parse_host_def unat_of_nat_small)
qed

lemma IS_NUM_digit: "IS_NUM c \<Longrightarrow> schar c - schar CHR ''0'' = int (uchar c - 48)"
  by (auto simp: IS_NUM_iff schar_def) (auto simp: uchar_def)

lemma dec_val_mono: "v \<le> foldl (\<lambda>v d. v * 10 + (uchar d - 48)) v ds"
proof (induction ds arbitrary: v)
  case Nil
  then show ?case by simp
next
  case (Cons d ds)
  have "v \<le> v * 10 + (uchar d - 48)" by simp
  with Cons [of "v * 10 + (uchar d - 48)"] show ?case by simp
qed

lemma port_run_dec:
  assumes "list_all IS_NUM ds" "foldl (\<lambda>v d. v * 10 + (uchar d - 48)) v ds < 2 ^ 16"
  shows "port_run ds (of_nat v) = Inr (of_nat (foldl (\<lambda>v d. v * 10 + (uchar d - 48)) v ds))"
  using assms
proof (induction ds arbitrary: v)
  case Nil
  then show ?case by simp
next
  case (Cons d ds)
  let ?v = "v * 10 + (uchar d - 48)"
  have "?v < 2 ^ 16" using Cons.prems(2) dec_val_mono [of ?v ds] by simp
  then have "\<not> (of_nat ?v :: u64) > 0xffff"
    by (simp add: word_less_nat_alt unat_of_nat not_less del: of_nat_add of_nat_mult)
  moreover have "(of_nat v :: u64) * 10 + word_of_int (schar d - schar CHR ''0'') = of_nat ?v"
    using Cons.prems(1) by (simp add: IS_NUM_digit)
  ultimately show ?case
    using Cons.IH [of ?v] Cons.prems by (simp add: Let_def)
qed

lemma ucast_of_nat_u64: "ucast (of_nat n :: u64) = (of_nat n :: u16)"
  by (rule bit_word_eqI) (simp add: bit_simps)

lemma parse_port_dec:
  assumes "buf = pre @ d @ post" "length buf < 2 ^ 16" "list_all IS_NUM d" "dec_val d < 2 ^ 16"
    and "field_data u UF_PORT = \<lparr>off = of_nat (length pre), len = of_nat (length d)\<rparr>"
  shows "parse_port buf (length buf) u = Some (0, u\<lparr>port := of_nat (dec_val d)\<rparr>)"
proof -
  have "port_loop buf (length d) (length pre) 0 = Some (port_run d 0)"
    using port_loop_run [of "length pre" "length d" buf] assms(1) by simp
  moreover have "port_run d 0 = Inr (of_nat (dec_val d))"
    using port_run_dec [of d 0] assms(3,4) by (simp add: dec_val_def)
  ultimately show ?thesis
    using assms(1,2,5) by (simp add: parse_port_def unat_of_nat_small ucast_of_nat_u64)
qed

lemma field_text_at:
  assumes "buf = pre @ x @ post" "length buf < 2 ^ 16" "has_field u f"
    and "off (field_data u f) = of_nat (length pre)" "len (field_data u f) = of_nat (length x)"
  shows "field_text buf u f = Some x"
  using assms by (simp add: field_text_def unat_of_nat_small)


definition url_fields :: "url_parts \<Rightarrow> http_parser_url \<Rightarrow> http_parser_url" where
  "url_fields t u =
    (let a = length (u_schema t) + 3; b = a + length (authority_text t) in
     put_opt UF_FRAGMENT (b + fragment_pos t) (u_fragment t)
      (put_opt UF_QUERY (b + query_pos t) (u_query t)
        (put_field UF_PATH b (Suc (length (u_path t)))
          (put_field UF_HOST a (length (authority_text t))
            (put_field UF_SCHEMA 0 (length (u_schema t)) u)))))"

lemma url_text_split:
  "url_text t = (u_schema t @ ''://'') @ authority_text t @ tail_text t"
  by (simp add: url_text_def tail_text_def)

lemma url_run_text:
  assumes "wf_parts t"
  shows "\<exists>s uf. url_run (url_text t) 0 (s_req_spaces_before_url, UF_MAX, False, u)
    = Inr (s, uf, u_user t \<noteq> None, url_fields t u)"
proof -
  have len: "length (u_schema t @ ''://'') = length (u_schema t) + 3" by simp
  obtain s uf where "url_run (tail_text t) (length (u_schema t) + 3 + length (authority_text t))
      (s_req_server, UF_HOST, u_user t \<noteq> None,
        put_field UF_HOST (length (u_schema t) + 3) (length (authority_text t))
          (put_field UF_SCHEMA 0 (length (u_schema t)) u))
    = Inr (s, uf, u_user t \<noteq> None, url_fields t u)"
    using run_tail [OF assms] unfolding url_fields_def Let_def by blast
  then show ?thesis
    unfolding url_text_split url_run_append [of "u_schema t @ ''://''"]
      url_run_append [of "authority_text t"] run_schema [OF wf_partsD(1,2) [OF assms]] sum.case len
      run_authority [OF assms] add_0
    by blast
qed

lemma url_fields_host:
  "has_field (url_fields t u) UF_HOST" "has_field (url_fields t u) UF_SCHEMA"
  "field_data (url_fields t u) UF_HOST =
     \<lparr>off = of_nat (length (u_schema t) + 3), len = of_nat (length (authority_text t))\<rparr>"
  by (simp_all add: url_fields_def Let_def split: option.split)

lemma has_host_fields:
  "has_field (host_fields t p u) f \<longleftrightarrow> has_field u f \<or> f = UF_PORT \<and> u_port t \<noteq> None
     \<or> f = UF_USERINFO \<and> u_user t \<noteq> None"
  by (auto simp: host_fields_def)

lemma port_put [simp]: "port (put_field f p n u) = port u" "port (put_opt f p x u) = port u"
  by (simp_all add: put_field_def put_opt_def split: option.split)

definition port_val :: "url_parts \<Rightarrow> nat" where
  "port_val t = (case u_port t of None \<Rightarrow> 0 | Some d \<Rightarrow> dec_val d)"

lemma url_finish_text:
  assumes "wf_parts t" "length (url_text t) < 2 ^ 16"
    and "w = host_fields t (length (u_schema t) + 3) (url_fields t u)"
    and "\<not> has_field u UF_PORT" "port u = 0"
  shows "url_finish (url_text t) (length (url_text t)) False w
    = Some (0, w\<lparr>port := of_nat (port_val t)\<rparr>)"
proof (cases "u_port t")
  case None
  have "port w = 0"
    using assms(3,5) None by (simp add: host_fields_def url_fields_def Let_def)
  with None assms(3,4) show ?thesis
    by (simp add: url_finish_def has_host_fields url_fields_def Let_def port_val_def)
next
  case (Some d)
  let ?pre = "u_schema t @ ''://'' @ user_text t @ u_host t @ '':''"
  have "url_text t = ?pre @ d @ tail_text t"
    using Some by (simp add: url_text_split authority_text_def user_text_def opt_text_def)
  moreover have "field_data w UF_PORT = \<lparr>off = of_nat (length ?pre), len = of_nat (length d)\<rparr>"
    using assms(3) Some by (simp add: host_fields_def add.assoc)
  ultimately have "parse_port (url_text t) (length (url_text t)) w = Some (0, w\<lparr>port := of_nat (dec_val d)\<rparr>)"
    using wf_partsD(7) [OF assms(1) Some] assms(2)
      parse_port_dec [of "url_text t" ?pre d "tail_text t" w] by blast
  with Some assms(3) show ?thesis
    by (simp add: url_finish_def has_host_fields port_val_def)
qed

lemma parse_url_text:
  assumes "wf_parts t" "length (url_text t) < 2 ^ 16"
  shows "http_parser_parse_url (url_text t) (length (url_text t)) False u
    = Some (0, (host_fields t (length (u_schema t) + 3)
        (url_fields t (u\<lparr>port := 0, field_set := 0\<rparr>)))\<lparr>port := of_nat (port_val t)\<rparr>)"
proof -
  let ?u = "u\<lparr>port := 0, field_set := 0\<rparr>"
  obtain s uf where run: "url_run (url_text t) 0 (s_req_spaces_before_url, UF_MAX, False, ?u)
      = Inr (s, uf, u_user t \<noteq> None, url_fields t ?u)"
    using url_run_text [OF assms(1)] by blast
  have "0 < length (url_text t)" by (simp add: url_text_def)
  note eq = parse_url_run [OF le_refl this, of False u]
  have "length (u_schema t @ ''://'') = length (u_schema t) + 3" by simp
  then have "http_parse_host (url_text t) (url_fields t ?u) (u_user t \<noteq> None)
      = Some (0, host_fields t (length (u_schema t) + 3) (url_fields t ?u))"
    using http_parse_host_authority [OF assms(1) url_text_split assms(2) url_fields_host(1) [of t ?u]]
    by (simp only: url_fields_host)
  moreover have "\<not> has_field ?u UF_PORT" by (simp add: has_field_def)
  ultimately show ?thesis
    using run url_fields_host url_finish_text [OF assms refl, of ?u] unfolding eq url_start_def
    by simp
qed

lemma field_text_port [simp]: "field_text buf (u\<lparr>port := v\<rparr>) f = field_text buf u f"
  by (simp add: field_text_def has_field_def)

lemma field_text_result:
  assumes "wf_parts t" "length (url_text t) < 2 ^ 16" "field_set u = 0"
    and "w = host_fields t (length (u_schema t) + 3) (url_fields t u)"
  shows "field_text (url_text t) w UF_SCHEMA = Some (u_schema t)"
    and "field_text (url_text t) w UF_USERINFO = u_user t"
    and "field_text (url_text t) w UF_HOST = Some (u_host t)"
    and "field_text (url_text t) w UF_PORT = u_port t"
    and "field_text (url_text t) w UF_PATH = Some (CHR ''/'' # u_path t)"
    and "field_text (url_text t) w UF_QUERY = u_query t"
    and "field_text (url_text t) w UF_FRAGMENT = u_fragment t"
proof -
  let ?c = "''://''" and ?p = "opt_text '':'' (u_port t) []"
  let ?q = "opt_text ''?'' (u_query t) []" and ?f = "opt_text ''#'' (u_fragment t) []"
  have tx: "url_text t = u_schema t @ ?c @ user_text t @ u_host t @ ?p @ CHR ''/'' # u_path t @ ?q @ ?f"
    by (simp add: url_text_split authority_text_def user_text_def tail_text_def)
  have len: "length (authority_text t) = length (user_text t) + length (u_host t) + length ?p"
    by (simp add: authority_text_def user_text_def)
  have none: "\<not> has_field u f" for f using assms(3) by (simp add: has_field_def)
  note w = assms(4) host_fields_def url_fields_def Let_def
  note at = field_text_at [OF _ assms(2), of _ _ _ w]
  show "field_text (url_text t) w UF_SCHEMA = Some (u_schema t)"
    by (rule at [of "[]" _ "?c @ user_text t @ u_host t @ ?p @ CHR ''/'' # u_path t @ ?q @ ?f"])
      (simp_all add: tx w split: option.split)
  show "field_text (url_text t) w UF_HOST = Some (u_host t)"
    by (rule at [of "u_schema t @ ?c @ user_text t" _ "?p @ CHR ''/'' # u_path t @ ?q @ ?f"])
      (simp_all add: tx w split: option.split)
  show "field_text (url_text t) w UF_PATH = Some (CHR ''/'' # u_path t)"
    by (rule at [of "u_schema t @ ?c @ user_text t @ u_host t @ ?p" _ "?q @ ?f"])
      (simp_all add: tx w len add.assoc split: option.split)
  show "field_text (url_text t) w UF_USERINFO = u_user t"
  proof (cases "u_user t")
    case None
    then show ?thesis by (simp add: field_text_def w none)
  next
    case (Some x)
    show ?thesis
      unfolding Some
      by (rule at [of "u_schema t @ ?c" _ "CHR ''@'' # u_host t @ ?p @ CHR ''/'' # u_path t @ ?q @ ?f"])
        (simp_all add: tx w user_text_def opt_text_def Some split: option.split)
  qed
  show "field_text (url_text t) w UF_PORT = u_port t"
  proof (cases "u_port t")
    case None
    then show ?thesis by (simp add: field_text_def w none)
  next
    case (Some x)
    show ?thesis
      unfolding Some
      by (rule at [of "u_schema t @ ?c @ user_text t @ u_host t @ '':''" _ "CHR ''/'' # u_path t @ ?q @ ?f"])
        (simp_all add: tx w opt_text_def Some split: option.split)
  qed
  show "field_text (url_text t) w UF_QUERY = u_query t"
  proof (cases "u_query t")
    case None
    then show ?thesis by (simp add: field_text_def w none)
  next
    case (Some x)
    show ?thesis
      unfolding Some
      by (rule at [of "u_schema t @ ?c @ user_text t @ u_host t @ ?p @ CHR ''/'' # u_path t @ ''?''" _ "?f"])
        (simp_all add: tx w len query_pos_def opt_text_def [of "''?''"] Some add.assoc split: option.split)
  qed
  show "field_text (url_text t) w UF_FRAGMENT = u_fragment t"
  proof (cases "u_fragment t")
    case None
    then show ?thesis by (simp add: field_text_def w none)
  next
    case (Some x)
    show ?thesis
      unfolding Some
      by (rule at [of "u_schema t @ ?c @ user_text t @ u_host t @ ?p @ CHR ''/'' # u_path t @ ?q @ ''#''" _ "[]"])
        (simp_all add: tx w len fragment_pos_def opt_text_def [of "''#''"] Some add.assoc split: option.split)
  qed
qed

section \<open>Fields that are not set\<close>

text \<open>
  The callers read fields without testing \<open>field_set\<close>: after \<open>http_parser_url_init\<close> a field
  that is not set is empty, at offset 0.
\<close>

definition clean :: "http_parser_url \<Rightarrow> bool" where
  "clean u \<longleftrightarrow> (\<forall>f. \<not> has_field u f \<longrightarrow> off (field_data u f) = 0 \<and> len (field_data u f) = 0)"

lemma clean_upd [simp]:
  "clean u \<Longrightarrow> has_field u f \<Longrightarrow> clean (inc_len f u)"
  "clean u \<Longrightarrow> has_field u f \<Longrightarrow> clean (set_off f p u)"
  "clean u \<Longrightarrow> has_field u f \<Longrightarrow> clean (set_len f n u)"
  "clean u \<Longrightarrow> clean (set_field f (set_len f n (set_off f p u)))"
  by (auto simp: clean_def)

lemma url_run_clean:
  assumes "url_run cs p (s, old_uf, found_at, u) = Inr (s', old_uf', found_at', u')"
    and "clean u" "old_uf = UF_MAX \<or> has_field u old_uf"
  shows "clean u'"
  using assms
proof (induction cs arbitrary: p s old_uf found_at u)
  case (Cons c cs)
  let ?s = "parse_url_char s c" let ?f = "found_at \<or> ?s = s_req_server_with_at"
  show ?case
  proof (cases "state_field ?s")
    case (Inl b)
    thus ?thesis using Cons by (auto simp: Let_def split: if_splits)
  next
    case (Inr uf)
    hence "uf \<noteq> UF_MAX" by (auto dest: state_field_range)
    thus ?thesis using Cons.prems Inr
        Cons.IH[of "Suc p" ?s uf ?f "set_field uf (set_len uf 1 (set_off uf p u))"]
        Cons.IH[of "Suc p" ?s uf ?f "inc_len uf u"]
      by (auto simp: Let_def split: if_splits)
  qed
qed simp

definition host_clean :: "http_host_state \<Rightarrow> http_parser_url \<Rightarrow> bool" where
  "host_clean s u \<longleftrightarrow> clean u \<and> has_field u UF_HOST \<and> (s = s_http_host_port \<longrightarrow> has_field u UF_PORT) \<and>
     (s = s_http_userinfo \<longrightarrow> has_field u UF_USERINFO)"

lemma host_note_clean: "host_clean s u \<Longrightarrow> host_clean s' (host_note s s' p u)"
  by (cases s') (auto simp: host_clean_def host_note_def)

lemma host_run_clean: "host_run cs p (s, u) = Inr (s', u') \<Longrightarrow> host_clean s u \<Longrightarrow> host_clean s' u'"
proof (induction cs arbitrary: p s u)
  case (Cons c cs)
  thus ?case using host_note_clean[of s u "http_parse_host_char s c" p]
    by (auto simp: Let_def split: if_splits)
qed simp

lemma http_parse_host_clean:
  assumes "http_parse_host buf u found_at = Some (0, u')" "clean u" "has_field u UF_HOST"
    "fld_end u UF_HOST \<le> length buf"
  shows "clean u'"
proof -
  let ?h = "field_data u UF_HOST" and ?u = "set_len UF_HOST 0 u"
  let ?s = "if found_at then s_http_userinfo_start else s_http_host_start"
  let ?cs = "take (unat (len ?h)) (drop (unat (off ?h)) buf)"
  have "host_loop buf (unat (len ?h)) (unat (off ?h)) ?s ?u = Some (host_run ?cs (unat (off ?h)) (?s, ?u))"
    using assms(4) by (intro host_loop_run) (simp add: fld_end_def)
  then obtain s' where "host_run ?cs (unat (off ?h)) (?s, ?u) = Inr (s', u')"
    using assms(1,3) by (auto simp: http_parse_host_def Let_def split: sum.splits)
  moreover have "host_clean ?s ?u" using assms(2,3) by (simp add: host_clean_def)
  ultimately show ?thesis using host_run_clean by (auto simp: host_clean_def)
qed

lemma url_finish_clean: "url_finish buf n c u = Some (0, u') \<Longrightarrow> clean u \<Longrightarrow> clean u'"
  by (auto simp: url_finish_def parse_port_def Let_def clean_def has_field_def
      split: if_splits option.splits sum.splits)

lemma parse_url_clean:
  assumes "http_parser_parse_url buf n is_connect http_parser_url_init = Some (0, u)" "n \<le> length buf"
  shows "clean u"
proof -
  let ?i = "http_parser_url_init\<lparr>port := 0, field_set := 0\<rparr>"
  have n: "0 < n" using assms(1) by (cases n) (simp_all add: http_parser_parse_url_def)
  have init: "clean ?i" "url_inv 0 ?i"
    by (simp_all add: clean_def http_parser_url_init_def url_inv_def has_field_def)
  note eq = assms(1)[unfolded parse_url_run[OF assms(2) n]]
  then obtain s uf fa v where run: "url_run (take n buf) 0 (url_start is_connect, UF_MAX, False, ?i) = Inr (s, uf, fa, v)"
    by (auto split: sum.splits)
  have v: "clean v" using url_run_clean[OF run init(1)] by simp
  have inv: "url_inv n v" using url_run_inv[OF run init(2)] assms(2) by simp
  show ?thesis
  proof (cases "has_field v UF_HOST")
    case False
    thus ?thesis using eq run v by (auto split: if_splits dest: url_finish_clean)
  next
    case True
    then obtain w where w: "http_parse_host buf v fa = Some (0, w)" "url_finish buf n is_connect w = Some (0, u)"
      using eq run by (auto split: if_splits option.splits)
    have "fld_end v UF_HOST \<le> length buf" using inv True assms(2) by (auto simp: url_inv_def)
    thus ?thesis using http_parse_host_clean[OF w(1) v True] url_finish_clean[OF w(2)] by simp
  qed
qed

lemma parse_url_fields:
  assumes "http_parser_parse_url buf n is_connect http_parser_url_init = Some (0, u)" "n \<le> length buf"
  shows "unat (off (field_data u f)) + unat (len (field_data u f)) \<le> n"
  using http_parser_parse_url_ok[OF assms(2), of is_connect http_parser_url_init] parse_url_clean[OF assms] assms(1)
  by (cases "has_field u f") (auto simp: parse_ok_def fld_end_def clean_def)

text \<open>Every character of an accepted URL is printable.\<close>

lemma parse_url_chars:
  assumes "http_parser_parse_url buf buflen is_connect u = Some (0, u')" and "buflen \<le> length buf"
    and "c \<in> set (take buflen buf)"
  shows "33 \<le> uchar c \<and> uchar c \<le> 126"
proof (cases "url_run (take buflen buf) 0
    (url_start is_connect, UF_MAX, False, u\<lparr>port := 0, field_set := 0\<rparr>)")
  case (Inl v)
  with assms parse_url_run [of buflen buf is_connect u] show ?thesis by (cases "buflen = 0") auto
next
  case (Inr st)
  from url_run_printable [OF this] assms(3) show ?thesis by simp
qed

section \<open>Properties\<close>

text \<open>
  C3. On a readable buffer of at least \<open>buflen\<close> bytes \<open>http_parser_parse_url\<close> returns 0
  or 1 for every input: no read leaves the buffer, neither in the main loop nor in the host
  and port passes that work from the recorded 16-bit offsets, and no \<open>assert\<close> fails. When
  it returns 0, every field it marks as set lies inside the \<open>buflen\<close> bytes, also for
  inputs longer than the 16-bit offsets can count, and a schema comes with a host.
\<close>

theorem parse_url_safe:
  assumes "buflen \<le> length buf"
  shows "\<exists>r u'. http_parser_parse_url buf buflen is_connect u = Some (r, u') \<and> r \<in> {0, 1} \<and>
    (r = 0 \<longrightarrow>
      (\<forall>f. has_field u' f \<longrightarrow>
         unat (off (field_data u' f)) + unat (len (field_data u' f)) \<le> buflen) \<and>
      (has_field u' UF_SCHEMA \<longrightarrow> has_field u' UF_HOST))"
  using http_parser_parse_url_ok [OF assms, of is_connect u]
  by (auto simp: parse_ok_def fld_end_def)

theorem parse_url_safe_witness:
  "\<exists>r u'. http_parser_parse_url ''http://a.b/c'' 12 False http_parser_url_init = Some (r, u') \<and> r \<in> {0, 1} \<and>
    (r = 0 \<longrightarrow>
      (\<forall>f. has_field u' f \<longrightarrow>
         unat (off (field_data u' f)) + unat (len (field_data u' f)) \<le> 12) \<and>
      (has_field u' UF_SCHEMA \<longrightarrow> has_field u' UF_HOST))"
  by (rule parse_url_safe) simp

text \<open>
  C4. Parsing inverts printing: for the text of any well-formed absolute URL (a schema, an
  optional user, a host name, an optional port below 65536, a path, an optional query and
  fragment) shorter than 64 KiB, \<open>http_parser_parse_url\<close> succeeds, each field read off
  the buffer is exactly the part it was printed from, absent parts are unset, and \<open>port\<close>
  is the value of the port's digits.
\<close>

theorem parse_url_roundtrip:
  assumes "wf_parts t" and "length (url_text t) < 2 ^ 16"
  shows "\<exists>u'. http_parser_parse_url (url_text t) (length (url_text t)) False u = Some (0, u') \<and>
    field_text (url_text t) u' UF_SCHEMA = Some (u_schema t) \<and>
    field_text (url_text t) u' UF_USERINFO = u_user t \<and>
    field_text (url_text t) u' UF_HOST = Some (u_host t) \<and>
    field_text (url_text t) u' UF_PORT = u_port t \<and>
    field_text (url_text t) u' UF_PATH = Some (CHR ''/'' # u_path t) \<and>
    field_text (url_text t) u' UF_QUERY = u_query t \<and>
    field_text (url_text t) u' UF_FRAGMENT = u_fragment t \<and>
    port u' = of_nat (port_val t)"
  using parse_url_text [OF assms, of u]
    field_text_result [OF assms _ refl, of "u\<lparr>port := 0, field_set := 0\<rparr>"] by simp

theorem parse_url_roundtrip_witness:
  "\<exists>u'. http_parser_parse_url ''https://me@a.b:443/w?v=1#t''
      (length ''https://me@a.b:443/w?v=1#t'') False http_parser_url_init = Some (0, u') \<and>
    field_text ''https://me@a.b:443/w?v=1#t'' u' UF_HOST = Some ''a.b'' \<and>
    field_text ''https://me@a.b:443/w?v=1#t'' u' UF_QUERY = Some ''v=1'' \<and> port u' = 443"
proof -
  let ?t = "\<lparr>u_schema = ''https'', u_user = Some ''me'', u_host = ''a.b'', u_port = Some ''443'',
    u_path = ''w'', u_query = Some ''v=1'', u_fragment = Some ''t''\<rparr>"
  have wf: "wf_parts ?t"
    by (simp add: wf_parts_def IS_ALPHA_iff IS_NUM_iff IS_URL_CHAR_iff IS_HOST_CHAR_def
        IS_USERINFO_CHAR_def IS_ALPHANUM_def dec_val_def uchar_def)
  have tx: "url_text ?t = ''https://me@a.b:443/w?v=1#t''"
    by (simp add: url_text_def authority_text_def opt_text_def)
  then have len: "length (url_text ?t) < 2 ^ 16" by simp
  show ?thesis
    using parse_url_roundtrip [OF wf len, of http_parser_url_init]
    unfolding tx by (auto simp: port_val_def dec_val_def uchar_def)
qed

text \<open>
  A URL that is accepted contains only the printable characters 33 to 126: no blank, no
  carriage return, no line feed, no NUL and no byte above 127. The request builders copy the
  parsed fields into an HTTP request, so an accepted URL cannot inject a header line.
\<close>

theorem parse_url_printable:
  assumes "http_parser_parse_url buf buflen is_connect u = Some (0, u')" and "buflen \<le> length buf"
    and "c \<in> set (take buflen buf)"
  shows "33 \<le> uchar c \<and> uchar c \<le> 126"
  using assms by (rule parse_url_chars)

theorem parse_url_printable_witness:
  "33 \<le> uchar CHR ''a'' \<and> uchar CHR ''a'' \<le> 126"
proof -
  let ?t = "\<lparr>u_schema = ''http'', u_user = None, u_host = ''a.b'', u_port = None,
    u_path = [], u_query = None, u_fragment = None\<rparr>"
  have wf: "wf_parts ?t"
    by (simp add: wf_parts_def IS_ALPHA_iff IS_NUM_iff IS_HOST_CHAR_def IS_ALPHANUM_def uchar_def)
  have tx: "url_text ?t = ''http://a.b/''"
    by (simp add: url_text_def authority_text_def opt_text_def)
  obtain u' where "http_parser_parse_url ''http://a.b/'' (length ''http://a.b/'') False http_parser_url_init = Some (0, u')"
    using parse_url_text [OF wf, of http_parser_url_init] unfolding tx by simp
  from parse_url_printable [OF this, of "CHR ''a''"] show ?thesis by simp
qed

end
