(* ===== verification/Hashmap.thy ===== *)
theory Hashmap
  imports Ytdl_Prelude "HOL-Library.Multiset"
begin

text \<open>
  The hash map of \<open>src/hashmap.c\<close> (with \<open>include/ytdl/hashmap_base.h\<close>): open addressing
  with linear probing over a power-of-two table, a second hash on every index, deletion by
  shifting the chain back, and rehashing at a load of 3/4.

  A table is the list of its slots; a pointer to an entry is the index of its slot. A null
  pointer is \<^term>\<open>None\<close>: an empty slot has no key. \<open>size_t\<close> is \<^typ>\<open>u64\<close>, the hash
  and compare callbacks are fields of the structure as in the code, and the calls the
  code makes to \<open>key_free\<close> are recorded in \<open>hb_freed\<close>. Whether an allocation succeeds is an
  argument of the operations that allocate.
\<close>

section \<open>Hash functions\<close>

definition hash_mix :: "u64 \<Rightarrow> u64 \<Rightarrow> u64" where
  "hash_mix h b =
    (let h = h + b;
         h = h + push_bit 10 h
     in h XOR drop_bit 6 h)"

definition hash_finish :: "u64 \<Rightarrow> u64" where
  "hash_finish h =
    (let h = h + push_bit 3 h;
         h = h XOR drop_bit 11 h
     in h + push_bit 15 h)"

definition hashmap_hash_default :: "u8 list \<Rightarrow> u64" where
  "hashmap_hash_default bytes = hash_finish (foldl (\<lambda>h b. hash_mix h (ucast b)) 0 bytes)"

definition hashmap_hash_string :: "string \<Rightarrow> u64" where
  "hashmap_hash_string key = hash_finish (foldl (\<lambda>h c. hash_mix h (word_of_int (schar c))) 0 (cstr key))"

text \<open>\<open>tolower\<close> in the C locale, on the value of a \<open>char\<close>.\<close>

definition tolower :: "int \<Rightarrow> int" where
  "tolower c = (if 65 \<le> c \<and> c \<le> 90 then c + 32 else c)"

definition hashmap_hash_string_i :: "string \<Rightarrow> u64" where
  "hashmap_hash_string_i key =
     hash_finish (foldl (\<lambda>h c. hash_mix h (word_of_int (tolower (schar c)))) 0 (cstr key))"

section \<open>State\<close>

record ('k, 'v) hashmap_entry =
  e_key :: "'k option"
  e_data :: "'v option"

record ('k, 'v) hashmap_base =
  hb_table_size_init :: u64
  hb_table_size :: u64
  hb_size :: u64
  hb_table :: "('k, 'v) hashmap_entry list"
  hb_hash :: "'k \<Rightarrow> u64"
  hb_compare :: "'k \<Rightarrow> 'k \<Rightarrow> int"
  hb_key_dup :: "('k \<Rightarrow> 'k option) option"
  hb_key_free :: bool
  hb_freed :: "'k list"

definition empty_entry :: "('k, 'v) hashmap_entry" where
  "empty_entry = \<lparr>e_key = None, e_data = None\<rparr>"

definition HASHMAP_SIZE_MIN :: u64 where "HASHMAP_SIZE_MIN = 32"
definition HASHMAP_SIZE_DEFAULT :: u64 where "HASHMAP_SIZE_DEFAULT = 128"

definition ENOMEM :: int where "ENOMEM = 12"
definition EFAULT :: int where "EFAULT = 14"
definition EEXIST :: int where "EEXIST = 17"
definition EINVAL :: int where "EINVAL = 22"
definition EADDRNOTAVAIL :: int where "EADDRNOTAVAIL = 99"

definition HASHMAP_SIZE_MOD :: "('k, 'v) hashmap_base \<Rightarrow> u64 \<Rightarrow> u64" where
  "HASHMAP_SIZE_MOD hb v = v AND (hb_table_size hb - 1)"

definition HASHMAP_PROBE_NEXT :: "('k, 'v) hashmap_base \<Rightarrow> u64 \<Rightarrow> u64" where
  "HASHMAP_PROBE_NEXT hb index = HASHMAP_SIZE_MOD hb (index + 1)"

section \<open>Table size and index\<close>

text \<open>\<open>64 - __builtin_clzl(w)\<close> for \<open>w \<noteq> 0\<close>: the number of significant bits.\<close>

fun bit_len :: "nat \<Rightarrow> nat" where
  "bit_len n = (if n = 0 then 0 else Suc (bit_len (n div 2)))"

declare bit_len.simps [simp del]

text \<open>
  \<open>1 << n\<close> is an \<open>int\<close> shift: undefined from \<open>n = 31\<close> on, and \<open>__builtin_clzl(0)\<close> is
  undefined too.
\<close>

definition hashmap_calc_table_size :: "('k, 'v) hashmap_base \<Rightarrow> u64 \<Rightarrow> u64 option" where
  "hashmap_calc_table_size hb size0 =
    (let table_size = size0 + size0 div 3 in
     if table_size < hb_table_size_init hb then Some (hb_table_size_init hb)
     else if table_size - 1 = 0 \<or> 31 \<le> bit_len (unat (table_size - 1)) then None
     else Some (2 ^ bit_len (unat (table_size - 1))))"

text \<open>The bytes of a \<open>size_t\<close> in memory, little-endian.\<close>

definition bytes_of_u64 :: "u64 \<Rightarrow> u8 list" where
  "bytes_of_u64 w = map (\<lambda>i. ucast (drop_bit (8 * i) w)) [0..<8]"

definition hashmap_calc_index :: "('k, 'v) hashmap_base \<Rightarrow> 'k \<Rightarrow> u64" where
  "hashmap_calc_index hb key =
    (let index = hb_hash hb key;
         index = hashmap_hash_default (bytes_of_u64 index)
     in HASHMAP_SIZE_MOD hb index)"

section \<open>Finding, removing and rehashing\<close>

text \<open>The first slot at or after \<open>i\<close> with a key, \<open>n\<close> slots to go.\<close>

fun populated_loop :: "('k, 'v) hashmap_entry list \<Rightarrow> nat \<Rightarrow> nat \<Rightarrow> nat option option" where
  "populated_loop table 0 i = Some None"
| "populated_loop table (Suc n) i =
     (case rd table i of
        None \<Rightarrow> None
      | Some e \<Rightarrow> if e_key e \<noteq> None then Some (Some i) else populated_loop table n (Suc i))"

definition hashmap_entry_get_populated :: "('k, 'v) hashmap_base \<Rightarrow> nat \<Rightarrow> nat option option" where
  "hashmap_entry_get_populated hb entry =
    (if hb_size hb > 0 then populated_loop (hb_table hb) (unat (hb_table_size hb) - entry) entry
     else Some None)"

text \<open>\<open>Some None\<close> is the code's \<open>NULL\<close>: no entry found.\<close>

fun find_loop :: "('k, 'v) hashmap_base \<Rightarrow> 'k \<Rightarrow> bool \<Rightarrow> nat \<Rightarrow> u64 \<Rightarrow> nat option option" where
  "find_loop hb key find_empty 0 index = Some None"
| "find_loop hb key find_empty (Suc n) index =
     (case rd (hb_table hb) (unat index) of
        None \<Rightarrow> None
      | Some entry \<Rightarrow>
          (case e_key entry of
             None \<Rightarrow> Some (if find_empty then Some (unat index) else None)
           | Some k \<Rightarrow>
               if hb_compare hb key k = 0 then Some (Some (unat index))
               else find_loop hb key find_empty n (HASHMAP_PROBE_NEXT hb index)))"

definition hashmap_entry_find :: "('k, 'v) hashmap_base \<Rightarrow> 'k \<Rightarrow> bool \<Rightarrow> nat option option" where
  "hashmap_entry_find hb key find_empty =
     find_loop hb key find_empty (unat (hb_table_size hb)) (hashmap_calc_index hb key)"

text \<open>
  The loop of \<open>hashmap_entry_remove\<close> that fills the free slot: the table and the slot that
  is to be cleared at the end.
\<close>

fun shift_loop :: "('k, 'v) hashmap_base \<Rightarrow> nat \<Rightarrow> u64 \<Rightarrow> u64 \<Rightarrow> (('k, 'v) hashmap_base \<times> u64) option" where
  "shift_loop hb 0 index removed_index = Some (hb, removed_index)"
| "shift_loop hb (Suc n) index removed_index =
     (case rd (hb_table hb) (unat index) of
        None \<Rightarrow> None
      | Some entry \<Rightarrow>
          (case e_key entry of
             None \<Rightarrow> Some (hb, removed_index)
           | Some k \<Rightarrow>
               let entry_index = hashmap_calc_index hb k in
               if HASHMAP_SIZE_MOD hb (index - entry_index) > HASHMAP_SIZE_MOD hb (removed_index - entry_index)
               then (case wr (hb_table hb) (unat removed_index) entry of
                       None \<Rightarrow> None
                     | Some table \<Rightarrow>
                         shift_loop (hb\<lparr>hb_table := table\<rparr>) n (HASHMAP_PROBE_NEXT hb index) index)
               else shift_loop hb n (HASHMAP_PROBE_NEXT hb index) removed_index))"

definition free_key :: "'k option \<Rightarrow> ('k, 'v) hashmap_base \<Rightarrow> ('k, 'v) hashmap_base" where
  "free_key k hb =
    (if hb_key_free hb then hb\<lparr>hb_freed := hb_freed hb @ (case k of None \<Rightarrow> [] | Some k \<Rightarrow> [k])\<rparr> else hb)"

definition hashmap_entry_remove :: "('k, 'v) hashmap_base \<Rightarrow> nat \<Rightarrow> ('k, 'v) hashmap_base option" where
  "hashmap_entry_remove hb removed_entry =
    (case rd (hb_table hb) removed_entry of
       None \<Rightarrow> None
     | Some e \<Rightarrow>
         let hb = free_key (e_key e) hb;
             hb = hb\<lparr>hb_size := hb_size hb - 1\<rparr>;
             removed_index = of_nat removed_entry
         in (case shift_loop hb (unat (hb_size hb)) (HASHMAP_PROBE_NEXT hb removed_index) removed_index of
               None \<Rightarrow> None
             | Some (hb, removed_index) \<Rightarrow>
                 (case wr (hb_table hb) (unat removed_index) empty_entry of
                    None \<Rightarrow> None
                  | Some table \<Rightarrow> Some (hb\<lparr>hb_table := table\<rparr>))))"

fun rehash_loop :: "('k, 'v) hashmap_base \<Rightarrow> ('k, 'v) hashmap_entry list \<Rightarrow> ('k, 'v) hashmap_base option" where
  "rehash_loop hb [] = Some hb"
| "rehash_loop hb (entry # old_table) =
     (case e_key entry of
        None \<Rightarrow> rehash_loop hb old_table
      | Some k \<Rightarrow>
          (case hashmap_entry_find hb k True of
             Some (Some new_entry) \<Rightarrow>
               (case wr (hb_table hb) new_entry entry of
                  None \<Rightarrow> None
                | Some table \<Rightarrow> rehash_loop (hb\<lparr>hb_table := table\<rparr>) old_table)
           | _ \<Rightarrow> None))"

definition hashmap_rehash :: "bool \<Rightarrow> ('k, 'v) hashmap_base \<Rightarrow> u64 \<Rightarrow> (int \<times> ('k, 'v) hashmap_base) option" where
  "hashmap_rehash calloc_ok hb table_size =
    (if \<not> (table_size AND (table_size - 1) = 0 \<and> table_size \<ge> hb_size hb) then None
     else if \<not> calloc_ok then Some (- ENOMEM, hb)
     else
       let old_table = hb_table hb;
           hb = hb\<lparr>hb_table_size := table_size, hb_table := replicate (unat table_size) empty_entry\<rparr>
       in map_option (\<lambda>hb. (0, hb)) (rehash_loop hb old_table))"

definition hashmap_free_keys :: "('k, 'v) hashmap_base \<Rightarrow> ('k, 'v) hashmap_base" where
  "hashmap_free_keys hb =
    (if \<not> hb_key_free hb \<or> hb_size hb = 0 then hb
     else fold (\<lambda>e. free_key (e_key e)) (hb_table hb) hb)"

section \<open>The interface\<close>

definition hashmap_base_init :: "('k \<Rightarrow> u64) \<Rightarrow> ('k \<Rightarrow> 'k \<Rightarrow> int) \<Rightarrow> ('k, 'v) hashmap_base" where
  "hashmap_base_init hash_func compare_func =
    \<lparr>hb_table_size_init = HASHMAP_SIZE_DEFAULT, hb_table_size = 0, hb_size = 0, hb_table = [],
     hb_hash = hash_func, hb_compare = compare_func, hb_key_dup = None, hb_key_free = False,
     hb_freed = []\<rparr>"

definition hashmap_base_set_key_alloc_funcs ::
    "('k, 'v) hashmap_base \<Rightarrow> ('k \<Rightarrow> 'k option) option \<Rightarrow> bool \<Rightarrow> ('k, 'v) hashmap_base" where
  "hashmap_base_set_key_alloc_funcs hb key_dup_func key_free_func =
     hb\<lparr>hb_key_dup := key_dup_func, hb_key_free := key_free_func\<rparr>"

definition hashmap_base_reserve :: "bool \<Rightarrow> ('k, 'v) hashmap_base \<Rightarrow> u64 \<Rightarrow> (int \<times> ('k, 'v) hashmap_base) option" where
  "hashmap_base_reserve calloc_ok hb capacity =
    (let old_size_init = hb_table_size_init hb;
         hb = hb\<lparr>hb_table_size_init := HASHMAP_SIZE_MIN\<rparr>
     in (case hashmap_calc_table_size hb capacity of
           None \<Rightarrow> None
         | Some ts \<Rightarrow>
             let hb = hb\<lparr>hb_table_size_init := ts\<rparr> in
             if hb_table_size_init hb > hb_table_size hb then
               (case hashmap_rehash calloc_ok hb (hb_table_size_init hb) of
                  None \<Rightarrow> None
                | Some (r, hb) \<Rightarrow>
                    Some (r, if r < 0 then hb\<lparr>hb_table_size_init := old_size_init\<rparr> else hb))
             else Some (0, hb)))"

text \<open>The tail of \<open>hashmap_base_put\<close> after the pre-emptive rehash returned \<open>r\<close>.\<close>

definition put_entry :: "('k, 'v) hashmap_base \<Rightarrow> 'k \<Rightarrow> 'v \<Rightarrow> int \<Rightarrow> (int \<times> ('k, 'v) hashmap_base) option" where
  "put_entry hb key d r =
    (case hashmap_entry_find hb key True of
       None \<Rightarrow> None
     | Some None \<Rightarrow> Some (if r < 0 then r else - EADDRNOTAVAIL, hb)
     | Some (Some i) \<Rightarrow>
         (case rd (hb_table hb) i of
            None \<Rightarrow> None
          | Some entry \<Rightarrow>
              if e_key entry \<noteq> None then Some (- EEXIST, hb)
              else
                (case (case hb_key_dup hb of None \<Rightarrow> Some key | Some dup \<Rightarrow> dup key) of
                   None \<Rightarrow> Some (- ENOMEM, hb)
                 | Some k \<Rightarrow>
                     Some (0, hb\<lparr>hb_table := (hb_table hb)[i := \<lparr>e_key = Some k, e_data = Some d\<rparr>],
                                hb_size := hb_size hb + 1\<rparr>))))"

definition hashmap_base_put :: "bool \<Rightarrow> ('k, 'v) hashmap_base \<Rightarrow> 'k option \<Rightarrow> 'v option
    \<Rightarrow> (int \<times> ('k, 'v) hashmap_base) option" where
  "hashmap_base_put calloc_ok hb key d =
    (case (key, d) of
       (Some key, Some d) \<Rightarrow>
         (case hashmap_calc_table_size hb (hb_size hb) of
            None \<Rightarrow> None
          | Some table_size \<Rightarrow>
              if table_size > hb_table_size hb then
                (case hashmap_rehash calloc_ok hb table_size of
                   None \<Rightarrow> None
                 | Some (r, hb) \<Rightarrow> put_entry hb key d r)
              else put_entry hb key d 0)
     | _ \<Rightarrow> Some (- EINVAL, hb))"

definition hashmap_base_get :: "('k, 'v) hashmap_base \<Rightarrow> 'k option \<Rightarrow> 'v option option" where
  "hashmap_base_get hb key =
    (case key of
       None \<Rightarrow> Some None
     | Some key \<Rightarrow>
         (case hashmap_entry_find hb key False of
            None \<Rightarrow> None
          | Some None \<Rightarrow> Some None
          | Some (Some i) \<Rightarrow> map_option e_data (rd (hb_table hb) i)))"

definition hashmap_base_remove :: "('k, 'v) hashmap_base \<Rightarrow> 'k option \<Rightarrow> ('v option \<times> ('k, 'v) hashmap_base) option" where
  "hashmap_base_remove hb key =
    (case key of
       None \<Rightarrow> Some (None, hb)
     | Some key \<Rightarrow>
         (case hashmap_entry_find hb key False of
            None \<Rightarrow> None
          | Some None \<Rightarrow> Some (None, hb)
          | Some (Some i) \<Rightarrow>
              (case rd (hb_table hb) i of
                 None \<Rightarrow> None
               | Some entry \<Rightarrow> map_option (\<lambda>hb. (e_data entry, hb)) (hashmap_entry_remove hb i))))"

definition hashmap_base_clear :: "('k, 'v) hashmap_base \<Rightarrow> ('k, 'v) hashmap_base" where
  "hashmap_base_clear hb =
    (let hb = hashmap_free_keys hb in
     hb\<lparr>hb_size := 0, hb_table := replicate (unat (hb_table_size hb)) empty_entry\<rparr>)"

definition hashmap_base_reset :: "bool \<Rightarrow> ('k, 'v) hashmap_base \<Rightarrow> ('k, 'v) hashmap_base" where
  "hashmap_base_reset realloc_ok hb =
    (let hb = hashmap_free_keys hb;
         hb = hb\<lparr>hb_size := 0\<rparr>;
         hb = (if hb_table_size hb \<noteq> hb_table_size_init hb \<and> realloc_ok
               then hb\<lparr>hb_table_size := hb_table_size_init hb\<rparr> else hb)
     in hb\<lparr>hb_table := replicate (unat (hb_table_size hb)) empty_entry\<rparr>)"

definition hashmap_base_cleanup :: "('k, 'v) hashmap_base \<Rightarrow> 'k list" where
  "hashmap_base_cleanup hb = hb_freed (hashmap_free_keys hb)"

subsection \<open>Iterators\<close>

definition hashmap_base_iter :: "('k, 'v) hashmap_base \<Rightarrow> nat option \<Rightarrow> nat option option" where
  "hashmap_base_iter hb pos =
     hashmap_entry_get_populated hb (case pos of None \<Rightarrow> 0 | Some p \<Rightarrow> p)"

definition hashmap_base_iter_valid :: "('k, 'v) hashmap_base \<Rightarrow> nat option \<Rightarrow> bool" where
  "hashmap_base_iter_valid hb iter =
    (case iter of
       None \<Rightarrow> False
     | Some i \<Rightarrow> i < unat (hb_table_size hb) \<and> i < length (hb_table hb) \<and> e_key (hb_table hb ! i) \<noteq> None)"

text \<open>The iterator is an in-out argument: the new iterator, whose being non-null is the result.\<close>

definition hashmap_base_iter_next :: "('k, 'v) hashmap_base \<Rightarrow> nat option \<Rightarrow> (bool \<times> nat option) option" where
  "hashmap_base_iter_next hb iter =
    (case iter of
       None \<Rightarrow> Some (False, None)
     | Some i \<Rightarrow> map_option (\<lambda>it. (it \<noteq> None, it)) (hashmap_entry_get_populated hb (i + 1)))"

definition hashmap_base_iter_remove :: "('k, 'v) hashmap_base \<Rightarrow> nat option
    \<Rightarrow> (bool \<times> ('k, 'v) hashmap_base \<times> nat option) option" where
  "hashmap_base_iter_remove hb iter =
    (case iter of
       None \<Rightarrow> Some (False, hb, None)
     | Some i \<Rightarrow>
         (case rd (hb_table hb) i of
            None \<Rightarrow> None
          | Some entry \<Rightarrow>
              (case (if e_key entry \<noteq> None then hashmap_entry_remove hb i else Some hb) of
                 None \<Rightarrow> None
               | Some hb \<Rightarrow>
                   map_option (\<lambda>it. (it \<noteq> None, hb, it)) (hashmap_entry_get_populated hb i))))"

definition hashmap_base_iter_get_key :: "('k, 'v) hashmap_base \<Rightarrow> nat option \<Rightarrow> 'k option option" where
  "hashmap_base_iter_get_key hb iter =
    (case iter of None \<Rightarrow> Some None | Some i \<Rightarrow> map_option e_key (rd (hb_table hb) i))"

definition hashmap_base_iter_get_data :: "('k, 'v) hashmap_base \<Rightarrow> nat option \<Rightarrow> 'v option option" where
  "hashmap_base_iter_get_data hb iter =
    (case iter of None \<Rightarrow> Some None | Some i \<Rightarrow> map_option e_data (rd (hb_table hb) i))"

definition hashmap_base_iter_set_data :: "('k, 'v) hashmap_base \<Rightarrow> nat option \<Rightarrow> 'v option
    \<Rightarrow> (int \<times> ('k, 'v) hashmap_base) option" where
  "hashmap_base_iter_set_data hb iter d =
    (case iter of
       None \<Rightarrow> Some (- EFAULT, hb)
     | Some i \<Rightarrow>
         (case d of
            None \<Rightarrow> Some (- EINVAL, hb)
          | Some d \<Rightarrow>
              (case rd (hb_table hb) i of
                 None \<Rightarrow> None
               | Some e \<Rightarrow> Some (0, hb\<lparr>hb_table := (hb_table hb)[i := e\<lparr>e_data := Some d\<rparr>]\<rparr>))))"

fun collisions_loop :: "('k, 'v) hashmap_base \<Rightarrow> 'k \<Rightarrow> nat \<Rightarrow> u64 \<Rightarrow> nat \<Rightarrow> nat option" where
  "collisions_loop hb key 0 index i = Some i"
| "collisions_loop hb key (Suc n) index i =
     (case rd (hb_table hb) (unat index) of
        None \<Rightarrow> None
      | Some entry \<Rightarrow>
          (case e_key entry of
             None \<Rightarrow> Some 0
           | Some k \<Rightarrow>
               if hb_compare hb key k = 0 then Some i
               else collisions_loop hb key n (HASHMAP_PROBE_NEXT hb index) (Suc i)))"

definition hashmap_base_collisions :: "('k, 'v) hashmap_base \<Rightarrow> 'k option \<Rightarrow> nat option" where
  "hashmap_base_collisions hb key =
    (case key of
       None \<Rightarrow> Some 0
     | Some key \<Rightarrow> collisions_loop hb key (unat (hb_table_size hb)) (hashmap_calc_index hb key) 0)"

section \<open>The table as a set of probe chains\<close>

text \<open>
  The facts about a table that need no machine words: \<open>hm\<close> is the home slot of a key, \<open>cmp\<close>
  the compare callback. Every entry is reached from its home over occupied slots
  (\<open>chained\<close>) and no two entries have equal keys (\<open>uniq\<close>).
\<close>

definition occ :: "('k, 'v) hashmap_entry list \<Rightarrow> nat \<Rightarrow> bool" where
  "occ T i \<longleftrightarrow> e_key (T ! i) \<noteq> None"

definition matches :: "('k \<Rightarrow> 'k \<Rightarrow> int) \<Rightarrow> 'k \<Rightarrow> ('k, 'v) hashmap_entry \<Rightarrow> bool" where
  "matches cmp key e = (case e_key e of None \<Rightarrow> False | Some k \<Rightarrow> cmp key k = 0)"

definition reaches :: "('k, 'v) hashmap_entry list \<Rightarrow> nat \<Rightarrow> nat \<Rightarrow> bool" where
  "reaches T h i \<longleftrightarrow>
     (\<exists>d < length T. i = (h + d) mod length T \<and> (\<forall>j < d. occ T ((h + j) mod length T)))"

definition chained :: "('k \<Rightarrow> nat) \<Rightarrow> ('k, 'v) hashmap_entry list \<Rightarrow> bool" where
  "chained hm T \<longleftrightarrow> (\<forall>i < length T. \<forall>k. e_key (T ! i) = Some k \<longrightarrow> reaches T (hm k) i)"

definition uniq :: "('k \<Rightarrow> 'k \<Rightarrow> int) \<Rightarrow> ('k, 'v) hashmap_entry list \<Rightarrow> bool" where
  "uniq cmp T \<longleftrightarrow> (\<forall>i < length T. \<forall>j < length T. \<forall>k. e_key (T ! i) = Some k \<longrightarrow> matches cmp k (T ! j) \<longrightarrow> i = j)"

definition lookup :: "('k \<Rightarrow> 'k \<Rightarrow> int) \<Rightarrow> ('k, 'v) hashmap_entry list \<Rightarrow> 'k \<Rightarrow> 'v option" where
  "lookup cmp T key = (case List.find (matches cmp key) T of None \<Rightarrow> None | Some e \<Rightarrow> e_data e)"

definition occupied :: "('k, 'v) hashmap_entry list \<Rightarrow> nat" where
  "occupied T = length (filter (\<lambda>e. e_key e \<noteq> None) T)"

text \<open>What the callbacks owe the map: an equivalence that the hash respects.\<close>

locale hash_contract =
  fixes hash :: "'k \<Rightarrow> u64" and compare :: "'k \<Rightarrow> 'k \<Rightarrow> int"
  assumes compare_refl: "compare k k = 0"
    and compare_sym: "compare k l = 0 \<Longrightarrow> compare l k = 0"
    and compare_trans: "compare k l = 0 \<Longrightarrow> compare l m = 0 \<Longrightarrow> compare k m = 0"
    and hash_eq: "compare k l = 0 \<Longrightarrow> hash k = hash l"
begin

lemma matches_trans: "compare k l = 0 \<Longrightarrow> matches compare l e \<Longrightarrow> matches compare k e"
  using compare_trans by (auto simp: matches_def split: option.splits)

lemma matches_key: "e_key e = Some k \<Longrightarrow> matches compare l e \<Longrightarrow> compare k l = 0"
  using compare_sym by (auto simp: matches_def split: option.splits)

lemma matches_unique:
  assumes "uniq compare T" "i < length T" "j < length T"
    and "matches compare key (T ! i)" "matches compare key (T ! j)"
  shows "i = j"
proof -
  obtain k where k: "e_key (T ! i) = Some k"
    using assms(4) by (auto simp: matches_def split: option.splits)
  hence "compare k key = 0" using assms(4) by (rule matches_key)
  hence "matches compare k (T ! j)" using assms(5) by (rule matches_trans)
  with k assms(1-3) show ?thesis by (auto simp: uniq_def)
qed

lemma lookup_Some:
  assumes "uniq compare T" "i < length T" "matches compare key (T ! i)"
  shows "lookup compare T key = e_data (T ! i)"
proof -
  obtain e where f: "List.find (matches compare key) T = Some e"
    using assms(2,3) by (metis find_None_iff not_None_eq nth_mem)
  then obtain j where "j < length T" "matches compare key (T ! j)" "e = T ! j"
    by (auto simp: find_Some_iff)
  thus ?thesis using f matches_unique[OF assms(1,2) _ assms(3)] by (auto simp: lookup_def)
qed

end

lemma lookup_None: "(\<And>i. i < length T \<Longrightarrow> \<not> matches cmp key (T ! i)) \<Longrightarrow> lookup cmp T key = None"
  by (simp add: lookup_def find_None_iff[THEN iffD2] in_set_conv_nth split: option.splits)
    (metis find_Some_iff)

lemma empty_entry_simps [simp]: "e_key empty_entry = None" "e_data empty_entry = None"
  by (simp_all add: empty_entry_def)

lemma matches_empty [simp]: "\<not> matches cmp key empty_entry"
  by (simp add: matches_def)

lemma matches_Some: "e_key e = Some k \<Longrightarrow> matches cmp key e \<longleftrightarrow> cmp key k = 0"
  by (simp add: matches_def)

lemma matches_occ: "matches cmp key (T ! i) \<Longrightarrow> occ T i"
  by (auto simp: matches_def occ_def split: option.splits)

lemma occ_update: "i < length T \<Longrightarrow> occ (T[i := e]) j \<longleftrightarrow> (if j = i then e_key e \<noteq> None else occ T j)"
  by (simp add: occ_def)

lemma occupied_card: "occupied T = card {i. i < length T \<and> occ T i}"
  by (simp add: occupied_def length_filter_conv_card occ_def)

lemma occupied_le: "occupied T \<le> length T"
  by (simp add: occupied_def)

lemma occupied_free: "occupied T < length T \<Longrightarrow> \<exists>i < length T. \<not> occ T i"
proof (rule ccontr)
  assume lt: "occupied T < length T" and "\<not> (\<exists>i < length T. \<not> occ T i)"
  hence "{i. i < length T \<and> occ T i} = {..< length T}" by auto
  thus False using lt by (simp add: occupied_card)
qed

lemma occupied_full:
  assumes "occupied T = length T" "i < length T"
  shows "occ T i"
proof (rule ccontr)
  assume n: "\<not> occ T i"
  have "length (filter (\<lambda>e. e_key e \<noteq> None) T) < length T"
    using n assms(2) by (intro length_filter_less[of "T ! i"]) (simp_all add: occ_def)
  thus False using assms(1) by (simp add: occupied_def)
qed

lemma occupied_update:
  assumes "i < length T"
  shows "occupied (T[i := e]) + (if occ T i then 1 else 0) = occupied T + (if e_key e \<noteq> None then 1 else 0)"
proof -
  define S where "S = {j. j < length T \<and> j \<noteq> i \<and> occ T j}"
  have fin: "finite S" "i \<notin> S" by (auto simp: S_def)
  have 1: "{j. j < length T \<and> occ T j} = (if occ T i then insert i S else S)"
    using assms by (auto simp: S_def)
  have 2: "{j. j < length T \<and> occ (T[i := e]) j} = (if e_key e \<noteq> None then insert i S else S)"
    using assms by (auto simp: S_def occ_update)
  show ?thesis using fin by (simp add: occupied_card 1 2)
qed

lemma reaches_update:
  assumes "reaches T h j" "i < length T" "e_key e \<noteq> None"
  shows "reaches (T[i := e]) h j"
  using assms by (auto simp: reaches_def occ_update)

lemma chained_insert:
  assumes "chained hm T" "i < length T" "e_key e = Some k" "reaches T (hm k) i"
  shows "chained hm (T[i := e])"
  unfolding chained_def
proof (intro allI impI)
  fix j k' assume "j < length (T[i := e])" "e_key (T[i := e] ! j) = Some k'"
  moreover have "reaches T (hm k') j"
    using calculation assms by (cases "j = i") (auto simp: chained_def)
  ultimately show "reaches (T[i := e]) (hm k') j" using assms by (simp add: reaches_update)
qed

context hash_contract begin

lemma uniq_insert:
  assumes "uniq compare T" "i < length T" "e_key e = Some k"
    and no: "\<And>j. j < length T \<Longrightarrow> \<not> matches compare k (T ! j)"
  shows "uniq compare (T[i := e])"
  unfolding uniq_def
proof (intro allI impI)
  fix a b ka assume ab: "a < length (T[i := e])" "b < length (T[i := e])"
    and ka: "e_key (T[i := e] ! a) = Some ka" and m: "matches compare ka (T[i := e] ! b)"
  show "a = b"
  proof (cases "a = i \<or> b = i")
    case False thus ?thesis using ab ka m assms(1) by (auto simp: uniq_def)
  next
    case True
    have "\<not> (a = i \<and> b \<noteq> i)"
    proof
      assume *: "a = i \<and> b \<noteq> i"
      hence "ka = k" "matches compare k (T ! b)" using ab ka m assms(2,3) by auto
      thus False using no ab by simp
    qed
    moreover have "\<not> (a \<noteq> i \<and> b = i)"
    proof
      assume *: "a \<noteq> i \<and> b = i"
      hence "compare ka k = 0" using m assms ab by (simp add: matches_Some)
      hence "matches compare k (T ! a)" using * ka by (simp add: matches_Some compare_sym)
      thus False using no ab by simp
    qed
    ultimately show ?thesis using True by blast
  qed
qed

lemma lookup_insert:
  assumes "uniq compare T" "i < length T" "e_key e = Some k" "\<not> occ T i"
    and no: "\<And>j. j < length T \<Longrightarrow> \<not> matches compare k (T ! j)"
  shows "lookup compare (T[i := e]) key = (if compare key k = 0 then e_data e else lookup compare T key)"
proof -
  have u: "uniq compare (T[i := e])" using assms by (intro uniq_insert)
  show ?thesis
  proof (cases "compare key k = 0")
    case True
    thus ?thesis using lookup_Some[OF u, of i key] assms(2,3) by (simp add: matches_Some)
  next
    case False
    show ?thesis
    proof (cases "\<exists>j < length T. matches compare key (T ! j)")
      case True
      then obtain j where j: "j < length T" "matches compare key (T ! j)" by blast
      have ne: "j \<noteq> i" using j assms(4) by (auto dest: matches_occ)
      show ?thesis using lookup_Some[OF u, of j key] lookup_Some[OF assms(1), of j key] j ne False by simp
    next
      case no2: False
      have "\<not> matches compare key (T[i := e] ! j)" if "j < length (T[i := e])" for j
        using that no2 False assms(2,3) by (cases "j = i") (simp_all add: matches_Some)
      hence "lookup compare (T[i := e]) key = None" by (rule lookup_None)
      thus ?thesis using no2 False by (simp add: lookup_None)
    qed
  qed
qed

end

section \<open>Indices\<close>

definition shaped :: "('k, 'v) hashmap_base \<Rightarrow> bool" where
  "shaped hb \<longleftrightarrow> length (hb_table hb) = unat (hb_table_size hb) \<and>
     (hb_table_size hb = 0 \<or> (\<exists>k < 64. hb_table_size hb = 2 ^ k))"

definition home :: "('k, 'v) hashmap_base \<Rightarrow> 'k \<Rightarrow> nat" where
  "home hb k = unat (hashmap_calc_index hb k)"

definition slots :: "('k, 'v) hashmap_base \<Rightarrow> nat" where
  "slots hb = unat (hb_table_size hb)"

lemma shaped_length: "shaped hb \<Longrightarrow> length (hb_table hb) = slots hb"
  by (simp add: shaped_def slots_def)

lemma unat_exp64: "k < 64 \<Longrightarrow> unat (2 ^ k :: u64) = 2 ^ k"
proof -
  assume "k < 64"
  hence "(2 :: nat) ^ k < 2 ^ 64" by (intro power_strict_increasing) simp_all
  moreover have "unat (of_nat (2 ^ k) :: u64) = 2 ^ k mod 2 ^ 64"
    by (simp only: unat_of_nat len_num0 len_num1 len_bit0 len_bit1) simp
  ultimately show ?thesis by simp
qed

lemma shaped_pow2:
  assumes "shaped hb" "0 < slots hb"
  obtains k where "k < 64" "hb_table_size hb = 2 ^ k" "slots hb = 2 ^ k"
proof -
  obtain k where k: "k < 64" "hb_table_size hb = 2 ^ k"
    using assms by (auto simp: shaped_def slots_def)
  moreover have "unat (2 ^ k :: u64) = 2 ^ k"
    using k by (intro unat_exp64)
  ultimately show ?thesis using that by (simp add: slots_def)
qed

lemma SIZE_MOD_unat:
  assumes "shaped hb" "0 < slots hb"
  shows "unat (HASHMAP_SIZE_MOD hb v) = unat v mod slots hb"
proof -
  obtain k where k: "hb_table_size hb = 2 ^ k" "slots hb = 2 ^ k"
    using assms by (rule shaped_pow2)
  have "HASHMAP_SIZE_MOD hb v = take_bit k v"
    by (simp add: HASHMAP_SIZE_MOD_def k take_bit_eq_mask mask_eq_decr_exp)
  hence "unat (HASHMAP_SIZE_MOD hb v) = take_bit k (unat v)"
    by (simp only: unsigned_take_bit_eq)
  thus ?thesis by (simp add: k take_bit_eq_mod)
qed

lemma slots_dvd: "shaped hb \<Longrightarrow> 0 < slots hb \<Longrightarrow> slots hb dvd 2 ^ 64"
  by (erule (1) shaped_pow2) (simp only: le_imp_power_dvd less_imp_le)

lemma PROBE_NEXT_unat:
  assumes "shaped hb" "0 < slots hb" "unat index = i mod slots hb"
  shows "unat (HASHMAP_PROBE_NEXT hb index) = Suc i mod slots hb"
proof -
  have "unat (index + 1) mod slots hb = (unat index + 1) mod slots hb"
    using slots_dvd[OF assms(1,2)] by (simp add: unat_word_ariths mod_mod_cancel)
  thus ?thesis using assms by (simp add: HASHMAP_PROBE_NEXT_def SIZE_MOD_unat mod_Suc_eq)
qed

lemma SIZE_MOD_diff:
  assumes "shaped hb" "0 < slots hb"
    and "unat a = x mod slots hb" "unat b = y mod slots hb" "y \<le> x + slots hb"
  shows "unat (HASHMAP_SIZE_MOD hb (a - b)) = (x + slots hb - y) mod slots hb"
proof -
  have a: "uint a = int x mod int (slots hb)" and b: "uint b = int y mod int (slots hb)"
    using assms(3,4) by (simp_all add: uint_nat zmod_int)
  have "int (unat (HASHMAP_SIZE_MOD hb (a - b))) = uint (a - b) mod int (slots hb)"
    by (simp add: SIZE_MOD_unat assms zmod_int)
  also have "\<dots> = (uint a - uint b) mod int (slots hb)"
  proof -
    have d: "int (slots hb) dvd 2 ^ 64"
      using slots_dvd[OF assms(1,2)] by (metis int_dvd_int_iff of_nat_numeral of_nat_power)
    show ?thesis using d by (simp add: uint_word_ariths mod_mod_cancel)
  qed
  also have "\<dots> = (int x - int y) mod int (slots hb)"
    by (simp add: a b mod_diff_eq)
  also have "\<dots> = (int x + int (slots hb) - int y) mod int (slots hb)"
    by (metis diff_add_eq mod_add_self2)
  also have "\<dots> = int ((x + slots hb - y) mod slots hb)"
    using assms(5) by (simp add: zmod_int)
  finally show ?thesis by (simp only: of_nat_eq_iff)
qed

lemma calc_index_table [simp]: "hashmap_calc_index (hb\<lparr>hb_table := T\<rparr>) k = hashmap_calc_index hb k"
  "hashmap_calc_index (hb\<lparr>hb_size := n\<rparr>) k = hashmap_calc_index hb k"
  "hashmap_calc_index (hb\<lparr>hb_freed := f\<rparr>) k = hashmap_calc_index hb k"
  by (simp_all add: hashmap_calc_index_def HASHMAP_SIZE_MOD_def Let_def)

lemma home_table [simp]: "home (hb\<lparr>hb_table := T\<rparr>) = home hb" "home (hb\<lparr>hb_size := n\<rparr>) = home hb"
  "home (hb\<lparr>hb_freed := f\<rparr>) = home hb"
  by (simp_all add: home_def fun_eq_iff)

lemma slots_table [simp]: "slots (hb\<lparr>hb_table := T\<rparr>) = slots hb" "slots (hb\<lparr>hb_size := n\<rparr>) = slots hb"
  "slots (hb\<lparr>hb_freed := f\<rparr>) = slots hb"
  by (simp_all add: slots_def)

lemma shaped_table: "shaped (hb\<lparr>hb_table := T\<rparr>) \<longleftrightarrow>
    length T = slots hb \<and> (hb_table_size hb = 0 \<or> (\<exists>k < 64. hb_table_size hb = 2 ^ k))"
  by (simp add: shaped_def slots_def)

lemma shaped_size [simp]: "shaped (hb\<lparr>hb_size := n\<rparr>) = shaped hb" "shaped (hb\<lparr>hb_freed := f\<rparr>) = shaped hb"
  by (simp_all add: shaped_def)

lemma home_less: "shaped hb \<Longrightarrow> 0 < slots hb \<Longrightarrow> home hb k < slots hb"
  by (simp add: home_def hashmap_calc_index_def SIZE_MOD_unat Let_def)

context hash_contract begin

lemma home_eq:
  "hb_hash hb = hash \<Longrightarrow> compare k l = 0 \<Longrightarrow> home hb k = home hb l"
  using hash_eq[of k l] by (simp add: home_def hashmap_calc_index_def)

end

lemma bit_len_upper: "n < 2 ^ bit_len n"
  by (induction n rule: bit_len.induct) (subst bit_len.simps, auto)

lemma bit_len_bound: "n < 2 ^ k \<Longrightarrow> bit_len n \<le> k"
proof (induction n arbitrary: k rule: bit_len.induct)
  case (1 n)
  show ?case
  proof (cases "n = 0")
    case False
    then obtain k' where k: "k = Suc k'" using 1(2) by (cases k) auto
    have "bit_len (n div 2) \<le> k'" using 1(1)[OF False, of k'] 1(2) k by simp
    thus ?thesis using k False by (subst bit_len.simps) simp
  qed (simp add: bit_len.simps)
qed

text \<open>
  The table can grow as long as \<open>size + size / 3\<close> is at most \<open>2^30\<close>: a bigger \<open>int\<close> shift
  is undefined.
\<close>

definition hb_size_max :: nat where "hb_size_max = 805306368"

definition sane_init :: "('k, 'v) hashmap_base \<Rightarrow> bool" where
  "sane_init hb \<longleftrightarrow> (\<exists>k. 5 \<le> k \<and> k < 31 \<and> hb_table_size_init hb = 2 ^ k)"

lemma calc_table_size:
  assumes "sane_init hb" "unat sz \<le> hb_size_max"
  shows "\<exists>ts k. hashmap_calc_table_size hb sz = Some ts \<and> 5 \<le> k \<and> k < 31 \<and> ts = 2 ^ k \<and>
           unat sz + unat sz div 3 \<le> 2 ^ k \<and> unat sz < 2 ^ k \<and> hb_table_size_init hb \<le> ts"
proof -
  obtain i where i: "5 \<le> i" "i < 31" "hb_table_size_init hb = 2 ^ i"
    using assms(1) by (auto simp: sane_init_def)
  define s where "s = unat sz"
  define t where "t = s + s div 3"
  have s: "s \<le> 805306368" using assms(2) by (simp add: s_def hb_size_max_def)
  have t: "t \<le> 2 ^ 30" using s by (simp add: t_def)
  have ut: "unat (sz + sz div 3) = t"
    using s by (simp add: unat_word_ariths unat_div t_def s_def)
  have ui: "unat (hb_table_size_init hb) = 2 ^ i" using i by (simp add: unat_exp64)
  have lt: "s < t \<or> s < 3" by (auto simp: t_def)
  have i32: "(32::nat) \<le> 2 ^ i" using power_increasing[of 5 i "2::nat"] i by simp
  show ?thesis
  proof (cases "t < 2 ^ i")
    case True
    hence "hashmap_calc_table_size hb sz = Some (2 ^ i)"
      using ut ui i(3) by (simp add: hashmap_calc_table_size_def word_less_nat_alt Let_def)
    moreover have "s \<le> t" by (simp add: t_def)
    ultimately show ?thesis using True i unfolding s_def t_def
      by (intro exI[of _ "2 ^ i"] exI[of _ i]) simp
  next
    case False
    hence t32: "32 \<le> t" using i32 by linarith
    define b where "b = bit_len (t - 1)"
    have u1: "unat (sz + sz div 3 - 1) = t - 1"
    proof -
      have "1 \<le> sz + sz div 3" using ut t32 by (simp add: word_le_nat_alt)
      thus ?thesis by (simp add: ut unat_sub)
    qed
    have nz: "sz + sz div 3 - 1 \<noteq> 0"
    proof
      assume "sz + sz div 3 - 1 = 0"
      thus False using u1 t32 by simp
    qed
    have b30: "b \<le> 30" unfolding b_def using t t32 by (intro bit_len_bound) simp
    have tb: "t \<le> 2 ^ b" using bit_len_upper[of "t - 1"] t32 by (simp add: b_def)
    have b5: "5 \<le> b"
    proof (rule ccontr)
      assume "\<not> 5 \<le> b"
      hence "(2::nat) ^ b \<le> 2 ^ 4" by (intro power_increasing) simp_all
      thus False using tb t32 by simp
    qed
    have r: "hashmap_calc_table_size hb sz = Some (2 ^ b)"
      using False b30 ut ui u1 nz b_def
      by (simp add: hashmap_calc_table_size_def word_less_nat_alt Let_def)
    have "s < t" using lt t32 by (auto simp: t_def)
    moreover have "i \<le> b"
    proof -
      have "(2::nat) ^ i \<le> 2 ^ b" using False tb by linarith
      thus ?thesis by simp
    qed
    hence "hb_table_size_init hb \<le> 2 ^ b"
      using False tb ui b30 by (simp add: word_le_nat_alt unat_exp64)
    with calculation show ?thesis using r tb b30 b5 unfolding s_def t_def
      by (intro exI[of _ "2 ^ b"] exI[of _ b]) simp
  qed
qed

section \<open>Finding a slot\<close>

text \<open>The slots a search for \<open>key\<close> passes: those with another key.\<close>

definition passes :: "('k, 'v) hashmap_base \<Rightarrow> 'k \<Rightarrow> nat \<Rightarrow> bool" where
  "passes hb key i \<longleftrightarrow> occ (hb_table hb) i \<and> \<not> matches (hb_compare hb) key (hb_table hb ! i)"

lemma find_loop_steps:
  assumes "shaped hb" "0 < slots hb" "unat index = h mod slots hb"
  shows "find_loop hb key fe n index =
    (case find (\<lambda>j. \<not> passes hb key ((h + j) mod slots hb)) [0..<n] of
       None \<Rightarrow> Some None
     | Some j \<Rightarrow> let i = (h + j) mod slots hb in
         Some (if occ (hb_table hb) i \<or> fe then Some i else None))"
  using assms(3)
proof (induction n arbitrary: h index)
  case (Suc n)
  let ?N = "slots hb"
  have up: "[0..<Suc n] = 0 # map Suc [0..<n]" by (simp add: upt_conv_Cons map_Suc_upt del: upt_Suc)
  have nx: "unat (HASHMAP_PROBE_NEXT hb index) = Suc h mod ?N"
    using assms Suc.prems by (intro PROBE_NEXT_unat)
  have f: "find (\<lambda>j. \<not> passes hb key ((h + j) mod ?N)) (map Suc xs)
      = map_option Suc (find (\<lambda>j. \<not> passes hb key ((Suc h + j) mod ?N)) xs)" for xs
    by (induction xs) simp_all
  have lt: "h mod ?N < length (hb_table hb)" using assms by (simp add: shaped_length)
  show ?case
  proof (cases "passes hb key (h mod ?N)")
    case True
    then obtain k where k: "e_key (hb_table hb ! (h mod ?N)) = Some k" "hb_compare hb key k \<noteq> 0"
      by (auto simp: passes_def occ_def matches_def)
    have "find_loop hb key fe (Suc n) index = find_loop hb key fe n (HASHMAP_PROBE_NEXT hb index)"
      using k lt by (simp add: Suc.prems)
    thus ?thesis using Suc.IH[OF nx] True by (simp add: up f split: option.split del: upt_Suc)
  next
    case False
    thus ?thesis using lt
      by (auto simp: up Suc.prems passes_def occ_def matches_def Let_def
               simp del: upt_Suc split: option.splits)
  qed
qed simp

lemma find_upt:
  assumes "d < n" "P d" "\<And>j. j < d \<Longrightarrow> \<not> P j"
  shows "find P [0..<n] = Some d"
  using assms by (auto simp: find_Some_iff intro!: exI[of _ d])

lemma add_mod_inj:
  assumes "j < n" "d < n" "(h + j) mod n = (h + d) mod n"
  shows "j = (d :: nat)"
proof -
  have *: "x = y" if "x \<le> y" "y < n" "(h + x) mod n = (h + y) mod n" for x y
  proof -
    have "n dvd (h + y) - (h + x)" using that mod_eq_dvd_iff_nat[of "h + x" "h + y" n] by simp
    thus ?thesis using that by (auto dest: dvd_imp_le)
  qed
  show ?thesis using assms *[of j d] *[of d j] by (cases "j \<le> d") auto
qed

lemma add_mod_onto:
  assumes "i < n" "h < n" shows "\<exists>j < n. (h + j) mod n = (i :: nat)"
  using assms by (intro exI[of _ "if h \<le> i then i - h else n - (h - i)"]) auto

text \<open>The table as the code keeps it: what every operation preserves, sizes and counters apart.\<close>

definition table_ok :: "('k, 'v) hashmap_base \<Rightarrow> bool" where
  "table_ok hb \<longleftrightarrow> shaped hb \<and> chained (home hb) (hb_table hb) \<and> uniq (hb_compare hb) (hb_table hb)"

lemma find_entry_none:
  assumes "table_ok hb" "\<And>i. i < slots hb \<Longrightarrow> \<not> matches (hb_compare hb) key (hb_table hb ! i)"
    "occupied (hb_table hb) = slots hb"
  shows "hashmap_entry_find hb key fe = Some None"
proof (cases "slots hb = 0")
  case False
  have sh: "shaped hb" using assms by (simp add: table_ok_def)
  have "passes hb key ((home hb key + j) mod slots hb)" for j
    using assms False occupied_full[of "hb_table hb"] by (simp add: passes_def shaped_length[OF sh])
  hence "find (\<lambda>j. \<not> passes hb key ((home hb key + j) mod slots hb)) [0..<slots hb] = None"
    by (simp add: find_None_iff)
  thus ?thesis using find_loop_steps[OF sh, of "hashmap_calc_index hb key" "home hb key" key fe "slots hb"]
      False home_less[OF sh] by (simp add: hashmap_entry_find_def home_def slots_def[symmetric])
qed (simp add: hashmap_entry_find_def slots_def)

lemma find_entry_free:
  assumes "table_ok hb" "\<And>i. i < slots hb \<Longrightarrow> \<not> matches (hb_compare hb) key (hb_table hb ! i)"
    "occupied (hb_table hb) < slots hb"
  shows "\<exists>i < slots hb. \<not> occ (hb_table hb) i \<and> reaches (hb_table hb) (home hb key) i \<and>
     hashmap_entry_find hb key fe = Some (if fe then Some i else None)"
proof -
  let ?N = "slots hb" and ?h = "home hb key"
  let ?P = "\<lambda>j. \<not> passes hb key ((?h + j) mod ?N)"
  have sh: "shaped hb" using assms by (simp add: table_ok_def)
  have N: "0 < ?N" using assms by simp
  obtain i where "i < ?N" "\<not> occ (hb_table hb) i"
    using assms occupied_free[of "hb_table hb"] by (auto simp: shaped_length[OF sh])
  moreover obtain j where "j < ?N" "(?h + j) mod ?N = i"
    using add_mod_onto[OF \<open>i < ?N\<close> home_less[OF sh N]] by blast
  ultimately have "find ?P [0..<?N] \<noteq> None" by (auto simp: find_None_iff passes_def)
  then obtain d where d: "find ?P [0..<?N] = Some d" by blast
  hence dN: "d < ?N" "?P d" "\<And>j. j < d \<Longrightarrow> \<not> ?P j" by (auto simp: find_Some_iff)
  have free: "\<not> occ (hb_table hb) ((?h + d) mod ?N)"
    using dN(2) assms(2) N by (simp add: passes_def)
  have "reaches (hb_table hb) ?h ((?h + d) mod ?N)"
    using dN(1,3) by (auto simp: reaches_def shaped_length[OF sh] passes_def)
  moreover have "hashmap_entry_find hb key fe = Some (if fe then Some ((?h + d) mod ?N) else None)"
    using find_loop_steps[OF sh N, of "hashmap_calc_index hb key" ?h key fe ?N] d free
      home_less[OF sh N] by (simp add: hashmap_entry_find_def home_def slots_def[symmetric] Let_def)
  ultimately show ?thesis using free N by (intro exI[of _ "(?h + d) mod ?N"]) simp
qed

context hash_contract begin

lemma find_entry_match:
  assumes cb: "hb_hash hb = hash" "hb_compare hb = compare" and t: "table_ok hb"
    and i: "i < slots hb" "matches compare key (hb_table hb ! i)"
  shows "hashmap_entry_find hb key fe = Some (Some i)"
proof -
  let ?N = "slots hb" and ?h = "home hb key" and ?T = "hb_table hb"
  have sh: "shaped hb" and len: "length ?T = ?N" and N: "0 < ?N"
    using t i by (simp_all add: table_ok_def shaped_length)
  obtain k where k: "e_key (?T ! i) = Some k" "compare key k = 0"
    using i(2) by (auto simp: matches_def split: option.splits)
  have "reaches ?T (home hb k) i" using t i k by (simp add: table_ok_def chained_def len)
  then obtain d where d: "d < ?N" "i = (?h + d) mod ?N" "\<forall>j < d. occ ?T ((?h + j) mod ?N)"
    using home_eq[OF cb(1) k(2)] by (auto simp: reaches_def len)
  have "passes hb key ((?h + j) mod ?N)" if "j < d" for j
  proof -
    have "(?h + j) mod ?N \<noteq> i" using that d add_mod_inj[of j ?N d ?h] by auto
    moreover have "matches compare key (?T ! ((?h + j) mod ?N)) \<longrightarrow> (?h + j) mod ?N = i"
      using matches_unique[of ?T "(?h + j) mod ?N" i key] t i N by (simp add: table_ok_def cb len)
    ultimately show ?thesis using that d by (simp add: passes_def cb)
  qed
  hence f: "find (\<lambda>j. \<not> passes hb key ((?h + j) mod ?N)) [0..<?N] = Some d"
    using d i by (intro find_upt) (simp_all add: passes_def cb)
  show ?thesis
    using find_loop_steps[OF sh N, of "hashmap_calc_index hb key" ?h key fe ?N] f home_less[OF sh N]
      d(2) matches_occ[of compare key ?T i] i(2)
    by (simp add: hashmap_entry_find_def home_def slots_def[symmetric] Let_def)
qed

end

section \<open>Insertion and rehashing\<close>

definition ents :: "('k, 'v) hashmap_entry list \<Rightarrow> ('k, 'v) hashmap_entry set" where
  "ents T = {e \<in> set T. e_key e \<noteq> None}"

lemma ents_nth: "ents T = {T ! i | i. i < length T \<and> occ T i}"
  by (auto simp: ents_def occ_def in_set_conv_nth)

lemma ents_matches: "matches cmp key e \<Longrightarrow> e \<in> set T \<Longrightarrow> e \<in> ents T"
  by (auto simp: ents_def matches_def split: option.splits)

lemma ents_insert:
  assumes "i < length T" "\<not> occ T i" "e_key e \<noteq> None"
  shows "ents (T[i := e]) = insert e (ents T)"
  using assms by (auto simp: ents_nth occ_update)

lemma ents_Cons: "ents (e # T) = (if e_key e = None then ents T else insert e (ents T))"
  by (auto simp: ents_def)

lemma ents_replicate [simp]: "ents (replicate n empty_entry) = {}"
  by (auto simp: ents_def)

lemma occupied_replicate [simp]: "occupied (replicate n empty_entry) = 0"
  by (simp add: occupied_def)

lemma occupied_Cons: "occupied (e # T) = (if e_key e = None then 0 else 1) + occupied T"
  by (simp add: occupied_def)

lemma occupied_0: "occupied T = 0 \<longleftrightarrow> ents T = {}"
  by (simp add: occupied_def ents_def filter_empty_conv Ball_def)

lemma empty_table_ok: "shaped hb \<Longrightarrow> hb_table hb = replicate n empty_entry \<Longrightarrow> table_ok hb"
  by (auto simp: table_ok_def chained_def uniq_def shaped_def)

lemma uniq_Cons:
  assumes "uniq cmp (e # T)"
  shows "uniq cmp T" "e_key e = Some k \<Longrightarrow> e' \<in> set T \<Longrightarrow> \<not> matches cmp k e'"
  using assms unfolding uniq_def
  by (auto simp: in_set_conv_nth) (metis Suc_less_eq nth_Cons_Suc nat.inject, metis Suc_less_eq nth_Cons_Suc nth_Cons_0 nat.distinct(1) zero_less_Suc)

context hash_contract begin

lemma lookup_ents:
  assumes "uniq compare T" "e \<in> ents T" "matches compare key e"
  shows "lookup compare T key = e_data e"
  using assms lookup_Some[OF assms(1)] by (auto simp: ents_def in_set_conv_nth)

lemma lookup_cong:
  assumes "uniq compare T" "uniq compare T'" "ents T = ents T'"
  shows "lookup compare T = lookup compare T'"
proof
  fix key
  show "lookup compare T key = lookup compare T' key"
  proof (cases "\<exists>e \<in> ents T. matches compare key e")
    case True
    thus ?thesis using assms by (auto simp: lookup_ents)
  next
    case False
    have "lookup compare U key = None" if "ents U = ents T" for U
    proof (rule lookup_None)
      fix i assume "i < length U"
      thus "\<not> matches compare key (U ! i)"
        using ents_matches[of compare key "U ! i" U] False that by auto
    qed
    thus ?thesis using assms(3) by simp
  qed
qed

lemma insert_entry:
  assumes "hb_hash hb = hash" "hb_compare hb = compare" "table_ok hb" "e_key e = Some k"
    and "i < slots hb" "\<not> occ (hb_table hb) i" "reaches (hb_table hb) (home hb k) i"
    and "\<And>j. j < slots hb \<Longrightarrow> \<not> matches compare k (hb_table hb ! j)"
  shows "table_ok (hb\<lparr>hb_table := (hb_table hb)[i := e]\<rparr>)"
    and "ents ((hb_table hb)[i := e]) = insert e (ents (hb_table hb))"
    and "occupied ((hb_table hb)[i := e]) = Suc (occupied (hb_table hb))"
    and "lookup compare ((hb_table hb)[i := e]) key =
      (if compare key k = 0 then e_data e else lookup compare (hb_table hb) key)"
proof -
  have sh: "shaped hb" and len: "length (hb_table hb) = slots hb"
    using assms by (simp_all add: table_ok_def shaped_length)
  show "table_ok (hb\<lparr>hb_table := (hb_table hb)[i := e]\<rparr>)"
    using assms chained_insert[of "home hb" "hb_table hb" i e k] uniq_insert[of "hb_table hb" i e k]
    by (simp add: table_ok_def len shaped_table) (simp add: shaped_def)
  show "ents ((hb_table hb)[i := e]) = insert e (ents (hb_table hb))"
    using assms by (intro ents_insert) (simp_all add: len)
  show "occupied ((hb_table hb)[i := e]) = Suc (occupied (hb_table hb))"
    using assms occupied_update[of i "hb_table hb" e] by (simp add: len)
  show "lookup compare ((hb_table hb)[i := e]) key =
      (if compare key k = 0 then e_data e else lookup compare (hb_table hb) key)"
    using assms by (intro lookup_insert) (simp_all add: len table_ok_def)
qed

lemma rehash_loop:
  assumes "hb_hash hb = hash" "hb_compare hb = compare" "table_ok hb" "uniq compare es"
    and "\<And>e k i. e \<in> set es \<Longrightarrow> e_key e = Some k \<Longrightarrow> i < slots hb \<Longrightarrow> \<not> matches compare k (hb_table hb ! i)"
    and "occupied (hb_table hb) + occupied es \<le> slots hb"
  shows "\<exists>T. rehash_loop hb es = Some (hb\<lparr>hb_table := T\<rparr>) \<and> table_ok (hb\<lparr>hb_table := T\<rparr>) \<and>
     ents T = ents (hb_table hb) \<union> ents es \<and> occupied T = occupied (hb_table hb) + occupied es"
  using assms
proof (induction es arbitrary: hb)
  case Nil
  thus ?case by (intro exI[of _ "hb_table hb"]) (simp add: ents_def occupied_def)
next
  case (Cons e es)
  note es = uniq_Cons[OF Cons.prems(4)]
  show ?case
  proof (cases "e_key e")
    case None
    thus ?thesis using Cons.IH[of hb] Cons.prems es(1) by (auto simp: ents_Cons occupied_Cons)
  next
    case (Some k)
    have nk: "\<And>i. i < slots hb \<Longrightarrow> \<not> matches compare k (hb_table hb ! i)"
      using Cons.prems(5)[of e k] Some by simp
    obtain i where i: "i < slots hb" "\<not> occ (hb_table hb) i" "reaches (hb_table hb) (home hb k) i"
        "hashmap_entry_find hb k True = Some (Some i)"
      using find_entry_free[of hb k True] nk Cons.prems Some by (auto simp: occupied_Cons)
    note ins = insert_entry[OF Cons.prems(1,2,3) Some i(1-3) nk]
    let ?hb = "hb\<lparr>hb_table := (hb_table hb)[i := e]\<rparr>"
    have len: "length (hb_table hb) = slots hb" using Cons.prems(3) by (simp add: table_ok_def shaped_length)
    have step: "rehash_loop hb (e # es) = rehash_loop ?hb es"
      using Some i len by (simp add: wr_def)
    have "\<not> matches compare l ((hb_table hb)[i := e] ! j)"
      if "e' \<in> set es" "e_key e' = Some l" "j < slots hb" for e' l j
    proof (cases "j = i")
      case True
      have "compare l k \<noteq> 0"
        using es(2)[OF Some that(1)] that(2) compare_sym by (auto simp: matches_Some)
      thus ?thesis using True i len Some by (simp add: matches_Some)
    next
      case False
      thus ?thesis using Cons.prems(5)[of e' l j] that by simp
    qed
    hence "\<exists>T. rehash_loop ?hb es = Some (?hb\<lparr>hb_table := T\<rparr>) \<and> table_ok (?hb\<lparr>hb_table := T\<rparr>) \<and>
        ents T = ents (hb_table ?hb) \<union> ents es \<and> occupied T = occupied (hb_table ?hb) + occupied es"
      using Cons.prems ins(1,3) es(1) Some
      by (intro Cons.IH) (simp_all add: occupied_Cons)
    thus ?thesis using step ins(2,3) Some by (auto simp: ents_Cons occupied_Cons)
  qed
qed

end

section \<open>The map\<close>

definition hm_map :: "('k, 'v) hashmap_base \<Rightarrow> 'k \<Rightarrow> 'v option" where
  "hm_map hb = lookup (hb_compare hb) (hb_table hb)"

definition hm_inv :: "('k, 'v) hashmap_base \<Rightarrow> bool" where
  "hm_inv hb \<longleftrightarrow> table_ok hb \<and> sane_init hb \<and> (slots hb = 0 \<or> 32 \<le> slots hb) \<and>
     occupied (hb_table hb) = unat (hb_size hb) \<and> (\<forall>e \<in> ents (hb_table hb). e_data e \<noteq> None)"

text \<open>A copy of a key is equal to it.\<close>

definition dup_ok :: "('k, 'v) hashmap_base \<Rightarrow> bool" where
  "dup_ok hb = (case hb_key_dup hb of None \<Rightarrow> True
     | Some dup \<Rightarrow> \<forall>k k'. dup k = Some k' \<longrightarrow> hb_compare hb k k' = 0)"

text \<open>The configuration no operation on entries changes.\<close>

definition same_config :: "('k, 'v) hashmap_base \<Rightarrow> ('k, 'v) hashmap_base \<Rightarrow> bool" where
  "same_config hb hb' \<longleftrightarrow> hb_hash hb' = hb_hash hb \<and> hb_compare hb' = hb_compare hb \<and>
     hb_key_dup hb' = hb_key_dup hb \<and> hb_key_free hb' = hb_key_free hb"

definition hm_update :: "('k, 'v) hashmap_base \<Rightarrow> 'k \<Rightarrow> 'v option \<Rightarrow> 'k \<Rightarrow> 'v option" where
  "hm_update hb k d = (\<lambda>l. if hb_compare hb l k = 0 then d else hm_map hb l)"

definition roomy :: "('k, 'v) hashmap_base \<Rightarrow> bool" where
  "roomy hb \<longleftrightarrow> hb_size hb < hb_table_size hb"

lemma hm_invD:
  assumes "hm_inv hb"
  shows "table_ok hb" "shaped hb" "uniq (hb_compare hb) (hb_table hb)" "sane_init hb"
    "length (hb_table hb) = slots hb" "occupied (hb_table hb) = unat (hb_size hb)"
    "e \<in> ents (hb_table hb) \<Longrightarrow> e_data e \<noteq> None"
  using assms by (auto simp: hm_inv_def table_ok_def shaped_length)

lemma hm_inv_init: "hm_inv (hashmap_base_init h c)"
proof -
  have "sane_init (hashmap_base_init h c)"
    by (auto simp: sane_init_def hashmap_base_init_def HASHMAP_SIZE_DEFAULT_def intro!: exI[of _ 7])
  thus ?thesis
    by (auto simp: hm_inv_def hashmap_base_init_def table_ok_def shaped_def slots_def chained_def
        uniq_def occupied_def ents_def)
qed

lemma same_config_refl [simp]: "same_config hb hb" by (simp add: same_config_def)

lemma same_config_trans [trans]: "same_config a b \<Longrightarrow> same_config b c \<Longrightarrow> same_config a c"
  by (simp add: same_config_def)

lemma hm_map_match:
  assumes "hm_inv hb" "i < slots hb" "matches (hb_compare hb) key (hb_table hb ! i)"
    and "hash_contract (hb_hash hb) (hb_compare hb)"
  shows "hm_map hb key = e_data (hb_table hb ! i)" "hm_map hb key \<noteq> None"
proof -
  show "hm_map hb key = e_data (hb_table hb ! i)"
    using hash_contract.lookup_Some[OF assms(4) hm_invD(3)[OF assms(1)], of i key] assms hm_invD[OF assms(1)]
    by (simp add: hm_map_def)
  moreover have "hb_table hb ! i \<in> ents (hb_table hb)"
    using assms ents_matches[of _ key "hb_table hb ! i" "hb_table hb"] hm_invD(5)[OF assms(1)] by simp
  ultimately show "hm_map hb key \<noteq> None" using hm_invD(7)[OF assms(1)] by simp
qed

lemma hm_map_None:
  assumes "hash_contract (hb_hash hb) (hb_compare hb)" "hm_inv hb"
  shows "hm_map hb key = None \<longleftrightarrow> (\<forall>i < slots hb. \<not> matches (hb_compare hb) key (hb_table hb ! i))"
  using hm_map_match(2)[OF assms(2) _ _ assms(1), of _ key] hm_invD(5)[OF assms(2)]
    lookup_None[of "hb_table hb" "hb_compare hb" key] by (auto simp: hm_map_def)

lemma get_refines:
  assumes "hash_contract (hb_hash hb) (hb_compare hb)" "hm_inv hb"
  shows "hashmap_base_get hb (Some key) = Some (hm_map hb key)"
proof (cases "hm_map hb key = None")
  case False
  then obtain i where i: "i < slots hb" "matches (hb_compare hb) key (hb_table hb ! i)"
    using assms by (auto simp: hm_map_None)
  hence "hashmap_entry_find hb key False = Some (Some i)"
    using assms by (intro hash_contract.find_entry_match) (auto dest: hm_invD)
  thus ?thesis using i hm_map_match(1)[OF assms(2) i assms(1)] hm_invD(5)[OF assms(2)]
    by (simp add: hashmap_base_get_def)
next
  case True
  hence no: "\<And>i. i < slots hb \<Longrightarrow> \<not> matches (hb_compare hb) key (hb_table hb ! i)"
    using assms by (simp add: hm_map_None)
  have "occupied (hb_table hb) \<le> slots hb" using occupied_le[of "hb_table hb"] hm_invD(5)[OF assms(2)] by simp
  hence "hashmap_entry_find hb key False = Some None"
    using find_entry_none[OF hm_invD(1)[OF assms(2)] no, of False]
      find_entry_free[OF hm_invD(1)[OF assms(2)] no, of False] by (auto simp: le_less)
  thus ?thesis using True by (simp add: hashmap_base_get_def)
qed

lemma pow2_and:
  assumes "k < 64" shows "(2 :: u64) ^ k AND (2 ^ k - 1) = 0"
proof -
  have "(2 :: u64) ^ k AND (2 ^ k - 1) = take_bit k (2 ^ k)"
    by (simp only: take_bit_eq_mask mask_eq_decr_exp)
  moreover have "take_bit k (2 ^ k :: u64) = 0"
    by (rule word_unat_eq_iff[THEN iffD2])
      (simp only: unsigned_take_bit_eq unat_exp64[OF assms], simp add: take_bit_eq_mod)
  ultimately show ?thesis by simp
qed

lemma rehash_refines:
  assumes "hash_contract (hb_hash hb) (hb_compare hb)" "hm_inv hb"
    and "ts = 2 ^ k" "5 \<le> k" "k < 31" "unat (hb_size hb) \<le> 2 ^ k"
  shows "\<exists>T. let hb' = hb\<lparr>hb_table_size := ts, hb_table := T\<rparr> in
      hashmap_rehash True hb ts = Some (0, hb') \<and> hm_inv hb' \<and> hm_map hb' = hm_map hb \<and> slots hb' = 2 ^ k"
proof -
  let ?hb = "hb\<lparr>hb_table_size := ts, hb_table := replicate (unat ts) empty_entry\<rparr>"
  have uts: "unat ts = 2 ^ k" using assms by (simp add: unat_exp64)
  have sh: "shaped ?hb" using assms by (auto simp: shaped_def intro!: exI[of _ k])
  have sl: "slots (hb\<lparr>hb_table_size := ts, hb_table := T\<rparr>) = 2 ^ k" for T by (simp add: slots_def uts)
  have guard: "ts AND (ts - 1) = 0" "hb_size hb \<le> ts"
    using assms uts pow2_and[of k] by (simp_all add: word_le_nat_alt)
  have "\<exists>T. rehash_loop ?hb (hb_table hb) = Some (?hb\<lparr>hb_table := T\<rparr>) \<and> table_ok (?hb\<lparr>hb_table := T\<rparr>) \<and>
     ents T = ents (hb_table ?hb) \<union> ents (hb_table hb) \<and> occupied T = occupied (hb_table ?hb) + occupied (hb_table hb)"
    using empty_table_ok[OF sh, of "unat ts"] assms hm_invD[OF assms(2)] sl
    by (intro hash_contract.rehash_loop[OF assms(1)]) (simp_all add: unat_exp64)
  then obtain T where T: "rehash_loop ?hb (hb_table hb) = Some (?hb\<lparr>hb_table := T\<rparr>)"
    "table_ok (?hb\<lparr>hb_table := T\<rparr>)" "ents T = ents (hb_table hb)" "occupied T = occupied (hb_table hb)"
    by auto
  have u: "uniq (hb_compare hb) T" using T(2) by (simp add: table_ok_def)
  have "(32::nat) \<le> 2 ^ k" using power_increasing[of 5 k "2::nat"] assms by simp
  moreover have "hm_map (hb\<lparr>hb_table_size := ts, hb_table := T\<rparr>) = hm_map hb"
    using hash_contract.lookup_cong[OF assms(1) u hm_invD(3)[OF assms(2)] T(3)] by (simp add: hm_map_def)
  ultimately show ?thesis using T assms(2) guard sl
    by (intro exI[of _ T]) (simp add: Let_def hashmap_rehash_def hm_inv_def sane_init_def)
qed

lemma put_entry_refines:
  assumes hc: "hash_contract (hb_hash hb) (hb_compare hb)" and inv: "hm_inv hb" and dup: "dup_ok hb"
    and cap: "unat (hb_size hb) \<le> hb_size_max" and r: "r = 0 \<and> roomy hb \<or> r = - ENOMEM"
  shows "\<exists>r' hb'. put_entry hb key d r = Some (r', hb') \<and> hm_inv hb' \<and> same_config hb hb' \<and>
     hb_table_size hb' = hb_table_size hb \<and>
     (if hm_map hb key \<noteq> None then r' = - EEXIST \<and> hb' = hb
      else if r' = 0 then hm_map hb' = hm_update hb key (Some d) \<and> hb_size hb' = hb_size hb + 1
      else r' = - ENOMEM \<and> hb' = hb \<and>
        (r < 0 \<or> (case hb_key_dup hb of None \<Rightarrow> False | Some dup \<Rightarrow> dup key = None)))"
proof (cases "hm_map hb key = None")
  case False
  then obtain i where i: "i < slots hb" "matches (hb_compare hb) key (hb_table hb ! i)"
    using hm_map_None[OF hc inv, of key] by auto
  hence "hashmap_entry_find hb key True = Some (Some i)"
    by (intro hash_contract.find_entry_match[OF hc]) (simp_all add: hm_invD[OF inv])
  moreover have "e_key (hb_table hb ! i) \<noteq> None" using matches_occ[OF i(2)] by (simp add: occ_def)
  ultimately have "put_entry hb key d r = Some (- EEXIST, hb)"
    using i hm_invD[OF inv] by (simp add: put_entry_def)
  thus ?thesis using False inv by simp
next
  case True
  note I = hm_invD[OF inv]
  have no: "\<And>i. i < slots hb \<Longrightarrow> \<not> matches (hb_compare hb) key (hb_table hb ! i)"
    using True hm_map_None[OF hc inv] by simp
  have le: "occupied (hb_table hb) \<le> slots hb" using occupied_le[of "hb_table hb"] I by simp
  show ?thesis
  proof (cases "occupied (hb_table hb) = slots hb")
    case full: True
    hence "\<not> roomy hb" using I(6) by (simp add: roomy_def slots_def word_less_nat_alt)
    moreover have "put_entry hb key d r = Some (if r < 0 then r else - EADDRNOTAVAIL, hb)"
      using find_entry_none[OF I(1) no full] by (simp add: put_entry_def)
    ultimately show ?thesis using True inv r by (simp add: ENOMEM_def)
  next
    case nf: False
    hence "occupied (hb_table hb) < slots hb" using le by simp
    then obtain i where i: "i < slots hb" "\<not> occ (hb_table hb) i" "reaches (hb_table hb) (home hb key) i"
        "hashmap_entry_find hb key True = Some (Some i)"
      using find_entry_free[OF I(1) no, of True] by auto
    have key: "e_key (hb_table hb ! i) = None" using i by (simp add: occ_def)
    show ?thesis
    proof (cases "case hb_key_dup hb of None \<Rightarrow> Some key | Some dup \<Rightarrow> dup key")
      case None
      hence "put_entry hb key d r = Some (- ENOMEM, hb)" using i key I by (simp add: put_entry_def)
      thus ?thesis using True inv None by (simp add: ENOMEM_def split: option.splits)
    next
      case (Some k)
      define e where "e = \<lparr>e_key = Some k, e_data = Some d\<rparr>"
      define hb' where "hb' = hb\<lparr>hb_table := (hb_table hb)[i := e], hb_size := hb_size hb + 1\<rparr>"
      have p: "put_entry hb key d r = Some (0, hb')"
        using Some i key I by (simp add: put_entry_def hb'_def e_def)
      have kk: "hb_compare hb key k = 0"
        using Some dup hash_contract.compare_refl[OF hc] by (auto simp: dup_ok_def split: option.splits)
      have kk': "hb_compare hb k key = 0" using kk by (rule hash_contract.compare_sym[OF hc])
      have ek: "e_key e = Some k" by (simp add: e_def)
      have hk: "home hb k = home hb key" using hash_contract.home_eq[OF hc refl kk'] .
      have nok: "\<And>j. j < slots hb \<Longrightarrow> \<not> matches (hb_compare hb) k (hb_table hb ! j)"
        using no hash_contract.matches_trans[OF hc kk] by blast
      note ins = hash_contract.insert_entry[OF hc refl refl I(1) ek i(1,2) i(3)[folded hk] nok]
      have "table_ok hb'" using ins(1) by (simp add: hb'_def table_ok_def shaped_def home_def)
      moreover have "unat (hb_size hb + 1) = Suc (unat (hb_size hb))"
        using cap by (simp add: unat_word_ariths hb_size_max_def)
      ultimately have "hm_inv hb'"
        using inv I ins(2,3) by (simp add: hm_inv_def hb'_def sane_init_def slots_def e_def)
      moreover have "hm_map hb' = hm_update hb key (Some d)"
      proof
        fix l
        have "hb_compare hb l k = 0 \<longleftrightarrow> hb_compare hb l key = 0"
          using hash_contract.compare_trans[OF hc] kk kk' by blast
        thus "hm_map hb' l = hm_update hb key (Some d) l"
          using ins(4)[of l] by (simp add: hm_map_def hb'_def hm_update_def e_def)
      qed
      ultimately show ?thesis using p True by (simp add: same_config_def hb'_def)
    qed
  qed
qed

definition put_ok :: "bool \<Rightarrow> ('k, 'v) hashmap_base \<Rightarrow> 'k \<Rightarrow> bool" where
  "put_ok calloc_ok hb key \<longleftrightarrow>
     calloc_ok \<and> (case hb_key_dup hb of None \<Rightarrow> True | Some dup \<Rightarrow> dup key \<noteq> None)"

lemma put_refines:
  assumes hc: "hash_contract (hb_hash hb) (hb_compare hb)" and inv: "hm_inv hb" and dup: "dup_ok hb"
    and cap: "unat (hb_size hb) \<le> hb_size_max"
  shows "\<exists>r hb'. hashmap_base_put calloc_ok hb (Some key) (Some d) = Some (r, hb') \<and> hm_inv hb' \<and>
     same_config hb hb' \<and> (calloc_ok \<longrightarrow> roomy hb') \<and>
     (if hm_map hb key \<noteq> None then r = - EEXIST \<and> hm_map hb' = hm_map hb \<and> hb_size hb' = hb_size hb
      else if r = 0 then hm_map hb' = hm_update hb key (Some d) \<and> hb_size hb' = hb_size hb + 1
      else r = - ENOMEM \<and> \<not> put_ok calloc_ok hb key \<and> hm_map hb' = hm_map hb \<and> hb_size hb' = hb_size hb)"
proof -
  obtain ts k where ts: "hashmap_calc_table_size hb (hb_size hb) = Some ts" "5 \<le> k" "k < 31" "ts = 2 ^ k"
      "unat (hb_size hb) + unat (hb_size hb) div 3 \<le> 2 ^ k" "unat (hb_size hb) < 2 ^ k"
    using calc_table_size[OF hm_invD(4)[OF inv] cap] by auto
  have uts: "unat ts = 2 ^ k" using ts by (simp add: unat_exp64)
  have "(32::nat) \<le> 2 ^ k" using power_increasing[of 5 k "2::nat"] ts by simp
  hence room: "Suc (unat (hb_size hb)) < 2 ^ k" using ts(5,6) by presburger
  have step: ?thesis
    if h: "hashmap_base_put calloc_ok hb (Some key) (Some d) = put_entry hb1 key d r1"
      "hm_inv hb1" "same_config hb hb1" "hm_map hb1 = hm_map hb" "hb_size hb1 = hb_size hb"
      "r1 = 0 \<and> ts \<le> hb_table_size hb1 \<or> r1 = - ENOMEM \<and> \<not> calloc_ok" for hb1 r1
  proof -
    have hc1: "hash_contract (hb_hash hb1) (hb_compare hb1)" and dup1: "dup_ok hb1"
      using hc dup h(3) by (auto simp: same_config_def dup_ok_def split: option.splits)
    have "r1 = 0 \<and> roomy hb1 \<or> r1 = - ENOMEM"
      using h(5,6) ts(6) uts by (auto simp: roomy_def word_less_nat_alt word_le_nat_alt)
    from put_entry_refines[OF hc1 h(2) dup1 _ this, of key d] cap h(5)
    obtain r hb' where p: "put_entry hb1 key d r1 = Some (r, hb')" "hm_inv hb'" "same_config hb1 hb'"
      "hb_table_size hb' = hb_table_size hb1"
      "if hm_map hb1 key \<noteq> None then r = - EEXIST \<and> hb' = hb1
      else if r = 0 then hm_map hb' = hm_update hb1 key (Some d) \<and> hb_size hb' = hb_size hb1 + 1
      else r = - ENOMEM \<and> hb' = hb1 \<and>
        (r1 < 0 \<or> (case hb_key_dup hb1 of None \<Rightarrow> False | Some dup \<Rightarrow> dup key = None))"
      by auto
    have "unat (hb_size hb + 1) = Suc (unat (hb_size hb))"
      using cap by (simp add: unat_word_ariths hb_size_max_def)
    moreover have "hb_size hb' = hb_size hb \<or> hb_size hb' = hb_size hb + 1"
      using p(5) h(5) by (auto split: if_splits)
    ultimately have "calloc_ok \<longrightarrow> roomy hb'"
      using h(6) p(4) room uts by (auto simp: roomy_def word_less_nat_alt word_le_nat_alt ENOMEM_def)
    moreover have "hm_update hb1 = hm_update hb"
      using h(3,4) by (simp add: hm_update_def same_config_def fun_eq_iff)
    moreover have "r1 < 0 \<Longrightarrow> \<not> calloc_ok" using h(6) by auto
    ultimately show ?thesis using p h same_config_trans[OF h(3) p(3)]
      by (auto simp: put_ok_def same_config_def split: if_splits option.splits)
  qed
  show ?thesis
  proof (cases "ts > hb_table_size hb")
    case False
    thus ?thesis using ts(1) inv by (intro step[of hb 0]) (simp_all add: hashmap_base_put_def not_less leD)
  next
    case grow: True
    show ?thesis
    proof (cases calloc_ok)
      case True
      obtain T where "let hb' = hb\<lparr>hb_table_size := ts, hb_table := T\<rparr> in
          hashmap_rehash True hb ts = Some (0, hb') \<and> hm_inv hb' \<and> hm_map hb' = hm_map hb \<and> slots hb' = 2 ^ k"
        using rehash_refines[OF hc inv ts(4,2,3)] ts(6) by auto
      thus ?thesis using ts(1) grow True
        by (intro step[of "hb\<lparr>hb_table_size := ts, hb_table := T\<rparr>" 0])
          (simp_all add: hashmap_base_put_def Let_def same_config_def)
    next
      case False
      have "ts AND (ts - 1) = 0 \<and> hb_size hb \<le> ts" using ts(3,4,6) uts pow2_and[of k] by (simp add: word_le_nat_alt)
      hence "hashmap_rehash calloc_ok hb ts = Some (- ENOMEM, hb)" using False by (simp add: hashmap_rehash_def)
      thus ?thesis using ts(1) grow False inv
        by (intro step[of hb "- ENOMEM"]) (simp_all add: hashmap_base_put_def)
    qed
  qed
qed

section \<open>Removal\<close>

text \<open>
  When slot \<open>e\<close> is free the table can be read from the slot after it as a line that no
  probe chain leaves: \<open>pos N e l\<close> is the slot at place \<open>l\<close>, \<open>place\<close> its inverse.
\<close>

definition pos :: "nat \<Rightarrow> nat \<Rightarrow> nat \<Rightarrow> nat" where "pos N e l = (Suc e + l) mod N"

definition place :: "nat \<Rightarrow> nat \<Rightarrow> nat \<Rightarrow> nat" where "place N e h = (h + N - Suc e) mod N"

definition lreach :: "('k, 'v) hashmap_entry list \<Rightarrow> nat \<Rightarrow> nat \<Rightarrow> nat \<Rightarrow> bool" where
  "lreach T e h l \<longleftrightarrow> place (length T) e h \<le> l \<and>
     (\<forall>m. place (length T) e h \<le> m \<longrightarrow> m < l \<longrightarrow> occ T (pos (length T) e m))"

lemma pos_less [simp]: "0 < N \<Longrightarrow> pos N e l < N" by (simp add: pos_def)

lemma pos_inj: "l < N \<Longrightarrow> m < N \<Longrightarrow> pos N e l = pos N e m \<longleftrightarrow> l = m"
  using add_mod_inj[of l N m "Suc e"] by (auto simp: pos_def)

lemma pos_place:
  assumes "h < N" "e < N" shows "pos N e (place N e h) = h"
proof -
  have "pos N e (place N e h) = (Suc e + (h + N - Suc e)) mod N"
    by (simp only: pos_def place_def mod_add_right_eq)
  also have "Suc e + (h + N - Suc e) = h + N" using assms by simp
  finally show ?thesis using assms by simp
qed

lemma place_less: "0 < N \<Longrightarrow> place N e h < N" by (simp add: place_def)

lemma pos_last: "e < N \<Longrightarrow> pos N e (N - 1) = e"
proof -
  assume "e < N"
  hence "Suc e + (N - 1) = e + N" by simp
  thus ?thesis using \<open>e < N\<close> by (simp add: pos_def del: add_Suc)
qed

lemma pos_add: "h < N \<Longrightarrow> e < N \<Longrightarrow> (h + j) mod N = pos N e (place N e h + j)"
  using pos_place[of h N e] by (metis add.assoc mod_add_left_eq mod_less pos_def)

lemma reaches_line:
  assumes "e < length T" "\<not> occ T e" "h < length T" "l < length T"
  shows "reaches T h (pos (length T) e l) \<longleftrightarrow> lreach T e h l"
proof -
  let ?N = "length T" let ?q = "place ?N e h"
  have N: "0 < ?N" and q: "?q < ?N" using assms place_less[of ?N e h] by linarith+
  have h: "(h + j) mod ?N = pos ?N e (?q + j)" for j using assms by (intro pos_add)
  show ?thesis
  proof
    assume "reaches T h (pos ?N e l)"
    then obtain d where d: "d < ?N" "pos ?N e l = pos ?N e (?q + d)"
        "\<And>j. j < d \<Longrightarrow> occ T (pos ?N e (?q + j))"
      by (auto simp: reaches_def h)
    have "?q + d < ?N"
    proof (rule ccontr)
      assume "\<not> ?q + d < ?N"
      hence "?N - 1 - ?q < d" using q by simp
      from d(3)[OF this] have "occ T (pos ?N e (?N - 1))" using q by simp
      thus False using assms(1,2) by (simp only: pos_last)
    qed
    hence l: "l = ?q + d" using d(2) assms(4) by (simp add: pos_inj)
    have "occ T (pos ?N e m)" if "?q \<le> m" "m < l" for m
      using d(3)[of "m - ?q"] that l by simp
    thus "lreach T e h l" using l by (simp add: lreach_def)
  next
    assume r: "lreach T e h l"
    hence "occ T (pos ?N e (?q + j))" if "j < l - ?q" for j using that by (auto simp: lreach_def)
    thus "reaches T h (pos ?N e l)" using r assms
      by (auto simp: reaches_def h lreach_def intro!: exI[of _ "l - ?q"])
  qed
qed

text \<open>The state of the loop with the hole at place \<open>s\<close> and the cursor at place \<open>t\<close>.\<close>

definition shift_inv :: "('k, 'v) hashmap_base \<Rightarrow> nat \<Rightarrow> nat \<Rightarrow> nat \<Rightarrow> bool" where
  "shift_inv hb e s t \<longleftrightarrow>
     (let N = slots hb; T = hb_table hb in
      s < t \<and> t < N \<and> e < N \<and> \<not> occ T e \<and>
      (\<forall>m. s \<le> m \<longrightarrow> m < t \<longrightarrow> occ T (pos N e m)) \<and>
      (\<forall>l < N. l \<noteq> s \<longrightarrow> (\<forall>k. e_key (T ! pos N e l) = Some k \<longrightarrow> lreach T e (home hb k) l)) \<and>
      (\<forall>l k. s < l \<longrightarrow> l < t \<longrightarrow> e_key (T ! pos N e l) = Some k \<longrightarrow> s < place N e (home hb k)))"

lemma shift_invI:
  assumes "s < t" "t < slots hb" "e < slots hb" "\<not> occ (hb_table hb) e"
    and "\<And>m. s \<le> m \<Longrightarrow> m < t \<Longrightarrow> occ (hb_table hb) (pos (slots hb) e m)"
    and "\<And>l k. l < slots hb \<Longrightarrow> l \<noteq> s \<Longrightarrow> e_key (hb_table hb ! pos (slots hb) e l) = Some k \<Longrightarrow>
      lreach (hb_table hb) e (home hb k) l"
    and "\<And>l k. s < l \<Longrightarrow> l < t \<Longrightarrow> e_key (hb_table hb ! pos (slots hb) e l) = Some k \<Longrightarrow>
      s < place (slots hb) e (home hb k)"
  shows "shift_inv hb e s t"
  using assms by (simp add: shift_inv_def Let_def)

lemma shift_invD:
  assumes "shift_inv hb e s t"
  shows "s < t" "t < slots hb" "e < slots hb" "\<not> occ (hb_table hb) e"
    and "s \<le> m \<Longrightarrow> m < t \<Longrightarrow> occ (hb_table hb) (pos (slots hb) e m)"
    and "l < slots hb \<Longrightarrow> l \<noteq> s \<Longrightarrow> e_key (hb_table hb ! pos (slots hb) e l) = Some k \<Longrightarrow>
      lreach (hb_table hb) e (home hb k) l"
    and "s < l \<Longrightarrow> l < t \<Longrightarrow> e_key (hb_table hb ! pos (slots hb) e l) = Some k \<Longrightarrow>
      s < place (slots hb) e (home hb k)"
  using assms by (simp_all add: shift_inv_def Let_def)

definition shift_done :: "('k, 'v) hashmap_base \<Rightarrow> nat \<Rightarrow> nat \<Rightarrow> bool" where
  "shift_done hb e s \<longleftrightarrow>
     (let N = slots hb; T = hb_table hb in
      s < N \<and> e < N \<and> \<not> occ T e \<and> occ T (pos N e s) \<and>
      (\<forall>l < N. l \<noteq> s \<longrightarrow> (\<forall>k. e_key (T ! pos N e l) = Some k \<longrightarrow>
         lreach T e (home hb k) l \<and> (s < l \<longrightarrow> s < place N e (home hb k)))))"

lemma shift_stop:
  assumes "shift_inv hb e s t" "length (hb_table hb) = slots hb"
    and "\<not> occ (hb_table hb) (pos (slots hb) e t) \<or>
      (\<forall>l. t \<le> l \<longrightarrow> l < slots hb \<longrightarrow> \<not> occ (hb_table hb) (pos (slots hb) e l))"
  shows "shift_done hb e s"
proof -
  let ?N = "slots hb" let ?T = "hb_table hb"
  note D = shift_invD[OF assms(1)]
  have "s < place ?N e (home hb k)"
    if l: "l < ?N" "s < l" and k: "e_key (?T ! pos ?N e l) = Some k" for l k
  proof (cases "l < t")
    case True thus ?thesis using D(7) l k by blast
  next
    case False
    have o: "occ ?T (pos ?N e l)" using k by (simp add: occ_def)
    hence nt: "\<not> occ ?T (pos ?N e t)" using assms(3) False l by auto
    hence "l \<noteq> t" using o by auto
    hence "t < l" using False by simp
    have "lreach ?T e (home hb k) l" using D(6) l k by simp
    hence "\<not> place ?N e (home hb k) \<le> t" using nt \<open>t < l\<close> unfolding lreach_def assms(2) by blast
    thus ?thesis using D(1) by simp
  qed
  moreover have "occ ?T (pos ?N e s)" "s < ?N" using D(1,2) D(5)[of s] by simp_all
  ultimately show ?thesis using D by (simp add: shift_done_def Let_def)
qed

lemma shift_advance:
  assumes "shift_inv hb e s t" "length (hb_table hb) = slots hb"
    and k: "e_key (hb_table hb ! pos (slots hb) e t) = Some k"
  shows "Suc t < slots hb" "place (slots hb) e (home hb k) \<le> t"
    and "s < place (slots hb) e (home hb k) \<Longrightarrow> shift_inv hb e s (Suc t)"
    and "place (slots hb) e (home hb k) \<le> s \<Longrightarrow>
      shift_inv (hb\<lparr>hb_table := (hb_table hb)[pos (slots hb) e s := hb_table hb ! pos (slots hb) e t]\<rparr>) e t (Suc t)"
proof -
  let ?N = "slots hb" let ?T = "hb_table hb"
  note I = assms(1)[unfolded shift_inv_def Let_def] and D = shift_invD[OF assms(1)]
  have ot: "occ ?T (pos ?N e t)" using k by (simp add: occ_def)
  show t: "Suc t < ?N"
  proof (rule ccontr)
    assume "\<not> Suc t < ?N"
    hence "t = ?N - 1" using I by linarith
    thus False using ot I pos_last[of e ?N] by simp
  qed
  have r: "lreach ?T e (home hb k) t" using I k by blast
  thus "place ?N e (home hb k) \<le> t" by (simp add: lreach_def assms(2))
  show "shift_inv hb e s (Suc t)" if "s < place ?N e (home hb k)"
    using I t ot k that by (auto simp: shift_inv_def Let_def less_Suc_eq)
  show "shift_inv (hb\<lparr>hb_table := ?T[pos ?N e s := ?T ! pos ?N e t]\<rparr>) e t (Suc t)"
    if h: "place ?N e (home hb k) \<le> s"
  proof -
    let ?T' = "?T[pos ?N e s := ?T ! pos ?N e t]"
    have sN: "s < ?N" using I by simp
    have ps: "pos ?N e s < length ?T" using sN by (simp add: assms(2))
    have os: "occ ?T (pos ?N e s)" using I by auto
    have occ': "occ ?T' = occ ?T" using os k by (auto simp: fun_eq_iff occ_update[OF ps])
    have lr: "lreach ?T' = lreach ?T" by (simp add: fun_eq_iff lreach_def occ')
    have lk: "lreach ?T e (home hb k') l"
      if l: "l < ?N" "l \<noteq> t" and k': "e_key (?T' ! pos ?N e l) = Some k'" for l k'
    proof (cases "l = s")
      case True
      hence "k' = k" using k' k ps by simp
      thus ?thesis using r h True I by (auto simp: lreach_def assms(2))
    next
      case False
      hence "pos ?N e l \<noteq> pos ?N e s" using l sN by (simp add: pos_inj)
      thus ?thesis using I l k' False by simp
    qed
    show ?thesis
    proof (rule shift_invI)
      fix m assume "t \<le> m" "m < Suc t"
      hence "m = t" by simp
      thus "occ (hb_table (hb\<lparr>hb_table := ?T'\<rparr>)) (pos (slots (hb\<lparr>hb_table := ?T'\<rparr>)) e m)"
        using ot by (simp add: occ')
    qed (use D t lk in \<open>simp_all add: occ' lr\<close>)
  qed
qed

lemma wrap_diff:
  assumes "q \<le> t" "t < N" shows "(t + N - q) mod N = t - (q :: nat)"
proof -
  have "t + N - q = (t - q) + N" using assms by simp
  hence "(t + N - q) mod N = (t - q) mod N" by (simp only: mod_add_self2)
  thus ?thesis using assms by simp
qed

lemma shift_loop_done:
  assumes "shift_inv hb e s t" "shaped hb"
    and "unat index = pos (slots hb) e t" "unat ridx = pos (slots hb) e s"
    and "card {l. t \<le> l \<and> l < slots hb \<and> occ (hb_table hb) (pos (slots hb) e l)} \<le> n"
  shows "\<exists>T r s'. shift_loop hb n index ridx = Some (hb\<lparr>hb_table := T\<rparr>, r) \<and>
     unat r = pos (slots hb) e s' \<and> shift_done (hb\<lparr>hb_table := T\<rparr>) e s' \<and> length T = slots hb \<and>
     mset (T[pos (slots hb) e s' := empty_entry]) = mset ((hb_table hb)[pos (slots hb) e s := empty_entry])"
  using assms
proof (induction n arbitrary: hb s t index ridx)
  case 0
  have "{l. t \<le> l \<and> l < slots hb \<and> occ (hb_table hb) (pos (slots hb) e l)} = {}"
    using 0(5) by (subst card_0_eq[symmetric]) simp_all
  hence "shift_done hb e s" using 0 by (intro shift_stop) (auto simp: shaped_length)
  thus ?case using 0 by (intro exI[of _ "hb_table hb"] exI[of _ ridx] exI[of _ s]) (simp add: shaped_length)
next
  case (Suc n)
  let ?N = "slots hb" let ?T = "hb_table hb"
  note D = shift_invD[OF Suc.prems(1)]
  have N: "0 < ?N" and len: "length ?T = ?N" using D Suc.prems(2) by (simp_all add: shaped_length)
  have pt: "pos ?N e t < length ?T" and ps: "pos ?N e s < length ?T" using N len by simp_all
  show ?case
  proof (cases "e_key (?T ! pos ?N e t)")
    case None
    hence "\<not> occ ?T (pos ?N e t)" by (simp add: occ_def)
    hence "shift_done hb e s" using shift_stop[OF Suc.prems(1) len] by blast
    thus ?thesis using None Suc.prems pt
      by (intro exI[of _ ?T] exI[of _ ridx] exI[of _ s]) (simp add: len)
  next
    case (Some k)
    note adv = shift_advance[OF Suc.prems(1) len Some]
    let ?q = "place ?N e (home hb k)"
    have q: "?q \<le> t" "?q < ?N" using adv(2) place_less[OF N] by simp_all
    have hq: "unat (hashmap_calc_index hb k) = (Suc e + ?q) mod ?N"
      using pos_place[OF home_less[OF Suc.prems(2) N] D(3), of k] by (simp add: home_def pos_def)
    have d1: "unat (HASHMAP_SIZE_MOD hb (index - hashmap_calc_index hb k)) = t - ?q"
      using SIZE_MOD_diff[OF Suc.prems(2) N Suc.prems(3)[unfolded pos_def] hq] q D(2) wrap_diff[OF q(1) D(2)] by simp
    have d2: "unat (HASHMAP_SIZE_MOD hb (ridx - hashmap_calc_index hb k)) = (s + ?N - ?q) mod ?N"
      using SIZE_MOD_diff[OF Suc.prems(2) N Suc.prems(4)[unfolded pos_def] hq] q D(2) by simp
    have test: "(HASHMAP_SIZE_MOD hb (index - hashmap_calc_index hb k) >
        HASHMAP_SIZE_MOD hb (ridx - hashmap_calc_index hb k)) \<longleftrightarrow> ?q \<le> s"
    proof (cases "?q \<le> s")
      case True
      hence "(s + ?N - ?q) mod ?N = s - ?q" using D(1,2) by (intro wrap_diff) simp_all
      thus ?thesis using True D(1) by (simp add: word_less_nat_alt d1 d2)
    next
      case False
      hence "(s + ?N - ?q) mod ?N = s + ?N - ?q" using q D(1,2) by (intro mod_less) linarith
      thus ?thesis using False D(2) by (simp add: word_less_nat_alt d1 d2)
    qed
    have nx: "unat (HASHMAP_PROBE_NEXT hb index) = pos ?N e (Suc t)"
      using PROBE_NEXT_unat[OF Suc.prems(2) N Suc.prems(3)[unfolded pos_def]] by (simp add: pos_def)
    have "{l. t \<le> l \<and> l < ?N \<and> occ ?T (pos ?N e l)} = insert t {l. Suc t \<le> l \<and> l < ?N \<and> occ ?T (pos ?N e l)}"
      using D(2) Some by (auto simp: occ_def)
    hence card: "card {l. Suc t \<le> l \<and> l < ?N \<and> occ ?T (pos ?N e l)} \<le> n" using Suc.prems(5) by simp
    show ?thesis
    proof (cases "?q \<le> s")
      case False
      hence "shift_inv hb e s (Suc t)" using adv(3) by simp
      from Suc.IH[OF this Suc.prems(2) nx Suc.prems(4) card] show ?thesis
        using Some pt test False Suc.prems(3) by (simp add: Let_def)
    next
      case True
      let ?T' = "?T[pos ?N e s := ?T ! pos ?N e t]"
      let ?hb = "hb\<lparr>hb_table := ?T'\<rparr>"
      have "occ ?T' (pos ?N e l) = occ ?T (pos ?N e l)" if "Suc t \<le> l" "l < ?N" for l
        using that D(1,2) pos_inj[of l ?N s e] ps by (simp add: occ_def)
      hence card': "card {l. Suc t \<le> l \<and> l < slots ?hb \<and> occ (hb_table ?hb) (pos (slots ?hb) e l)} \<le> n"
        using card by (simp cong: conj_cong)
      have sh: "shaped ?hb" using Suc.prems(2) by (simp add: shaped_def)
      have nx': "unat (HASHMAP_PROBE_NEXT hb index) = pos (slots ?hb) e (Suc t)" using nx by simp
      have rx: "unat index = pos (slots ?hb) e t" using Suc.prems(3) by simp
      from Suc.IH[OF adv(4)[OF True] sh nx' rx card'] obtain T r s' where R:
        "shift_loop ?hb n (HASHMAP_PROBE_NEXT hb index) index = Some (hb\<lparr>hb_table := T\<rparr>, r)"
        "unat r = pos ?N e s'" "shift_done (hb\<lparr>hb_table := T\<rparr>) e s'" "length T = ?N"
        "mset (T[pos ?N e s' := empty_entry]) = mset (?T'[pos ?N e t := empty_entry])"
        by auto
      have "s \<noteq> t" using D(1) by simp
      hence ne: "pos ?N e s \<noteq> pos ?N e t" using D(1,2) by (simp add: pos_inj)
      have "mset (?T'[pos ?N e t := empty_entry]) = mset (?T[pos ?N e s := empty_entry])"
        using ne pt ps by (simp add: mset_update multiset_eq_iff)
      thus ?thesis using R Some pt ps test True Suc.prems(3,4)
        by (intro exI[of _ T] exI[of _ r] exI[of _ s']) (simp add: Let_def)
    qed
  qed
qed

lemma shift_done_clear:
  assumes "shift_done hb e s" "shaped hb"
  shows "chained (home hb) ((hb_table hb)[pos (slots hb) e s := empty_entry])"
proof -
  let ?N = "slots hb" let ?T = "hb_table hb" let ?U = "?T[pos ?N e s := empty_entry]"
  note I = assms(1)[unfolded shift_done_def Let_def]
  have len: "length ?T = ?N" "length ?U = ?N" using assms(2) by (simp_all add: shaped_length)
  have N: "0 < ?N" and ps: "pos ?N e s < length ?T" using I len by auto
  have oU: "occ ?U (pos ?N e m) \<longleftrightarrow> m \<noteq> s \<and> occ ?T (pos ?N e m)" if "m < ?N" for m
    using that I pos_inj[of m ?N s e] by (simp add: occ_update[OF ps])
  show ?thesis
    unfolding chained_def
  proof (intro allI impI)
    fix i k assume i: "i < length ?U" and k: "e_key (?U ! i) = Some k"
    define l where "l = place ?N e i"
    have l: "l < ?N" "i = pos ?N e l" using i N I len by (simp_all add: l_def place_less pos_place)
    have ls: "l \<noteq> s" using k l ps by auto
    hence "i \<noteq> pos ?N e s" using l I by (simp add: pos_inj)
    hence kT: "e_key (?T ! pos ?N e l) = Some k" using k l(2) by simp
    hence r: "lreach ?T e (home hb k) l" "s < l \<longrightarrow> s < place ?N e (home hb k)" using I l ls by blast+
    have "lreach ?U e (home hb k) l"
      unfolding lreach_def len
    proof (intro conjI allI impI)
      show q: "place ?N e (home hb k) \<le> l" using r by (simp add: lreach_def len)
      fix m assume m: "place ?N e (home hb k) \<le> m" "m < l"
      have "occ ?T (pos ?N e m)" using r(1) m by (simp add: lreach_def len)
      moreover have "m \<noteq> s" using r(2) m ls by auto
      ultimately show "occ ?U (pos ?N e m)" using oU[of m] m l by simp
    qed
    moreover have "\<not> occ ?U e" using I len by (simp add: occ_update[OF ps])
    ultimately show "reaches ?U (home hb k) i"
      using reaches_line[of e ?U "home hb k" l] I l home_less[OF assms(2) N] by (simp add: len)
  qed
qed

lemma occupied_mset: "mset T = mset U \<Longrightarrow> occupied T = occupied U"
  by (simp add: occupied_def) (metis mset_filter size_mset)

lemma ents_mset: "mset T = mset U \<Longrightarrow> ents T = ents U"
  by (auto simp: ents_def dest: mset_eq_setD)

context hash_contract begin

lemma uniq_filter:
  "uniq compare T \<longleftrightarrow> (\<forall>e \<in> set T. \<forall>k. e_key e = Some k \<longrightarrow> length (filter (matches compare k) T) = 1)"
proof -
  have "(\<forall>j < length T. matches compare k (T ! j) \<longrightarrow> i = j) \<longleftrightarrow> length (filter (matches compare k) T) = 1"
    if i: "i < length T" "e_key (T ! i) = Some k" for i k
  proof -
    have self: "matches compare k (T ! i)" using i by (simp add: matches_Some compare_refl)
    define S where "S = {j. j < length T \<and> matches compare k (T ! j)}"
    have "i \<in> S" using i self by (simp add: S_def)
    hence "S = {i} \<longleftrightarrow> card S = 1" by (auto simp: card_Suc_eq)
    moreover have "S = {i} \<longleftrightarrow> (\<forall>j \<in> S. i = j)" using \<open>i \<in> S\<close> by auto
    moreover have "(\<forall>j \<in> S. i = j) \<longleftrightarrow> (\<forall>j < length T. matches compare k (T ! j) \<longrightarrow> i = j)"
      unfolding S_def by blast
    moreover have "length (filter (matches compare k) T) = card S"
      by (simp add: length_filter_conv_card S_def)
    ultimately show ?thesis by simp
  qed
  thus ?thesis unfolding uniq_def all_set_conv_all_nth by blast
qed

lemma uniq_mset: "mset T = mset U \<Longrightarrow> uniq compare U \<Longrightarrow> uniq compare T"
  unfolding uniq_filter by (metis mset_eq_setD mset_filter size_mset)

lemma lookup_remove:
  assumes "uniq compare T" "i < length T" "matches compare key (T ! i)"
  shows "uniq compare (T[i := empty_entry])"
    and "lookup compare (T[i := empty_entry]) l = (if compare l key = 0 then None else lookup compare T l)"
proof -
  let ?U = "T[i := empty_entry]"
  show u: "uniq compare ?U" using assms(1,2) by (auto simp: uniq_def nth_list_update)
  show "lookup compare ?U l = (if compare l key = 0 then None else lookup compare T l)"
  proof (cases "\<exists>j < length T. j \<noteq> i \<and> matches compare l (T ! j)")
    case True
    then obtain j where j: "j < length T" "j \<noteq> i" "matches compare l (T ! j)" by blast
    have "compare l key \<noteq> 0"
    proof
      assume "compare l key = 0"
      hence "matches compare l (T ! i)" using assms(3) matches_trans by blast
      thus False using matches_unique[OF assms(1)] j assms(2) by blast
    qed
    thus ?thesis using lookup_Some[OF u, of j l] lookup_Some[OF assms(1), of j l] j by simp
  next
    case False
    hence n: "lookup compare ?U l = None"
    proof (intro lookup_None)
      fix j assume "j < length ?U"
      thus "\<not> matches compare l (?U ! j)" using False assms(2) by (cases "j = i") auto
    qed
    have "lookup compare T l = None" if "compare l key \<noteq> 0"
    proof (rule lookup_None)
      fix j assume "j < length T"
      obtain k where k: "e_key (T ! i) = Some k" "compare key k = 0"
        using assms(3) by (auto simp: matches_def split: option.splits)
      have "\<not> matches compare l (T ! i)"
        using that k(2) compare_trans[of l "the (e_key (T ! i))" key] compare_sym[OF k(2)] k(1)
        by (auto simp: matches_Some)
      thus "\<not> matches compare l (T ! j)" using False \<open>j < length T\<close> by (cases "j = i") auto
    qed
    thus ?thesis using n by simp
  qed
qed

end

lemma free_key_simps [simp]:
  "hb_table (free_key k hb) = hb_table hb" "hb_table_size (free_key k hb) = hb_table_size hb"
  "hb_size (free_key k hb) = hb_size hb" "hb_hash (free_key k hb) = hb_hash hb"
  "hb_compare (free_key k hb) = hb_compare hb" "hb_key_dup (free_key k hb) = hb_key_dup hb"
  "hb_key_free (free_key k hb) = hb_key_free hb" "hb_table_size_init (free_key k hb) = hb_table_size_init hb"
  "home (free_key k hb) = home hb" "slots (free_key k hb) = slots hb" "shaped (free_key k hb) = shaped hb"
  by (simp_all add: free_key_def)

lemma unat_index: "i < slots hb \<Longrightarrow> unat (of_nat i :: u64) = i"
proof -
  assume "i < slots hb"
  also have "slots hb < 2 ^ 64" using unsigned_less[of "hb_table_size hb"] by (simp add: slots_def)
  finally show ?thesis by (simp add: unat_of_nat)
qed

lemma entry_remove_table:
  assumes inv: "hm_inv hb" and i: "i < slots hb" "e_key (hb_table hb ! i) = Some k" and room: "roomy hb"
  shows "\<exists>T. hashmap_entry_remove hb i = Some ((free_key (Some k) hb)\<lparr>hb_size := hb_size hb - 1, hb_table := T\<rparr>) \<and>
     length T = slots hb \<and> chained (home hb) T \<and> mset T = mset ((hb_table hb)[i := empty_entry])"
proof -
  note I = hm_invD[OF inv]
  let ?N = "slots hb" let ?T = "hb_table hb"
  let ?hb = "(free_key (Some k) hb)\<lparr>hb_size := hb_size hb - 1\<rparr>"
  have N: "0 < ?N" using i by simp
  have "occupied ?T < length ?T" using room I by (simp add: roomy_def slots_def word_less_nat_alt)
  then obtain e where e: "e < ?N" "\<not> occ ?T e" using occupied_free[of ?T] I by auto
  define s where "s = place ?N e i"
  have s: "s < ?N" "pos ?N e s = i" using i e N by (simp_all add: s_def place_less pos_place)
  have "s \<noteq> ?N - 1"
    using e i s(2) pos_last[of e ?N] by (auto simp: occ_def)
  hence t: "Suc s < ?N" using s by simp
  have reach: "lreach ?T e (home hb k') l" if "l < ?N" "e_key (?T ! pos ?N e l) = Some k'" for l k'
    using that reaches_line[of e ?T "home hb k'" l] e I N home_less[OF I(2) N] I(1)
    by (auto simp: table_ok_def chained_def)
  have si: "shift_inv ?hb e s (Suc s)"
  proof (rule shift_invI)
    fix m assume "s \<le> m" "m < Suc s"
    hence "m = s" by simp
    thus "occ (hb_table ?hb) (pos (slots ?hb) e m)" using i s by (simp add: occ_def)
  qed (use t e reach in simp_all)
  have sh: "shaped ?hb" using I by simp
  have nx: "unat (HASHMAP_PROBE_NEXT ?hb (of_nat i)) = pos (slots ?hb) e (Suc s)"
    using PROBE_NEXT_unat[of ?hb "of_nat i" "Suc e + s"] sh N s(2) unat_index[OF i(1)] by (simp add: pos_def)
  have rx: "unat (of_nat i :: u64) = pos (slots ?hb) e s" using s unat_index[OF i(1)] by simp
  have pos1: "1 \<le> occupied ?T"
    using i I occupied_0[of ?T] by (cases "occupied ?T") (auto simp: ents_def)
  have sz: "unat (hb_size hb - 1) = occupied ?T - 1"
    using pos1 I(6) by (subst unat_sub) (simp_all add: word_le_nat_alt)
  have card: "card {l. Suc s \<le> l \<and> l < slots ?hb \<and> occ (hb_table ?hb) (pos (slots ?hb) e l)} \<le> unat (hb_size hb - 1)"
  proof -
    let ?S = "{l. Suc s \<le> l \<and> l < ?N \<and> occ ?T (pos ?N e l)}" and ?O = "{j. j < length ?T \<and> occ ?T j}"
    have inj: "inj_on (pos ?N e) ?S" by (auto simp: inj_on_def pos_inj)
    have sub: "pos ?N e ` ?S \<subseteq> ?O - {i}"
    proof
      fix x assume "x \<in> pos ?N e ` ?S"
      then obtain l where l: "Suc s \<le> l" "l < ?N" "occ ?T (pos ?N e l)" "x = pos ?N e l" by auto
      have "x \<noteq> i" using l s pos_inj[of l ?N s e] by auto
      thus "x \<in> ?O - {i}" using l N I by simp
    qed
    have "i \<in> ?O" using i I by (simp add: occ_def)
    hence "card (?O - {i}) = occupied ?T - 1" by (simp add: occupied_card)
    moreover have "card (pos ?N e ` ?S) \<le> card (?O - {i})" using sub by (intro card_mono) simp_all
    ultimately show ?thesis using card_image[OF inj] sz by simp
  qed
  obtain T r s' where R: "shift_loop ?hb (unat (hb_size hb - 1)) (HASHMAP_PROBE_NEXT ?hb (of_nat i)) (of_nat i)
        = Some (?hb\<lparr>hb_table := T\<rparr>, r)"
    "unat r = pos ?N e s'" "shift_done (?hb\<lparr>hb_table := T\<rparr>) e s'" "length T = ?N"
    "mset (T[pos ?N e s' := empty_entry]) = mset (?T[pos ?N e s := empty_entry])"
    using shift_loop_done[OF si sh nx rx card] by auto
  have "chained (home hb) (T[pos ?N e s' := empty_entry])"
    using shift_done_clear[OF R(3)] R(4) I(2) by (simp add: shaped_def slots_def)
  moreover have "hashmap_entry_remove hb i =
      Some (?hb\<lparr>hb_table := T[pos ?N e s' := empty_entry]\<rparr>)"
    using i I R(1,2,4) N by (simp add: hashmap_entry_remove_def Let_def)
  ultimately show ?thesis using R s by (intro exI[of _ "T[pos ?N e s' := empty_entry]"]) simp
qed

lemma entry_remove_refines:
  assumes hc: "hash_contract (hb_hash hb) (hb_compare hb)" and inv: "hm_inv hb" and room: "roomy hb"
    and i: "i < slots hb" "e_key (hb_table hb ! i) = Some k"
  shows "\<exists>hb'. hashmap_entry_remove hb i = Some hb' \<and> hm_inv hb' \<and> same_config hb hb' \<and> roomy hb' \<and>
     hm_map hb' = hm_update hb k None \<and> hb_size hb' = hb_size hb - 1 \<and> slots hb' = slots hb \<and>
     ents (hb_table hb') = ents (hb_table hb) - {hb_table hb ! i} \<and>
     hb_freed hb' = hb_freed hb @ (if hb_key_free hb then [k] else [])"
proof -
  note I = hm_invD[OF inv]
  let ?T = "hb_table hb"
  obtain T where T: "hashmap_entry_remove hb i = Some ((free_key (Some k) hb)\<lparr>hb_size := hb_size hb - 1, hb_table := T\<rparr>)"
      "length T = slots hb" "chained (home hb) T" "mset T = mset (?T[i := empty_entry])"
    using entry_remove_table[OF inv i room] by blast
  let ?hb = "(free_key (Some k) hb)\<lparr>hb_size := hb_size hb - 1, hb_table := T\<rparr>"
  have m: "matches (hb_compare hb) k (?T ! i)"
    using i hash_contract.compare_refl[OF hc] by (simp add: matches_Some)
  have iT: "i < length ?T" using i I by simp
  note lr = hash_contract.lookup_remove[OF hc I(3) iT m]
  have u: "uniq (hb_compare hb) T" using hash_contract.uniq_mset[OF hc T(4) lr(1)] .
  have "Suc (occupied (?T[i := empty_entry])) = occupied ?T"
    using occupied_update[OF iT, of empty_entry] i by (simp add: occ_def)
  hence o: "Suc (occupied T) = occupied ?T" using occupied_mset[OF T(4)] by simp
  hence "1 \<le> hb_size hb" using I(6) by (simp add: word_le_nat_alt)
  hence sz: "unat (hb_size hb - 1) = occupied T" using o I(6) by (simp add: unat_sub)
  have en: "ents T = ents ?T - {?T ! i}"
  proof -
    have "?T ! j \<noteq> ?T ! i" if "j < slots hb" "j \<noteq> i" for j
      using that m hash_contract.matches_unique[OF hc I(3), of j i k] I(5) iT by auto
    thus ?thesis unfolding ents_mset[OF T(4)] using iT I(5)
      by (auto simp: ents_nth occ_update nth_list_update) metis
  qed
  have "table_ok ?hb" using I(2) T u by (simp add: table_ok_def shaped_def slots_def home_def)
  hence inv': "hm_inv ?hb" using inv sz I(7) en by (auto simp: hm_inv_def slots_def sane_init_def)
  have "hm_map ?hb = hm_update hb k None"
    using hash_contract.lookup_cong[OF hc u lr(1) ents_mset[OF T(4)]] lr(2)
    by (simp add: hm_map_def hm_update_def fun_eq_iff)
  moreover have "roomy ?hb" using room sz o I(6) by (simp add: roomy_def word_less_nat_alt)
  ultimately show ?thesis using T(1) inv' en
    by (simp add: same_config_def slots_def) (simp add: free_key_def)
qed

lemma remove_refines:
  assumes hc: "hash_contract (hb_hash hb) (hb_compare hb)" and inv: "hm_inv hb" and room: "roomy hb"
  shows "\<exists>hb'. hashmap_base_remove hb (Some key) = Some (hm_map hb key, hb') \<and> hm_inv hb' \<and>
     same_config hb hb' \<and> roomy hb' \<and> hm_map hb' = hm_update hb key None \<and>
     hb_size hb' = hb_size hb - (if hm_map hb key = None then 0 else 1)"
proof (cases "hm_map hb key = None")
  case False
  then obtain i where i: "i < slots hb" "matches (hb_compare hb) key (hb_table hb ! i)"
    using hm_map_None[OF hc inv, of key] by auto
  hence f: "hashmap_entry_find hb key False = Some (Some i)"
    by (intro hash_contract.find_entry_match[OF hc]) (simp_all add: hm_invD[OF inv])
  obtain k where k: "e_key (hb_table hb ! i) = Some k" "hb_compare hb key k = 0"
    using i(2) by (auto simp: matches_def split: option.splits)
  have "hm_update hb k None = hm_update hb key None"
    using hash_contract.compare_trans[OF hc] hash_contract.compare_sym[OF hc] k(2)
    unfolding hm_update_def fun_eq_iff by metis
  thus ?thesis using entry_remove_refines[OF hc inv room i(1) k(1)] f i hm_invD(5)[OF inv] False
      hm_map_match(1)[OF inv i hc] by (auto simp: hashmap_base_remove_def)
next
  case True
  have no: "\<And>i. i < slots hb \<Longrightarrow> \<not> matches (hb_compare hb) key (hb_table hb ! i)"
    using True hm_map_None[OF hc inv] by simp
  have "occupied (hb_table hb) < slots hb"
    using room hm_invD(6)[OF inv] by (simp add: roomy_def slots_def word_less_nat_alt)
  hence "hashmap_entry_find hb key False = Some None"
    using find_entry_free[OF hm_invD(1)[OF inv] no, of False] by auto
  moreover have "hm_update hb key None = hm_map hb"
  proof
    fix l
    have "hm_map hb l = None" if "hb_compare hb l key = 0"
    proof -
      have "\<not> matches (hb_compare hb) l (hb_table hb ! i)" if "i < slots hb" for i
        using no[OF that] hash_contract.matches_trans[OF hc hash_contract.compare_sym[OF hc \<open>hb_compare hb l key = 0\<close>]] by blast
      thus ?thesis using hm_map_None[OF hc inv] by simp
    qed
    thus "hm_update hb key None l = hm_map hb l" by (simp add: hm_update_def)
  qed
  ultimately show ?thesis using True inv room by (simp add: hashmap_base_remove_def)
qed

section \<open>Iteration, clearing and reserving\<close>

text \<open>
  The loop of \<open>hashmap_foreach_data\<close> (\<open>include/ytdl/hashmap.h\<close>), with the data the body sees
  in order; \<open>n\<close> bounds the number of rounds.
\<close>

fun foreach_data :: "nat \<Rightarrow> ('k, 'v) hashmap_base \<Rightarrow> nat option \<Rightarrow> 'v list option" where
  "foreach_data 0 hb iter = None"
| "foreach_data (Suc n) hb iter =
     (case hashmap_base_iter_get_data hb iter of
        None \<Rightarrow> None
      | Some None \<Rightarrow> Some []
      | Some (Some d) \<Rightarrow>
          (case hashmap_base_iter_next hb iter of
             None \<Rightarrow> None
           | Some (_, iter) \<Rightarrow> map_option ((#) d) (foreach_data n hb iter)))"

definition hashmap_foreach_data :: "nat \<Rightarrow> ('k, 'v) hashmap_base \<Rightarrow> 'v list option" where
  "hashmap_foreach_data n hb =
    (case hashmap_base_iter hb None of None \<Rightarrow> None | Some iter \<Rightarrow> foreach_data n hb iter)"

lemma populated_loop: "i + n = length T \<Longrightarrow> populated_loop T n i = Some (find (occ T) [i..<length T])"
proof (induction n arbitrary: i)
  case (Suc n)
  have "[i..<length T] = i # [Suc i..<length T]" using Suc.prems by (simp add: upt_conv_Cons)
  thus ?case using Suc by (auto simp: occ_def)
qed simp

lemma get_populated:
  assumes "hm_inv hb" "i \<le> slots hb"
  shows "hashmap_entry_get_populated hb i = Some (find (occ (hb_table hb)) [i..<slots hb])"
proof (cases "hb_size hb = 0")
  case True
  hence "ents (hb_table hb) = {}" using hm_invD(6)[OF assms(1)] occupied_0[of "hb_table hb"] by simp
  hence "find (occ (hb_table hb)) [i..<slots hb] = None"
    using hm_invD(5)[OF assms(1)] by (auto simp: find_None_iff ents_nth)
  thus ?thesis using True by (simp add: hashmap_entry_get_populated_def)
next
  case False
  thus ?thesis using populated_loop[of i "slots hb - i" "hb_table hb"] assms hm_invD(5)[OF assms(1)]
    by (simp add: hashmap_entry_get_populated_def slots_def[symmetric] word_gt_0)
qed

lemma find_upt_filter:
  "find P [i..<n] = Some j \<Longrightarrow> filter P [i..<n] = j # filter P [Suc j..<n] \<and> i \<le> j \<and> j < n \<and> P j"
proof (induction "n - i" arbitrary: i)
  case (Suc m)
  hence "[i..<n] = i # [Suc i..<n]" by (simp add: upt_conv_Cons)
  moreover have "m = n - Suc i" using Suc.hyps(2) by simp
  ultimately show ?case using Suc.hyps(1)[of "Suc i"] Suc.prems Suc.hyps(2) by (cases "P i") auto
qed simp

lemma foreach_data_spec:
  assumes "hm_inv hb" "i \<le> slots hb" "slots hb - i < n"
  shows "foreach_data n hb (find (occ (hb_table hb)) [i..<slots hb]) =
     Some (map (\<lambda>j. the (e_data (hb_table hb ! j))) (filter (occ (hb_table hb)) [i..<slots hb]))"
  using assms(2,3)
proof (induction n arbitrary: i)
  case (Suc n)
  let ?f = "find (occ (hb_table hb)) [i..<slots hb]"
  note I = hm_invD[OF assms(1)]
  show ?case
  proof (cases ?f)
    case None
    hence "filter (occ (hb_table hb)) [i..<slots hb] = []" by (simp add: find_None_iff filter_empty_conv)
    thus ?thesis using None by (simp add: hashmap_base_iter_get_data_def)
  next
    case (Some j)
    note f = find_upt_filter[OF Some]
    have j: "i \<le> j" "j < slots hb" "occ (hb_table hb) j" using f by auto
    have "hb_table hb ! j \<in> ents (hb_table hb)" using j I(5) by (auto simp: ents_nth)
    then obtain d where d: "e_data (hb_table hb ! j) = Some d" using I(7) by auto
    have g: "hashmap_entry_get_populated hb (Suc j) = Some (find (occ (hb_table hb)) [Suc j..<slots hb])"
      using j by (intro get_populated[OF assms(1)]) simp
    have "foreach_data n hb (find (occ (hb_table hb)) [Suc j..<slots hb]) =
       Some (map (\<lambda>j. the (e_data (hb_table hb ! j))) (filter (occ (hb_table hb)) [Suc j..<slots hb]))"
      using j Suc.prems by (intro Suc.IH) simp_all
    thus ?thesis using Some d g j I(5) f
      by (simp add: hashmap_base_iter_get_data_def hashmap_base_iter_next_def)
  qed
qed simp

lemma foreach_refines:
  assumes "hm_inv hb" "slots hb < n"
  shows "hashmap_foreach_data n hb = Some (map (the \<circ> e_data) (filter (\<lambda>e. e_key e \<noteq> None) (hb_table hb)))"
proof -
  have "map (\<lambda>j. the (e_data (hb_table hb ! j))) (filter (occ (hb_table hb)) [0..<slots hb])
     = map (the \<circ> e_data) (filter (\<lambda>e. e_key e \<noteq> None) (map ((!) (hb_table hb)) [0..<slots hb]))"
    by (simp add: filter_map o_def occ_def[abs_def])
  also have "map ((!) (hb_table hb)) [0..<slots hb] = hb_table hb"
    using hm_invD(5)[OF assms(1)] map_nth[of "hb_table hb"] by simp
  finally show ?thesis using foreach_data_spec[OF assms(1), of 0 n] assms get_populated[OF assms(1), of 0]
    by (simp add: hashmap_foreach_data_def hashmap_base_iter_def)
qed

lemma entries_map:
  assumes hc: "hash_contract (hb_hash hb) (hb_compare hb)" and inv: "hm_inv hb"
  shows "e \<in> ents (hb_table hb) \<longleftrightarrow>
    (\<exists>k d. e = \<lparr>e_key = Some k, e_data = Some d\<rparr> \<and> e \<in> set (hb_table hb) \<and> hm_map hb k = Some d)"
proof
  assume e: "e \<in> ents (hb_table hb)"
  then obtain k where k: "e_key e = Some k" by (auto simp: ents_def)
  obtain d where d: "e_data e = Some d" using hm_invD(7)[OF inv e] by auto
  have "matches (hb_compare hb) k e" using k hash_contract.compare_refl[OF hc] by (simp add: matches_Some)
  hence "hm_map hb k = Some d"
    using hash_contract.lookup_ents[OF hc hm_invD(3)[OF inv] e] d by (simp add: hm_map_def)
  moreover have "e = \<lparr>e_key = Some k, e_data = Some d\<rparr>" using k d by (cases e) simp
  ultimately show "\<exists>k d. e = \<lparr>e_key = Some k, e_data = Some d\<rparr> \<and> e \<in> set (hb_table hb) \<and> hm_map hb k = Some d"
    using e by (auto simp: ents_def)
qed (auto simp: ents_def)

lemma free_fold_simps [simp]:
  "hb_table (fold (\<lambda>e. free_key (e_key e)) T hb) = hb_table hb"
  "hb_table_size (fold (\<lambda>e. free_key (e_key e)) T hb) = hb_table_size hb"
  "hb_size (fold (\<lambda>e. free_key (e_key e)) T hb) = hb_size hb"
  "hb_compare (fold (\<lambda>e. free_key (e_key e)) T hb) = hb_compare hb"
  "hb_hash (fold (\<lambda>e. free_key (e_key e)) T hb) = hb_hash hb"
  "hb_table_size_init (fold (\<lambda>e. free_key (e_key e)) T hb) = hb_table_size_init hb"
  "hb_key_dup (fold (\<lambda>e. free_key (e_key e)) T hb) = hb_key_dup hb"
  "hb_key_free (fold (\<lambda>e. free_key (e_key e)) T hb) = hb_key_free hb"
  by (induction T arbitrary: hb) simp_all

lemma free_keys_simps [simp]:
  "hb_table (hashmap_free_keys hb) = hb_table hb"
  "hb_table_size (hashmap_free_keys hb) = hb_table_size hb"
  "hb_size (hashmap_free_keys hb) = hb_size hb"
  "hb_compare (hashmap_free_keys hb) = hb_compare hb"
  "hb_hash (hashmap_free_keys hb) = hb_hash hb"
  "hb_table_size_init (hashmap_free_keys hb) = hb_table_size_init hb"
  "hb_key_dup (hashmap_free_keys hb) = hb_key_dup hb"
  "hb_key_free (hashmap_free_keys hb) = hb_key_free hb"
  by (simp_all add: hashmap_free_keys_def)

lemma free_fold_freed: "hb_key_free hb \<Longrightarrow> hb_freed (fold (\<lambda>e. free_key (e_key e)) T hb) =
    hb_freed hb @ map (the \<circ> e_key) (filter (\<lambda>e. e_key e \<noteq> None) T)"
  by (induction T arbitrary: hb) (auto simp: free_key_def)

text \<open>Every live key is freed, once, and in the order of the table.\<close>

lemma free_keys_freed:
  assumes "hm_inv hb"
  shows "hb_freed (hashmap_free_keys hb) =
    hb_freed hb @ (if hb_key_free hb then map (the \<circ> e_key) (filter (\<lambda>e. e_key e \<noteq> None) (hb_table hb)) else [])"
proof -
  have "hb_size hb = 0 \<Longrightarrow> filter (\<lambda>e. e_key e \<noteq> None) (hb_table hb) = []"
    using hm_invD(6)[OF assms] by (simp add: occupied_def)
  thus ?thesis using free_fold_freed[of hb "hb_table hb"] by (auto simp: hashmap_free_keys_def)
qed

lemma empty_inv:
  assumes "sane_init hb" "hb_size hb = 0" "slots hb = 0 \<or> 32 \<le> slots hb" "shaped hb"
    "hb_table hb = replicate n empty_entry"
  shows "hm_inv hb" "hm_map hb = Map.empty"
proof -
  show "hm_inv hb" using assms empty_table_ok[of hb n] by (simp add: hm_inv_def)
  show "hm_map hb = Map.empty"
    using assms by (auto simp: hm_map_def fun_eq_iff intro!: lookup_None)
qed

lemma clear_refines:
  assumes "hm_inv hb"
  shows "hm_inv (hashmap_base_clear hb)" "hm_map (hashmap_base_clear hb) = Map.empty"
    "same_config hb (hashmap_base_clear hb)"
  using assms empty_inv[of "hashmap_base_clear hb" "slots hb"]
  by (simp_all add: hashmap_base_clear_def Let_def same_config_def hm_inv_def sane_init_def
      slots_def shaped_def table_ok_def)

lemma sane_init_bounds:
  assumes "sane_init hb"
  shows "32 \<le> unat (hb_table_size_init hb)" "\<exists>k < 64. hb_table_size_init hb = 2 ^ k"
proof -
  obtain k where k: "5 \<le> k" "k < 31" "hb_table_size_init hb = 2 ^ k" using assms by (auto simp: sane_init_def)
  have "(32::nat) \<le> 2 ^ k" using power_increasing[of 5 k "2::nat"] k by simp
  thus "32 \<le> unat (hb_table_size_init hb)" using k by (simp add: unat_exp64)
  show "\<exists>k < 64. hb_table_size_init hb = 2 ^ k" using k by (intro exI[of _ k]) simp
qed

lemma reset_refines:
  assumes "hm_inv hb"
  shows "hm_inv (hashmap_base_reset ok hb)" "hm_map (hashmap_base_reset ok hb) = Map.empty"
    "same_config hb (hashmap_base_reset ok hb)"
  using assms empty_inv[of "hashmap_base_reset ok hb" "slots (hashmap_base_reset ok hb)"]
    sane_init_bounds[of hb]
  by (simp_all add: hashmap_base_reset_def Let_def same_config_def hm_inv_def sane_init_def
      slots_def shaped_def table_ok_def)

definition reserved :: "nat \<Rightarrow> ('k, 'v) hashmap_base \<Rightarrow> bool" where
  "reserved cap hb \<longleftrightarrow> hb_table_size_init hb \<le> hb_table_size hb \<and>
     cap + cap div 3 \<le> unat (hb_table_size_init hb)"

lemma reserve_refines:
  assumes hc: "hash_contract (hb_hash hb) (hb_compare hb)" and inv: "hm_inv hb"
    and cap: "unat capacity \<le> hb_size_max"
  shows "\<exists>r hb'. hashmap_base_reserve ok hb capacity = Some (r, hb') \<and> hm_inv hb' \<and> same_config hb hb' \<and>
     hm_map hb' = hm_map hb \<and> hb_size hb' = hb_size hb \<and>
     (r = 0 \<and> capacity < hb_table_size hb' \<and> reserved (unat capacity) hb' \<or> r = - ENOMEM \<and> \<not> ok)"
proof -
  let ?hb = "hb\<lparr>hb_table_size_init := HASHMAP_SIZE_MIN\<rparr>"
  have "sane_init ?hb" by (auto simp: sane_init_def HASHMAP_SIZE_MIN_def intro!: exI[of _ 5])
  from calc_table_size[OF this cap] obtain ts k where ts: "hashmap_calc_table_size ?hb capacity = Some ts"
    "5 \<le> k" "k < 31" "ts = 2 ^ k" "unat capacity < 2 ^ k"
    "unat capacity + unat capacity div 3 \<le> 2 ^ k" by auto
  let ?hb1 = "hb\<lparr>hb_table_size_init := ts\<rparr>"
  have "sane_init ?hb1" using ts by (auto simp: sane_init_def)
  moreover have "home ?hb1 = home hb"
    by (simp add: fun_eq_iff home_def hashmap_calc_index_def HASHMAP_SIZE_MOD_def)
  ultimately have inv1: "hm_inv ?hb1"
    using inv by (simp add: hm_inv_def table_ok_def shaped_def slots_def)
  have uts: "unat ts = 2 ^ k" using ts by (simp add: unat_exp64)
  have map1: "hm_map ?hb1 = hm_map hb" by (simp add: hm_map_def)
  show ?thesis
  proof (cases "ts > hb_table_size hb")
    case False
    thus ?thesis using ts inv1 map1 uts
      by (simp add: hashmap_base_reserve_def Let_def same_config_def word_less_nat_alt reserved_def word_le_nat_alt)
  next
    case True
    have "unat (hb_size hb) \<le> slots hb"
      using hm_invD(5,6)[OF inv] occupied_le[of "hb_table hb"] by simp
    hence sz: "unat (hb_size hb) \<le> 2 ^ k" using True uts by (simp add: slots_def word_less_nat_alt)
    show ?thesis
    proof (cases ok)
      case True
      obtain T where "let hb' = ?hb1\<lparr>hb_table_size := ts, hb_table := T\<rparr> in
          hashmap_rehash True ?hb1 ts = Some (0, hb') \<and> hm_inv hb' \<and> hm_map hb' = hm_map ?hb1 \<and> slots hb' = 2 ^ k"
        using rehash_refines[OF _ inv1 ts(4,2,3)] hc sz by auto
      thus ?thesis using ts \<open>ts > hb_table_size hb\<close> True map1 uts
        by (simp add: hashmap_base_reserve_def Let_def same_config_def word_less_nat_alt reserved_def word_le_nat_alt)
    next
      case False
      have "ts AND (ts - 1) = 0 \<and> hb_size hb \<le> ts"
        using ts(3,4) uts pow2_and[of k] sz by (simp add: word_le_nat_alt)
      hence "hashmap_rehash ok ?hb1 ts = Some (- ENOMEM, ?hb1)" using False by (simp add: hashmap_rehash_def)
      thus ?thesis using ts \<open>ts > hb_table_size hb\<close> False inv
        by (simp add: hashmap_base_reserve_def Let_def same_config_def ENOMEM_def hm_map_def)
    qed
  qed
qed

section \<open>String keys\<close>

text \<open>The contract holds of the callbacks the downloader uses for its player map.\<close>

interpretation string_keys: hash_contract hashmap_hash_string strcmp
  by unfold_locales (auto simp: strcmp_0 hashmap_hash_string_def)

lemma hash_string_default:
  assumes "\<forall>c \<in> set key. 0 < uchar c \<and> uchar c < 128"
  shows "hashmap_hash_string key = hashmap_hash_default (map of_char key)"
proof -
  have "word_of_int (schar c) = (ucast (of_char c :: u8) :: u64)" if "c \<in> set key" for c
  proof -
    have u: "unat (ucast (of_char c :: u8) :: u64) = uchar c"
    proof -
      have "uchar c < 18446744073709551616" using uchar_less[of c] by linarith
      thus ?thesis by (simp add: unsigned_ucast_eq unat_of_char take_bit_eq_mod)
    qed
    have "schar c = int (uchar c)" using assms that by (simp add: schar_def)
    hence "word_of_int (schar c) = (of_nat (uchar c) :: u64)" by simp
    thus ?thesis by (simp only: u[symmetric] of_nat_unat ucast_id)
  qed
  hence "foldl (\<lambda>h c. hash_mix h (word_of_int (schar c))) x key
      = foldl (\<lambda>h c. hash_mix h (ucast (of_char c :: u8))) x key" for x
    by (intro foldl_cong) simp_all
  moreover have "cstr key = key" using assms by (intro cstr_id) (auto simp: uchar_def)
  moreover have "foldl (\<lambda>h b. hash_mix h (ucast b)) x (map of_char key :: u8 list)
      = foldl (\<lambda>h c. hash_mix h (ucast (of_char c :: u8))) x key" for x
    by (induction key arbitrary: x) simp_all
  ultimately show ?thesis by (simp add: hashmap_hash_string_def hashmap_hash_default_def)
qed

section \<open>Sequences of operations\<close>

datatype ('k, 'v) hm_op = Op_put 'k 'v | Op_get 'k | Op_remove 'k
datatype 'v hm_res = R_status int | R_data "'v option"

definition hm_step :: "('k, 'v) hm_op \<Rightarrow> ('k, 'v) hashmap_base \<Rightarrow> ('v hm_res \<times> ('k, 'v) hashmap_base) option" where
  "hm_step op hb =
    (case op of
       Op_put k d \<Rightarrow> map_option (\<lambda>(r, hb). (R_status r, hb)) (hashmap_base_put True hb (Some k) (Some d))
     | Op_get k \<Rightarrow> map_option (\<lambda>d. (R_data d, hb)) (hashmap_base_get hb (Some k))
     | Op_remove k \<Rightarrow> map_option (\<lambda>(d, hb). (R_data d, hb)) (hashmap_base_remove hb (Some k)))"

fun hm_run :: "('k, 'v) hm_op list \<Rightarrow> ('k, 'v) hashmap_base \<Rightarrow> ('v hm_res list \<times> ('k, 'v) hashmap_base) option" where
  "hm_run [] hb = Some ([], hb)"
| "hm_run (op # ops) hb =
     (case hm_step op hb of
        None \<Rightarrow> None
      | Some (r, hb) \<Rightarrow> map_option (\<lambda>(rs, hb). (r # rs, hb)) (hm_run ops hb))"

text \<open>The same on a finite map.\<close>

definition map_step :: "(string, 'v) hm_op \<Rightarrow> (string \<rightharpoonup> 'v) \<Rightarrow> 'v hm_res \<times> (string \<rightharpoonup> 'v)" where
  "map_step op m =
    (case op of
       Op_put k d \<Rightarrow> if m (cstr k) = None then (R_status 0, m(cstr k \<mapsto> d)) else (R_status (- EEXIST), m)
     | Op_get k \<Rightarrow> (R_data (m (cstr k)), m)
     | Op_remove k \<Rightarrow> (R_data (m (cstr k)), m(cstr k := None)))"

fun map_run :: "(string, 'v) hm_op list \<Rightarrow> (string \<rightharpoonup> 'v) \<Rightarrow> 'v hm_res list \<times> (string \<rightharpoonup> 'v)" where
  "map_run [] m = ([], m)"
| "map_run (op # ops) m = (let (r, m) = map_step op m; (rs, m) = map_run ops m in (r # rs, m))"

definition string_map :: "(string, 'v) hashmap_base \<Rightarrow> bool" where
  "string_map hb \<longleftrightarrow> hb_hash hb = hashmap_hash_string \<and> hb_compare hb = strcmp \<and>
     hb_key_dup hb = None \<and> hm_inv hb \<and> (roomy hb \<or> slots hb = 0)"

lemma string_map_contract:
  "string_map hb \<Longrightarrow> hash_contract (hb_hash hb) (hb_compare hb)"
  using string_keys.hash_contract_axioms by (simp add: string_map_def)

lemma remove_spare:
  assumes hc: "hash_contract (hb_hash hb) (hb_compare hb)" and inv: "hm_inv hb" and room: "roomy hb \<or> slots hb = 0"
  shows "\<exists>hb'. hashmap_base_remove hb (Some key) = Some (hm_map hb key, hb') \<and> hm_inv hb' \<and>
     same_config hb hb' \<and> (roomy hb' \<or> slots hb' = 0) \<and> hm_map hb' = hm_update hb key None \<and>
     hb_size hb' = hb_size hb - (if hm_map hb key = None then 0 else 1)"
proof (cases "slots hb = 0")
  case True
  hence "hb_table hb = []" using hm_invD(5)[OF inv] by simp
  hence "hm_map hb = Map.empty" by (simp add: hm_map_def fun_eq_iff lookup_def)
  moreover have "hashmap_entry_find hb key False = Some None"
    using True by (simp add: hashmap_entry_find_def slots_def)
  ultimately show ?thesis using inv True by (simp add: hashmap_base_remove_def hm_update_def fun_eq_iff)
next
  case False
  thus ?thesis using remove_refines[OF hc inv, of key] room by auto
qed

lemma hm_step_refines:
  assumes sm: "string_map hb" and m: "\<And>k. hm_map hb k = m (cstr k)"
    and sz: "unat (hb_size hb) \<le> n" "n < hb_size_max"
  shows "\<exists>hb'. hm_step op hb = Some (fst (map_step op m), hb') \<and> string_map hb' \<and>
     (\<forall>k. hm_map hb' k = snd (map_step op m) (cstr k)) \<and> unat (hb_size hb') \<le> Suc n"
proof -
  note hc = string_map_contract[OF sm] and S = sm[unfolded string_map_def]
  have inv: "hm_inv hb" and cmp: "hb_compare hb = strcmp" and room: "roomy hb \<or> slots hb = 0"
    and dup: "dup_ok hb" using S by (simp_all add: dup_ok_def)
  have cap: "unat (hb_size hb) \<le> hb_size_max" using sz by simp
  have inc: "unat (hb_size hb + 1) = Suc (unat (hb_size hb))"
    using cap by (simp add: unat_word_ariths hb_size_max_def)
  show ?thesis
  proof (cases op)
    case (Op_put k d)
    have "put_ok True hb k" using S by (simp add: put_ok_def)
    thus ?thesis using put_refines[OF hc inv dup cap, of True k d] Op_put m inc sz(1) S
      by (force simp: hm_step_def map_step_def hm_update_def string_map_def same_config_def strcmp_0
          split: if_splits)
  next
    case (Op_get k)
    thus ?thesis using get_refines[OF hc inv, of k] m sm sz by (simp add: hm_step_def map_step_def)
  next
    case (Op_remove k)
    obtain hb' where R: "hashmap_base_remove hb (Some k) = Some (hm_map hb k, hb')" "hm_inv hb'"
      "same_config hb hb'" "roomy hb' \<or> slots hb' = 0" "hm_map hb' = hm_update hb k None"
      "hb_size hb' = hb_size hb - (if hm_map hb k = None then 0 else 1)"
      using remove_spare[OF hc inv room, of k] by blast
    have "unat (hb_size hb') \<le> Suc (unat (hb_size hb))"
    proof (cases "hm_map hb k = None")
      case False
      have "hb_size hb \<noteq> 0"
      proof
        assume "hb_size hb = 0"
        hence "ents (hb_table hb) = {}" using hm_invD(6)[OF inv] occupied_0[of "hb_table hb"] by simp
        hence "\<forall>i < slots hb. \<not> matches (hb_compare hb) k (hb_table hb ! i)"
          using hm_invD(5)[OF inv] by (auto simp: ents_nth dest: matches_occ)
        thus False using False hm_map_None[OF hc inv] by simp
      qed
      hence "1 \<le> hb_size hb" by (simp add: word_le_nat_alt unat_gt_0 Suc_leI)
      thus ?thesis using R(6) False by (simp add: unat_sub)
    qed (use R(6) in simp)
    thus ?thesis using R S m sz(1) Op_remove
      by (auto simp: hm_step_def map_step_def hm_update_def string_map_def same_config_def strcmp_0)
  qed
qed

lemma hm_run_refines:
  assumes "string_map hb" "\<And>k. hm_map hb k = m (cstr k)" "unat (hb_size hb) + length ops \<le> hb_size_max"
  shows "\<exists>hb'. hm_run ops hb = Some (fst (map_run ops m), hb') \<and> string_map hb' \<and>
     (\<forall>k. hm_map hb' k = snd (map_run ops m) (cstr k))"
  using assms
proof (induction ops arbitrary: hb m)
  case (Cons op ops)
  obtain hb1 where s: "hm_step op hb = Some (fst (map_step op m), hb1)" "string_map hb1"
    "\<And>k. hm_map hb1 k = snd (map_step op m) (cstr k)" "unat (hb_size hb1) \<le> Suc (unat (hb_size hb))"
    using hm_step_refines[OF Cons.prems(1,2) order_refl] Cons.prems(3) by fastforce
  from Cons.IH[OF s(2,3)] s(4) Cons.prems(3)
  obtain hb2 where "hm_run ops hb1 = Some (fst (map_run ops (snd (map_step op m))), hb2)" "string_map hb2"
    "\<forall>k. hm_map hb2 k = snd (map_run ops (snd (map_step op m))) (cstr k)" by auto
  thus ?case using s(1) by (auto simp: Let_def split: prod.split)
qed simp

section \<open>Reserved capacity\<close>

lemma put_entry_sizes:
  "put_entry hb k d r = Some (r', hb') \<Longrightarrow>
     hb_table_size_init hb' = hb_table_size_init hb \<and> hb_table_size hb' = hb_table_size hb"
  by (auto simp: put_entry_def split: option.splits if_splits)

lemma put_reserved:
  assumes "hm_inv hb" "reserved cap hb" "unat (hb_size hb) < cap" "cap \<le> hb_size_max"
  shows "hashmap_base_put ok hb (Some k) (Some d) = put_entry hb k d 0" "roomy hb"
proof -
  let ?s = "unat (hb_size hb)"
  have s: "?s \<le> 805306368" "?s < cap" using assms by (simp_all add: hb_size_max_def)
  have "unat (hb_size hb + hb_size hb div 3) = ?s + ?s div 3"
    using s(1) by (simp add: unat_word_ariths unat_div)
  moreover have "?s div 3 \<le> cap div 3" using s(2) by (intro div_le_mono) simp
  ultimately have "hb_size hb + hb_size hb div 3 < hb_table_size_init hb" "hb_size hb < hb_table_size_init hb"
    using assms(2) s(2) by (simp_all add: reserved_def word_less_nat_alt)
  moreover have "hb_table_size_init hb \<le> hb_table_size hb" using assms(2) by (simp add: reserved_def)
  hence "hb_size hb < hb_table_size hb" using calculation(2) by (rule order_less_le_trans[rotated])
  ultimately show "hashmap_base_put ok hb (Some k) (Some d) = put_entry hb k d 0" "roomy hb"
    using assms(2) by (simp_all add: hashmap_base_put_def hashmap_calc_table_size_def reserved_def roomy_def leD)
qed

text \<open>A run of insertions while no allocation succeeds: the statuses and the map.\<close>

fun put_all :: "('k, 'v) hashmap_base \<Rightarrow> ('k \<times> 'v) list \<Rightarrow> (int list \<times> ('k, 'v) hashmap_base) option" where
  "put_all hb [] = Some ([], hb)"
| "put_all hb ((k, d) # kvs) =
     (case hashmap_base_put False hb (Some k) (Some d) of
        None \<Rightarrow> None
      | Some (r, hb) \<Rightarrow> map_option (\<lambda>(rs, hb). (r # rs, hb)) (put_all hb kvs))"

lemma put_all_reserved:
  assumes "string_map hb" "reserved cap hb" "unat (hb_size hb) + length kvs \<le> cap" "cap \<le> hb_size_max"
    and "distinct (map (cstr \<circ> fst) kvs)" "\<And>k d. (k, d) \<in> set kvs \<Longrightarrow> hm_map hb k = None"
  shows "\<exists>hb'. put_all hb kvs = Some (replicate (length kvs) 0, hb') \<and> string_map hb' \<and>
     hb_size hb' = hb_size hb + of_nat (length kvs) \<and>
     (\<forall>l. hm_map hb' l = (case map_of (map (\<lambda>(k, d). (cstr k, d)) kvs) (cstr l) of
        None \<Rightarrow> hm_map hb l | Some d \<Rightarrow> Some d))"
  using assms
proof (induction kvs arbitrary: hb)
  case (Cons kd kvs)
  obtain k d where kd: "kd = (k, d)" by (cases kd)
  note hc = string_map_contract[OF Cons.prems(1)] and S = Cons.prems(1)[unfolded string_map_def]
  have inv: "hm_inv hb" and dup: "dup_ok hb" using S by (simp_all add: dup_ok_def)
  have lt: "unat (hb_size hb) < cap" and le: "unat (hb_size hb) \<le> hb_size_max"
    using Cons.prems(3,4) by simp_all
  note pr = put_reserved[OF inv Cons.prems(2) lt Cons.prems(4)]
  have new: "hm_map hb k = None" using Cons.prems(6)[of k d] kd by simp
  have pe: "0 = (0::int) \<and> roomy hb \<or> 0 = - ENOMEM" using pr(2) by simp
  obtain r hb' where P: "put_entry hb k d 0 = Some (r, hb')" "hm_inv hb'" "same_config hb hb'"
      "hb_table_size hb' = hb_table_size hb"
      "r = 0 \<Longrightarrow> hm_map hb' = hm_update hb k (Some d) \<and> hb_size hb' = hb_size hb + 1" "r = 0"
    using put_entry_refines[OF hc inv dup le pe, of k d] new S by (auto split: if_splits)
  have inc: "unat (hb_size hb + 1) = Suc (unat (hb_size hb))"
    using le by (simp add: unat_word_ariths hb_size_max_def)
  have size: "hb_size hb' = hb_size hb + 1" and map: "hm_map hb' = hm_update hb k (Some d)" using P(5,6) by auto
  have res: "reserved cap hb'" using Cons.prems(2) put_entry_sizes[OF P(1)] by (simp add: reserved_def)
  have room: "roomy hb' \<or> slots hb' = 0"
  proof -
    have "hb_size hb' \<le> hb_table_size hb'"
      using occupied_le[of "hb_table hb'"] hm_invD(5,6)[OF P(2)] by (simp add: slots_def word_le_nat_alt)
    moreover have "unat (hb_size hb') \<noteq> unat (hb_table_size hb')"
    proof
      assume e: "unat (hb_size hb') = unat (hb_table_size hb')"
      have "cap + cap div 3 \<le> unat (hb_table_size hb')" using res by (auto simp: reserved_def word_le_nat_alt)
      moreover have "unat (hb_size hb') \<le> cap" using size inc lt by simp
      ultimately have "cap < 3" "unat (hb_table_size hb') \<le> cap" using e by auto
      moreover have "32 \<le> unat (hb_table_size_init hb')"
        using P(2) by (intro sane_init_bounds) (simp add: hm_inv_def)
      moreover have "unat (hb_table_size_init hb') \<le> unat (hb_table_size hb')"
        using res by (simp add: reserved_def word_le_nat_alt)
      ultimately show False by linarith
    qed
    ultimately show ?thesis by (simp add: roomy_def word_less_nat_alt word_le_nat_alt)
  qed
  have sm: "string_map hb'" using S P(2,3) room by (simp add: string_map_def same_config_def)
  have up: "hm_map hb' l = (if cstr l = cstr k then Some d else hm_map hb l)" for l
    using map S by (simp add: hm_update_def strcmp_0)
  have "\<exists>hb''. put_all hb' kvs = Some (replicate (length kvs) 0, hb'') \<and> string_map hb'' \<and>
     hb_size hb'' = hb_size hb' + of_nat (length kvs) \<and>
     (\<forall>l. hm_map hb'' l = (case map_of (map (\<lambda>(k, d). (cstr k, d)) kvs) (cstr l) of
        None \<Rightarrow> hm_map hb' l | Some d \<Rightarrow> Some d))"
  proof (rule Cons.IH[OF sm res _ Cons.prems(4)])
    show "unat (hb_size hb') + length kvs \<le> cap" using size inc Cons.prems(3) by simp
    show "distinct (map (cstr \<circ> fst) kvs)" using Cons.prems(5) by (simp add: o_def)
    fix k' d' assume k': "(k', d') \<in> set kvs"
    have "cstr k' \<in> (cstr \<circ> fst) ` set kvs" using image_eqI[of "cstr k'" "cstr \<circ> fst" "(k', d')"] k' by simp
    moreover have "cstr k \<notin> (cstr \<circ> fst) ` set kvs" using Cons.prems(5) kd by simp
    ultimately have "cstr k' \<noteq> cstr k" by metis
    thus "hm_map hb' k' = None" using up Cons.prems(6)[of k' d'] k' by simp
  qed
  then obtain hb'' where R: "put_all hb' kvs = Some (replicate (length kvs) 0, hb'')" "string_map hb''"
     "hb_size hb'' = hb_size hb' + of_nat (length kvs)"
     "\<And>l. hm_map hb'' l = (case map_of (map (\<lambda>(k, d). (cstr k, d)) kvs) (cstr l) of
        None \<Rightarrow> hm_map hb' l | Some d \<Rightarrow> Some d)" by blast
  have "cstr k \<notin> (cstr \<circ> fst) ` set kvs" using Cons.prems(5) kd by simp
  moreover have "fst ` set (map (\<lambda>(k, d). (cstr k, d)) kvs) = (cstr \<circ> fst) ` set kvs" by force
  ultimately have "map_of (map (\<lambda>(k, d). (cstr k, d)) kvs) (cstr k) = None"
    by (simp only: map_of_eq_None_iff) simp
  hence "hm_map hb'' l = (case map_of (map (\<lambda>(k, d). (cstr k, d)) (kd # kvs)) (cstr l) of
        None \<Rightarrow> hm_map hb l | Some d \<Rightarrow> Some d)" for l
    using R(4)[of l] up[of l] kd by (auto split: option.splits)
  moreover have "put_all hb (kd # kvs) = Some (replicate (length (kd # kvs)) 0, hb'')"
    using kd pr(1)[of False k d] P(1,6) R(1) by simp
  ultimately show ?case using R(2,3) size by simp
qed simp

section \<open>Properties\<close>

text \<open>
  C21. \<open>hashmap_base_put\<close> is insertion into the finite map: it never leaves the table or fails
  an assertion, keeps the invariant, answers \<open>-EEXIST\<close> and changes nothing when the key is
  there, otherwise adds exactly the new entry or answers \<open>-ENOMEM\<close>, and only when an
  allocation failed; it never answers \<open>-EADDRNOTAVAIL\<close>.
\<close>

theorem hashmap_put_refines:
  assumes "hash_contract (hb_hash hb) (hb_compare hb)" "hm_inv hb" "dup_ok hb"
    and "unat (hb_size hb) \<le> hb_size_max"
  shows "\<exists>r hb'. hashmap_base_put calloc_ok hb (Some key) (Some d) = Some (r, hb') \<and> hm_inv hb' \<and>
     same_config hb hb' \<and> (calloc_ok \<longrightarrow> roomy hb') \<and>
     (if hm_map hb key \<noteq> None then r = - EEXIST \<and> hm_map hb' = hm_map hb \<and> hb_size hb' = hb_size hb
      else if r = 0 then hm_map hb' = hm_update hb key (Some d) \<and> hb_size hb' = hb_size hb + 1
      else r = - ENOMEM \<and> \<not> put_ok calloc_ok hb key \<and> hm_map hb' = hm_map hb \<and> hb_size hb' = hb_size hb)"
  using assms by (rule put_refines)

abbreviation string_init :: "(string, nat) hashmap_base" where
  "string_init \<equiv> hashmap_base_init hashmap_hash_string strcmp"

lemma string_init_simps [simp]:
  "hb_hash string_init = hashmap_hash_string" "hb_compare string_init = strcmp"
  "hb_size string_init = 0" "hb_key_dup string_init = None"
  "dup_ok string_init" "hm_map string_init = Map.empty"
  by (simp_all add: hashmap_base_init_def dup_ok_def hm_map_def fun_eq_iff lookup_def)

lemma string_init_map: "string_map string_init"
  using hm_inv_init by (auto simp: string_map_def slots_def hashmap_base_init_def)

theorem hashmap_put_refines_witness:
  "\<exists>r hb'. hashmap_base_put True string_init (Some ''/s/player.js'') (Some 7) = Some (r, hb') \<and> r = 0"
  using hashmap_put_refines[of string_init True "''/s/player.js''" 7]
    string_keys.hash_contract_axioms hm_inv_init[of hashmap_hash_string strcmp, where 'b = nat]
  by (auto simp: put_ok_def split: if_splits)

text \<open>
  \<open>hashmap_base_get\<close> reads the finite map: the data of the entry whose key compares equal,
  and \<open>NULL\<close> when there is none; it reads no slot outside the table.
\<close>

theorem hashmap_get_refines:
  assumes "hash_contract (hb_hash hb) (hb_compare hb)" "hm_inv hb"
  shows "hashmap_base_get hb (Some key) = Some (hm_map hb key)"
  using assms by (rule get_refines)

theorem hashmap_get_refines_witness: "hashmap_base_get string_init (Some ''k'') = Some None"
  using hashmap_get_refines[of string_init "''k''"] string_keys.hash_contract_axioms
    hm_inv_init[of hashmap_hash_string strcmp, where 'b = nat] by simp

text \<open>
  C15. \<open>hashmap_base_remove\<close> on a table with a free slot returns the data of the key and deletes
  that entry alone: shifting the chain back leaves every other key reachable, and the
  invariant holds again.
\<close>

theorem hashmap_remove_refines:
  assumes "hash_contract (hb_hash hb) (hb_compare hb)" "hm_inv hb" "roomy hb"
  shows "\<exists>hb'. hashmap_base_remove hb (Some key) = Some (hm_map hb key, hb') \<and> hm_inv hb' \<and>
     same_config hb hb' \<and> roomy hb' \<and> hm_map hb' = hm_update hb key None \<and>
     hb_size hb' = hb_size hb - (if hm_map hb key = None then 0 else 1)"
  using assms by (rule remove_refines)

lemma string_put_one:
  "\<exists>hb. hashmap_base_put True string_init (Some ''k'') (Some 5) = Some (0, hb) \<and> string_map hb \<and> roomy hb \<and>
     hm_map hb = hm_update string_init ''k'' (Some 5) \<and> hb_size hb = 1"
proof -
  have hc: "hash_contract (hb_hash string_init) (hb_compare string_init)" using string_keys.hash_contract_axioms by simp
  obtain r hb where "hashmap_base_put True string_init (Some ''k'') (Some 5) = Some (r, hb)" "hm_inv hb" "same_config string_init hb" "roomy hb"
    "hm_map hb = hm_update string_init ''k'' (Some 5)" "hb_size hb = 1" "r = 0"
    using put_refines[OF hc hm_inv_init, of True "''k''" 5] by (auto simp: put_ok_def split: if_splits)
  thus ?thesis by (auto simp: string_map_def same_config_def)
qed

theorem hashmap_remove_refines_witness:
  "\<exists>hb hb'. hashmap_base_put True string_init (Some ''k'') (Some 5) = Some (0, hb) \<and>
     hashmap_base_remove hb (Some ''k'') = Some (Some 5, hb') \<and> hm_inv hb' \<and> hb_size hb' = 0 \<and> hm_map hb' ''k'' = None"
proof -
  obtain hb where hb: "hashmap_base_put True string_init (Some ''k'') (Some 5) = Some (0, hb)" "string_map hb" "roomy hb"
    "hm_map hb = hm_update string_init ''k'' (Some 5)" "hb_size hb = 1" using string_put_one by blast
  have i: "hm_inv hb" "hb_compare hb = strcmp" using hb(2) by (auto simp: string_map_def)
  have c: "strcmp ''k'' ''k'' = 0" by code_simp
  hence m: "hm_map hb ''k'' = Some 5" using hb(4) by (simp add: hm_update_def)
  show ?thesis
    using hashmap_remove_refines[OF string_map_contract[OF hb(2)] i(1) hb(3), of "''k''"] hb(1,5) i(2) m c by (auto simp: hm_update_def)
qed

text \<open>
  C2. With string keys, as the downloader uses the map, any sequence of puts, gets and removes
  on a fresh map (allocations succeeding, at most \<^term>\<open>hb_size_max\<close> operations) gives exactly
  the results of the same sequence on a finite map from strings.
\<close>

theorem hashmap_run_string:
  assumes "length ops \<le> hb_size_max"
  shows "\<exists>hb. hm_run ops (hashmap_base_init hashmap_hash_string strcmp) = Some (fst (map_run ops Map.empty), hb) \<and>
     hm_inv hb \<and> (\<forall>k. hm_map hb k = snd (map_run ops Map.empty) (cstr k))"
proof -
  let ?hb = "hashmap_base_init hashmap_hash_string strcmp :: (string, 'a) hashmap_base"
  have "string_map ?hb" using hm_inv_init by (auto simp: string_map_def slots_def hashmap_base_init_def)
  moreover have "hm_map ?hb = Map.empty"
    by (simp add: hashmap_base_init_def hm_map_def fun_eq_iff lookup_def)
  moreover have "hb_size ?hb = 0" by (simp add: hashmap_base_init_def)
  ultimately show ?thesis
    using hm_run_refines[of ?hb Map.empty ops] assms by (auto simp: string_map_def)
qed

theorem hashmap_run_string_witness:
  "\<exists>hb. hm_run [Op_put ''a'' (1::nat), Op_put ''a'' 2, Op_get ''a'', Op_remove ''a'', Op_get ''a'']
      (hashmap_base_init hashmap_hash_string strcmp)
    = Some ([R_status 0, R_status (- EEXIST), R_data (Some 1), R_data (Some 1), R_data None], hb)"
  using hashmap_run_string[of "[Op_put ''a'' (1::nat), Op_put ''a'' 2, Op_get ''a'', Op_remove ''a'', Op_get ''a'']"]
  by (auto simp: hb_size_max_def map_step_def)

text \<open>
  C23. \<open>hashmap_base_reserve\<close> keeps its promise: once \<open>n\<close> entries are reserved, \<open>n\<close> new keys are
  put without any rehash, so that all succeed even when no allocation does.
\<close>

theorem hashmap_reserve_suffices:
  assumes "length kvs \<le> cap" "cap \<le> hb_size_max" "distinct (map (cstr \<circ> fst) kvs)"
  shows "\<exists>hb hb'. hashmap_base_reserve True (hashmap_base_init hashmap_hash_string strcmp) (of_nat cap) = Some (0, hb) \<and>
     put_all hb kvs = Some (replicate (length kvs) 0, hb') \<and>
     (\<forall>l. hm_map hb' l = map_of (map (\<lambda>(k, d). (cstr k, d)) kvs) (cstr l))"
proof -
  let ?i = "hashmap_base_init hashmap_hash_string strcmp :: (string, 'a) hashmap_base"
  have hc: "hash_contract (hb_hash ?i) (hb_compare ?i)"
    using string_keys.hash_contract_axioms by (simp add: hashmap_base_init_def)
  have uc: "unat (of_nat cap :: u64) = cap" using assms(2) by (simp add: unat_of_nat hb_size_max_def)
  have le: "unat (of_nat cap :: u64) \<le> hb_size_max" using assms(2) uc by simp
  obtain hb where R: "hashmap_base_reserve True ?i (of_nat cap) = Some (0, hb)" "hm_inv hb"
    "same_config ?i hb" "hb_size hb = 0" "of_nat cap < hb_table_size hb" "hm_map hb = hm_map ?i"
    "reserved cap hb"
    using reserve_refines[OF hc hm_inv_init le, of True] uc by (auto simp: hashmap_base_init_def)
  have sm: "string_map hb"
    using R(2-5) by (auto simp: string_map_def same_config_def hashmap_base_init_def roomy_def word_gt_0)
  have emp: "hm_map ?i = Map.empty" by (simp add: hashmap_base_init_def hm_map_def fun_eq_iff lookup_def)
  have n: "hm_map hb l = None" for l using R(6) emp by simp
  hence c: "(case x of None \<Rightarrow> hm_map hb l | Some d \<Rightarrow> Some d) = x" for x l by (cases x) simp_all
  have "unat (hb_size hb) + length kvs \<le> cap" using R(4) assms(1) by simp
  from put_all_reserved[OF sm R(7) this assms(2,3) n] show ?thesis using R(1) by (auto simp: c)
qed

theorem hashmap_reserve_suffices_witness:
  "\<exists>hb hb'. hashmap_base_reserve True (hashmap_base_init hashmap_hash_string strcmp) 2 = Some (0, hb) \<and>
     put_all hb [(''a'', 1 :: nat), (''b'', 2)] = Some ([0, 0], hb') \<and> hm_map hb' ''b'' = Some 2"
proof -
  let ?kvs = "[(''a'', 1 :: nat), (''b'', 2)]"
  have "length ?kvs \<le> 2" "2 \<le> hb_size_max" "distinct (map (cstr \<circ> fst) ?kvs)"
    by (simp_all add: hb_size_max_def cstr_def)
  from hashmap_reserve_suffices[OF this] obtain hb hb' where
    H: "hashmap_base_reserve True (hashmap_base_init hashmap_hash_string strcmp) (of_nat 2) = Some (0, hb)"
     "put_all hb ?kvs = Some (replicate (length ?kvs) 0, hb')"
     "\<forall>l. hm_map hb' l = map_of (map (\<lambda>(k, d). (cstr k, d)) ?kvs) (cstr l)"
    by blast
  have "hm_map hb' ''b'' = Some 2" using H(3) by (simp add: cstr_def)
  moreover have "replicate (length ?kvs) (0::int) = [0, 0]" by simp
  ultimately show ?thesis using H(1,2) by (metis of_nat_numeral)
qed

text \<open>
  C22. Iterating with \<open>hashmap_foreach_data\<close> ends after at most one round per slot and shows the
  loop body every entry of the map exactly once.
\<close>

theorem hashmap_foreach_complete:
  assumes "hash_contract (hb_hash hb) (hb_compare hb)" "hm_inv hb" "slots hb < n"
  shows "\<exists>kvs. hashmap_foreach_data n hb = Some (map snd kvs) \<and> length kvs = unat (hb_size hb) \<and>
     (\<forall>k d. (k, d) \<in> set kvs \<longrightarrow> hm_map hb k = Some d) \<and>
     (\<forall>k. hm_map hb k \<noteq> None \<longrightarrow> length (filter (\<lambda>(l, d). hb_compare hb k l = 0) kvs) = 1)"
proof -
  let ?es = "filter (\<lambda>e. e_key e \<noteq> None) (hb_table hb)"
  let ?kv = "\<lambda>e. (the (e_key e), the (e_data e))"
  have es: "set ?es = ents (hb_table hb)" by (auto simp: ents_def)
  have 1: "hashmap_foreach_data n hb = Some (map snd (map ?kv ?es))"
    using foreach_refines[OF assms(2,3)] by (simp add: o_def)
  have 2: "length (map ?kv ?es) = unat (hb_size hb)"
    using hm_invD(6)[OF assms(2)] by (simp add: occupied_def)
  have 3: "hm_map hb k = Some d" if "(k, d) \<in> set (map ?kv ?es)" for k d
    using that entries_map[OF assms(1,2)] es by auto
  have "length (filter (\<lambda>(l, d). hb_compare hb k l = 0) (map ?kv ?es)) = 1" if nz: "hm_map hb k \<noteq> None" for k
  proof -
    have "\<exists>i < slots hb. matches (hb_compare hb) k (hb_table hb ! i)"
      using nz by (simp only: hm_map_None[OF assms(1,2)]) simp
    then obtain i where i: "i < slots hb" "matches (hb_compare hb) k (hb_table hb ! i)" by blast
    have len: "length (hb_table hb) = slots hb" using hm_invD(5)[OF assms(2)] .
    have "length (filter (\<lambda>(l, d). hb_compare hb k l = 0) (map ?kv (filter (\<lambda>e. e_key e \<noteq> None) T)))
        = length (filter (matches (hb_compare hb) k) T)" for T :: "('a, 'b) hashmap_entry list"
      by (induction T) (auto simp: matches_def split: option.splits)
    hence "length (filter (\<lambda>(l, d). hb_compare hb k l = 0) (map ?kv ?es))
        = length (filter (matches (hb_compare hb) k) (hb_table hb))" .
    also have "\<dots> = card {j. j < slots hb \<and> matches (hb_compare hb) k (hb_table hb ! j)}"
      by (simp add: length_filter_conv_card len)
    also have "{j. j < slots hb \<and> matches (hb_compare hb) k (hb_table hb ! j)} = {i}"
    proof -
      have "j = i" if "j < slots hb" "matches (hb_compare hb) k (hb_table hb ! j)" for j
        using hash_contract.matches_unique[OF assms(1) hm_invD(3)[OF assms(2)] _ _ that(2) i(2)] that(1) i(1) len
        by simp
      thus ?thesis using i by blast
    qed
    finally show ?thesis by simp
  qed
  thus ?thesis using 1 2 3 by (intro exI[of _ "map ?kv ?es"]) simp
qed

theorem hashmap_foreach_complete_witness:
  "\<exists>hb. hashmap_base_put True string_init (Some ''k'') (Some 5) = Some (0, hb) \<and> hashmap_foreach_data (Suc (slots hb)) hb = Some [5]"
proof -
  obtain hb where hb: "hashmap_base_put True string_init (Some ''k'') (Some 5) = Some (0, hb)" "string_map hb" "roomy hb"
    "hm_map hb = hm_update string_init ''k'' (Some 5)" "hb_size hb = 1" using string_put_one by blast
  have i: "hm_inv hb" using hb(2) by (simp add: string_map_def)
  obtain kvs where k: "hashmap_foreach_data (Suc (slots hb)) hb = Some (map snd kvs)" "length kvs = 1"
    "\<forall>k d. (k, d) \<in> set kvs \<longrightarrow> hm_map hb k = Some d"
    using hashmap_foreach_complete[OF string_map_contract[OF hb(2)] i, of "Suc (slots hb)"] hb(5) by auto
  then obtain k d where "kvs = [(k, d)]" "hm_map hb k = Some d" by (cases kvs) auto
  moreover from this(2) have "d = 5" using hb(4) by (auto simp: hm_update_def split: if_splits)
  ultimately show ?thesis using hb(1) k(1) by auto
qed

end
