(* ===== verification/Buffer.thy ===== *)
theory Buffer
  imports Ytdl_Prelude
begin

text \<open>
  The byte buffer of \<open>src/buffer.c\<close> (\<open>include/ytdl/buffer.h\<close>). \<open>malloc\<close> and \<open>realloc\<close> are
  parameters: what they return is a block of the size asked for, or \<open>NULL\<close>
  (\<^term>\<open>None\<close>); \<open>realloc\<close> keeps the bytes both blocks have. The contents of fresh bytes are
  whatever the parameter gives.
\<close>

record ytdl_buf =
  b_base :: "string option"
  b_len :: u64
  b_size :: u64

type_synonym malloc = "nat \<Rightarrow> string option"
type_synonym realloc = "string option \<Rightarrow> nat \<Rightarrow> string option"

definition ytdl_buf_alloc :: "malloc \<Rightarrow> ytdl_buf \<Rightarrow> u64 \<Rightarrow> ytdl_buf" where
  "ytdl_buf_alloc malloc buf sz = buf\<lparr>b_base := malloc (unat sz), b_size := sz, b_len := 0\<rparr>"

definition ytdl_buf_realloc :: "realloc \<Rightarrow> ytdl_buf \<Rightarrow> u64 \<Rightarrow> ytdl_buf" where
  "ytdl_buf_realloc realloc buf sz = buf\<lparr>b_base := realloc (b_base buf) (unat sz), b_size := sz\<rparr>"

text \<open>
  \<open>scale\<close> is the assignment \<open>size *= grow_factor\<close>, a product of \<open>double\<close>s that is cut to an
  integer; it gives nothing when that does not fit, which is undefined.
\<close>

definition ytdl_buf_grow :: "realloc \<Rightarrow> ytdl_buf \<Rightarrow> (u64 \<Rightarrow> u64 option) \<Rightarrow> ytdl_buf option" where
  "ytdl_buf_grow realloc buf scale =
     map_option (\<lambda>sz. buf\<lparr>b_size := sz, b_base := realloc (b_base buf) (unat sz)\<rparr>) (scale (b_size buf))"

definition ytdl_buf_free :: "ytdl_buf \<Rightarrow> ytdl_buf" where
  "ytdl_buf_free buf = buf\<lparr>b_base := None\<rparr>"

text \<open>\<open>memcpy (buf->base + pos) src n\<close>.\<close>

definition buf_write :: "ytdl_buf \<Rightarrow> nat \<Rightarrow> string \<Rightarrow> nat \<Rightarrow> ytdl_buf option" where
  "buf_write buf p src n =
    (case b_base buf of
       None \<Rightarrow> None
     | Some m \<Rightarrow> map_option (\<lambda>m. buf\<lparr>b_base := Some m\<rparr>) (blit m p src n))"

text \<open>The documented behaviour of the allocator.\<close>

definition malloc_ok :: "malloc \<Rightarrow> bool" where
  "malloc_ok malloc \<longleftrightarrow> (\<forall>n m. malloc n = Some m \<longrightarrow> length m = n)"

definition realloc_ok :: "realloc \<Rightarrow> bool" where
  "realloc_ok realloc \<longleftrightarrow> (\<forall>old n m. realloc old n = Some m \<longrightarrow> length m = n \<and>
     (case old of None \<Rightarrow> True | Some o' \<Rightarrow> take (min n (length o')) m = take (min n (length o')) o'))"

text \<open>The first \<open>len\<close> bytes: what has been received or written so far.\<close>

definition buf_content :: "ytdl_buf \<Rightarrow> string" where
  "buf_content buf = (case b_base buf of None \<Rightarrow> [] | Some m \<Rightarrow> take (unat (b_len buf)) m)"

definition buf_ok :: "ytdl_buf \<Rightarrow> bool" where
  "buf_ok buf \<longleftrightarrow> (case b_base buf of None \<Rightarrow> b_len buf = 0
     | Some m \<Rightarrow> length m = unat (b_size buf) \<and> b_len buf \<le> b_size buf)"

lemma buf_alloc_ok:
  assumes "malloc_ok malloc"
  shows "buf_ok (ytdl_buf_alloc malloc buf sz)" "buf_content (ytdl_buf_alloc malloc buf sz) = []"
  using assms by (auto simp: buf_ok_def ytdl_buf_alloc_def malloc_ok_def buf_content_def split: option.splits)

lemma blit_take: "blit m p src n = Some m' \<Longrightarrow> p \<le> length m \<Longrightarrow> take (p + n) m' = take p m @ take n src"
  by (auto simp: blit_def split: if_splits)

lemma blit_in: "n \<le> length src \<Longrightarrow> p + n \<le> length m \<Longrightarrow>
    blit m p src n = Some (take p m @ take n src @ drop (p + n) m)"
  by (simp add: blit_def)

text \<open>Growing keeps what the buffer holds, and makes the room asked for.\<close>

lemma buf_realloc_ok:
  assumes "realloc_ok realloc" "buf_ok buf" "b_len buf \<le> sz" "b_base (ytdl_buf_realloc realloc buf sz) \<noteq> None"
  shows "buf_ok (ytdl_buf_realloc realloc buf sz)"
    and "buf_content (ytdl_buf_realloc realloc buf sz) = buf_content buf"
proof -
  obtain m where m: "realloc (b_base buf) (unat sz) = Some m"
    using assms(4) by (auto simp: ytdl_buf_realloc_def)
  hence len: "length m = unat sz" using assms(1) by (auto simp: realloc_ok_def)
  show "buf_ok (ytdl_buf_realloc realloc buf sz)"
    using m len assms(3) by (simp add: buf_ok_def ytdl_buf_realloc_def)
  show "buf_content (ytdl_buf_realloc realloc buf sz) = buf_content buf"
  proof (cases "b_base buf")
    case None
    hence "b_len buf = 0" using assms(2) by (simp add: buf_ok_def)
    thus ?thesis using None m by (simp add: buf_content_def ytdl_buf_realloc_def)
  next
    case (Some old)
    have l: "unat (b_len buf) \<le> min (unat sz) (length old)"
      using assms(2,3) Some by (simp add: buf_ok_def word_le_nat_alt)
    have "take (min (unat sz) (length old)) m = take (min (unat sz) (length old)) old"
      using assms(1)[unfolded realloc_ok_def, rule_format, OF m] Some by simp
    from arg_cong[OF this, of "take (unat (b_len buf))"]
    have "take (unat (b_len buf)) m = take (unat (b_len buf)) old" using l by (simp add: min_absorb1)
    thus ?thesis using Some m by (simp add: buf_content_def ytdl_buf_realloc_def)
  qed
qed

section \<open>Byte sinks\<close>

text \<open>
  What the dynamic buffers and the body callbacks of the downloader promise: a call appends its
  bytes and answers 0, or leaves the contents as they were and answers something else. Chunks
  are fed one after the other until a call does not answer 0, as the HTTP parser does.
\<close>

fun feed :: "('s \<Rightarrow> string \<Rightarrow> ('s \<times> int) option) \<Rightarrow> 's \<Rightarrow> string list \<Rightarrow> ('s \<times> int) option" where
  "feed put s [] = Some (s, 0)"
| "feed put s (d # ds) =
     (case put s d of
        None \<Rightarrow> None
      | Some (s, r) \<Rightarrow> if r \<noteq> 0 then Some (s, r) else feed put s ds)"

locale byte_sink =
  fixes put :: "'s \<Rightarrow> string \<Rightarrow> ('s \<times> int) option"
    and content :: "'s \<Rightarrow> string"
    and ok :: "'s \<Rightarrow> bool"
  assumes put_law: "ok s \<Longrightarrow> length (content s) + length d < 2 ^ 64 \<Longrightarrow>
      \<exists>s' r. put s d = Some (s', r) \<and> ok s' \<and>
        (r = 0 \<and> content s' = content s @ d \<or> r \<noteq> 0 \<and> content s' = content s)"
begin

text \<open>The feed takes every chunk, or stops at the first one whose call does not answer 0.\<close>

lemma feed_until:
  assumes "ok s" "length (content s) + length (concat ds) < 2 ^ 64"
  shows "\<exists>s' r k. feed put s ds = Some (s', r) \<and> ok s' \<and> content s' = content s @ concat (take k ds) \<and>
    (if r = 0 then k = length ds
     else k < length ds \<and> (\<exists>s1. feed put s (take k ds) = Some (s1, 0) \<and> put s1 (ds ! k) = Some (s', r)))"
  using assms
proof (induction ds arbitrary: s)
  case (Cons d ds)
  obtain s1 r where p: "put s d = Some (s1, r)" "ok s1"
    "r = 0 \<and> content s1 = content s @ d \<or> r \<noteq> 0 \<and> content s1 = content s"
    using put_law[OF Cons.prems(1), of d] Cons.prems(2) by auto
  show ?case
  proof (cases "r = 0")
    case True
    hence c: "content s1 = content s @ d" using p(3) by simp
    obtain s' r' k where k: "feed put s1 ds = Some (s', r')" "ok s'" "content s' = content s1 @ concat (take k ds)"
      "if r' = 0 then k = length ds
       else k < length ds \<and> (\<exists>t. feed put s1 (take k ds) = Some (t, 0) \<and> put t (ds ! k) = Some (s', r'))"
      using Cons.IH[OF p(2)] Cons.prems(2) c by auto
    show ?thesis by (rule exI[of _ s'], rule exI[of _ r'], rule exI[of _ "Suc k"]) (use k p(1) True c in \<open>auto split: if_splits\<close>)
  next
    case False
    thus ?thesis using p by (intro exI[of _ s1] exI[of _ r] exI[of _ 0]) auto
  qed
qed simp

lemma feed_content:
  assumes "ok s" "length (content s) + length (concat ds) < 2 ^ 64"
  shows "\<exists>s' r k. feed put s ds = Some (s', r) \<and> ok s' \<and> content s' = content s @ concat (take k ds) \<and>
    (r = 0 \<longrightarrow> k = length ds)"
  using feed_until[OF assms] by (metis (full_types))

end

end
