(* ===== verification/Cutils.thy ===== *)
theory Cutils
  imports Buffer
begin

text \<open>
  \<open>src/cutils.c\<close> (\<open>include/ytdl/cutils.h\<close>): bounded string copies, prefixes and suffixes, the
  bounded search \<open>strnstr\<close> the page and player scrapers are built on, dynamic buffers, and
  UTF-8. A pointer into a block is the block and an offset.
\<close>

section \<open>Strings\<close>

text \<open>
  \<open>pstrcpy\<close>: \<open>q\<close> is the next byte to write, \<open>room\<close> what is left before \<open>buf + buf_size - 1\<close>.
\<close>

fun pstrcpy_loop :: "string \<Rightarrow> nat \<Rightarrow> nat \<Rightarrow> string \<Rightarrow> nat \<Rightarrow> string option" where
  "pstrcpy_loop buf q 0 str s = (case rd str s of None \<Rightarrow> None | Some c \<Rightarrow> wr buf q NUL)"
| "pstrcpy_loop buf q (Suc room) str s =
     (case rd str s of
        None \<Rightarrow> None
      | Some c \<Rightarrow>
          if c = NUL then wr buf q NUL
          else (case wr buf q c of None \<Rightarrow> None | Some buf \<Rightarrow> pstrcpy_loop buf (Suc q) room str (Suc s)))"

definition pstrcpy :: "string \<Rightarrow> nat \<Rightarrow> int \<Rightarrow> string \<Rightarrow> string option" where
  "pstrcpy buf off buf_size str =
     (if buf_size \<le> 0 then Some buf else pstrcpy_loop buf off (nat (buf_size - 1)) str 0)"

definition pstrcat :: "string \<Rightarrow> int \<Rightarrow> string \<Rightarrow> string option" where
  "pstrcat buf buf_size s =
     (case strlen buf of
        None \<Rightarrow> None
      | Some l \<Rightarrow> if int l < buf_size then pstrcpy buf l (buf_size - int l) s else Some buf)"

text \<open>\<open>strstart\<close>: \<open>Some (Some p)\<close> is the answer 1 with \<open>*ptr = str + p\<close>.\<close>

function strstart_loop :: "string \<Rightarrow> nat \<Rightarrow> string \<Rightarrow> nat \<Rightarrow> nat option option" where
  "strstart_loop str p val q =
     (case rd val q of
        None \<Rightarrow> None
      | Some d \<Rightarrow>
          if d = NUL then Some (Some p)
          else (case rd str p of
              None \<Rightarrow> None
            | Some c \<Rightarrow> if c \<noteq> d then Some None else strstart_loop str (Suc p) val (Suc q)))"
  by auto
termination by (relation "measure (\<lambda>(str, p, val, q). length val - q)") (auto dest: rd_SomeD)

declare strstart_loop.simps [simp del]

definition strstart :: "string \<Rightarrow> string \<Rightarrow> nat option option" where
  "strstart str val = strstart_loop str 0 val 0"

definition has_suffix :: "string \<Rightarrow> string \<Rightarrow> bool option" where
  "has_suffix str suffix =
     (case (strlen str, strlen suffix) of
        (Some l, Some sl) \<Rightarrow>
          if l \<ge> sl
          then (case (slice str (l - sl) sl, slice suffix 0 sl) of (Some a, Some b) \<Rightarrow> Some (a = b) | _ \<Rightarrow> None)
          else Some False
      | _ \<Rightarrow> None)"

text \<open>
  \<open>strnstr\<close> for a C string \<open>needle\<close>: \<open>Some None\<close> is \<open>NULL\<close>. Every step of the loop consumes one
  of the \<open>slen\<close> bytes.
\<close>

fun strnstr_loop :: "string \<Rightarrow> nat \<Rightarrow> char \<Rightarrow> string \<Rightarrow> nat \<Rightarrow> nat option option" where
  "strnstr_loop m p c needle 0 = Some None"
| "strnstr_loop m p c needle (Suc slen) =
     (case rd m p of
        None \<Rightarrow> None
      | Some sc \<Rightarrow>
          if sc = NUL then Some None
          else if sc \<noteq> c then strnstr_loop m (Suc p) c needle slen
          else if length needle > slen then Some None
          else (case strncmp_at m (Suc p) needle (length needle) of
              None \<Rightarrow> None
            | Some d \<Rightarrow> if d \<noteq> 0 then strnstr_loop m (Suc p) c needle slen else Some (Some p)))"

definition strnstr :: "string \<Rightarrow> nat \<Rightarrow> string \<Rightarrow> nat \<Rightarrow> nat option option" where
  "strnstr m p needle slen =
     (case needle of [] \<Rightarrow> Some (Some p) | c # needle \<Rightarrow> strnstr_loop m p c needle slen)"

definition from_hex :: "int \<Rightarrow> int" where
  "from_hex c =
     (if c \<ge> 48 \<and> c \<le> 57 then c - 48
      else if c \<ge> 65 \<and> c \<le> 70 then c - 65 + 10
      else if c \<ge> 97 \<and> c \<le> 102 then c - 97 + 10
      else -1)"

text \<open>What the functions compute.\<close>

fun find_sub :: "'a list \<Rightarrow> 'a list \<Rightarrow> nat option" where
  "find_sub f [] = (if f = [] then Some 0 else None)"
| "find_sub f (x # xs) =
     (if take (length f) (x # xs) = f then Some 0 else map_option Suc (find_sub f xs))"

lemma find_sub_Some:
  "find_sub f xs = Some i \<Longrightarrow> take (length f) (drop i xs) = f \<and> i + length f \<le> length xs \<and>
     (\<forall>j < i. take (length f) (drop j xs) \<noteq> f)"
proof (induction xs arbitrary: i)
  case (Cons x xs)
  show ?case
  proof (cases "take (length f) (x # xs) = f")
    case True
    hence "length f \<le> length (x # xs)" by (metis length_take min.absorb_iff2 min.commute)
    thus ?thesis using Cons.prems True by simp
  next
    case False
    then obtain k where k: "find_sub f xs = Some k" "i = Suc k" using Cons.prems by auto
    thus ?thesis using Cons.IH[OF k(1)] False by (auto simp: less_Suc_eq_0_disj)
  qed
qed (auto split: if_splits)

lemma find_sub_None: "find_sub f xs = None \<Longrightarrow> take (length f) (drop i xs) = f \<Longrightarrow> False"
proof (induction xs arbitrary: i)
  case (Cons x xs)
  thus ?case by (cases i) (auto split: if_splits)
qed (auto split: if_splits)

lemma find_sub_short: "length xs < length f \<Longrightarrow> find_sub f xs = None"
  using find_sub_Some[of f xs] by (cases "find_sub f xs") auto

lemma take_cstr: "NUL \<notin> set f \<Longrightarrow> take (length f) (cstr t) = f \<longleftrightarrow> take (length f) t = f"
proof (induction f arbitrary: t)
  case (Cons c f)
  thus ?case by (cases t) (auto simp: cstr_def)
qed simp

lemma strncmp_at_ok:
  assumes "NUL \<notin> set s" "p + length s \<le> length m"
  shows "\<exists>d. strncmp_at m p s (length s) = Some d \<and> (d = 0 \<longleftrightarrow> take (length s) (drop p m) = s)"
  using assms
proof (induction s arbitrary: p)
  case (Cons c s)
  have p: "p < length m" "Suc p + length s \<le> length m" using Cons.prems(2) by simp_all
  have "take (length (c # s)) (drop p m) = m ! p # take (length s) (drop (Suc p) m)"
    using p(1) by (simp add: Cons_nth_drop_Suc[symmetric])
  moreover obtain d where "strncmp_at m (Suc p) s (length s) = Some d" "(d = 0 \<longleftrightarrow> take (length s) (drop (Suc p) m) = s)"
    using Cons.IH[OF _ p(2)] Cons.prems(1) by auto
  moreover have "int (uchar (m ! p)) - int (uchar c) = 0 \<longleftrightarrow> m ! p = c" using uchar_inj by auto
  ultimately show ?case using p(1) Cons.prems(1) by (auto simp: Let_def)
qed simp

lemma strnstr_loop_spec:
  assumes "NUL \<notin> set (c # f)" "p + slen \<le> length m"
  shows "strnstr_loop m p c f slen = Some (map_option ((+) p) (find_sub (c # f) (cstr (take slen (drop p m)))))"
  using assms
proof (induction slen arbitrary: p)
  case (Suc slen)
  let ?t = "take slen (drop (Suc p) m)"
  have p: "p < length m" "Suc p + slen \<le> length m" using Suc.prems(2) by simp_all
  have u: "take (Suc slen) (drop p m) = m ! p # ?t" using p(1) by (simp add: Cons_nth_drop_Suc[symmetric])
  have IH: "strnstr_loop m (Suc p) c f slen = Some (map_option ((+) (Suc p)) (find_sub (c # f) (cstr ?t)))"
    using Suc.IH[OF Suc.prems(1) p(2)] .
  have step: "map_option ((+) p) (map_option Suc x) = map_option ((+) (Suc p)) x" for x
    by (cases x) auto
  show ?case
  proof (cases "m ! p = NUL \<or> m ! p \<noteq> c")
    case True
    thus ?thesis using p(1) u IH Suc.prems(1) by (auto simp: cstr_def step)
  next
    case False
    hence mp: "m ! p = c" "c \<noteq> NUL" by auto
    show ?thesis
    proof (cases "length f > slen")
      case True
      have "length (cstr ?t) \<le> slen" unfolding cstr_def by (rule order.trans[OF length_takeWhile_le]) simp
      hence "find_sub (c # f) (cstr (take (Suc slen) (drop p m))) = None"
        using True u mp by (intro find_sub_short) (simp add: cstr_def)
      thus ?thesis using True mp p(1) by simp
    next
      case False
      obtain d where d: "strncmp_at m (Suc p) f (length f) = Some d" "(d = 0 \<longleftrightarrow> take (length f) (drop (Suc p) m) = f)"
        using strncmp_at_ok[of f "Suc p" m] Suc.prems(1) p(2) False by auto
      have t: "take (length f) ?t = take (length f) (drop (Suc p) m)" using False by (simp add: min_def)
      have "take (length f) (cstr ?t) = f \<longleftrightarrow> take (length f) ?t = f"
        using Suc.prems(1) by (intro take_cstr) simp
      thus ?thesis using d t mp p(1) u IH False by (auto simp: cstr_def step)
    qed
  qed
qed (simp add: cstr_def)

lemma strnstr_spec:
  assumes "NUL \<notin> set f" "f \<noteq> []" "p + slen \<le> length m"
  shows "strnstr m p f slen = Some (map_option ((+) p) (find_sub f (cstr (take slen (drop p m)))))"
  using assms strnstr_loop_spec[of "hd f" "tl f"] by (cases f) (auto simp: strnstr_def)

lemma cstr_drop:
  assumes "NUL \<in> set (drop s m)"
  shows "s < length m" "m ! s = NUL \<Longrightarrow> cstr (drop s m) = []"
    "m ! s \<noteq> NUL \<Longrightarrow> cstr (drop s m) = m ! s # cstr (drop (Suc s) m) \<and> NUL \<in> set (drop (Suc s) m)"
proof -
  show s: "s < length m" using assms by (cases "s < length m") auto
  note d = Cons_nth_drop_Suc[OF s]
  show "m ! s = NUL \<Longrightarrow> cstr (drop s m) = []" by (subst d[symmetric]) (simp add: cstr_def)
  show "m ! s \<noteq> NUL \<Longrightarrow> cstr (drop s m) = m ! s # cstr (drop (Suc s) m) \<and> NUL \<in> set (drop (Suc s) m)"
    using assms by (subst (asm) d[symmetric], subst d[symmetric]) (auto simp: cstr_def)
qed

lemma pstrcpy_loop_spec:
  assumes "NUL \<in> set (drop s str)" "q + room < length buf"
  shows "pstrcpy_loop buf q room str s =
    Some (let t = take room (cstr (drop s str)) in take q buf @ t @ NUL # drop (q + Suc (length t)) buf)"
  using assms
proof (induction buf q room str s rule: pstrcpy_loop.induct)
  case (1 buf q str s)
  thus ?case using cstr_drop(1)[OF 1(1)] by (simp add: upd_conv_take_nth_drop)
next
  case (2 buf q room str s)
  note d = cstr_drop[OF 2(2)]
  show ?case
  proof (cases "str ! s = NUL")
    case True
    thus ?thesis using d 2(3) by (simp add: upd_conv_take_nth_drop)
  next
    case False
    have q: "q < length buf" "take q buf @ [str ! s] = take (Suc q) (buf[q := str ! s])"
      using 2(3) by (simp_all add: upd_conv_take_nth_drop take_Suc_conv_app_nth)
    have "pstrcpy_loop (buf[q := str ! s]) (Suc q) room str (Suc s) =
        Some (let t = take room (cstr (drop (Suc s) str)) in
          take (Suc q) (buf[q := str ! s]) @ t @ NUL # drop (Suc q + Suc (length t)) (buf[q := str ! s]))"
      using 2 d False q by auto
    thus ?thesis using d False q(1) by (simp add: Let_def q(2)[symmetric])
  qed
qed

lemma pstrcpy_spec:
  assumes "NUL \<in> set str" "0 < n" "off + n \<le> length buf"
  shows "pstrcpy buf off (int n) str =
    Some (let t = take (n - 1) (cstr str) in take off buf @ t @ NUL # drop (off + Suc (length t)) buf)"
proof -
  have "nat (int n - 1) = n - 1" by simp
  thus ?thesis using assms pstrcpy_loop_spec[of 0 str off "n - 1" buf] by (simp add: pstrcpy_def)
qed

lemma cstr_split: "NUL \<in> set m \<Longrightarrow> length (cstr m) < length m \<and> take (length (cstr m)) m = cstr m"
proof (induction m)
  case (Cons c m)
  thus ?case by (cases "c = NUL") (auto simp: cstr_def)
qed simp

lemma pstrcat_spec:
  assumes "NUL \<in> set buf" "NUL \<in> set str" "n \<le> length buf" "length (cstr buf) < n"
  shows "\<exists>buf'. pstrcat buf (int n) str = Some buf' \<and> length buf' = length buf \<and>
    cstr buf' = take (n - 1) (cstr buf @ cstr str) \<and> drop n buf' = drop n buf"
proof -
  let ?l = "length (cstr buf)"
  let ?t = "take (n - ?l - 1) (cstr str)"
  have lt: "length ?t + Suc ?l \<le> n" using assms(4) by auto
  let ?b = "cstr buf @ ?t @ NUL # drop (?l + Suc (length ?t)) buf"
  have sub: "int n - int ?l = int (n - ?l)" using assms(4) by simp
  have sl: "strlen buf = Some ?l" "int ?l < int n" using assms(1,4) by (simp_all add: strlen_def)
  have "pstrcpy buf ?l (int (n - ?l)) str = Some ?b"
    using assms cstr_split[OF assms(1)] pstrcpy_spec[OF assms(2), of "n - ?l" ?l buf] by (simp add: Let_def)
  hence e: "pstrcat buf (int n) str = Some ?b"
    unfolding pstrcat_def sl(1) option.case sub if_P[OF sl(2)] .
  have len: "length ?b = length buf" using lt assms(3) by simp
  have "cstr ?b = cstr buf @ ?t"
    using cstr_append[of "cstr buf @ ?t" "drop (?l + Suc (length ?t)) buf"] in_set_takeD[of NUL "n - ?l - 1" "cstr str"]
    by auto
  also have "\<dots> = take (n - 1) (cstr buf @ cstr str)" using assms(4) by simp
  finally have c: "cstr ?b = take (n - 1) (cstr buf @ cstr str)" .
  have "drop n ((cstr buf @ ?t @ [NUL]) @ drop (?l + Suc (length ?t)) buf) = drop n buf"
    unfolding drop_append using lt by simp
  hence "drop n ?b = drop n buf" by simp
  thus ?thesis using e c len by blast
qed

lemma strstart_loop_spec:
  assumes "NUL \<in> set (drop p str)" "NUL \<in> set (drop q val)"
  shows "strstart_loop str p val q =
    Some (let v = cstr (drop q val) in
      if take (length v) (cstr (drop p str)) = v then Some (p + length v) else None)"
  using assms
proof (induction str p val q rule: strstart_loop.induct)
  case (1 str p val q)
  note d = cstr_drop[OF 1(2)] and e = cstr_drop[OF 1(3)]
  show ?case
  proof (cases "val ! q = NUL")
    case True
    thus ?thesis using e by (subst strstart_loop.simps) simp
  next
    case False
    note F = this
    show ?thesis
    proof (cases "str ! p = val ! q")
      case True
      thus ?thesis using F d e 1 by (subst strstart_loop.simps) (auto simp: Let_def)
    next
      case False
      have "take (length (cstr (drop q val))) (cstr (drop p str)) \<noteq> cstr (drop q val)"
        using F False d e by (cases "str ! p = NUL") auto
      thus ?thesis using F False d e by (subst strstart_loop.simps) (auto simp: Let_def)
    qed
  qed
qed

lemma strstart_spec:
  assumes "NUL \<in> set str" "NUL \<in> set val"
  shows "strstart str val =
    Some (if take (length (cstr val)) (cstr str) = cstr val then Some (length (cstr val)) else None)"
  using strstart_loop_spec[of 0 str 0 val] assms by (simp add: strstart_def Let_def)

lemma has_suffix_spec:
  assumes "NUL \<in> set str" "NUL \<in> set suffix"
  shows "has_suffix str suffix = Some (\<exists>s. cstr str = s @ cstr suffix)"
proof -
  let ?a = "cstr str" and ?b = "cstr suffix"
  note a = cstr_split[OF assms(1)] and b = cstr_split[OF assms(2)]
  have e: "(\<exists>s. ?a = s @ ?b) \<longleftrightarrow> length ?b \<le> length ?a \<and> drop (length ?a - length ?b) ?a = ?b"
    by (metis append_eq_conv_conj append_take_drop_id diff_add_inverse2 le_add2 length_append)
  have t: "take (length ?b) (drop (length ?a - length ?b) str) = drop (length ?a - length ?b) ?a" if "length ?b \<le> length ?a"
  proof -
    have "drop (length ?a - length ?b) ?a = drop (length ?a - length ?b) (take (length ?a) str)" using a by simp
    also have "\<dots> = take (length ?b) (drop (length ?a - length ?b) str)" using that by (simp add: drop_take)
    finally show ?thesis by simp
  qed
  show ?thesis using assms a b t unfolding e
    by (auto simp: has_suffix_def strlen_def slice_def)
qed

section \<open>Dynamic buffers\<close>

text \<open>
  \<open>DynBuf\<close>. The allocator is a field of the buffer (its opaque argument with it). \<open>memcpy\<close> of
  no byte touches nothing, so it is defined for a buffer that has no block yet. An operation
  returns the buffer and the status, and \<^term>\<open>None\<close> when it would leave its block
  or call an allocator that is not there (\<open>dbuf_free\<close> clears the field).
\<close>

record dynbuf =
  d_buf :: "string option"
  d_size :: u64
  d_allocated_size :: u64
  d_error :: bool
  d_realloc_func :: "realloc option"

definition dbuf_default_realloc :: "realloc \<Rightarrow> realloc" where
  "dbuf_default_realloc realloc ptr sz = realloc ptr sz"

definition dbuf_init2 :: "realloc \<Rightarrow> realloc option \<Rightarrow> dynbuf" where
  "dbuf_init2 realloc realloc_func =
     \<lparr>d_buf = None, d_size = 0, d_allocated_size = 0, d_error = False,
      d_realloc_func = Some (case realloc_func of None \<Rightarrow> dbuf_default_realloc realloc | Some f \<Rightarrow> f)\<rparr>"

definition dbuf_init :: "realloc \<Rightarrow> dynbuf" where
  "dbuf_init realloc = dbuf_init2 realloc None"

definition dbuf_realloc :: "dynbuf \<Rightarrow> u64 \<Rightarrow> (dynbuf \<times> int) option" where
  "dbuf_realloc s new_size =
     (if new_size > d_allocated_size s then
        if d_error s then Some (s, -1)
        else
          let sz = d_allocated_size s * 3 div 2;
              new_size = (if sz > new_size then sz else new_size)
          in (case d_realloc_func s of
                None \<Rightarrow> None
              | Some f \<Rightarrow>
                  (case f (d_buf s) (unat new_size) of
                     None \<Rightarrow> Some (s\<lparr>d_error := True\<rparr>, -1)
                   | Some m \<Rightarrow> Some (s\<lparr>d_buf := Some m, d_allocated_size := new_size\<rparr>, 0)))
      else Some (s, 0))"

text \<open>\<open>memcpy (s->buf + offset, data, len)\<close>.\<close>

definition dbuf_copy :: "dynbuf \<Rightarrow> u64 \<Rightarrow> string \<Rightarrow> u64 \<Rightarrow> dynbuf option" where
  "dbuf_copy s offset data n =
     (if n = 0 then Some s
      else (case d_buf s of
          None \<Rightarrow> None
        | Some m \<Rightarrow> map_option (\<lambda>m. s\<lparr>d_buf := Some m\<rparr>) (blit m (unat offset) data (unat n))))"

definition dbuf_write :: "dynbuf \<Rightarrow> u64 \<Rightarrow> string \<Rightarrow> u64 \<Rightarrow> (dynbuf \<times> int) option" where
  "dbuf_write s offset data n =
     (let stop = offset + n in
      case dbuf_realloc s stop of
        None \<Rightarrow> None
      | Some (s, r) \<Rightarrow>
          if r \<noteq> 0 then Some (s, -1)
          else map_option (\<lambda>s. (if stop > d_size s then s\<lparr>d_size := stop\<rparr> else s, 0)) (dbuf_copy s offset data n))"

text \<open>The test both \<open>dbuf_put\<close> functions make before they call \<open>dbuf_realloc\<close>.\<close>

definition dbuf_room :: "dynbuf \<Rightarrow> u64 \<Rightarrow> (dynbuf \<times> int) option" where
  "dbuf_room s n = (if d_size s + n > d_allocated_size s then dbuf_realloc s (d_size s + n) else Some (s, 0))"

definition dbuf_put :: "dynbuf \<Rightarrow> string \<Rightarrow> u64 \<Rightarrow> (dynbuf \<times> int) option" where
  "dbuf_put s data n =
     (case dbuf_room s n of
        None \<Rightarrow> None
      | Some (s, r) \<Rightarrow>
      if r \<noteq> 0 then Some (s, -1)
      else map_option (\<lambda>s. (s\<lparr>d_size := d_size s + n\<rparr>, 0)) (dbuf_copy s (d_size s) data n))"

text \<open>\<open>dbuf_put_self\<close> copies inside its block: \<open>memcpy\<close> needs the two ranges to be disjoint.\<close>

definition dbuf_put_self :: "dynbuf \<Rightarrow> u64 \<Rightarrow> u64 \<Rightarrow> (dynbuf \<times> int) option" where
  "dbuf_put_self s offset n =
     (case dbuf_room s n of
        None \<Rightarrow> None
      | Some (s, r) \<Rightarrow>
      if r \<noteq> 0 then Some (s, -1)
      else if n = 0 then Some (s, 0)
      else if unat offset + unat n \<le> unat (d_size s) \<or> unat (d_size s) + unat n \<le> unat offset
      then (case d_buf s of
          None \<Rightarrow> None
        | Some m \<Rightarrow>
            (case slice m (unat offset) (unat n) of
               None \<Rightarrow> None
             | Some data \<Rightarrow> map_option (\<lambda>s. (s\<lparr>d_size := d_size s + n\<rparr>, 0)) (dbuf_copy s (d_size s) data n)))
      else None)"

definition dbuf_putc :: "dynbuf \<Rightarrow> char \<Rightarrow> (dynbuf \<times> int) option" where
  "dbuf_putc s c = dbuf_put s [c] 1"

definition dbuf_putstr :: "dynbuf \<Rightarrow> string \<Rightarrow> (dynbuf \<times> int) option" where
  "dbuf_putstr s str = (case strlen str of None \<Rightarrow> None | Some l \<Rightarrow> dbuf_put s str (of_nat l))"

text \<open>The bytes of an integer of \<open>k\<close> bytes, the least significant first.\<close>

fun le_bytes :: "nat \<Rightarrow> nat \<Rightarrow> string" where
  "le_bytes 0 v = []"
| "le_bytes (Suc k) v = char_of (v mod 256) # le_bytes k (v div 256)"

definition dbuf_put_u16 :: "dynbuf \<Rightarrow> u16 \<Rightarrow> (dynbuf \<times> int) option" where
  "dbuf_put_u16 s val = dbuf_put s (le_bytes 2 (unat val)) 2"

definition dbuf_put_u32 :: "dynbuf \<Rightarrow> u32 \<Rightarrow> (dynbuf \<times> int) option" where
  "dbuf_put_u32 s val = dbuf_put s (le_bytes 4 (unat val)) 4"

definition dbuf_put_u64 :: "dynbuf \<Rightarrow> u64 \<Rightarrow> (dynbuf \<times> int) option" where
  "dbuf_put_u64 s val = dbuf_put s (le_bytes 8 (unat val)) 8"

text \<open>
  \<open>dbuf_printf\<close> of a text that is already formatted: short texts go through a local array of
  128 bytes, longer ones are printed into the buffer, whose \<open>vsnprintf\<close> adds a NUL.
\<close>

definition dbuf_printf :: "dynbuf \<Rightarrow> string \<Rightarrow> (dynbuf \<times> int) option" where
  "dbuf_printf s txt =
     (let n = length txt in
      if n < 128 then dbuf_put s (txt @ replicate (128 - n) NUL) (of_nat n)
      else
        case dbuf_realloc s (d_size s + of_nat n + 1) of
          None \<Rightarrow> None
        | Some (s, r) \<Rightarrow>
        if r \<noteq> 0 then Some (s, -1)
        else (case d_buf s of
            None \<Rightarrow> None
          | Some m \<Rightarrow>
              (case snprintf (drop (unat (d_size s)) m) (unat (d_allocated_size s - d_size s)) txt of
                 None \<Rightarrow> None
               | Some rest \<Rightarrow>
                   Some (s\<lparr>d_buf := Some (take (unat (d_size s)) m @ rest), d_size := d_size s + of_nat n\<rparr>, 0))))"

definition dbuf_free :: "dynbuf \<Rightarrow> dynbuf" where
  "dbuf_free s = \<lparr>d_buf = None, d_size = 0, d_allocated_size = 0, d_error = False, d_realloc_func = None\<rparr>"

definition dbuf_error :: "dynbuf \<Rightarrow> bool" where "dbuf_error s = d_error s"

definition dbuf_set_error :: "dynbuf \<Rightarrow> dynbuf" where "dbuf_set_error s = s\<lparr>d_error := True\<rparr>"

text \<open>What a buffer holds, and its invariant.\<close>

definition dbuf_content :: "dynbuf \<Rightarrow> string" where
  "dbuf_content s = (case d_buf s of None \<Rightarrow> [] | Some m \<Rightarrow> take (unat (d_size s)) m)"

definition dbuf_ok :: "dynbuf \<Rightarrow> bool" where
  "dbuf_ok s \<longleftrightarrow> d_size s \<le> d_allocated_size s \<and>
     (case d_buf s of None \<Rightarrow> d_allocated_size s = 0 | Some m \<Rightarrow> length m = unat (d_allocated_size s)) \<and>
     (case d_realloc_func s of None \<Rightarrow> False | Some f \<Rightarrow> realloc_ok f)"

lemma dbuf_init_ok: "realloc_ok realloc \<Longrightarrow> dbuf_ok (dbuf_init realloc) \<and> dbuf_content (dbuf_init realloc) = []"
  by (simp add: dbuf_init_def dbuf_init2_def dbuf_default_realloc_def[abs_def] dbuf_ok_def dbuf_content_def)

lemma dbuf_realloc_spec:
  assumes "dbuf_ok s"
  shows "\<exists>s' r. dbuf_realloc s n = Some (s', r) \<and> dbuf_ok s' \<and> dbuf_content s' = dbuf_content s \<and>
    d_size s' = d_size s \<and> d_realloc_func s' = d_realloc_func s \<and>
    (r = 0 \<and> n \<le> d_allocated_size s' \<or> r = -1 \<and> d_error s')"
proof (cases "n > d_allocated_size s \<and> \<not> d_error s")
  case True
  obtain f where f: "d_realloc_func s = Some f" "realloc_ok f"
    using assms by (auto simp: dbuf_ok_def split: option.splits)
  let ?sz = "d_allocated_size s * 3 div 2"
  define k where "k = (if ?sz > n then ?sz else n)"
  have kn: "n \<le> k" by (auto simp: k_def)
  show ?thesis
  proof (cases "f (d_buf s) (unat k)")
    case None
    thus ?thesis using True f assms
      by (auto simp: dbuf_realloc_def Let_def k_def[symmetric] dbuf_ok_def dbuf_content_def split: option.splits)
  next
    case (Some m)
    have len: "length m = unat k" using f(2) Some by (auto simp: realloc_ok_def)
    have le: "d_size s \<le> k" "d_allocated_size s \<le> k" using assms True kn by (auto simp: dbuf_ok_def)
    have "take (unat (d_size s)) m = dbuf_content s"
    proof (cases "d_buf s")
      case None
      hence "d_size s \<le> 0" using assms by (auto simp: dbuf_ok_def)
      hence "d_size s = 0" by simp
      thus ?thesis using None by (simp add: dbuf_content_def)
    next
      case (Some old)
      have l: "length old = unat (d_allocated_size s)" using assms Some by (simp add: dbuf_ok_def)
      have j: "min (unat k) (length old) = length old" using le(2) l by (simp add: word_le_nat_alt)
      have "take (length old) m = old"
        using f(2)[unfolded realloc_ok_def, rule_format, OF \<open>f (d_buf s) (unat k) = Some m\<close>] Some j by simp
      from arg_cong[OF this, of "take (unat (d_size s))"]
      show ?thesis using Some l assms by (simp add: dbuf_content_def dbuf_ok_def word_le_nat_alt min_absorb1)
    qed
    thus ?thesis using True f Some len le kn
      by (auto simp: dbuf_realloc_def Let_def k_def[symmetric] dbuf_ok_def dbuf_content_def)
  qed
qed (use assms in \<open>auto simp: dbuf_realloc_def\<close>)

lemma dbuf_room_spec:
  assumes "dbuf_ok s"
  shows "\<exists>s' r. dbuf_room s n = Some (s', r) \<and> dbuf_ok s' \<and> dbuf_content s' = dbuf_content s \<and>
    d_size s' = d_size s \<and> d_realloc_func s' = d_realloc_func s \<and>
    (r = 0 \<and> d_size s + n \<le> d_allocated_size s' \<or> r = -1 \<and> d_error s')"
  using dbuf_realloc_spec[OF assms, of "d_size s + n"] assms by (auto simp: dbuf_room_def)

lemma dbuf_copy_end:
  assumes "dbuf_ok s" "unat (d_size s) + unat n < 2 ^ 64" "d_size s + n \<le> d_allocated_size s" "unat n \<le> length data"
  shows "\<exists>s'. dbuf_copy s (d_size s) data n = Some s' \<and> dbuf_ok (s'\<lparr>d_size := d_size s' + n\<rparr>) \<and>
    dbuf_content (s'\<lparr>d_size := d_size s' + n\<rparr>) = dbuf_content s @ take (unat n) data \<and> d_realloc_func s' = d_realloc_func s"
proof (cases "n = 0")
  case True
  thus ?thesis using assms by (simp add: dbuf_copy_def)
next
  case False
  have sum: "unat (d_size s + n) = unat (d_size s) + unat n" using assms(2) by (simp add: unat_word_ariths)
  obtain m where m: "d_buf s = Some m" "length m = unat (d_allocated_size s)"
    using assms(1,3) False sum by (auto simp: dbuf_ok_def split: option.splits)
  have le: "unat (d_size s) + unat n \<le> length m" using assms(3) m(2) sum by (simp add: word_le_nat_alt)
  have "blit m (unat (d_size s)) data (unat n) =
      Some (take (unat (d_size s)) m @ take (unat n) data @ drop (unat (d_size s) + unat n) m)"
    using le assms(4) by (intro blit_in) simp_all
  thus ?thesis using False m le assms sum by (simp add: dbuf_copy_def dbuf_ok_def dbuf_content_def)
qed

text \<open>
  An append succeeds, or fails with the error flag set and the contents as they were. The
  sizes must not reach \<open>2^64\<close>.
\<close>

lemma dbuf_put_appends:
  assumes "dbuf_ok s" "unat (d_size s) + unat n < 2 ^ 64" "unat n \<le> length data"
  shows "\<exists>s' r. dbuf_put s data n = Some (s', r) \<and> dbuf_ok s' \<and>
    (r = 0 \<and> dbuf_content s' = dbuf_content s @ take (unat n) data \<or>
     r = -1 \<and> d_error s' \<and> dbuf_content s' = dbuf_content s)"
proof -
  obtain s1 r where s1: "dbuf_room s n = Some (s1, r)" "dbuf_ok s1" "dbuf_content s1 = dbuf_content s"
    "d_size s1 = d_size s" "r = 0 \<and> d_size s + n \<le> d_allocated_size s1 \<or> r = -1 \<and> d_error s1"
    using dbuf_room_spec[OF assms(1), of n] by blast
  show ?thesis
  proof (cases "r = 0")
    case True
    thus ?thesis using dbuf_copy_end[OF s1(2), of n data] s1 assms(2,3) by (force simp: dbuf_put_def)
  qed (use s1 in \<open>auto simp: dbuf_put_def\<close>)
qed

lemma dbuf_printf_appends:
  assumes "dbuf_ok s" "unat (d_size s) + length txt + 1 < 2 ^ 64" "NUL \<notin> set txt"
  shows "\<exists>s' r. dbuf_printf s txt = Some (s', r) \<and> dbuf_ok s' \<and>
    (r = 0 \<and> dbuf_content s' = dbuf_content s @ txt \<or>
     r = -1 \<and> d_error s' \<and> dbuf_content s' = dbuf_content s)"
proof (cases "length txt < 128")
  case True
  have "unat (of_nat (length txt) :: u64) = length txt" using True by (simp add: unat_of_nat)
  thus ?thesis using dbuf_put_appends[OF assms(1), of "of_nat (length txt)" "txt @ replicate (128 - length txt) NUL"] True assms(2)
    by (simp add: dbuf_printf_def Let_def)
next
  case False
  let ?n = "d_size s + of_nat (length txt) + 1"
  have n: "unat ?n = unat (d_size s) + length txt + 1"
    using assms(2) by (simp add: unat_word_ariths unat_of_nat)
  obtain s1 r where s1: "dbuf_realloc s ?n = Some (s1, r)" "dbuf_ok s1" "dbuf_content s1 = dbuf_content s"
    "d_size s1 = d_size s" "r = 0 \<and> ?n \<le> d_allocated_size s1 \<or> r = -1 \<and> d_error s1"
    using dbuf_realloc_spec[OF assms(1), of ?n] by blast
  show ?thesis
  proof (cases "r = 0")
    case True
    let ?z = "unat (d_size s)"
    have al: "?z + length txt + 1 \<le> unat (d_allocated_size s1)"
      using s1(5) True n by (simp add: word_le_nat_alt)
    then obtain m where m: "d_buf s1 = Some m" "length m = unat (d_allocated_size s1)"
      using s1(2) by (auto simp: dbuf_ok_def split: option.splits)
    have le: "d_size s \<le> d_allocated_size s1" using al by (simp add: word_le_nat_alt)
    have sub: "unat (d_allocated_size s1 - d_size s) = unat (d_allocated_size s1) - ?z" using le by (rule unat_sub)
    have k: "min (unat (d_allocated_size s1) - ?z - 1) (length txt) = length txt" using al by simp
    have p: "snprintf (drop ?z m) (unat (d_allocated_size s1 - d_size s)) txt =
        Some (txt @ NUL # drop (Suc (length txt)) (drop ?z m))"
      unfolding snprintf_def sub Let_def k using al m(2) by simp
    have sz: "unat (d_size s + of_nat (length txt)) = ?z + length txt"
      using assms(2) by (simp add: unat_word_ariths unat_of_nat)
    have c: "dbuf_content s = take ?z m" using s1(3,4) m(1) by (simp add: dbuf_content_def)
    let ?s = "s1\<lparr>d_buf := Some (take ?z m @ txt @ NUL # drop (Suc (length txt)) (drop ?z m)),
        d_size := d_size s + of_nat (length txt)\<rparr>"
    have "dbuf_printf s txt = Some (?s, 0)"
      using False True s1(1,4) m(1) p by (simp add: dbuf_printf_def Let_def)
    moreover have "dbuf_ok ?s" using s1(2) m(2) al sz by (simp add: dbuf_ok_def word_le_nat_alt)
    moreover have "dbuf_content ?s = dbuf_content s @ txt" 
      unfolding c unfolding dbuf_content_def using al m(2) sz by simp
    ultimately show ?thesis by blast
  qed (use False s1 in \<open>auto simp: dbuf_printf_def Let_def\<close>)
qed

text \<open>A buffer whose text is put whole, as a byte sink.\<close>

definition dbuf_append :: "dynbuf \<Rightarrow> string \<Rightarrow> (dynbuf \<times> int) option" where
  "dbuf_append s data = dbuf_put s data (of_nat (length data))"

lemma dbuf_content_length: "dbuf_ok s \<Longrightarrow> length (dbuf_content s) = unat (d_size s)"
  by (auto simp: dbuf_ok_def dbuf_content_def word_le_nat_alt split: option.splits)

interpretation dbuf: byte_sink dbuf_append dbuf_content dbuf_ok
proof
  fix s :: dynbuf and d :: string
  assume s: "dbuf_ok s" "length (dbuf_content s) + length d < 2 ^ 64"
  have n: "unat (of_nat (length d) :: u64) = length d" using s(2) by (simp add: unat_of_nat)
  show "\<exists>s' r. dbuf_append s d = Some (s', r) \<and> dbuf_ok s' \<and>
      (r = 0 \<and> dbuf_content s' = dbuf_content s @ d \<or> r \<noteq> 0 \<and> dbuf_content s' = dbuf_content s)"
    using dbuf_put_appends[OF s(1), of "of_nat (length d)" d] s n
    by (auto simp: dbuf_append_def dbuf_content_length)
qed

lemma le_bytes_length [simp]: "length (le_bytes k v) = k"
  by (induction k arbitrary: v) auto

text \<open>The number in bytes, the lowest first.\<close>

fun le_val :: "string \<Rightarrow> nat" where
  "le_val [] = 0"
| "le_val (c # cs) = uchar c + 256 * le_val cs"

lemma le_val_bytes: "v < 256 ^ k \<Longrightarrow> le_val (le_bytes k v) = v"
proof (induction k arbitrary: v)
  case (Suc k)
  have "v div 256 < 256 ^ k" using Suc.prems by (simp add: less_mult_imp_div_less mult.commute)
  thus ?case using Suc.IH by simp
qed simp

section \<open>UTF-8\<close>

text \<open>
  \<open>unicode_to_utf8\<close> gives the bytes it stores, none for a code that does not fit 31 bits;
  \<open>lead_byte\<close> and \<open>cont_byte\<close> are its assignments to \<open>*q++\<close>, which cut to 8 bits.
\<close>

definition lead_byte :: "nat \<Rightarrow> u32 \<Rightarrow> u32 \<Rightarrow> u8" where
  "lead_byte k c tag = ucast (drop_bit k c OR tag)"

definition cont_byte :: "nat \<Rightarrow> u32 \<Rightarrow> u8" where
  "cont_byte k c = ucast ((drop_bit k c AND 0x3f) OR 0x80)"

definition unicode_to_utf8 :: "u32 \<Rightarrow> u8 list" where
  "unicode_to_utf8 c =
     (if c < 0x80 then [ucast c]
      else if c < 0x800 then [lead_byte 6 c 0xc0, cont_byte 0 c]
      else if c < 0x10000 then [lead_byte 12 c 0xe0, cont_byte 6 c, cont_byte 0 c]
      else if c < 0x00200000 then [lead_byte 18 c 0xf0, cont_byte 12 c, cont_byte 6 c, cont_byte 0 c]
      else if c < 0x04000000 then
        [lead_byte 24 c 0xf8, cont_byte 18 c, cont_byte 12 c, cont_byte 6 c, cont_byte 0 c]
      else if c < 0x80000000 then
        [lead_byte 30 c 0xfc, cont_byte 24 c, cont_byte 18 c, cont_byte 12 c, cont_byte 6 c, cont_byte 0 c]
      else [])"

definition utf8_min_code :: "u32 list" where
  "utf8_min_code = [0x80, 0x800, 0x10000, 0x00200000, 0x04000000]"

definition utf8_first_code_mask :: "u32 list" where
  "utf8_first_code_mask = [0x1f, 0xf, 0x7, 0x3, 0x1]"

text \<open>The \<open>switch\<close> over the first byte: the number of bytes that follow.\<close>

definition utf8_follow :: "u8 \<Rightarrow> nat option" where
  "utf8_follow c =
     (if 0xc0 \<le> c \<and> c \<le> 0xdf then Some 1
      else if 0xe0 \<le> c \<and> c \<le> 0xef then Some 2
      else if 0xf0 \<le> c \<and> c \<le> 0xf7 then Some 3
      else if 0xf8 \<le> c \<and> c \<le> 0xfb then Some 4
      else if 0xfc \<le> c \<and> c \<le> 0xfd then Some 5
      else None)"

fun utf8_tail :: "u8 list \<Rightarrow> nat \<Rightarrow> nat \<Rightarrow> u32 \<Rightarrow> u32 option option" where
  "utf8_tail p i 0 c = Some (Some c)"
| "utf8_tail p i (Suc l) c =
     (case rd p i of
        None \<Rightarrow> None
      | Some b \<Rightarrow>
          if b < 0x80 \<or> b \<ge> 0xc0 then Some None
          else utf8_tail p (Suc i) l (push_bit 6 c OR (ucast b AND 0x3f)))"

text \<open>The code and the number of bytes \<open>*pp\<close> moves by; \<open>-1\<close> leaves \<open>*pp\<close> alone.\<close>

definition unicode_from_utf8 :: "u8 list \<Rightarrow> int \<Rightarrow> (int \<times> nat option) option" where
  "unicode_from_utf8 p max_len =
     (case rd p 0 of
        None \<Rightarrow> None
      | Some c \<Rightarrow>
          if c < 0x80 then Some (int (unat c), Some 1)
          else (case utf8_follow c of
              None \<Rightarrow> Some (-1, None)
            | Some l \<Rightarrow>
                if int l > max_len - 1 then Some (-1, None)
                else (case utf8_tail p 1 l (ucast c AND utf8_first_code_mask ! (l - 1)) of
                    None \<Rightarrow> None
                  | Some None \<Rightarrow> Some (-1, None)
                  | Some (Some v) \<Rightarrow>
                      if v < utf8_min_code ! (l - 1) then Some (-1, None)
                      else Some (int (unat v), Some (l + 1)))))"

text \<open>The same in arithmetic: digits of base 64 after a first byte.\<close>

lemma or_add: "take_bit k (t :: 'a :: len word) = 0 \<Longrightarrow> unat x < 2 ^ k \<Longrightarrow> unat (x OR t) = unat x + unat t"
proof -
  assume t: "take_bit k t = 0" and x: "unat x < 2 ^ k"
  have tx: "take_bit k x = x" using x by (metis take_bit_nat_eq_self unsigned_take_bit_eq word_unat_eq_iff)
  have d: "\<not> bit x n \<or> \<not> bit t n" for n
  proof (cases "n < k")
    case True
    have "bit (take_bit k t) n = bit t n" using True by (simp add: bit_take_bit_iff)
    thus ?thesis using t by simp
  next
    case False
    have "\<not> bit (take_bit k x) n" using False by (simp add: bit_take_bit_iff)
    thus ?thesis using tx by simp
  qed
  have "unat (x OR t) = unat x OR unat t" by (simp add: unsigned_or_eq)
  also have "\<dots> = unat x + unat t"
    using d by (intro disjunctive_add[symmetric]) (auto simp: bit_unsigned_iff)
  finally show ?thesis .
qed

lemma drop_bit_nat: "unat (drop_bit k (c :: 'a :: len word)) = unat c div 2 ^ k"
  by (metis drop_bit_eq_div take_bit_nat_eq_self unsigned_drop_bit_eq unsigned_less)

lemma lead_byte_nat:
  assumes "unat c div 2 ^ k < 2 ^ j" "j \<le> 8" "take_bit j tag = 0" "2 ^ j + unat tag \<le> 256"
  shows "unat (lead_byte k c tag) = unat c div 2 ^ k + unat tag"
proof -
  have "unat (drop_bit k c OR tag) = unat c div 2 ^ k + unat tag"
    using or_add[OF assms(3), of "drop_bit k c"] assms(1) unfolding drop_bit_nat by blast
  thus ?thesis using assms(1,4) by (simp add: lead_byte_def unsigned_ucast_eq take_bit_eq_mod)
qed

lemma and_3f: "unat (x AND 0x3f :: u32) = unat x mod 64"
proof -
  have "x AND 0x3f = take_bit 6 x" by (simp add: take_bit_eq_mask mask_eq_exp_minus_1)
  hence "unat (x AND 0x3f) = take_bit 6 (unat x)" by (simp only: unsigned_take_bit_eq)
  thus ?thesis by (simp add: take_bit_eq_mod)
qed

lemma cont_byte_nat: "unat (cont_byte k c) = 128 + unat c div 2 ^ k mod 64"
proof -
  have "unat ((drop_bit k c AND 0x3f) OR 0x80) = unat c div 2 ^ k mod 64 + 128"
    using or_add[of 7 "0x80 :: u32" "drop_bit k c AND 0x3f"] mod_less_divisor[of 64 "unat c div 2 ^ k"]
    unfolding and_3f drop_bit_nat by (simp add: take_bit_eq_mod)
  thus ?thesis by (simp add: cont_byte_def unsigned_ucast_eq take_bit_eq_mod)
qed

lemma cont_step:
  assumes "unat c < 2 ^ 25"
  shows "unat (push_bit 6 c OR (ucast (b :: u8) AND 0x3f) :: u32) = unat c * 64 + unat b mod 64"
proof -
  have m: "unat (ucast b AND 0x3f :: u32) = unat b mod 64"
    using unsigned_less[of b, where ?'a = nat] by (simp add: and_3f unsigned_ucast_eq take_bit_eq_mod)
  have p: "unat (push_bit 6 c) = unat c * 64"
    using assms by (simp add: push_bit_eq_mult unat_word_ariths)
  have "take_bit 6 (push_bit 6 c) = 0" by (simp add: take_bit_push_bit)
  thus ?thesis using or_add[of 6 "push_bit 6 c" "ucast b AND 0x3f :: u32"] m p by (simp add: or.commute)
qed

text \<open>The code units of a code, in base 64, and what the loop makes of them.\<close>

fun base64 :: "nat \<Rightarrow> nat \<Rightarrow> nat list" where
  "base64 0 n = []"
| "base64 (Suc l) n = n div 64 ^ l mod 64 # base64 l n"

fun from64 :: "nat \<Rightarrow> nat list \<Rightarrow> nat" where
  "from64 a [] = a"
| "from64 a (d # ds) = from64 (a * 64 + d) ds"

lemma from64_base64: "from64 (n div 64 ^ l) (base64 l n) = n"
proof (induction l)
  case (Suc l)
  have "n div 64 ^ Suc l * 64 + n div 64 ^ l mod 64 = n div 64 ^ l"
    by (simp add: div_mult2_eq mult.commute[of 64] div_mult_mod_eq)
  thus ?case using Suc by simp
qed simp

lemma from64_div: "\<forall>d \<in> set ds. d < 64 \<Longrightarrow> from64 a ds div 64 ^ length ds = a \<and> base64 (length ds) (from64 a ds) = ds"
proof (induction ds arbitrary: a)
  case (Cons d ds)
  have IH: "from64 (a * 64 + d) ds div 64 ^ length ds = a * 64 + d" "base64 (length ds) (from64 (a * 64 + d) ds) = ds"
    using Cons by auto
  have "from64 (a * 64 + d) ds div 64 ^ Suc (length ds) = (a * 64 + d) div 64"
    unfolding power_Suc2 div_mult2_eq IH(1) ..
  thus ?case using IH Cons.prems by simp
qed simp

lemma utf8_tail_spec:
  assumes "unat c < 2 ^ 31 div 64 ^ l" "i + l \<le> length p" "l \<le> 5"
  shows "if \<forall>b \<in> set (take l (drop i p)). 0x80 \<le> b \<and> b < 0xc0
    then \<exists>v. utf8_tail p i l c = Some (Some v) \<and>
      unat v = from64 (unat c) (map (\<lambda>b. unat b mod 64) (take l (drop i p)))
    else utf8_tail p i l c = Some None"
  using assms
proof (induction p i l c rule: utf8_tail.induct)
  case (2 p i l c)
  let ?c = "push_bit 6 c OR (ucast (p ! i) AND 0x3f)"
  have "2 ^ 31 div 64 ^ Suc l \<le> (2 ^ 25 :: nat)" by (simp add: div_mult2_eq div_le_dividend order.trans)
  hence c: "unat c < 2 ^ 25" using 2(2) by linarith
  note s = cont_step[OF c, of "p ! i"]
  have "(unat c + 1) \<le> 2 ^ 31 div 64 ^ Suc l" using 2(2) by simp
  hence "(unat c + 1) * 64 \<le> 2 ^ 31 div 64 ^ l"
    by (simp add: div_mult2_eq mult.commute[of 64] less_eq_div_iff_mult_less_eq)
  hence "unat c * 64 + 64 \<le> 2 ^ 31 div 64 ^ l" by simp
  hence b: "unat ?c < 2 ^ 31 div 64 ^ l" unfolding s by (rule less_le_trans[rotated]) simp
  have d: "take (Suc l) (drop i p) = p ! i # take l (drop (Suc i) p)" "i < length p"
    using 2(3) by (simp_all add: Cons_nth_drop_Suc[symmetric])
  show ?case
  proof (cases "p ! i < 0x80 \<or> p ! i \<ge> 0xc0")
    case True
    thus ?thesis using d by (auto simp: not_le not_less)
  next
    case False
    have "if \<forall>b \<in> set (take l (drop (Suc i) p)). 0x80 \<le> b \<and> b < 0xc0
      then \<exists>v. utf8_tail p (Suc i) l ?c = Some (Some v) \<and>
        unat v = from64 (unat ?c) (map (\<lambda>b. unat b mod 64) (take l (drop (Suc i) p)))
      else utf8_tail p (Suc i) l ?c = Some None"
      using 2(1)[OF _ False b] d(2) 2(3,4) by simp
    thus ?thesis using False d unfolding s by (auto split: if_splits)
  qed
qed simp

definition utf8_tag :: "nat \<Rightarrow> nat" where
  "utf8_tag l = [0xc0, 0xe0, 0xf0, 0xf8, 0xfc] ! (l - 1)"

lemma nat_1_5: "1 \<le> l \<Longrightarrow> l \<le> 5 \<Longrightarrow> l = 1 \<or> l = 2 \<or> l = 3 \<or> l = 4 \<or> l = (5::nat)"
  by auto

lemma utf8_tag_facts:
  assumes "1 \<le> l" "l \<le> 5"
  shows "take_bit (6 - l) (of_nat (utf8_tag l) :: u32) = 0" "2 ^ (6 - l) + utf8_tag l \<le> 256"
    "unat (of_nat (utf8_tag l) :: u32) = utf8_tag l" "utf8_tag l mod 2 ^ (6 - l) = 0"
  using nat_1_5[OF assms] by (auto simp: utf8_tag_def take_bit_eq_mod)

lemma base64_rec: "0 < l \<Longrightarrow> base64 l n = n div 64 ^ (l - 1) mod 64 # base64 (l - 1) n"
  by (cases l) auto

lemma lead_byte_tag:
  assumes "1 \<le> l" "l \<le> 5" "unat c < 2 ^ (6 + 5 * l)"
  shows "unat (lead_byte (6 * l) c (of_nat (utf8_tag l))) = unat c div 64 ^ l + utf8_tag l"
proof -
  have e: "(64 :: nat) ^ l = 2 ^ (6 * l)" by (simp add: power_mult)
  have d: "unat c div 2 ^ (6 * l) < 2 ^ (6 - l)"
  proof -
    have "6 - l + 6 * l = 6 + 5 * l" using assms(2) by simp
    hence "2 ^ (6 - l) * 2 ^ (6 * l) = (2 :: nat) ^ (6 + 5 * l)" by (simp only: power_add[symmetric])
    thus ?thesis using assms(3) by (simp add: less_mult_imp_div_less)
  qed
  note t = utf8_tag_facts[OF assms(1,2)]
  show ?thesis unfolding e
    using lead_byte_nat[OF d _ t(1)] t(2,3) assms(1) by simp
qed

lemma to_utf8_code:
  assumes "1 \<le> l" "l \<le> 5" "unat (utf8_min_code ! (l - 1)) \<le> unat c" "unat c < 2 ^ (6 + 5 * l)"
  shows "map unat (unicode_to_utf8 c) = (unat c div 64 ^ l + utf8_tag l) # map ((+) 128) (base64 l (unat c))"
proof -
  have n: "c < w \<longleftrightarrow> unat c < unat w" for w by (rule word_less_nat_alt)
  note lead = lead_byte_tag[OF assms(1,2,4)]
  consider "l = 1" | "l = 2" | "l = 3" | "l = 4" | "l = 5" using assms(1,2) by linarith
  thus ?thesis
  proof cases
    case 1
    hence "unicode_to_utf8 c = [lead_byte 6 c 0xc0, cont_byte 0 c]"
      using assms(3,4) by (simp add: unicode_to_utf8_def n utf8_min_code_def)
    thus ?thesis using lead 1 by (simp add: utf8_tag_def cont_byte_nat)
  next
    case 2
    hence "unicode_to_utf8 c = [lead_byte 12 c 0xe0, cont_byte 6 c, cont_byte 0 c]"
      using assms(3,4) by (simp add: unicode_to_utf8_def n utf8_min_code_def)
    thus ?thesis using lead 2 by (simp add: utf8_tag_def cont_byte_nat base64_rec)
  next
    case 3
    hence "unicode_to_utf8 c = [lead_byte 18 c 0xf0, cont_byte 12 c, cont_byte 6 c, cont_byte 0 c]"
      using assms(3,4) by (simp add: unicode_to_utf8_def n utf8_min_code_def)
    thus ?thesis using lead 3 by (simp add: utf8_tag_def cont_byte_nat base64_rec)
  next
    case 4
    hence "unicode_to_utf8 c = [lead_byte 24 c 0xf8, cont_byte 18 c, cont_byte 12 c, cont_byte 6 c, cont_byte 0 c]"
      using assms(3,4) by (simp add: unicode_to_utf8_def n utf8_min_code_def)
    thus ?thesis using lead 4 by (simp add: utf8_tag_def cont_byte_nat base64_rec)
  next
    case 5
    hence "unicode_to_utf8 c =
        [lead_byte 30 c 0xfc, cont_byte 24 c, cont_byte 18 c, cont_byte 12 c, cont_byte 6 c, cont_byte 0 c]"
      using assms(3,4) by (simp add: unicode_to_utf8_def n utf8_min_code_def)
    thus ?thesis using lead 5 by (simp add: utf8_tag_def cont_byte_nat base64_rec)
  qed
qed

lemma utf8_follow_iff:
  "utf8_follow b = Some l \<longleftrightarrow> 1 \<le> l \<and> l \<le> 5 \<and> utf8_tag l \<le> unat b \<and> unat b < utf8_tag l + 2 ^ (6 - l)"
proof -
  have b: "unat b < 256" using unsigned_less[of b, where ?'a = nat] by simp
  note w = word_le_nat_alt[of _ b] word_le_nat_alt[of b]
  have f: "utf8_follow b = Some l \<longleftrightarrow>
      l = 1 \<and> 192 \<le> unat b \<and> unat b < 224 \<or> l = 2 \<and> 224 \<le> unat b \<and> unat b < 240 \<or>
      l = 3 \<and> 240 \<le> unat b \<and> unat b < 248 \<or> l = 4 \<and> 248 \<le> unat b \<and> unat b < 252 \<or>
      l = 5 \<and> 252 \<le> unat b \<and> unat b < 254"
    unfolding utf8_follow_def w by auto
  show ?thesis
  proof (cases "1 \<le> l \<and> l \<le> 5")
    case True
    then consider "l = 1" | "l = 2" | "l = 3" | "l = 4" | "l = 5" by linarith
    thus ?thesis unfolding f by cases (simp_all add: utf8_tag_def)
  qed (auto simp: f)
qed

lemma first_code:
  assumes "1 \<le> l" "l \<le> 5" "utf8_tag l \<le> unat b" "unat b < utf8_tag l + 2 ^ (6 - l)"
  shows "unat (ucast (b :: u8) AND utf8_first_code_mask ! (l - 1)) = unat b - utf8_tag l"
proof -
  have m: "utf8_first_code_mask ! (l - 1) = mask (6 - l)"
    using nat_1_5[OF assms(1,2)] by (auto simp: utf8_first_code_mask_def mask_eq_exp_minus_1)
  have u: "unat (ucast b :: u32) = unat b"
    using unsigned_less[of b, where ?'a = nat] by (simp add: unsigned_ucast_eq take_bit_eq_mod)
  have "unat (ucast b AND mask (6 - l) :: u32) = unat b mod 2 ^ (6 - l)"
    unfolding take_bit_eq_mask[symmetric] unsigned_take_bit_eq u by (simp add: take_bit_eq_mod)
  also obtain r where r: "unat b = utf8_tag l + r" "r < 2 ^ (6 - l)"
    using assms(3,4) by (metis add_less_cancel_left le_Suc_ex)
  have "unat b mod 2 ^ (6 - l) = r"
    unfolding r(1) using utf8_tag_facts(4)[OF assms(1,2)] r(2) by (simp add: mod_add_eq[symmetric])
  finally show ?thesis unfolding m using r(1) by simp
qed

lemma from_utf8_multi:
  assumes "utf8_follow (hd p) = Some l" "int l \<le> max_len - 1" "l < length p"
  defines "q \<equiv> take l (tl p)"
  defines "n \<equiv> from64 (unat (hd p) - utf8_tag l) (map (\<lambda>b. unat b mod 64) q)"
  shows "unicode_from_utf8 p max_len =
    Some (if (\<forall>b \<in> set q. 0x80 \<le> b \<and> b < 0xc0) \<and> unat (utf8_min_code ! (l - 1)) \<le> n
      then (int n, Some (l + 1)) else (-1, None))"
proof -
  let ?b = "hd p"
  have l: "1 \<le> l" "l \<le> 5" "utf8_tag l \<le> unat ?b" "unat ?b < utf8_tag l + 2 ^ (6 - l)"
    using assms(1) by (auto simp: utf8_follow_iff)
  have big: "\<not> ?b < 0x80" using l(3) nat_1_5[OF l(1,2)] by (auto simp: word_less_nat_alt utf8_tag_def)
  have lim: "2 ^ (6 - l) \<le> (2 :: nat) ^ 31 div 64 ^ l" using nat_1_5[OF l(1,2)] by auto
  have c: "unat (ucast ?b AND utf8_first_code_mask ! (l - 1) :: u32) = unat ?b - utf8_tag l" by (rule first_code[OF l])
  hence lt: "unat (ucast ?b AND utf8_first_code_mask ! (l - 1) :: u32) < 2 ^ 31 div 64 ^ l" using l(3,4) lim by linarith
  have drop1: "drop 1 p = tl p" by (simp add: drop_Suc)
  note t = utf8_tail_spec[OF lt _ l(2), of 1 p, unfolded c drop1, folded q_def, folded n_def]
  have z: "rd p 0 = Some ?b" using assms(3) by (cases p) auto
  have len: "1 + l \<le> length p" using assms(3) by simp
  show ?thesis using t[OF len] assms(1,2) big
    by (auto simp: unicode_from_utf8_def z word_less_nat_alt not_less split: if_splits)
qed

lemma base64_length [simp]: "length (base64 l n) = l"
  by (induction l) auto

lemma base64_digits: "\<forall>d \<in> set (base64 l n). d < 64"
  by (induction l) auto

lemma mod64: "d < 64 \<Longrightarrow> (128 + d) mod 64 = (d :: nat)"
  using mod_mult_self1[of d 2 64] by (simp add: add.commute)

lemma cont_digit: "unat b = 128 + d \<Longrightarrow> d < 64 \<Longrightarrow> 0x80 \<le> b \<and> b < (0xc0 :: u8) \<and> unat b mod 64 = d"
  by (simp add: word_le_nat_alt word_less_nat_alt mod64)

lemma digit_cont: "0x80 \<le> b \<Longrightarrow> b < (0xc0 :: u8) \<Longrightarrow> 128 + unat b mod 64 = unat b"
  using mod64[of "unat b - 128"] by (simp add: word_le_nat_alt word_less_nat_alt)

lemma utf8_extra_ex:
  assumes "0x80 \<le> n" "n < 2 ^ 31"
  shows "\<exists>l. 1 \<le> l \<and> l \<le> 5 \<and> unat (utf8_min_code ! (l - 1)) \<le> n \<and> n < 2 ^ (6 + 5 * l)"
proof -
  consider "n < 0x800" | "0x800 \<le> n" "n < 0x10000" | "0x10000 \<le> n" "n < 0x200000" |
      "0x200000 \<le> n" "n < 0x4000000" | "0x4000000 \<le> n" by linarith
  thus ?thesis
  proof cases
    case 1 thus ?thesis using assms by (intro exI[of _ 1]) (simp add: utf8_min_code_def)
  next
    case 2 thus ?thesis using assms by (intro exI[of _ 2]) (simp add: utf8_min_code_def)
  next
    case 3 thus ?thesis using assms by (intro exI[of _ 3]) (simp add: utf8_min_code_def)
  next
    case 4 thus ?thesis using assms by (intro exI[of _ 4]) (simp add: utf8_min_code_def)
  next
    case 5 thus ?thesis using assms by (intro exI[of _ 5]) (simp add: utf8_min_code_def)
  qed
qed

text \<open>
  Decoding answers a code exactly when the bytes begin with its encoding: every code of 31 bits
  comes back, and no overlong or otherwise malformed sequence is taken for a code.
\<close>

lemma from_to_utf8:
  assumes "unat c < 2 ^ 31" "length (unicode_to_utf8 c) \<le> n" "n \<le> length p"
    "take (length (unicode_to_utf8 c)) p = unicode_to_utf8 c"
  shows "unicode_from_utf8 p (int n) = Some (int (unat c), Some (length (unicode_to_utf8 c)))"
proof (cases "unat c < 0x80")
  case True
  hence c: "c < 0x80" by (simp add: word_less_nat_alt)
  have u: "unat (ucast c :: u8) = unat c" using True by (simp add: unsigned_ucast_eq take_bit_eq_mod)
  have e: "unicode_to_utf8 c = [ucast c]" using c by (simp add: unicode_to_utf8_def)
  then obtain q where "p = ucast c # q" using assms(2-4) by (cases p) auto
  thus ?thesis using u True e by (simp add: unicode_from_utf8_def word_less_nat_alt)
next
  case False
  then obtain l where l: "1 \<le> l" "l \<le> 5" "unat (utf8_min_code ! (l - 1)) \<le> unat c" "unat c < 2 ^ (6 + 5 * l)"
    using utf8_extra_ex[of "unat c"] assms(1) by auto
  note code = to_utf8_code[OF l]
  obtain b0 bs where b: "unicode_to_utf8 c = b0 # bs" using code by (cases "unicode_to_utf8 c") auto
  have b0: "unat b0 = unat c div 64 ^ l + utf8_tag l" and bs: "map unat bs = map ((+) 128) (base64 l (unat c))"
    using code b by auto
  have len: "length bs = l" using arg_cong[OF bs, of length] by simp
  have p: "hd p = b0" "take l (tl p) = bs" "l < length p"
    using assms(2-4) b len by (cases p; auto)+
  have "2 ^ (6 + 5 * l) = (2 :: nat) ^ (6 - l) * 64 ^ l" using nat_1_5[OF l(1,2)] by auto
  hence d: "unat c div 64 ^ l < 2 ^ (6 - l)" using l(4) by (simp add: less_mult_imp_div_less)
  have f: "utf8_follow (hd p) = Some l" using l(1,2) b0 d p(1) by (simp add: utf8_follow_iff)
  have dig: "0x80 \<le> bs ! i \<and> bs ! i < 0xc0 \<and> unat (bs ! i) mod 64 = base64 l (unat c) ! i" if i: "i < l" for i
  proof (rule cont_digit)
    show "unat (bs ! i) = 128 + base64 l (unat c) ! i" using arg_cong[OF bs, of "\<lambda>x. x ! i"] i len by simp
    show "base64 l (unat c) ! i < 64" using base64_digits[of l "unat c"] i by simp
  qed
  have "map (\<lambda>b. unat b mod 64) bs = base64 l (unat c)" using dig len by (intro nth_equalityI) auto
  hence n: "from64 (unat (hd p) - utf8_tag l) (map (\<lambda>b. unat b mod 64) (take l (tl p))) = unat c"
    using p b0 from64_base64[of "unat c" l] by simp
  have "\<forall>b \<in> set (take l (tl p)). 0x80 \<le> b \<and> b < 0xc0" using dig len p(2) by (auto simp: in_set_conv_nth)
  thus ?thesis using from_utf8_multi[OF f _ p(3), of "int n", unfolded n] l(3) b len assms(2) by simp
qed

lemma utf8_follow_None: "0x80 \<le> c \<Longrightarrow> utf8_follow c = None \<Longrightarrow> unat c < 192 \<or> 254 \<le> unat c"
  unfolding utf8_follow_def word_le_nat_alt[of _ c] word_le_nat_alt[of c] by (auto split: if_splits)

lemma from_utf8_total:
  assumes "1 \<le> n" "n \<le> length p"
  obtains "unicode_from_utf8 p (int n) = Some (-1, None)"
  | c k where "unicode_from_utf8 p (int n) = Some (int (unat c), Some k)" "unat c < 2 ^ 31" "k \<le> n"
      "take k p = unicode_to_utf8 c" "k = length (unicode_to_utf8 c)"
proof (cases "hd p < 0x80")
  case True
  let ?c = "ucast (hd p) :: u32"
  have u: "unat ?c = unat (hd p)"
    using unsigned_less[of "hd p", where ?'a = nat] by (simp add: unsigned_ucast_eq take_bit_eq_mod)
  have "?c < 0x80" using True u by (simp add: word_less_nat_alt)
  moreover have "unat (ucast ?c :: u8) = unat (hd p)"
    using u unsigned_less[of "hd p", where ?'a = nat] by (simp add: unsigned_ucast_eq[of ?c] take_bit_eq_mod)
  ultimately have e: "unicode_to_utf8 ?c = [hd p]" by (simp add: unicode_to_utf8_def word_unat_eq_iff)
  have p: "p = hd p # tl p" using assms by (cases p) auto
  have "unicode_from_utf8 p (int n) = Some (int (unat ?c), Some 1)"
    using True u by (subst p) (simp add: unicode_from_utf8_def)
  moreover have "take 1 p = unicode_to_utf8 ?c" using e by (subst p) simp
  moreover have "unat ?c < 2 ^ 31" using True u by (simp add: word_less_nat_alt)
  ultimately show thesis using that(2)[of ?c 1] e assms by simp
next
  case False
  have rd: "rd p 0 = Some (hd p)" using assms by (cases p) auto
  show thesis
  proof (cases "utf8_follow (hd p)")
    case None
    thus thesis using that(1) False rd by (simp add: unicode_from_utf8_def)
  next
    case (Some l)
    show thesis
    proof (cases "l < n")
      case out: False
      thus thesis using that(1) False rd Some by (simp add: unicode_from_utf8_def)
    next
      case True
      note l = Some[unfolded utf8_follow_iff]
      hence l15: "1 \<le> l" "l \<le> 5" by auto
      let ?q = "take l (tl p)"
      let ?m = "from64 (unat (hd p) - utf8_tag l) (map (\<lambda>b. unat b mod 64) ?q)"
      have lq: "length ?q = l" using True assms by simp
      note r = from_utf8_multi[OF Some, of "int n"]
      show thesis
      proof (cases "(\<forall>b \<in> set ?q. 0x80 \<le> b \<and> b < 0xc0) \<and> unat (utf8_min_code ! (l - 1)) \<le> ?m")
        case bad: False
        thus thesis using that(1) r True assms by simp
      next
        case ok: True
        have dv: "?m div 64 ^ l = unat (hd p) - utf8_tag l" "base64 l ?m = map (\<lambda>b. unat b mod 64) ?q"
          using from64_div[of "map (\<lambda>b. unat b mod 64) ?q" "unat (hd p) - utf8_tag l"] lq by simp_all
        have "?m div 64 ^ l < 2 ^ (6 - l)" using dv(1) l by linarith
        hence "?m < 2 ^ (6 - l) * 64 ^ l" by (simp add: div_less_iff_less_mult)
        moreover have "2 ^ (6 + 5 * l) = (2 :: nat) ^ (6 - l) * 64 ^ l" using nat_1_5[OF l15] by auto
        ultimately have lim: "?m < 2 ^ (6 + 5 * l)" by simp
        moreover have "(2 :: nat) ^ (6 + 5 * l) \<le> 2 ^ 31" using l15 by (intro power_increasing) auto
        ultimately have m31: "?m < 2 ^ 31" by linarith
        let ?c = "of_nat ?m :: u32"
        have c: "unat ?c = ?m" using m31 by (simp add: unat_of_nat)
        have "map unat (unicode_to_utf8 ?c) = (?m div 64 ^ l + utf8_tag l) # map ((+) 128) (base64 l ?m)"
          using to_utf8_code[OF l15, of ?c] ok lim unfolding c by simp
        also have "\<dots> = unat (hd p) # map unat ?q" unfolding dv using l ok by (auto intro!: digit_cont)
        also have "\<dots> = map unat (take (l + 1) p)" using assms by (cases p) auto
        finally have "unicode_to_utf8 ?c = take (l + 1) p"
          by (rule map_injective[OF _ inj_onI, THEN sym, symmetric]) (simp add: word_unat_eq_iff)
        thus thesis using that(2)[of ?c "l + 1"] r ok c m31 True assms by simp
      qed
    qed
  qed
qed

section \<open>Properties\<close>

text \<open>
  C27. \<open>strnstr\<close> stays inside the \<open>slen\<close> bytes it is given, which need no terminator, and finds
  the first occurrence of the needle before a NUL; \<open>NULL\<close> means that there is none.
\<close>

theorem strnstr_first:
  assumes "NUL \<notin> set needle" "needle \<noteq> []" "p + slen \<le> length m"
  defines "hay \<equiv> cstr (take slen (drop p m))"
  shows "\<exists>r. strnstr m p needle slen = Some r \<and>
    (case r of
       None \<Rightarrow> \<forall>i. take (length needle) (drop i hay) \<noteq> needle
     | Some q \<Rightarrow> p \<le> q \<and> q + length needle \<le> p + slen \<and> take (length needle) (drop (q - p) hay) = needle \<and>
         (\<forall>j < q - p. take (length needle) (drop j hay) \<noteq> needle))"
proof (cases "find_sub needle hay")
  case None
  thus ?thesis using strnstr_spec[OF assms(1-3)] find_sub_None[OF None] unfolding hay_def by auto
next
  case (Some i)
  have "length hay \<le> slen" unfolding hay_def cstr_def by (rule order.trans[OF length_takeWhile_le]) simp
  thus ?thesis using strnstr_spec[OF assms(1-3)] find_sub_Some[OF Some] Some unfolding hay_def[symmetric]
    by (intro exI[of _ "Some (p + i)"]) auto
qed

theorem strnstr_first_witness: "strnstr ''xabab'' 0 ''ab'' 5 \<noteq> None"
  using strnstr_first[of "''ab''" 0 5 "''xabab''"] by auto

text \<open>
  \<open>pstrcat\<close> appends as much of the second string as the \<open>n\<close> bytes of the buffer hold, ends
  the result with a NUL, and writes nothing past those bytes.
\<close>

theorem pstrcat_truncates:
  assumes "NUL \<in> set buf" "NUL \<in> set str" "n \<le> length buf" "length (cstr buf) < n"
  shows "\<exists>buf'. pstrcat buf (int n) str = Some buf' \<and> length buf' = length buf \<and>
    cstr buf' = take (n - 1) (cstr buf @ cstr str) \<and> drop n buf' = drop n buf"
  using assms by (rule pstrcat_spec)

theorem pstrcat_truncates_witness:
  "\<exists>buf'. pstrcat (''ab'' @ replicate 4 NUL) (int 5) (''cde'' @ [NUL]) = Some buf' \<and> cstr buf' = ''abcd''"
  using pstrcat_truncates[of "''ab'' @ replicate 4 NUL" "''cde'' @ [NUL]" 5] by (auto simp: cstr_def)

text \<open>An allocator with 16 bytes.\<close>

definition some_memory :: realloc where
  "some_memory old n = (if n \<le> 16 then Some (take n (case old of None \<Rightarrow> [] | Some m \<Rightarrow> m) @ replicate (n - length (case old of None \<Rightarrow> [] | Some m \<Rightarrow> m)) NUL) else None)"

lemma some_memory_ok: "realloc_ok some_memory"
  by (auto simp: realloc_ok_def some_memory_def min_def split: option.splits)

text \<open>
  C28. Chunks are put into a fresh dynamic buffer, one after the other, until a call fails. If none
  does, the buffer holds all of them. Otherwise the chunks before some chunk went in, the call with that
  chunk is the one that failed, and the buffer still holds exactly the chunks before it. In both cases
  nothing is written outside the allocated block, whatever the allocator answers.
\<close>

theorem dbuf_accumulates:
  assumes "realloc_ok realloc" "length (concat ds) < 2 ^ 64"
  shows "\<exists>s r k. feed dbuf_append (dbuf_init realloc) ds = Some (s, r) \<and> dbuf_ok s \<and> dbuf_content s = concat (take k ds) \<and>
    (if r = 0 then k = length ds
     else k < length ds \<and> (\<exists>s1. feed dbuf_append (dbuf_init realloc) (take k ds) = Some (s1, 0) \<and> dbuf_append s1 (ds ! k) = Some (s, r)))"
  using dbuf.feed_until[of "dbuf_init realloc" ds] dbuf_init_ok[OF assms(1)] assms(2) by simp

theorem dbuf_accumulates_witness:
  "\<exists>s s1. feed dbuf_append (dbuf_init some_memory) [''ab'', ''c'', replicate 40 NUL, ''d''] = Some (s, -1) \<and>
     dbuf_content s = ''abc'' \<and> feed dbuf_append (dbuf_init some_memory) [''ab'', ''c''] = Some (s1, 0)"
proof -
  let ?ds = "[''ab'', ''c'', replicate 40 NUL, ''d'']"
  have f: "map_option (\<lambda>(s, r). (dbuf_content s, r)) (feed dbuf_append (dbuf_init some_memory) ?ds) = Some (''abc'', -1)" by code_simp
  obtain s r k where R: "feed dbuf_append (dbuf_init some_memory) ?ds = Some (s, r)" "dbuf_content s = concat (take k ?ds)"
    "if r = 0 then k = length ?ds
     else k < length ?ds \<and> (\<exists>s1. feed dbuf_append (dbuf_init some_memory) (take k ?ds) = Some (s1, 0) \<and> dbuf_append s1 (?ds ! k) = Some (s, r))"
    using dbuf_accumulates[OF some_memory_ok, of ?ds] by auto
  have c: "r = -1" "concat (take k ?ds) = ''abc''" using f R(1,2) by auto
  have "k < 4" using R(3) c(1) by simp
  hence "k = 0 \<or> k = 1 \<or> k = 2 \<or> k = 3" by auto
  hence "k = 2" using c(2) by auto
  thus ?thesis using R c by auto
qed

text \<open>
  C14. UTF-8 decoding inverts encoding: of \<open>n\<close> bytes, \<open>unicode_from_utf8\<close> answers the code \<open>c\<close>
  and the length \<open>k\<close> exactly when the bytes begin with the \<open>k\<close> bytes \<open>unicode_to_utf8\<close> gives
  for \<open>c\<close>; it reads none but those \<open>n\<close> bytes, and rejects overlong forms.
\<close>

theorem utf8_roundtrip:
  assumes "1 \<le> n" "n \<le> length p"
  shows "unicode_from_utf8 p (int n) \<noteq> None \<and>
    (unicode_from_utf8 p (int n) = Some (int (unat c), Some k) \<longleftrightarrow>
     unat c < 2 ^ 31 \<and> k \<le> n \<and> take k p = unicode_to_utf8 c \<and> k = length (unicode_to_utf8 c))"
proof -
  have enc: "unicode_from_utf8 p (int n) = Some (int (unat c), Some k)"
    if "unat c < 2 ^ 31 \<and> k \<le> n \<and> take k p = unicode_to_utf8 c \<and> k = length (unicode_to_utf8 c)"
    using from_to_utf8[of c n p] that assms(2) by blast
  show ?thesis
  proof (rule from_utf8_total[OF assms])
    assume "unicode_from_utf8 p (int n) = Some (-1, None)"
    thus ?thesis using enc by auto
  next
    fix c' k'
    assume a: "unicode_from_utf8 p (int n) = Some (int (unat c'), Some k')" "unat c' < 2 ^ 31" "k' \<le> n"
      "take k' p = unicode_to_utf8 c'" "k' = length (unicode_to_utf8 c')"
    have "c' = c \<and> k' = k" if "unicode_from_utf8 p (int n) = Some (int (unat c), Some k)"
      using that unfolding a(1) option.inject prod.inject of_nat_eq_iff word_unat_eq_iff by blast
    thus ?thesis using a enc by blast
  qed
qed

theorem utf8_roundtrip_witness:
  "unicode_from_utf8 [0xe2, 0x82, 0xac] (int 3) = Some (int (unat (0x20ac :: u32)), Some 3)"
  using utf8_roundtrip[of 3 "[0xe2, 0x82, 0xac]" "0x20ac" 3]
  by (simp add: unicode_to_utf8_def lead_byte_def cont_byte_def)

end
