(* ===== verification/Sig.thy ===== *)
theory Sig
  imports Cutils
begin

text \<open>
  The signature actions of \<open>src/sig.c\<close> (\<open>include/ytdl/sig.h\<close>): how the steps that decipher a
  stream signature are scraped off the player's JavaScript, and how they are stored in the
  player cache.

  The regular expression matcher and the JavaScript engine are parameters: a record of the
  functions of each that the code calls. Positions in a buffer are natural numbers; a
  difference of two of them is a \<open>size_t\<close> and wraps.
\<close>

section \<open>State\<close>

definition YTDL_SIG_ACTION_SWAP :: int where "YTDL_SIG_ACTION_SWAP = 1"
definition YTDL_SIG_ACTION_REVERSE :: int where "YTDL_SIG_ACTION_REVERSE = 2"
definition YTDL_SIG_ACTION_SLICE :: int where "YTDL_SIG_ACTION_SLICE = 3"
definition YTDL_SIG_ACTION_SPLICE :: int where "YTDL_SIG_ACTION_SPLICE = 4"

definition YTDL_MAX_SIG :: nat where "YTDL_MAX_SIG = 20"

text \<open>A JavaScript value: what the code tests is whether it is undefined or an exception.\<close>

datatype jsval = JS_UNDEFINED | JS_EXCEPTION | JS_VALUE nat

record js_engine =
  JS_Eval :: "string \<Rightarrow> jsval"
  JS_WriteObject :: "jsval \<Rightarrow> string option"
  JS_ReadObject :: "string \<Rightarrow> jsval"
  JS_EvalFunction :: "jsval \<Rightarrow> jsval"
  JS_IsFunction :: "jsval \<Rightarrow> bool"

text \<open>
  The arrays hold \<open>int\<close>s: an element that was never set is 0, which is no action. \<open>rt\<close> and
  \<open>ctx\<close> tell whether the runtime and the context exist.
\<close>

record ytdl_sig_actions =
  sa_actions :: "int list"
  sa_actions_arg :: "int list"
  sa_actions_size :: int
  sa_bytecode :: "string option"
  sa_bc_len :: u64
  sa_rt :: bool
  sa_ctx :: bool
  sa_script :: jsval
  sa_func :: jsval

definition ytdl_sig_actions_init :: "bool \<Rightarrow> bool \<Rightarrow> ytdl_sig_actions \<times> int" where
  "ytdl_sig_actions_init new_runtime new_context =
     (let a = \<lparr>sa_actions = replicate YTDL_MAX_SIG 0, sa_actions_arg = replicate YTDL_MAX_SIG 0,
               sa_actions_size = 0, sa_bytecode = None, sa_bc_len = 0, sa_rt = new_runtime, sa_ctx = False,
               sa_script = JS_VALUE 0, sa_func = JS_VALUE 0\<rparr>
      in if \<not> new_runtime then (a, -1)
         else if \<not> new_context then (a, -1)
         else (a\<lparr>sa_ctx := True, sa_script := JS_UNDEFINED, sa_func := JS_UNDEFINED, sa_bytecode := None\<rparr>, 0))"

text \<open>\<open>ytdl_sig_actions_free\<close>: what is released, in order.\<close>

datatype sig_release = FreeValue jsval | FreeBytecode string | FreeContext | FreeRuntime

definition ytdl_sig_actions_free :: "ytdl_sig_actions \<Rightarrow> sig_release list" where
  "ytdl_sig_actions_free a =
     (if \<not> (sa_func a = JS_UNDEFINED \<or> sa_func a = JS_EXCEPTION) then [FreeValue (sa_func a)] else []) @
     (case sa_bytecode a of None \<Rightarrow> [] | Some b \<Rightarrow> [FreeBytecode b]) @
     [FreeContext, FreeRuntime]"

section \<open>Reading the actions\<close>

text \<open>An \<open>int\<close> result that does not fit 32 bits is undefined.\<close>

definition int32 :: "int \<Rightarrow> int option" where
  "int32 v = (if - (2 ^ 31) \<le> v \<and> v < 2 ^ 31 then Some v else None)"

fun str2int_loop :: "string \<Rightarrow> nat \<Rightarrow> nat \<Rightarrow> int \<Rightarrow> int option" where
  "str2int_loop m p 0 ret = Some ret"
| "str2int_loop m p (Suc n) ret =
     (case rd m p of
        None \<Rightarrow> None
      | Some c \<Rightarrow>
          (case int32 (ret * 10) of
             None \<Rightarrow> None
           | Some t \<Rightarrow>
               (case int32 (t + (schar c - 48)) of None \<Rightarrow> None | Some r \<Rightarrow> str2int_loop m (Suc p) n r)))"

definition str2int :: "string \<Rightarrow> nat \<Rightarrow> int \<Rightarrow> int option" where
  "str2int m p n = str2int_loop m p (nat n) 0"

text \<open>\<open>a - b\<close> of two pointers or sizes, as \<open>size_t\<close>, and cut to \<open>int\<close>.\<close>

definition size_diff :: "nat \<Rightarrow> nat \<Rightarrow> nat" where
  "size_diff a b = unat (of_nat a - of_nat b :: u64)"

definition int_diff :: "nat \<Rightarrow> nat \<Rightarrow> int" where
  "int_diff a b = sint (of_nat a - of_nat b :: u32)"

text \<open>\<open>strncmp (m1 + p1, m2 + p2, n)\<close> of two blocks, whether the answer is 0.\<close>

fun strncmp_eq :: "string \<Rightarrow> nat \<Rightarrow> string \<Rightarrow> nat \<Rightarrow> nat \<Rightarrow> bool option" where
  "strncmp_eq m1 p1 m2 p2 0 = Some True"
| "strncmp_eq m1 p1 m2 p2 (Suc n) =
     (case rd m1 p1 of
        None \<Rightarrow> None
      | Some c \<Rightarrow>
          (case rd m2 p2 of
             None \<Rightarrow> None
           | Some d \<Rightarrow>
               if c \<noteq> d then Some False
               else if c = NUL then Some True
               else strncmp_eq m1 (Suc p1) m2 (Suc p2) n))"

text \<open>The names of the helper functions: where each starts and ends in the helper object.\<close>

record sig_keys =
  k_swap :: "nat \<times> nat"
  k_splice :: "nat \<times> nat"
  k_reverse :: "nat \<times> nat"
  k_slice :: "nat \<times> nat"

definition no_keys :: sig_keys where
  "no_keys = \<lparr>k_swap = (0, 0), k_splice = (0, 0), k_reverse = (0, 0), k_slice = (0, 0)\<rparr>"

definition SWAP_TEXT :: string where "SWAP_TEXT = ''function(a,b){var c=a[0]''"
definition SPLICE_TEXT :: string where "SPLICE_TEXT = ''function(a,b){a.splice(0''"
definition REVERSE_TEXT :: string where "REVERSE_TEXT = ''function(a){a.reverse()}''"
definition REVERSE_TEXT2 :: string where "REVERSE_TEXT2 = ''function(a){return a.rev''"
definition SLICE_TEXT :: string where "SLICE_TEXT = ''function(a,b){return a.s''"

text \<open>The chain of comparisons after a colon: each is made when those before it failed.\<close>

definition obj_key :: "string \<Rightarrow> nat \<Rightarrow> nat \<times> nat \<Rightarrow> sig_keys \<Rightarrow> sig_keys option" where
  "obj_key m idx rng k =
     do { d \<leftarrow> strncmp_at m idx SWAP_TEXT 24;
       if d = 0 then Some (k\<lparr>k_swap := rng\<rparr>)
       else do { d \<leftarrow> strncmp_at m idx SPLICE_TEXT 24;
         if d = 0 then Some (k\<lparr>k_splice := rng\<rparr>)
         else do { d \<leftarrow> strncmp_at m idx REVERSE_TEXT 24;
           if d = 0 then Some (k\<lparr>k_reverse := rng\<rparr>)
           else do { d \<leftarrow> strncmp_at m idx REVERSE_TEXT2 24;
             if d = 0 then Some (k\<lparr>k_reverse := rng\<rparr>)
             else do { d \<leftarrow> strncmp_at m idx SLICE_TEXT 24;
               if d = 0 then Some (k\<lparr>k_slice := rng\<rparr>) else Some k }}}}}"

text \<open>One round of the loop: the index and the keys when the test for the line feed is made.\<close>

definition obj_colon :: "string \<Rightarrow> nat \<Rightarrow> nat \<Rightarrow> sig_keys \<Rightarrow> (nat \<times> sig_keys) option" where
  "obj_colon m idx kstart k =
     (case rd m idx of
        None \<Rightarrow> None
      | Some c \<Rightarrow>
          if c = CHR '':'' then map_option (\<lambda>k. (Suc idx, k)) (obj_key m (Suc idx) (kstart, idx) k)
          else Some (idx, k))"

lemma obj_colon_index: "obj_colon m idx kstart k = Some (idx', k') \<Longrightarrow> idx \<le> idx'"
  by (auto simp: obj_colon_def split: option.splits if_splits)

function obj_scan :: "string \<Rightarrow> nat \<Rightarrow> nat \<Rightarrow> sig_keys \<Rightarrow> sig_keys option" where
  "obj_scan m idx kstart k =
     (if idx < length m then
        (case obj_colon m idx kstart k of
           None \<Rightarrow> None
         | Some (idx', k') \<Rightarrow>
             (case rd m idx' of
                None \<Rightarrow> None
              | Some c \<Rightarrow>
                  if c = LF then obj_scan m (idx' + 2) (idx' + 1) k'
                  else obj_scan m (idx' + 1) kstart k'))
      else Some k)"
  by auto
termination by (relation "measure (\<lambda>(m, idx, _). length m - idx)") (auto dest!: obj_colon_index)

declare obj_scan.simps [simp del]

text \<open>The scan of the deciphering function.\<close>

record sig_scan =
  vStart :: nat
  vEnd :: nat
  nStart :: nat
  propType :: bool
  action_idx :: nat
  out :: ytdl_sig_actions

text \<open>
  Whether the called name is that of a helper: \<open>swap_e && (swap_e - swap_s == vlen) && !strncmp\<close>.
\<close>

definition is_key :: "string \<Rightarrow> nat \<Rightarrow> nat \<Rightarrow> string \<Rightarrow> nat \<times> nat \<Rightarrow> bool option" where
  "is_key fb v vlen ob k =
     (if snd k \<noteq> 0 \<and> size_diff (snd k) (fst k) = vlen then strncmp_eq fb v ob (fst k) vlen else Some False)"

definition store_action :: "sig_scan \<Rightarrow> int \<Rightarrow> int \<Rightarrow> sig_scan option" where
  "store_action s act arg =
     do { acts \<leftarrow> wr (sa_actions (out s)) (action_idx s) act;
          args \<leftarrow> wr (sa_actions_arg (out s)) (action_idx s) arg;
          Some (s\<lparr>action_idx := Suc (action_idx s),
                  out := (out s)\<lparr>sa_actions := acts, sa_actions_arg := args\<rparr>\<rparr>) }"

text \<open>The flag of the result is \<^term>\<open>False\<close> for \<open>goto overflow\<close>.\<close>

definition close_call :: "string \<Rightarrow> string \<Rightarrow> sig_keys \<Rightarrow> sig_scan \<Rightarrow> nat \<Rightarrow> (bool \<times> sig_scan) option" where
  "close_call fb ob k s nEnd =
     (let vlen = size_diff (vEnd s) (vStart s);
          with_arg = (\<lambda>act. do { arg \<leftarrow> str2int fb (nStart s) (int_diff nEnd (nStart s));
                                 map_option (Pair True) (store_action s act arg) })
      in if action_idx s = YTDL_MAX_SIG then Some (False, s)
         else do { b \<leftarrow> is_key fb (vStart s) vlen ob (k_swap k);
           if b then with_arg YTDL_SIG_ACTION_SWAP
           else do { b \<leftarrow> is_key fb (vStart s) vlen ob (k_splice k);
             if b then with_arg YTDL_SIG_ACTION_SPLICE
             else do { b \<leftarrow> is_key fb (vStart s) vlen ob (k_slice k);
               if b then with_arg YTDL_SIG_ACTION_SLICE
               else do { b \<leftarrow> is_key fb (vStart s) vlen ob (k_reverse k);
                 if b then map_option (Pair True) (store_action s YTDL_SIG_ACTION_REVERSE 0)
                 else Some (True, s) }}}})"

text \<open>
  One character of the function: the state, and by how much the index moves before the loop
  adds one.
\<close>

definition func_char :: "string \<Rightarrow> string \<Rightarrow> sig_keys \<Rightarrow> sig_scan \<Rightarrow> nat \<Rightarrow> char \<Rightarrow> (nat \<times> bool \<times> sig_scan) option" where
  "func_char fb ob k s idx c =
     (if c = CHR ''.'' then Some (1, True, s\<lparr>vStart := idx + 1, propType := True\<rparr>)
      else if c = CHR ''('' then
        Some (0, True, s\<lparr>vEnd := (if propType s then idx else vEnd s), propType := True\<rparr>)
      else if c = CHR ''['' then Some (2, True, s\<lparr>vStart := idx + 2, propType := False\<rparr>)
      else if c = CHR 0x22 \<or> c = CHR 0x27 then Some (0, True, s\<lparr>vEnd := idx\<rparr>)
      else if c = CHR '','' then Some (1, True, s\<lparr>nStart := idx + 1\<rparr>)
      else if c = CHR '')'' then map_option (Pair 0) (close_call fb ob k s idx)
      else Some (0, True, s))"

function func_scan :: "string \<Rightarrow> string \<Rightarrow> sig_keys \<Rightarrow> sig_scan \<Rightarrow> nat \<Rightarrow> (bool \<times> sig_scan) option" where
  "func_scan fb ob k s idx =
     (case rd fb idx of
        None \<Rightarrow> Some (True, s)
      | Some c \<Rightarrow>
          (case func_char fb ob k s idx c of
             None \<Rightarrow> None
           | Some (n, ok, s') \<Rightarrow> if ok then func_scan fb ob k s' (idx + n + 1) else Some (False, s')))"
  by auto
termination by (relation "measure (\<lambda>(fb, _, _, _, idx). length fb - idx)") (auto dest: rd_SomeD)

declare func_scan.simps [simp del]

section \<open>Extraction\<close>

text \<open>
  A compiled regular expression: what \<open>libregexp\<close> says of it, and what \<open>lre_exec\<close> answers on a
  text from a start on, with the captures as offsets into the text.
\<close>

record regex =
  re_flags :: u32
  re_capture_count :: nat
  re_exec :: "string \<Rightarrow> nat \<Rightarrow> int \<times> nat option list"

definition LRE_FLAG_GLOBAL :: u32 where "LRE_FLAG_GLOBAL = 1"
definition LRE_FLAG_STICKY :: u32 where "LRE_FLAG_STICKY = 32"

text \<open>The array of captures: never allocated, filled, or freed already.\<close>

datatype capture = NoCapture | Captures "nat option list" | FreedCapture

definition ytdl__regex_exec :: "bool \<Rightarrow> regex \<Rightarrow> string \<Rightarrow> nat \<Rightarrow> nat \<Rightarrow> int \<times> capture" where
  "ytdl__regex_exec alloc re buf buf_len last_index =
     (let last_index = (if re_flags re AND (LRE_FLAG_GLOBAL OR LRE_FLAG_STICKY) = 0 then 0 else last_index) in
      if re_capture_count re > 0 \<and> \<not> alloc then (-1, NoCapture)
      else if last_index > buf_len then
        (-1, if re_capture_count re > 0 then FreedCapture else NoCapture)
      else let (ret, caps) = re_exec re (take buf_len buf) last_index in
        (ret, if re_capture_count re > 0 then Captures caps else NoCapture))"

definition free_capture :: "capture \<Rightarrow> unit option" where
  "free_capture c = (if c = FreedCapture then None else Some ())"

text \<open>Entry \<open>i\<close> of the array: the inner option is the pointer, \<open>NULL\<close> or into the text.\<close>

definition capture_at :: "capture \<Rightarrow> nat \<Rightarrow> nat option option" where
  "capture_at c i = (case c of Captures cs \<Rightarrow> rd cs i | _ \<Rightarrow> None)"

text \<open>\<open>memcpy\<close> of a capture into a fresh buffer; the outer option is undefined behaviour.\<close>

definition copy_capture :: "malloc \<Rightarrow> string \<Rightarrow> capture \<Rightarrow> nat \<Rightarrow> string option option" where
  "copy_capture malloc buf c i =
     do { s \<leftarrow> capture_at c (2 * i); e \<leftarrow> capture_at c (2 * i + 1);
          s \<leftarrow> s; e \<leftarrow> e;
          (case b_base (ytdl_buf_alloc malloc \<lparr>b_base = None, b_len = 0, b_size = 0\<rparr> (of_nat e - of_nat s)) of
             None \<Rightarrow> Some None
           | Some m \<Rightarrow>
               do { x \<leftarrow> slice buf s (size_diff e s); map_option Some (blit m 0 x (size_diff e s)) }) }"

text \<open>The text of \<open>YTDL_SIG_JS_FUNC\<close> before and after its \<open>%.*s\<close>.\<close>

definition JS_FUNC_HEAD :: string where
  "JS_FUNC_HEAD =
     ''function y (z){const s=z.split('' @ [CHR 0x27] @ ''&'' @ [CHR 0x27] @
     '');const i=s.findIndex(e=>e.startsWith('' @ [CHR 0x27] @ ''n='' @ [CHR 0x27] @
     ''));const n=s[i].substr(2);s.splice(i,1,'' @ [CHR 0x27] @ ''n='' @ [CHR 0x27] @ ''+(''"

definition JS_FUNC_TAIL :: string where
  "JS_FUNC_TAIL = '')(n));return s.join('' @ [CHR 0x27] @ ''&'' @ [CHR 0x27] @ '');};y;''"

definition YTDL_SIG_JS_FUNC :: string where
  "YTDL_SIG_JS_FUNC = JS_FUNC_HEAD @ ''%.*s'' @ JS_FUNC_TAIL"

definition VAR_MARK :: string where
  "VAR_MARK = ''.get('' @ [CHR 0x22] @ ''n'' @ [CHR 0x22] @ ''))&&(b=''"

definition JOIN_MARK :: string where
  "JOIN_MARK = ''.join('' @ [CHR 0x22, CHR 0x22] @ '')}''"

text \<open>
  The second half of \<open>ytdl_sig_actions_extract\<close>: the function that transforms the \<open>n\<close>
  parameter. \<open>Some None\<close> is an early \<open>return -1\<close>. The array \<open>func_prefix\<close> has 10 bytes.
\<close>

definition n_function :: "string \<Rightarrow> nat \<Rightarrow> (nat \<times> nat) option option" where
  "n_function buf buf_len =
     (case strnstr buf 0 VAR_MARK buf_len of
        None \<Rightarrow> None
      | Some None \<Rightarrow> Some None
      | Some (Some v) \<Rightarrow>
          let var_start = v + 15 in
          (case strnstr buf var_start ''('' (buf_len - var_start) of
             None \<Rightarrow> None
           | Some None \<Rightarrow> Some None
           | Some (Some var_end) \<Rightarrow>
               do { name \<leftarrow> fmt_prec (var_end - var_start) (drop var_start buf);
                    func_prefix \<leftarrow> snprintf (replicate 10 NUL) 10 (name @ ''='');
                    r \<leftarrow> strnstr buf 0 (cstr func_prefix) buf_len;
                    (case r of
                       None \<Rightarrow> Some None
                     | Some f \<Rightarrow>
                         let func_start = f + length (cstr func_prefix) in
                         (case strnstr buf func_start JOIN_MARK (buf_len - func_start) of
                            None \<Rightarrow> None
                          | Some None \<Rightarrow> Some None
                          | Some (Some e) \<Rightarrow> Some (Some (func_start, e + 10)))) }))"

text \<open>\<open>malloc\<close> and \<open>snprintf\<close> of the wrapper: \<open>js_func\<close> up to its NUL.\<close>

definition js_function :: "malloc \<Rightarrow> string \<Rightarrow> nat \<Rightarrow> nat \<Rightarrow> string option" where
  "js_function malloc buf func_start func_end =
     (let js_func_size = length YTDL_SIG_JS_FUNC + 1 + (func_end - func_start) in
      do { m \<leftarrow> malloc js_func_size;
           f \<leftarrow> fmt_prec (func_end - func_start) (drop func_start buf);
           m \<leftarrow> snprintf m js_func_size (JS_FUNC_HEAD @ f @ JS_FUNC_TAIL);
           l \<leftarrow> strlen m;
           Some (take l m) })"

definition compile_n :: "js_engine \<Rightarrow> string \<Rightarrow> ytdl_sig_actions \<Rightarrow> ytdl_sig_actions \<times> int" where
  "compile_n js js_func a =
     (let a = a\<lparr>sa_script := JS_Eval js js_func\<rparr>;
          bc = JS_WriteObject js (sa_script a);
          a = a\<lparr>sa_bytecode := bc, sa_bc_len := (case bc of None \<Rightarrow> 0 | Some b \<Rightarrow> of_nat (length b))\<rparr>
      in if bc = None then (a, -1)
         else if sa_script a = JS_EXCEPTION then (a, -1)
         else
           let a = a\<lparr>sa_func := JS_EvalFunction js (sa_script a)\<rparr> in
           if sa_func a = JS_EXCEPTION then (a, -1)
           else if \<not> JS_IsFunction js (sa_func a) then (a, -1)
           else (a, 0))"

text \<open>The first half: the two matches and the two scans.\<close>

definition scan_actions :: "string \<Rightarrow> string \<Rightarrow> ytdl_sig_actions \<Rightarrow> (bool \<times> ytdl_sig_actions) option" where
  "scan_actions func_body obj_body a =
     do { k \<leftarrow> obj_scan obj_body 0 0 no_keys;
          (ok, s) \<leftarrow> func_scan func_body obj_body k
            \<lparr>vStart = 0, vEnd = 0, nStart = 0, propType = True, action_idx = 0, out = a\<rparr> 0;
          Some (ok, if ok then (out s)\<lparr>sa_actions_size := int (action_idx s)\<rparr> else out s) }"

text \<open>The helper object and the function body, or \<open>Some None\<close> for \<open>return -1\<close>.\<close>

definition match_player ::
    "malloc \<Rightarrow> (nat \<Rightarrow> bool) \<Rightarrow> regex \<Rightarrow> regex \<Rightarrow> string \<Rightarrow> nat \<Rightarrow> (string \<times> string) option option" where
  "match_player malloc alloc action_obj_regexp action_func_regexp buf buf_len =
     (let (result, cap) = ytdl__regex_exec (alloc 0) action_obj_regexp buf buf_len 0;
          failed = map_option (\<lambda>_. None) (free_capture cap) in
      if result \<noteq> 1 then failed
      else do { c1 \<leftarrow> capture_at cap 2; c2 \<leftarrow> (if c1 = None then Some None else capture_at cap 4);
        if c1 = None \<or> c2 = None then failed
        else do { obj \<leftarrow> copy_capture malloc buf cap 1;
          if obj = None then failed
          else do { obj_body \<leftarrow> copy_capture malloc buf cap 2;
            case obj_body of
              None \<Rightarrow> failed
            | Some ob \<Rightarrow>
              do { _ \<leftarrow> free_capture cap;
                let (result, cap) = ytdl__regex_exec (alloc 1) action_func_regexp buf buf_len 0 in
                if result \<noteq> 1 then Some None
                else do { c1 \<leftarrow> capture_at cap 2;
                  if c1 = None then Some None
                  else do { fb \<leftarrow> copy_capture malloc buf cap 1;
                    case fb of
                      None \<Rightarrow> map_option (\<lambda>_. None) (free_capture cap)
                    | Some fb \<Rightarrow> map_option (\<lambda>_. Some (ob, fb)) (free_capture cap) }}}}}})"

definition ytdl_sig_actions_extract ::
    "malloc \<Rightarrow> (nat \<Rightarrow> bool) \<Rightarrow> js_engine \<Rightarrow> regex \<Rightarrow> regex \<Rightarrow> ytdl_sig_actions \<Rightarrow> string \<Rightarrow> nat \<Rightarrow>
     (ytdl_sig_actions \<times> int) option" where
  "ytdl_sig_actions_extract malloc alloc js action_obj_regexp action_func_regexp a buf buf_len =
     (if sa_bytecode a \<noteq> None then Some (a, -1)
      else
        (case match_player malloc alloc action_obj_regexp action_func_regexp buf buf_len of
           None \<Rightarrow> None
         | Some None \<Rightarrow> Some (a, -1)
         | Some (Some (obj_body, func_body)) \<Rightarrow>
             (case scan_actions func_body obj_body a of
                None \<Rightarrow> None
              | Some (ok, a) \<Rightarrow>
                  if \<not> ok then Some (a, -1)
                  else
                    (case n_function buf buf_len of
                       None \<Rightarrow> None
                     | Some None \<Rightarrow> Some (a, -1)
                     | Some (Some (func_start, func_end)) \<Rightarrow>
                         map_option (\<lambda>f. compile_n js f a) (js_function malloc buf func_start func_end)))))"

section \<open>What the scans compute\<close>

text \<open>
  A helper object as the player has it: one line per function, a name, a colon, and a body
  that begins with the text its kind is known by.
\<close>

datatype sig_kind = Swap | Splice | Reverse | Slice

fun kind_action :: "sig_kind \<Rightarrow> int" where
  "kind_action Swap = YTDL_SIG_ACTION_SWAP"
| "kind_action Splice = YTDL_SIG_ACTION_SPLICE"
| "kind_action Reverse = YTDL_SIG_ACTION_REVERSE"
| "kind_action Slice = YTDL_SIG_ACTION_SLICE"

fun kind_texts :: "sig_kind \<Rightarrow> string list" where
  "kind_texts Swap = [SWAP_TEXT]"
| "kind_texts Splice = [SPLICE_TEXT]"
| "kind_texts Reverse = [REVERSE_TEXT, REVERSE_TEXT2]"
| "kind_texts Slice = [SLICE_TEXT]"

fun key_of :: "sig_keys \<Rightarrow> sig_kind \<Rightarrow> nat \<times> nat" where
  "key_of k Swap = k_swap k"
| "key_of k Splice = k_splice k"
| "key_of k Reverse = k_reverse k"
| "key_of k Slice = k_slice k"

fun set_key :: "sig_kind \<Rightarrow> nat \<times> nat \<Rightarrow> sig_keys \<Rightarrow> sig_keys" where
  "set_key Swap r k = k\<lparr>k_swap := r\<rparr>"
| "set_key Splice r k = k\<lparr>k_splice := r\<rparr>"
| "set_key Reverse r k = k\<lparr>k_reverse := r\<rparr>"
| "set_key Slice r k = k\<lparr>k_slice := r\<rparr>"

lemma key_of_set_key [simp]: "key_of (set_key kd r k) kd' = (if kd = kd' then r else key_of k kd')"
  by (cases kd; cases kd') auto

type_synonym helper = "string \<times> sig_kind \<times> string"

definition helper_line :: "helper \<Rightarrow> string" where
  "helper_line h = fst h @ '':'' @ snd (snd h)"

definition helper_ok :: "helper \<Rightarrow> bool" where
  "helper_ok h \<longleftrightarrow> fst h \<noteq> [] \<and> NUL \<notin> set (fst h) \<and>
     (\<forall>c \<in> set (fst h) \<union> set (snd (snd h)). c \<noteq> CHR '':'' \<and> c \<noteq> LF) \<and>
     (\<exists>t \<in> set (kind_texts (fst (snd h))). take 24 (snd (snd h)) = t)"

fun object_text :: "helper list \<Rightarrow> string" where
  "object_text [] = []"
| "object_text [h] = helper_line h"
| "object_text (h # hs) = helper_line h @ LF # object_text hs"

lemma text_lengths: "length SWAP_TEXT = 24" "length SPLICE_TEXT = 24" "length REVERSE_TEXT = 24"
    "length REVERSE_TEXT2 = 24" "length SLICE_TEXT = 24"
  by (simp_all add: SWAP_TEXT_def SPLICE_TEXT_def REVERSE_TEXT_def REVERSE_TEXT2_def SLICE_TEXT_def)

lemma text_no_NUL: "NUL \<notin> set SWAP_TEXT" "NUL \<notin> set SPLICE_TEXT" "NUL \<notin> set REVERSE_TEXT"
    "NUL \<notin> set REVERSE_TEXT2" "NUL \<notin> set SLICE_TEXT"
  by (simp_all add: SWAP_TEXT_def SPLICE_TEXT_def REVERSE_TEXT_def REVERSE_TEXT2_def SLICE_TEXT_def)

lemma texts_differ: "SWAP_TEXT \<noteq> SPLICE_TEXT" "SWAP_TEXT \<noteq> REVERSE_TEXT" "SWAP_TEXT \<noteq> REVERSE_TEXT2"
    "SWAP_TEXT \<noteq> SLICE_TEXT" "SPLICE_TEXT \<noteq> REVERSE_TEXT" "SPLICE_TEXT \<noteq> REVERSE_TEXT2"
    "SPLICE_TEXT \<noteq> SLICE_TEXT" "REVERSE_TEXT \<noteq> REVERSE_TEXT2" "REVERSE_TEXT \<noteq> SLICE_TEXT"
    "REVERSE_TEXT2 \<noteq> SLICE_TEXT"
  by (simp_all add: SWAP_TEXT_def SPLICE_TEXT_def REVERSE_TEXT_def REVERSE_TEXT2_def SLICE_TEXT_def)

lemma obj_key_spec:
  assumes "t \<in> set (kind_texts kd)" "take 24 (drop i m) = t" "i + 24 \<le> length m"
  shows "obj_key m i r k = Some (set_key kd r k)"
proof -
  have cmp: "\<exists>d. strncmp_at m i x 24 = Some d \<and> (d = 0 \<longleftrightarrow> x = t)" if "length x = 24" "NUL \<notin> set x" for x
    using strncmp_at_ok[of x i m] that assms(2,3) by auto
  obtain d1 where d1: "strncmp_at m i SWAP_TEXT 24 = Some d1" "d1 = 0 \<longleftrightarrow> SWAP_TEXT = t"
    using cmp text_lengths(1) text_no_NUL(1) by blast
  obtain d2 where d2: "strncmp_at m i SPLICE_TEXT 24 = Some d2" "d2 = 0 \<longleftrightarrow> SPLICE_TEXT = t"
    using cmp text_lengths(2) text_no_NUL(2) by blast
  obtain d3 where d3: "strncmp_at m i REVERSE_TEXT 24 = Some d3" "d3 = 0 \<longleftrightarrow> REVERSE_TEXT = t"
    using cmp text_lengths(3) text_no_NUL(3) by blast
  obtain d4 where d4: "strncmp_at m i REVERSE_TEXT2 24 = Some d4" "d4 = 0 \<longleftrightarrow> REVERSE_TEXT2 = t"
    using cmp text_lengths(4) text_no_NUL(4) by blast
  obtain d5 where d5: "strncmp_at m i SLICE_TEXT 24 = Some d5" "d5 = 0 \<longleftrightarrow> SLICE_TEXT = t"
    using cmp text_lengths(5) text_no_NUL(5) by blast
  show ?thesis using assms(1) d1 d2 d3 d4 d5 texts_differ texts_differ[symmetric]
    by (cases kd) (auto simp: obj_key_def)
qed

lemma obj_scan_skip:
  assumes "i \<le> i'" "i' \<le> length m" "\<forall>j. i \<le> j \<and> j < i' \<longrightarrow> m ! j \<noteq> CHR '':'' \<and> m ! j \<noteq> LF"
  shows "obj_scan m i ks k = obj_scan m i' ks k"
  using assms
proof (induction "i' - i" arbitrary: i)
  case (Suc n)
  hence i: "i < i'" "i < length m" by simp_all
  hence "m ! i \<noteq> CHR '':''" "m ! i \<noteq> LF" using Suc.prems(3) by simp_all
  hence "obj_scan m i ks k = obj_scan m (i + 1) ks k" using i
    by (subst obj_scan.simps) (simp add: obj_colon_def)
  thus ?case using Suc i by simp
qed simp

lemma nth_append_range: "length x \<le> j \<Longrightarrow> j < length x + length y \<Longrightarrow> (x @ y @ z) ! j = y ! (j - length x)"
  by (auto simp: nth_append)

lemma helper_text_length: "helper_ok (nm, kd, tx) \<Longrightarrow> 24 \<le> length tx"
proof -
  assume "helper_ok (nm, kd, tx)"
  then obtain t where "t \<in> set (kind_texts kd)" "take 24 tx = t" by (auto simp: helper_ok_def)
  hence "length (take 24 tx) = 24" using text_lengths by (cases kd) auto
  thus ?thesis by simp
qed

lemma obj_scan_line:
  fixes k :: sig_keys
  assumes ok: "helper_ok (nm, kd, tx)" and m: "m = pre @ nm @ CHR '':'' # tx @ post"
    and i: "i = length pre \<or> i = length pre + 1" and post: "post = [] \<or> hd post = LF"
  defines "e \<equiv> length pre + length nm + 1 + length tx"
  defines "k' \<equiv> set_key kd (length pre, length pre + length nm) k"
  shows "obj_scan m i (length pre) k = (if post = [] then Some k' else obj_scan m (e + 2) (e + 1) k')"
proof -
  let ?c = "length pre + length nm"
  have plain: "\<forall>x \<in> set nm \<union> set tx. x \<noteq> CHR '':'' \<and> x \<noteq> LF" and nm: "nm \<noteq> []"
    using ok by (auto simp: helper_ok_def)
  obtain t where t: "t \<in> set (kind_texts kd)" "take 24 tx = t" using ok by (auto simp: helper_ok_def)
  note len = helper_text_length[OF ok]
  hence ne: "tx \<noteq> []" by auto
  have mlen: "length m = e + length post" by (simp add: m e_def)
  have ic: "i \<le> ?c" using i nm by (cases nm) auto
  have "obj_scan m i (length pre) k = obj_scan m ?c (length pre) k"
  proof (rule obj_scan_skip[OF ic])
    show "?c \<le> length m" by (simp add: m)
    show "\<forall>j. i \<le> j \<and> j < ?c \<longrightarrow> m ! j \<noteq> CHR '':'' \<and> m ! j \<noteq> LF"
    proof (intro allI impI)
      fix j assume j: "i \<le> j \<and> j < ?c"
      hence "m ! j = nm ! (j - length pre)" "j - length pre < length nm"
        using i nth_append_range[of pre j nm "CHR '':'' # tx @ post"] by (auto simp: m)
      thus "m ! j \<noteq> CHR '':'' \<and> m ! j \<noteq> LF" using plain nth_mem[of "j - length pre" nm] by auto
    qed
  qed
  moreover have d: "drop (Suc ?c) m = tx @ post" and mc: "m ! ?c = CHR '':''" and cl: "?c < length m"
    by (simp_all add: m nth_append)
  have "obj_key m (Suc ?c) (length pre, ?c) k = Some k'"
    unfolding k'_def by (rule obj_key_spec[OF t(1)]) (use d t len mlen e_def in auto)
  hence col: "obj_colon m ?c (length pre) k = Some (Suc ?c, k')" using mc cl by (simp add: obj_colon_def)
  have body: "m ! j \<noteq> CHR '':'' \<and> m ! j \<noteq> LF" if "Suc ?c \<le> j" "j < e" for j
  proof -
    have "m = (pre @ nm @ '':'') @ tx @ post" by (simp add: m)
    hence "m ! j = tx ! (j - Suc ?c)" "j - Suc ?c < length tx"
      using that nth_append_range[of "pre @ nm @ '':''" j tx post] by (auto simp: e_def)
    thus ?thesis using plain nth_mem[of "j - Suc ?c" tx] by auto
  qed
  have "m ! Suc ?c \<noteq> LF" "Suc ?c < length m" using body[of "Suc ?c"] ne mlen by (auto simp: e_def)
  hence "obj_scan m ?c (length pre) k = obj_scan m (Suc ?c + 1) (length pre) k'"
    using cl col by (subst obj_scan.simps) simp
  moreover have "obj_scan m (Suc ?c + 1) (length pre) k' = obj_scan m e (length pre) k'"
  proof (rule obj_scan_skip)
    show "Suc ?c + 1 \<le> e" using len by (simp add: e_def)
    show "e \<le> length m" using mlen by simp
    show "\<forall>j. Suc ?c + 1 \<le> j \<and> j < e \<longrightarrow> m ! j \<noteq> CHR '':'' \<and> m ! j \<noteq> LF" using body by simp
  qed
  moreover have "obj_scan m e (length pre) k' = (if post = [] then Some k' else obj_scan m (e + 2) (e + 1) k')"
  proof (cases post)
    case Nil
    thus ?thesis using mlen by (subst obj_scan.simps) simp
  next
    case (Cons x xs)
    hence "m ! e = LF" using post by (simp add: m e_def nth_append)
    thus ?thesis using mlen Cons by (subst obj_scan.simps) (simp add: obj_colon_def)
  qed
  ultimately show ?thesis by simp
qed

text \<open>The keys after the scan: for every kind the name of its last line, if it has one.\<close>

fun helper_name :: "helper list \<Rightarrow> sig_kind \<Rightarrow> string option" where
  "helper_name [] kd = None"
| "helper_name ((nm, kd', tx) # hs) kd =
     (case helper_name hs kd of Some x \<Rightarrow> Some x | None \<Rightarrow> if kd = kd' then Some nm else None)"

definition key_is :: "string \<Rightarrow> nat \<times> nat \<Rightarrow> string option \<Rightarrow> bool" where
  "key_is ob r nm \<longleftrightarrow>
     (case nm of
        None \<Rightarrow> snd r = 0
      | Some x \<Rightarrow> snd r \<noteq> 0 \<and> fst r \<le> snd r \<and> snd r \<le> length ob \<and> take (snd r - fst r) (drop (fst r) ob) = x)"

lemma obj_scan_lines:
  assumes "\<forall>h \<in> set hs. helper_ok h" "hs \<noteq> []" "m = pre @ object_text hs" "i = length pre \<or> i = length pre + 1"
  shows "\<exists>k'. obj_scan m i (length pre) k = Some k' \<and>
    (\<forall>kd. (case helper_name hs kd of None \<Rightarrow> key_of k' kd = key_of k kd | Some x \<Rightarrow> key_is m (key_of k' kd) (Some x)))"
  using assms
proof (induction hs arbitrary: pre i k)
  case (Cons h hs)
  obtain nm kd tx where h: "h = (nm, kd, tx)" by (cases h)
  have ok: "helper_ok (nm, kd, tx)" using Cons.prems(1) h by simp
  let ?post = "if hs = [] then [] else LF # object_text hs"
  have m: "m = pre @ nm @ CHR '':'' # tx @ ?post"
    using Cons.prems(3) h by (cases hs) (simp_all add: helper_line_def)
  let ?k = "set_key kd (length pre, length pre + length nm) k"
  let ?e = "length pre + length nm + 1 + length tx"
  have nm: "nm \<noteq> []" using ok by (simp add: helper_ok_def)
  have key: "key_is m (length pre, length pre + length nm) (Some nm)" using nm by (simp add: key_is_def m)
  have step: "obj_scan m i (length pre) k = (if ?post = [] then Some ?k else obj_scan m (?e + 2) (?e + 1) ?k)"
    by (rule obj_scan_line[OF ok m Cons.prems(4)]) simp
  show ?case
  proof (cases "hs = []")
    case True
    thus ?thesis using step key h by auto
  next
    case False
    let ?pre = "pre @ helper_line h @ [LF]"
    have "m = ?pre @ object_text hs" "length ?pre = ?e + 1" using m False h by (simp_all add: helper_line_def)
    note pre = this
    have "\<exists>k'. obj_scan m (?e + 2) (length ?pre) ?k = Some k' \<and>
        (\<forall>kd'. (case helper_name hs kd' of None \<Rightarrow> key_of k' kd' = key_of ?k kd' | Some x \<Rightarrow> key_is m (key_of k' kd') (Some x)))"
      by (rule Cons.IH[OF _ False pre(1)]) (use pre(2) Cons.prems(1) in auto)
    then obtain k' where k': "obj_scan m (?e + 2) (?e + 1) ?k = Some k'"
      "\<forall>kd'. (case helper_name hs kd' of None \<Rightarrow> key_of k' kd' = key_of ?k kd' | Some x \<Rightarrow> key_is m (key_of k' kd') (Some x))"
      unfolding pre(2) by blast
    have "case helper_name (h # hs) kd' of None \<Rightarrow> key_of k' kd' = key_of k kd' | Some x \<Rightarrow> key_is m (key_of k' kd') (Some x)" for kd'
      using k'(2)[rule_format, of kd'] key h by (auto split: option.splits if_splits)
    thus ?thesis using step k'(1) False by auto
  qed
qed simp

lemma obj_scan_keys:
  assumes "\<forall>h \<in> set hs. helper_ok h" "hs \<noteq> []"
  shows "\<exists>k. obj_scan (object_text hs) 0 0 no_keys = Some k \<and> (\<forall>kd. key_is (object_text hs) (key_of k kd) (helper_name hs kd))"
proof -
  obtain k where k: "obj_scan (object_text hs) 0 0 no_keys = Some k"
    "\<forall>kd. (case helper_name hs kd of None \<Rightarrow> key_of k kd = key_of no_keys kd | Some x \<Rightarrow> key_is (object_text hs) (key_of k kd) (Some x))"
    using obj_scan_lines[OF assms, of "object_text hs" "[]" 0 no_keys] by auto
  have "key_of no_keys kd = (0, 0)" for kd by (cases kd) (simp_all add: no_keys_def)
  hence "key_is (object_text hs) (key_of k kd) (helper_name hs kd)" for kd
    using k(2)[rule_format, of kd] by (auto simp: key_is_def split: option.splits)
  thus ?thesis using k(1) by blast
qed

text \<open>The calls of the deciphering function: \<open>;Obj.name(a,3)\<close>.\<close>

definition special :: "char \<Rightarrow> bool" where
  "special c \<longleftrightarrow> c \<in> {CHR ''.'', CHR ''('', CHR ''['', CHR 0x22, CHR 0x27, CHR '','', CHR '')''}"

type_synonym call = "string \<times> string \<times> nat"

definition call_text :: "call \<Rightarrow> string" where
  "call_text c = fst c @ ''.'' @ fst (snd c) @ ''(a,'' @ dec (snd (snd c)) @ '')''"

definition call_ok :: "call \<Rightarrow> bool" where
  "call_ok c \<longleftrightarrow> fst (snd c) \<noteq> [] \<and> NUL \<notin> set (fst (snd c)) \<and> snd (snd c) < 2 ^ 31 \<and>
     (\<forall>x \<in> set (fst c) \<union> set (fst (snd c)). \<not> special x)"

lemma func_scan_skip:
  assumes "i \<le> i'" "i' \<le> length fb" "\<forall>j. i \<le> j \<and> j < i' \<longrightarrow> \<not> special (fb ! j)"
  shows "func_scan fb ob k s i = func_scan fb ob k s i'"
  using assms
proof (induction "i' - i" arbitrary: i)
  case (Suc n)
  hence i: "i < i'" "i < length fb" by simp_all
  hence "\<not> special (fb ! i)" using Suc.prems(3) by simp
  hence "func_char fb ob k s i (fb ! i) = Some (0, True, s)" by (simp add: func_char_def special_def)
  hence "func_scan fb ob k s i = func_scan fb ob k s (i + 1)" using i by (subst func_scan.simps) simp
  thus ?case using Suc i by simp
qed simp

lemma func_scan_plain:
  assumes "\<forall>c \<in> set y. \<not> special c"
  shows "func_scan (x @ y @ z) ob k s (length x) = func_scan (x @ y @ z) ob k s (length x + length y)"
proof (rule func_scan_skip)
  show "\<forall>j. length x \<le> j \<and> j < length x + length y \<longrightarrow> \<not> special ((x @ y @ z) ! j)"
    using assms by (auto simp: nth_append_range)
qed simp_all

lemma str2int_loop_add:
  "str2int_loop m p (a + b) r = (case str2int_loop m p a r of None \<Rightarrow> None | Some r \<Rightarrow> str2int_loop m (p + a) b r)"
  by (induction m p a r rule: str2int_loop.induct) (auto split: option.splits)

lemma schar_digit: "d < 10 \<Longrightarrow> schar (char_of (48 + d)) = 48 + int d"
  by (simp add: schar_def)

lemma str2int_digit: "d < 10 \<Longrightarrow> 0 \<le> r \<Longrightarrow> r * 10 + int d < 2 ^ 31 \<Longrightarrow>
    str2int_loop (x @ char_of (48 + d) # y) (length x) 1 r = Some (r * 10 + int d)"
  by (simp add: One_nat_def int32_def schar_digit del: of_nat_add)

lemma str2int_dec: "n < 2 ^ 31 \<Longrightarrow> str2int_loop (x @ dec n @ y) (length x) (length (dec n)) 0 = Some (int n)"
proof (induction n arbitrary: y rule: dec.induct)
  case (1 n)
  show ?case
  proof (cases "n < 10")
    case True
    thus ?thesis using str2int_digit[of n 0 x y] by (simp add: dec.simps[of n])
  next
    case False
    let ?d = "char_of (48 + n mod 10) :: char"
    have d: "dec n = dec (n div 10) @ [?d]" using False by (simp add: dec.simps[of n])
    have e: "int (n div 10) * 10 + int (n mod 10) = int n" by (simp add: zdiv_int zmod_int)
    have "str2int_loop (x @ dec (n div 10) @ ?d # y) (length x) (length (dec (n div 10))) 0 = Some (int (n div 10))"
      using 1(1)[OF False] 1(2) by simp
    moreover have "str2int_loop ((x @ dec (n div 10)) @ ?d # y) (length (x @ dec (n div 10))) 1 (int (n div 10)) = Some (int n)"
    proof -
      have "int (n div 10) * 10 + int (n mod 10) < 2 ^ 31" unfolding e using 1(2) by simp
      from str2int_digit[OF _ _ this, of "x @ dec (n div 10)" y] show ?thesis unfolding e by (simp del: str2int_loop.simps)
    qed
    ultimately show ?thesis unfolding d
      using str2int_loop_add[of "x @ dec (n div 10) @ ?d # y" "length x" "length (dec (n div 10))" 1 0]
      by (simp del: str2int_loop.simps)
  qed
qed

lemma size_diff_sub: "b \<le> a \<Longrightarrow> a - b < 2 ^ 64 \<Longrightarrow> size_diff a b = a - b"
  by (simp add: size_diff_def of_nat_diff[symmetric] unat_of_nat del: of_nat_diff)

lemma int_diff_sub: "b \<le> a \<Longrightarrow> a - b < 2 ^ 31 \<Longrightarrow> int_diff a b = int (a - b)"
  by (simp add: int_diff_def of_nat_diff[symmetric] signed_of_nat signed_take_bit_int_eq_self del: of_nat_diff)

lemma strncmp_eq_spec:
  assumes "p1 + n \<le> length m1" "p2 + n \<le> length m2" "NUL \<notin> set (take n (drop p1 m1))"
  shows "strncmp_eq m1 p1 m2 p2 n = Some (take n (drop p1 m1) = take n (drop p2 m2))"
  using assms
proof (induction m1 p1 m2 p2 n rule: strncmp_eq.induct)
  case (2 m1 p1 m2 p2 n)
  have "take (Suc n) (drop p1 m1) = m1 ! p1 # take n (drop (Suc p1) m1)"
    "take (Suc n) (drop p2 m2) = m2 ! p2 # take n (drop (Suc p2) m2)" "p1 < length m1" "p2 < length m2"
    using 2(2,3) by (simp_all add: Cons_nth_drop_Suc[symmetric])
  thus ?case using 2 by auto
qed simp

lemma is_key_spec:
  assumes "key_is ob r x" "take (length nm) (drop v fb) = nm" "v + length nm \<le> length fb" "NUL \<notin> set nm"
    "length ob < 2 ^ 64"
  shows "is_key fb v (length nm) ob r = Some (x = Some nm)"
proof (cases x)
  case None
  thus ?thesis using assms(1) by (simp add: is_key_def key_is_def)
next
  case (Some y)
  have r: "snd r \<noteq> 0" "fst r \<le> snd r" "snd r \<le> length ob" "take (snd r - fst r) (drop (fst r) ob) = y"
    using assms(1) Some by (auto simp: key_is_def)
  have sd: "size_diff (snd r) (fst r) = snd r - fst r" using r assms(5) by (intro size_diff_sub) simp_all
  show ?thesis
  proof (cases "snd r - fst r = length nm")
    case True
    have "strncmp_eq fb v ob (fst r) (length nm) = Some (nm = take (length nm) (drop (fst r) ob))"
      using strncmp_eq_spec[of v "length nm" fb "fst r" ob] assms(2-4) r True by simp
    thus ?thesis using True r sd Some by (auto simp: is_key_def)
  next
    case False
    have "length y = snd r - fst r" using r(3) by (subst r(4)[symmetric]) simp
    thus ?thesis using False r sd Some by (auto simp: is_key_def)
  qed
qed

lemma dec_not_special: "c \<in> set (dec n) \<Longrightarrow> \<not> special c"
  using dec_digits[of c n] by (auto simp: special_def uchar_def)

lemma dec_length_31: "n < 2 ^ 31 \<Longrightarrow> length (dec n) \<le> 10"
  by (rule dec_length) simp_all

lemma close_call_spec:
  assumes keys: "\<forall>kd. key_is ob (key_of k kd) (names kd)" and kd: "names kd = Some nm" "\<forall>kd'. names kd' = Some nm \<longrightarrow> kd' = kd"
    and nm: "take (length nm) (drop (vStart s) fb) = nm" "vStart s + length nm \<le> length fb" "NUL \<notin> set nm"
    and v: "vEnd s = vStart s + length nm" and len: "length fb < 2 ^ 64" "length ob < 2 ^ 64"
    and arg: "str2int fb (nStart s) (int_diff nEnd (nStart s)) = Some (int n)"
  shows "close_call fb ob k s nEnd =
    (if action_idx s = YTDL_MAX_SIG then Some (False, s)
     else map_option (Pair True) (store_action s (kind_action kd) (if kd = Reverse then 0 else int n)))"
proof -
  have sd: "size_diff (vEnd s) (vStart s) = length nm" unfolding v
    using size_diff_sub[of "vStart s" "vStart s + length nm"] nm(2) len(1) by simp
  have key: "is_key fb (vStart s) (length nm) ob (key_of k kd') = Some (kd' = kd)" for kd'
  proof -
    have "(names kd' = Some nm) = (kd' = kd)" using kd by blast
    thus ?thesis using is_key_spec[OF keys[rule_format, of kd'] nm(1,2,3) len(2)] by simp
  qed
  note keys4 = key[of Swap, simplified] key[of Splice, simplified] key[of Slice, simplified] key[of Reverse, simplified]
  show ?thesis unfolding close_call_def sd Let_def keys4 arg by (cases kd) simp_all
qed

lemma func_scan_call:
  fixes x y nm pre :: string and s :: sig_scan
  assumes ok: "call_ok (pre, nm, n)" and m: "m = x @ call_text (pre, nm, n) @ y"
    and keys: "\<forall>kd. key_is ob (key_of k kd) (names kd)" and kd: "names kd = Some nm" "\<forall>kd'. names kd' = Some nm \<longrightarrow> kd' = kd"
    and len: "length m < 2 ^ 64" "length ob < 2 ^ 64"
  defines "v \<equiv> length x + length pre + 1"
  defines "s1 \<equiv> s\<lparr>vStart := v, vEnd := v + length nm, propType := True, nStart := v + length nm + 3\<rparr>"
  shows "func_scan m ob k s (length x) =
    (if action_idx s = YTDL_MAX_SIG then Some (False, s1)
     else (case store_action s1 (kind_action kd) (if kd = Reverse then 0 else int n) of
        None \<Rightarrow> None
      | Some s2 \<Rightarrow> func_scan m ob k s2 (length x + length (call_text (pre, nm, n)))))"
proof -
  have nm: "nm \<noteq> []" "NUL \<notin> set nm" and n: "n < 2 ^ 31"
    and plain: "\<forall>c \<in> set pre. \<not> special c" "\<forall>c \<in> set nm. \<not> special c"
    using ok by (auto simp: call_ok_def)
  obtain c0 nm' where nm': "nm = c0 # nm'" using nm(1) by (cases nm) auto
  obtain d0 ds where dn: "dec n = d0 # ds" using dec_pos[of n] by (cases "dec n") auto
  let ?w = "v + length nm" and ?q = "v + length nm + 3"
  let ?e = "?q + length (dec n)"
  have t: "m = x @ pre @ CHR ''.'' # nm @ CHR ''('' # CHR ''a'' # CHR '','' # dec n @ CHR '')'' # y"
    by (simp add: m call_text_def)
  have lm: "length x + length (call_text (pre, nm, n)) = ?e + 1" "?e < length m"
    by (simp_all add: call_text_def m v_def)
  have "func_scan m ob k s (length x) = func_scan m ob k s (length x + length pre)"
    using func_scan_plain[OF plain(1)] unfolding t by blast
  also have "\<dots> = func_scan m ob k (s\<lparr>vStart := v, propType := True\<rparr>) (v + 1)"
    by (subst func_scan.simps) (simp add: t nth_append func_char_def v_def)
  also have "\<dots> = func_scan m ob k (s\<lparr>vStart := v, propType := True\<rparr>) ?w"
  proof -
    have "m = (x @ pre @ [CHR ''.'', c0]) @ nm' @ (CHR ''('' # CHR ''a'' # CHR '','' # dec n @ CHR '')'' # y)"
      by (simp add: t nm')
    thus ?thesis using func_scan_plain[of nm' "x @ pre @ [CHR ''.'', c0]"] plain(2) nm' by (simp add: v_def)
  qed
  also have "\<dots> = func_scan m ob k (s\<lparr>vStart := v, vEnd := ?w, propType := True\<rparr>) (?w + 1)"
    by (subst func_scan.simps) (simp add: t nth_append func_char_def v_def)
  also have "\<dots> = func_scan m ob k (s\<lparr>vStart := v, vEnd := ?w, propType := True\<rparr>) (?w + 2)"
    by (subst func_scan.simps) (simp add: t nth_append func_char_def v_def)
  also have "\<dots> = func_scan m ob k s1 (?q + 1)"
    by (subst func_scan.simps) (simp add: t nth_append func_char_def v_def s1_def eval_nat_numeral)
  also have "\<dots> = func_scan m ob k s1 ?e"
  proof -
    have "m = (x @ pre @ CHR ''.'' # nm @ [CHR ''('', CHR ''a'', CHR '','', d0]) @ ds @ (CHR '')'' # y)"
      by (simp add: t dn)
    moreover have "\<forall>c \<in> set ds. \<not> special c" using dec_not_special[of _ n] dn by auto
    ultimately show ?thesis
      using func_scan_plain[of ds "x @ pre @ CHR ''.'' # nm @ [CHR ''('', CHR ''a'', CHR '','', d0]"] dn
      by (simp add: v_def eval_nat_numeral add.assoc)
  qed
  finally have scan: "func_scan m ob k s (length x) = func_scan m ob k s1 ?e" .
  have dig: "str2int m ?q (int_diff ?e ?q) = Some (int n)"
  proof -
    have "int_diff ?e ?q = int (length (dec n))" using dec_length_31[OF n] by (subst int_diff_sub) simp_all
    moreover have "m = (x @ pre @ CHR ''.'' # nm @ [CHR ''('', CHR ''a'', CHR '','']) @ dec n @ (CHR '')'' # y)" by (simp add: t)
    ultimately show ?thesis
      using str2int_dec[OF n, of "x @ pre @ CHR ''.'' # nm @ [CHR ''('', CHR ''a'', CHR '','']"]
      by (simp add: str2int_def v_def eval_nat_numeral add.assoc)
  qed
  have close: "close_call m ob k s1 ?e =
      (if action_idx s1 = YTDL_MAX_SIG then Some (False, s1)
       else map_option (Pair True) (store_action s1 (kind_action kd) (if kd = Reverse then 0 else int n)))"
    by (rule close_call_spec[OF keys kd _ _ nm(2) _ len]) (use dig in \<open>simp_all add: s1_def v_def t\<close>)
  have "m ! ?e = CHR '')''" by (simp add: t nth_append v_def)
  hence fc: "func_char m ob k s1 ?e (m ! ?e) = map_option (Pair 0) (close_call m ob k s1 ?e)"
    by (simp add: func_char_def)
  have idx: "action_idx s1 = action_idx s" by (simp add: s1_def)
  show ?thesis unfolding scan lm(1)
    by (subst func_scan.simps) (use lm(2) fc close idx in \<open>auto split: option.splits\<close>)
qed

text \<open>A run of calls, each with the kind of the helper it names, fills the arrays in order.\<close>

definition put_list :: "'a list \<Rightarrow> nat \<Rightarrow> 'a list \<Rightarrow> 'a list" where
  "put_list A j xs = take j A @ xs @ drop (j + length xs) A"

lemma put_list_Nil [simp]: "put_list A j [] = A"
  by (simp add: put_list_def)

lemma put_list_Cons: "j < length A \<Longrightarrow> put_list (A[j := a]) (Suc j) xs = put_list A j (a # xs)"
  by (simp add: put_list_def take_Suc_conv_app_nth)

definition call_arg :: "call \<times> sig_kind \<Rightarrow> int" where
  "call_arg c = (if snd c = Reverse then 0 else int (snd (snd (fst c))))"

definition calls_text :: "(call \<times> sig_kind) list \<Rightarrow> string" where
  "calls_text cs = concat (map (call_text \<circ> fst) cs)"

definition call_of :: "(sig_kind \<Rightarrow> string option) \<Rightarrow> call \<times> sig_kind \<Rightarrow> bool" where
  "call_of names c \<longleftrightarrow> call_ok (fst c) \<and> names (snd c) = Some (fst (snd (fst c)))"

definition arrays_ok :: "ytdl_sig_actions \<Rightarrow> bool" where
  "arrays_ok a \<longleftrightarrow> length (sa_actions a) = YTDL_MAX_SIG \<and> length (sa_actions_arg a) = YTDL_MAX_SIG"

lemma func_scan_calls:
  assumes "\<forall>c \<in> set cs. call_of names c" "m = x @ calls_text cs @ y"
    and keys: "\<forall>kd. key_is ob (key_of k kd) (names kd)"
    and inj: "\<forall>kd kd' nm. names kd = Some nm \<and> names kd' = Some nm \<longrightarrow> kd' = kd"
    and len: "length m < 2 ^ 64" "length ob < 2 ^ 64"
    and arr: "arrays_ok (out s)" "action_idx s \<le> YTDL_MAX_SIG"
  shows "if action_idx s + length cs \<le> YTDL_MAX_SIG
    then \<exists>s'. func_scan m ob k s (length x) = func_scan m ob k s' (length (x @ calls_text cs)) \<and>
      action_idx s' = action_idx s + length cs \<and>
      out s' = (out s)\<lparr>sa_actions := put_list (sa_actions (out s)) (action_idx s) (map (kind_action \<circ> snd) cs),
                       sa_actions_arg := put_list (sa_actions_arg (out s)) (action_idx s) (map call_arg cs)\<rparr>
    else \<exists>s'. func_scan m ob k s (length x) = Some (False, s') \<and> arrays_ok (out s')"
  using assms(1,2) arr
proof (induction cs arbitrary: x s)
  case Nil
  thus ?case by (auto simp: calls_text_def)
next
  case (Cons c cs)
  obtain pre nm n kd where c: "c = ((pre, nm, n), kd)" by (cases c) auto
  have ok: "call_ok (pre, nm, n)" "names kd = Some nm" using Cons.prems(1) c by (auto simp: call_of_def)
  have m: "m = x @ call_text (pre, nm, n) @ (calls_text cs @ y)" using Cons.prems(2) c by (simp add: calls_text_def)
  define s1 where "s1 = s\<lparr>vStart := length x + length pre + 1, vEnd := length x + length pre + 1 + length nm,
      propType := True, nStart := length x + length pre + 1 + length nm + 3\<rparr>"
  have "\<forall>kd'. names kd' = Some nm \<longrightarrow> kd' = kd" using inj ok(2) by blast
  note step = func_scan_call[OF ok(1) m keys ok(2) this len, of s, folded s1_def]
  show ?case
  proof (cases "action_idx s = YTDL_MAX_SIG")
    case True
    thus ?thesis using step Cons.prems(3) by (auto simp: s1_def)
  next
    case False
    let ?j = "action_idx s" and ?A = "sa_actions (out s)" and ?B = "sa_actions_arg (out s)"
    let ?arg = "if kd = Reverse then 0 else int n"
    have j: "?j < length ?A" "?j < length ?B" using False Cons.prems(3,4) by (auto simp: arrays_ok_def)
    define s2 where "s2 = s1\<lparr>action_idx := Suc ?j,
        out := (out s)\<lparr>sa_actions := ?A[?j := kind_action kd], sa_actions_arg := ?B[?j := ?arg]\<rparr>\<rparr>"
    have st: "store_action s1 (kind_action kd) ?arg = Some s2"
      using j by (simp add: store_action_def s1_def s2_def)
    have x': "m = (x @ call_text (pre, nm, n)) @ calls_text cs @ y" using m by simp
    have ar: "arrays_ok (out s2)" "action_idx s2 \<le> YTDL_MAX_SIG"
      using Cons.prems(3,4) False by (auto simp: s2_def arrays_ok_def)
    have go: "func_scan m ob k s (length x) = func_scan m ob k s2 (length (x @ call_text (pre, nm, n)))"
      using step st False by simp
    note IH = Cons.IH[OF _ x' ar]
    have ca: "call_arg c = ?arg" by (simp add: c call_arg_def)
    have pl: "put_list (?A[?j := kind_action kd]) (Suc ?j) xs = put_list ?A ?j (kind_action kd # xs)"
      "put_list (?B[?j := ?arg]) (Suc ?j) xs = put_list ?B ?j (?arg # xs)" for xs
      using j by (simp_all add: put_list_Cons)
    show ?thesis
    proof (cases "?j + length (c # cs) \<le> YTDL_MAX_SIG")
      case True
      then obtain s' where s': "func_scan m ob k s2 (length (x @ call_text (pre, nm, n))) =
          func_scan m ob k s' (length ((x @ call_text (pre, nm, n)) @ calls_text cs))"
        "action_idx s' = action_idx s2 + length cs"
        "out s' = (out s2)\<lparr>sa_actions := put_list (sa_actions (out s2)) (action_idx s2) (map (kind_action \<circ> snd) cs),
                       sa_actions_arg := put_list (sa_actions_arg (out s2)) (action_idx s2) (map call_arg cs)\<rparr>"
        using IH Cons.prems(1) by (auto simp: s2_def)
      have "out s' = (out s)\<lparr>sa_actions := put_list ?A ?j (map (kind_action \<circ> snd) (c # cs)),
                       sa_actions_arg := put_list ?B ?j (map call_arg (c # cs))\<rparr>"
        using s'(3) pl ca c by (simp add: s2_def)
      thus ?thesis using True go s'(1,2) c by (auto simp: s2_def calls_text_def)
    next
      case False
      thus ?thesis using IH Cons.prems(1) go by (auto simp: s2_def)
    qed
  qed
qed

text \<open>The names of the helpers tell them apart.\<close>

definition names_distinct :: "helper list \<Rightarrow> bool" where
  "names_distinct hs \<longleftrightarrow>
     (\<forall>kd kd'. helper_name hs kd \<noteq> None \<and> helper_name hs kd' = helper_name hs kd \<longrightarrow> kd' = kd)"

lemma scan_actions_spec:
  assumes hs: "\<forall>h \<in> set hs. helper_ok h" "hs \<noteq> []" "names_distinct hs"
    and cs: "\<forall>c \<in> set cs. call_of (helper_name hs) c" "\<forall>c \<in> set rest. \<not> special c"
    and len: "length (calls_text cs @ rest) < 2 ^ 64" "length (object_text hs) < 2 ^ 64" and arr: "arrays_ok a"
  shows "if length cs \<le> YTDL_MAX_SIG
    then scan_actions (calls_text cs @ rest) (object_text hs) a =
      Some (True, a\<lparr>sa_actions := put_list (sa_actions a) 0 (map (kind_action \<circ> snd) cs),
                    sa_actions_arg := put_list (sa_actions_arg a) 0 (map call_arg cs),
                    sa_actions_size := int (length cs)\<rparr>)
    else \<exists>a'. scan_actions (calls_text cs @ rest) (object_text hs) a = Some (False, a')"
proof -
  obtain k where k: "obj_scan (object_text hs) 0 0 no_keys = Some k"
    "\<forall>kd. key_is (object_text hs) (key_of k kd) (helper_name hs kd)"
    using obj_scan_keys[OF hs(1,2)] by blast
  let ?s = "\<lparr>vStart = 0, vEnd = 0, nStart = 0, propType = True, action_idx = 0, out = a\<rparr>"
  have inj: "\<forall>kd kd' nm. helper_name hs kd = Some nm \<and> helper_name hs kd' = Some nm \<longrightarrow> kd' = kd"
    using hs(3) by (auto simp: names_distinct_def)
  note run = func_scan_calls[OF cs(1) append_Nil[symmetric] k(2) inj len, of ?s, simplified, OF arr]
  have tail: "func_scan (calls_text cs @ rest) (object_text hs) k s (length (calls_text cs)) = Some (True, s)" for s
    using func_scan_plain[OF cs(2), of "calls_text cs" "[]"] by (simp add: func_scan.simps[of _ _ _ _ "length (calls_text cs) + length rest"])
  show ?thesis
  proof (cases "length cs \<le> YTDL_MAX_SIG")
    case True
    thus ?thesis using run k(1) tail by (auto simp: scan_actions_def)
  next
    case False
    thus ?thesis using run k(1) by (auto simp: scan_actions_def)
  qed
qed

section \<open>The cache file\<close>

text \<open>
  A file is the list of its bytes; \<open>fread\<close> stores the bytes it gets, which may be fewer than it
  asks for, over those of the object. The head of the structure (20 actions, 20 arguments and
  the size, of four bytes each, the least significant first) is written and read as it lies in
  memory.
\<close>

definition int_bytes :: "int \<Rightarrow> string" where
  "int_bytes i = le_bytes 4 (unat (of_int i :: u32))"

definition bytes_int :: "string \<Rightarrow> int" where
  "bytes_int s = sint (of_nat (le_val s) :: u32)"

definition head_bytes :: "ytdl_sig_actions \<Rightarrow> string" where
  "head_bytes a = concat (map int_bytes (sa_actions a @ sa_actions_arg a @ [sa_actions_size a]))"

definition HEAD_SIZE :: nat where "HEAD_SIZE = 4 * (YTDL_MAX_SIG + YTDL_MAX_SIG + 1)"

fun ints_of :: "nat \<Rightarrow> string \<Rightarrow> int list" where
  "ints_of 0 s = []"
| "ints_of (Suc n) s = bytes_int (take 4 s) # ints_of n (drop 4 s)"

definition set_head :: "ytdl_sig_actions \<Rightarrow> string \<Rightarrow> ytdl_sig_actions" where
  "set_head a s =
     a\<lparr>sa_actions := ints_of YTDL_MAX_SIG s,
       sa_actions_arg := ints_of YTDL_MAX_SIG (drop (4 * YTDL_MAX_SIG) s),
       sa_actions_size := bytes_int (take 4 (drop (8 * YTDL_MAX_SIG) s))\<rparr>"

text \<open>\<open>got\<close> over the first bytes of an object.\<close>

definition overwrite :: "string \<Rightarrow> string \<Rightarrow> string" where
  "overwrite got object = got @ drop (length got) object"

definition ytdl_sig_actions_save_file :: "ytdl_sig_actions \<Rightarrow> string \<Rightarrow> (string \<times> int) option" where
  "ytdl_sig_actions_save_file a fd =
     do { code \<leftarrow> (if sa_bc_len a = 0 then Some []
                   else do { b \<leftarrow> sa_bytecode a; slice b 0 (unat (sa_bc_len a)) });
          Some (fd @ head_bytes a @ [char_of (8 :: nat)] @ le_bytes 8 (unat (sa_bc_len a)) @ code, 0) }"

text \<open>
  The size of the length field is read from the file: more than the eight bytes of the field
  would be written past it. At the end of the file \<open>fgetc\<close> is \<open>-1\<close>, a huge \<open>size_t\<close>.
\<close>

definition ytdl_sig_actions_load_file ::
    "malloc \<Rightarrow> js_engine \<Rightarrow> ytdl_sig_actions \<Rightarrow> string \<Rightarrow> (ytdl_sig_actions \<times> string \<times> int) option" where
  "ytdl_sig_actions_load_file js_malloc js a fd =
     (if sa_bytecode a \<noteq> None then Some (a, fd, -1)
      else
        let a = set_head a (overwrite (take HEAD_SIZE fd) (head_bytes a));
            fd = drop HEAD_SIZE fd;
            s_size = (case fd of [] \<Rightarrow> 2 ^ 64 - 1 | c # _ \<Rightarrow> uchar c);
            fd = tl fd;
            got = take s_size fd
        in if length got > 8 then None
           else
             let fd = drop s_size fd;
                 a = a\<lparr>sa_bc_len := of_nat (le_val (overwrite got (le_bytes 8 (unat (sa_bc_len a)))))\<rparr>;
                 n = unat (sa_bc_len a)
             in (case js_malloc n of
                   None \<Rightarrow> Some (a, fd, -1)
                 | Some m \<Rightarrow>
                     let b = overwrite (take n fd) m;
                         a = a\<lparr>sa_bytecode := Some b, sa_script := JS_ReadObject js (take n b)\<rparr>;
                         fd = drop n fd
                     in if sa_script a = JS_EXCEPTION then Some (a, fd, -1)
                        else
                          let a = a\<lparr>sa_func := JS_EvalFunction js (sa_script a)\<rparr>
                          in Some (a, fd, if sa_func a = JS_EXCEPTION then -1 else 0)))"

lemma int_bytes_length [simp]: "length (int_bytes i) = 4"
  by (simp add: int_bytes_def)

lemma bytes_int_bytes: "int32 i = Some i \<Longrightarrow> bytes_int (int_bytes i) = i"
proof -
  assume "int32 i = Some i"
  hence i: "- (2 ^ 31) \<le> i" "i < 2 ^ 31" by (auto simp: int32_def split: if_splits)
  have "unat (of_int i :: u32) < 256 ^ 4" using unsigned_less[of "of_int i :: u32", where ?'a = nat] by simp
  hence "bytes_int (int_bytes i) = sint (of_int i :: u32)" by (simp add: bytes_int_def int_bytes_def le_val_bytes)
  also have "\<dots> = i" using i by (simp add: signed_of_int signed_take_bit_int_eq_self)
  finally show ?thesis .
qed

lemma concat_int_bytes_length: "length (concat (map int_bytes xs)) = 4 * length xs"
  by (induction xs) auto

lemma ints_of_bytes:
  "\<forall>i \<in> set xs. int32 i = Some i \<Longrightarrow> ints_of (length xs) (concat (map int_bytes xs) @ s) = xs"
  by (induction xs) (auto simp: bytes_int_bytes)

definition ints_ok :: "ytdl_sig_actions \<Rightarrow> bool" where
  "ints_ok a \<longleftrightarrow> arrays_ok a \<and> (\<forall>i \<in> set (sa_actions a @ sa_actions_arg a @ [sa_actions_size a]). int32 i = Some i)"

lemma head_bytes_length: "arrays_ok a \<Longrightarrow> length (head_bytes a) = HEAD_SIZE"
  unfolding head_bytes_def concat_int_bytes_length by (simp add: arrays_ok_def HEAD_SIZE_def)

lemma set_head_bytes:
  assumes "ints_ok a"
  shows "set_head a' (head_bytes a) =
    a'\<lparr>sa_actions := sa_actions a, sa_actions_arg := sa_actions_arg a, sa_actions_size := sa_actions_size a\<rparr>"
proof -
  let ?A = "concat (map int_bytes (sa_actions a))" and ?B = "concat (map int_bytes (sa_actions_arg a))"
  have len: "length (sa_actions a) = YTDL_MAX_SIG" "length (sa_actions_arg a) = YTDL_MAX_SIG"
    using assms by (auto simp: ints_ok_def arrays_ok_def)
  have i: "\<forall>i \<in> set (sa_actions a). int32 i = Some i" "\<forall>i \<in> set (sa_actions_arg a). int32 i = Some i"
    "int32 (sa_actions_size a) = Some (sa_actions_size a)" using assms by (auto simp: ints_ok_def)
  have l: "length ?A = 4 * YTDL_MAX_SIG" "length ?B = 4 * YTDL_MAX_SIG"
    by (simp_all add: concat_int_bytes_length len)
  have h: "head_bytes a = ?A @ ?B @ int_bytes (sa_actions_size a)" by (simp add: head_bytes_def)
  have d4: "drop (4 * YTDL_MAX_SIG) (head_bytes a) = ?B @ int_bytes (sa_actions_size a)" unfolding h using l(1) by simp
  have "drop (8 * YTDL_MAX_SIG) (head_bytes a) = drop (4 * YTDL_MAX_SIG) (drop (4 * YTDL_MAX_SIG) (head_bytes a))" by simp
  hence d8: "drop (8 * YTDL_MAX_SIG) (head_bytes a) = int_bytes (sa_actions_size a)" unfolding d4 using l(2) by simp
  have "ints_of YTDL_MAX_SIG (head_bytes a) = sa_actions a" unfolding h using ints_of_bytes[OF i(1)] len(1) by simp
  moreover have "ints_of YTDL_MAX_SIG (drop (4 * YTDL_MAX_SIG) (head_bytes a)) = sa_actions_arg a"
    unfolding d4 using ints_of_bytes[OF i(2)] len(2) by simp
  ultimately show ?thesis by (simp add: set_head_def d8 bytes_int_bytes[OF i(3)])
qed

lemma save_load:
  assumes a: "ints_ok a" "sa_bytecode a = Some b" "length b = unat (sa_bc_len a)"
    and a0: "arrays_ok a0" "sa_bytecode a0 = None"
    and m: "malloc_ok js_malloc" "js_malloc (length b) \<noteq> None"
  shows "\<exists>f. ytdl_sig_actions_save_file a fd = Some (fd @ f, 0) \<and>
    (\<exists>a' r. ytdl_sig_actions_load_file js_malloc js a0 (f @ rest) = Some (a', rest, r) \<and>
       sa_actions a' = sa_actions a \<and> sa_actions_arg a' = sa_actions_arg a \<and>
       sa_actions_size a' = sa_actions_size a \<and> sa_bc_len a' = sa_bc_len a \<and> sa_bytecode a' = Some b \<and>
       sa_script a' = JS_ReadObject js b \<and>
       (r = 0 \<longleftrightarrow> JS_ReadObject js b \<noteq> JS_EXCEPTION \<and> JS_EvalFunction js (JS_ReadObject js b) \<noteq> JS_EXCEPTION))"
proof -
  let ?n = "unat (sa_bc_len a)"
  let ?f = "head_bytes a @ [char_of (8 :: nat)] @ le_bytes 8 ?n @ b"
  have ar: "arrays_ok a" using a(1) by (simp add: ints_ok_def)
  note hl = head_bytes_length[OF ar] head_bytes_length[OF a0(1)]
  have "\<exists>code. (if sa_bc_len a = 0 then Some [] else do { b \<leftarrow> sa_bytecode a; slice b 0 ?n }) = Some code \<and> code = b"
    using a(2,3) by (auto simp: slice_def)
  hence save: "ytdl_sig_actions_save_file a fd = Some (fd @ ?f, 0)" by (auto simp: ytdl_sig_actions_save_file_def)
  obtain blk where blk: "js_malloc (length b) = Some blk" "length blk = length b"
    using m by (auto simp: malloc_ok_def)
  have h: "take HEAD_SIZE (?f @ rest) = head_bytes a" "drop HEAD_SIZE (?f @ rest) = char_of (8 :: nat) # le_bytes 8 ?n @ b @ rest"
    using hl(1) by simp_all
  have oh: "overwrite (head_bytes a) (head_bytes a0) = head_bytes a" using hl by (simp add: overwrite_def)
  have "?n < 256 ^ 8" using unsigned_less[of "sa_bc_len a", where ?'a = nat] by simp
  hence ol: "of_nat (le_val (overwrite (le_bytes 8 ?n) (le_bytes 8 x))) = sa_bc_len a" for x
    by (simp add: overwrite_def le_val_bytes)
  have ob: "overwrite b blk = b" using blk(2) by (simp add: overwrite_def)
  let ?l = "le_bytes 8 ?n" and ?t = "b @ rest"
  have t8: "take (uchar (char_of (8 :: nat))) (?l @ ?t) = ?l" "drop (uchar (char_of (8 :: nat))) (?l @ ?t) = ?t"
    by simp_all
  define a1 where "a1 = a0\<lparr>sa_actions := sa_actions a, sa_actions_arg := sa_actions_arg a,
      sa_actions_size := sa_actions_size a, sa_bc_len := sa_bc_len a\<rparr>"
  define a2 where "a2 = a1\<lparr>sa_bytecode := Some b, sa_script := JS_ReadObject js b\<rparr>"
  have tk: "take ?n ?t = b" "drop ?n ?t = rest" "take ?n b = b" using a(3) by simp_all
  have jm: "js_malloc ?n = Some blk" using blk(1) a(3) by simp
  have load: "ytdl_sig_actions_load_file js_malloc js a0 (?f @ rest) =
      (if JS_ReadObject js b = JS_EXCEPTION then Some (a2, rest, -1)
       else let a3 = a2\<lparr>sa_func := JS_EvalFunction js (JS_ReadObject js b)\<rparr> in
         Some (a3, rest, if JS_EvalFunction js (JS_ReadObject js b) = JS_EXCEPTION then -1 else 0))"
    unfolding ytdl_sig_actions_load_file_def h oh set_head_bytes[OF a(1)] Let_def list.case list.sel t8
    using a(3) a0(2) ol jm tk ob by (simp add: a2_def a1_def)
  show ?thesis
  proof (intro exI[of _ ?f] conjI save)
    show "\<exists>a' r. ytdl_sig_actions_load_file js_malloc js a0 (?f @ rest) = Some (a', rest, r) \<and>
       sa_actions a' = sa_actions a \<and> sa_actions_arg a' = sa_actions_arg a \<and>
       sa_actions_size a' = sa_actions_size a \<and> sa_bc_len a' = sa_bc_len a \<and> sa_bytecode a' = Some b \<and>
       sa_script a' = JS_ReadObject js b \<and>
       (r = 0 \<longleftrightarrow> JS_ReadObject js b \<noteq> JS_EXCEPTION \<and> JS_EvalFunction js (JS_ReadObject js b) \<noteq> JS_EXCEPTION)"
      unfolding load Let_def by (auto simp: a2_def a1_def)
  qed
qed

section \<open>Bounds\<close>

lemma store_action_ok:
  assumes "store_action s act arg = Some s'" "arrays_ok (out s)" "action_idx s < YTDL_MAX_SIG"
  shows "arrays_ok (out s') \<and> action_idx s' \<le> YTDL_MAX_SIG"
  using assms by (auto simp: store_action_def arrays_ok_def bind_eq_Some_conv dest!: wr_SomeD)

lemma bind_SomeE: "Option.bind x f = Some y \<Longrightarrow> (\<And>z. x = Some z \<Longrightarrow> f z = Some y \<Longrightarrow> P) \<Longrightarrow> P"
  by (auto simp: bind_eq_Some_conv)

lemma close_call_ok:
  assumes "close_call fb ob k s e = Some (ok, s')" "arrays_ok (out s)" "action_idx s \<le> YTDL_MAX_SIG"
  shows "arrays_ok (out s') \<and> action_idx s' \<le> YTDL_MAX_SIG"
proof (cases "action_idx s = YTDL_MAX_SIG")
  case True
  thus ?thesis using assms by (auto simp: close_call_def Let_def)
next
  case False
  hence lt: "action_idx s < YTDL_MAX_SIG" using assms(3) by simp
  from assms(1) False have "s' = s \<or> (\<exists>act arg. store_action s act arg = Some s')"
    unfolding close_call_def Let_def by (auto elim!: bind_SomeE split: if_splits)
  thus ?thesis using store_action_ok[OF _ assms(2) lt] assms(2,3) by blast
qed

lemma func_char_ok:
  assumes "func_char fb ob k s i c = Some (n, ok, s')" "arrays_ok (out s)" "action_idx s \<le> YTDL_MAX_SIG"
  shows "arrays_ok (out s') \<and> action_idx s' \<le> YTDL_MAX_SIG"
  using assms by (auto simp: func_char_def split: if_splits dest: close_call_ok)

lemma func_scan_ok:
  "func_scan fb ob k s i = Some (ok, s') \<Longrightarrow> arrays_ok (out s) \<Longrightarrow> action_idx s \<le> YTDL_MAX_SIG \<Longrightarrow>
     arrays_ok (out s') \<and> action_idx s' \<le> YTDL_MAX_SIG"
proof (induction fb ob k s i rule: func_scan.induct)
  case (1 fb ob k s i)
  show ?case
  proof (cases "rd fb i")
    case None
    thus ?thesis using 1(2-4) by (subst (asm) func_scan.simps) simp
  next
    case (Some c)
    obtain n b t where f: "func_char fb ob k s i c = Some (n, b, t)"
      using 1(2) Some by (subst (asm) func_scan.simps) (auto split: option.splits)
    note t = func_char_ok[OF f 1(3,4)]
    show ?thesis
    proof (cases b)
      case True
      hence "func_scan fb ob k t (i + n + 1) = Some (ok, s')"
        using 1(2) Some f by (subst (asm) func_scan.simps) simp
      thus ?thesis using 1(1)[OF Some f refl refl True] t by blast
    next
      case False
      thus ?thesis using 1(2) Some f t by (subst (asm) func_scan.simps) simp
    qed
  qed
qed

text \<open>The arrays of the actions with other cells of memory behind them.\<close>

definition behind :: "int list \<Rightarrow> int list \<Rightarrow> ytdl_sig_actions \<Rightarrow> ytdl_sig_actions" where
  "behind xs ys a = a\<lparr>sa_actions := sa_actions a @ xs, sa_actions_arg := sa_actions_arg a @ ys\<rparr>"

definition scan_behind :: "int list \<Rightarrow> int list \<Rightarrow> sig_scan \<Rightarrow> sig_scan" where
  "scan_behind xs ys s = s\<lparr>out := behind xs ys (out s)\<rparr>"

lemma scan_behind_simps [simp]:
  "vStart (scan_behind xs ys s) = vStart s" "vEnd (scan_behind xs ys s) = vEnd s" "nStart (scan_behind xs ys s) = nStart s"
  "propType (scan_behind xs ys s) = propType s" "action_idx (scan_behind xs ys s) = action_idx s"
  "out (scan_behind xs ys s) = behind xs ys (out s)"
  "(scan_behind xs ys s)\<lparr>vStart := i\<rparr> = scan_behind xs ys (s\<lparr>vStart := i\<rparr>)" "(scan_behind xs ys s)\<lparr>vEnd := i\<rparr> = scan_behind xs ys (s\<lparr>vEnd := i\<rparr>)"
  "(scan_behind xs ys s)\<lparr>nStart := i\<rparr> = scan_behind xs ys (s\<lparr>nStart := i\<rparr>)"
  "(scan_behind xs ys s)\<lparr>propType := p\<rparr> = scan_behind xs ys (s\<lparr>propType := p\<rparr>)"
  by (simp_all add: scan_behind_def)

lemma store_action_behind:
  assumes "arrays_ok (out s)" "action_idx s < YTDL_MAX_SIG"
  shows "store_action (scan_behind xs ys s) act arg = map_option (scan_behind xs ys) (store_action s act arg)"
  using assms by (simp add: store_action_def arrays_ok_def scan_behind_def behind_def list_update_append1)

lemma close_call_behind:
  assumes "arrays_ok (out s)" "action_idx s \<le> YTDL_MAX_SIG"
  shows "close_call fb ob k (scan_behind xs ys s) e = map_option (map_prod id (scan_behind xs ys)) (close_call fb ob k s e)"
  using assms store_action_behind[OF assms(1), of xs ys]
  by (auto simp: close_call_def Let_def option.map_comp comp_def split: bind_splits)

lemma func_char_behind:
  assumes "arrays_ok (out s)" "action_idx s \<le> YTDL_MAX_SIG"
  shows "func_char fb ob k (scan_behind xs ys s) i c = map_option (map_prod id (map_prod id (scan_behind xs ys))) (func_char fb ob k s i c)"
  by (simp add: func_char_def close_call_behind[OF assms] option.map_comp comp_def)

lemma func_scan_behind:
  "arrays_ok (out s) \<Longrightarrow> action_idx s \<le> YTDL_MAX_SIG \<Longrightarrow>
     func_scan fb ob k (scan_behind xs ys s) i = map_option (map_prod id (scan_behind xs ys)) (func_scan fb ob k s i)"
proof (induction fb ob k s i rule: func_scan.induct)
  case (1 fb ob k s i)
  note c = func_char_behind[OF 1(2,3), of fb ob k xs ys i]
  consider "rd fb i = None" | c where "rd fb i = Some c" "func_char fb ob k s i c = None"
    | c n b t where "rd fb i = Some c" "func_char fb ob k s i c = Some (n, b, t)"
    by (cases "rd fb i"; cases "func_char fb ob k s i (the (rd fb i))") auto
  then show ?case
  proof cases
    case (3 c' n b t)
    have "func_scan fb ob k (scan_behind xs ys t) (i + n + 1) = map_option (map_prod id (scan_behind xs ys)) (func_scan fb ob k t (i + n + 1))" if b
      using 1(1)[OF 3(1,2) refl refl that] func_char_ok[OF 3(2) 1(2,3)] by blast
    thus ?thesis using 3 c by (subst (1 2) func_scan.simps) simp
  qed (use c in \<open>simp_all add: func_scan.simps\<close>)
qed

text \<open>The wrapper of the transforming function fits the block that is allocated for it.\<close>

lemma js_function_text:
  assumes "malloc_ok malloc" "\<forall>n. malloc n \<noteq> None" "s \<le> e" "e \<le> length buf" "e - s < 2 ^ 31"
    "NUL \<notin> set (take (e - s) (drop s buf))"
  shows "js_function malloc buf s e = Some (JS_FUNC_HEAD @ take (e - s) (drop s buf) @ JS_FUNC_TAIL)"
proof -
  let ?n = "length YTDL_SIG_JS_FUNC + 1 + (e - s)"
  let ?t = "JS_FUNC_HEAD @ take (e - s) (drop s buf) @ JS_FUNC_TAIL"
  obtain m where m1: "malloc ?n = Some m" using assms(2) by blast
  hence m: "malloc ?n = Some m" "length m = ?n" using assms(1) unfolding malloc_ok_def by blast+
  have f: "fmt_prec (e - s) (drop s buf) = Some (take (e - s) (drop s buf))"
    using assms(3-6) by (intro fmt_prec_plain) simp_all
  have "NUL \<notin> set JS_FUNC_HEAD" "NUL \<notin> set JS_FUNC_TAIL" by (simp_all add: JS_FUNC_HEAD_def JS_FUNC_TAIL_def)
  hence nul: "NUL \<notin> set ?t" using assms(6) by simp
  have "length ?t < ?n" using assms(3,4) by (simp add: YTDL_SIG_JS_FUNC_def)
  then obtain m' where m': "snprintf m ?n ?t = Some m'" "cstr m' = ?t" "strlen m' = Some (length ?t)" "length m' = length m"
    using snprintf_fits[of ?t ?n m] m nul by auto
  have "NUL \<in> set m'" using m'(3) by (auto simp: strlen_def split: if_splits)
  hence "take (length ?t) m' = ?t" using cstr_split[of m'] m'(2) by auto
  thus ?thesis using m(1) f m'(1,3) by (simp add: js_function_def Let_def)
qed

text \<open>
  The name of the transforming function is cut with its \<open>=\<close> when it has nine characters or
  more: then it is no longer searched for as a definition.
\<close>

lemma func_prefix_cut:
  assumes "9 \<le> length name" "NUL \<notin> set name"
  shows "\<exists>p. snprintf (replicate 10 NUL) 10 (name @ ''='') = Some p \<and> cstr p = take 9 name"
  using snprintf_cut[of 10 "name @ ''=''" "replicate 10 NUL"] assms by auto

text \<open>The byte after a colon is read even when the colon ends the buffer.\<close>

lemma obj_scan_reads_past_end: "obj_scan ''a:'' 0 0 no_keys = None"
  by code_simp

section \<open>Properties\<close>

text \<open>
  C6. Given a helper object with one line per function and a deciphering function that calls
  the helpers by their names, the scans recover the calls: the kind of each action in order,
  with its argument. More than \<open>YTDL_MAX_SIG\<close> calls are refused.
\<close>

theorem scan_actions_player:
  assumes "\<forall>h \<in> set hs. helper_ok h" "hs \<noteq> []" "names_distinct hs"
    and "\<forall>c \<in> set cs. call_of (helper_name hs) c" "\<forall>c \<in> set rest. \<not> special c"
    and "length (calls_text cs @ rest) < 2 ^ 64" "length (object_text hs) < 2 ^ 64" "arrays_ok a"
  shows "if length cs \<le> YTDL_MAX_SIG
    then scan_actions (calls_text cs @ rest) (object_text hs) a =
      Some (True, a\<lparr>sa_actions := put_list (sa_actions a) 0 (map (kind_action \<circ> snd) cs),
                    sa_actions_arg := put_list (sa_actions_arg a) 0 (map call_arg cs),
                    sa_actions_size := int (length cs)\<rparr>)
    else \<exists>a'. scan_actions (calls_text cs @ rest) (object_text hs) a = Some (False, a')"
  using assms by (rule scan_actions_spec)

theorem scan_actions_player_witness:
  "\<exists>a'. scan_actions ('';Mt.jO(a,3);Mt.hp(a,49);'') (''jO:function(a,b){a.splice(0,b)},'' @ LF # ''hp:function(a){a.reverse()}'')
     (fst (ytdl_sig_actions_init True True)) = Some (True, a') \<and> sa_actions_size a' = 2 \<and> take 2 (sa_actions a') = [4, 2]"
proof -
  let ?hs = "[(''jO'', Splice, ''function(a,b){a.splice(0,b)},''), (''hp'', Reverse, ''function(a){a.reverse()}'')]"
  let ?cs = "[(('';Mt'', ''jO'', 3), Splice), (('';Mt'', ''hp'', 49), Reverse)]"
  have hs: "\<forall>h \<in> set ?hs. helper_ok h"
    by (simp add: helper_ok_def SPLICE_TEXT_def REVERSE_TEXT_def)
  have nm: "helper_name ?hs kd = (if kd = Splice then Some ''jO'' else if kd = Reverse then Some ''hp'' else None)" for kd
    by simp
  have d: "names_distinct ?hs" unfolding names_distinct_def nm by simp
  have cs: "\<forall>c \<in> set ?cs. call_of (helper_name ?hs) c"
    by (simp add: call_of_def call_ok_def special_def)
  have t: "calls_text ?cs @ '';'' = '';Mt.jO(a,3);Mt.hp(a,49);''"
    by code_simp
  have o: "object_text ?hs = ''jO:function(a,b){a.splice(0,b)},'' @ LF # ''hp:function(a){a.reverse()}''"
    by (simp add: helper_line_def)
  have a: "arrays_ok (fst (ytdl_sig_actions_init True True))"
    by (simp add: arrays_ok_def ytdl_sig_actions_init_def YTDL_MAX_SIG_def)
  show ?thesis
    using scan_actions_player[OF hs _ d cs _ _ _ a, of "'';''", unfolded t o]
    by (simp add: special_def YTDL_MAX_SIG_def put_list_def YTDL_SIG_ACTION_SPLICE_def YTDL_SIG_ACTION_REVERSE_def)
qed

text \<open>
  C30. Whatever the player contains: with any cells of memory behind the two arrays of
  \<open>YTDL_MAX_SIG\<close> entries the scans do what they do without them, and leave those cells as they were.
  So no store of an action is outside the arrays, where it would be undefined without the cells and
  change one with them. When the scans end, the arrays have their size and the recorded number of
  actions is at most \<open>YTDL_MAX_SIG\<close>.
\<close>

theorem sig_arrays_bounded:
  assumes "arrays_ok a"
  shows "scan_actions func_body obj_body (behind xs ys a) = map_option (map_prod id (behind xs ys)) (scan_actions func_body obj_body a) \<and>
    (case scan_actions func_body obj_body a of
       None \<Rightarrow> True
     | Some (ok, a') \<Rightarrow> arrays_ok a' \<and> (ok \<longrightarrow> 0 \<le> sa_actions_size a' \<and> sa_actions_size a' \<le> int YTDL_MAX_SIG))"
proof -
  let ?s = "\<lparr>vStart = 0, vEnd = 0, nStart = 0, propType = True, action_idx = 0, out = a\<rparr>"
  have s: "\<lparr>vStart = 0, vEnd = 0, nStart = 0, propType = True, action_idx = 0, out = behind xs ys a\<rparr> = scan_behind xs ys ?s"
    by (simp add: scan_behind_def)
  have "func_scan func_body obj_body k (scan_behind xs ys ?s) 0 = map_option (map_prod id (scan_behind xs ys)) (func_scan func_body obj_body k ?s 0)" for k
    using func_scan_behind[of ?s] assms by simp
  moreover have "arrays_ok (out t) \<and> action_idx t \<le> YTDL_MAX_SIG" if "func_scan func_body obj_body k ?s 0 = Some (b, t)" for k b t
    using func_scan_ok[OF that] assms by simp
  ultimately show ?thesis unfolding scan_actions_def s
    by (auto simp: behind_def arrays_ok_def split: bind_splits option.splits) 
qed

lemma sig_arrays_bounded_witness:
  "\<exists>a'. scan_actions (concat (replicate 21 ''.b(a,1)'')) ''b:function(a){a.reverse()}'' (behind [7] [9] (fst (ytdl_sig_actions_init True True))) =
     Some (False, behind [7] [9] a') \<and> sa_actions a' = replicate 20 YTDL_SIG_ACTION_REVERSE"
proof -
  let ?a = "fst (ytdl_sig_actions_init True True)" and ?f = "concat (replicate 21 ''.b(a,1)'')" and ?o = "''b:function(a){a.reverse()}''"
  have a: "arrays_ok ?a" by (simp add: arrays_ok_def ytdl_sig_actions_init_def YTDL_MAX_SIG_def)
  have "map_option (map_prod id sa_actions) (scan_actions ?f ?o ?a) = Some (False, replicate 20 YTDL_SIG_ACTION_REVERSE)"
    by code_simp
  thus ?thesis using sig_arrays_bounded[OF a, of ?f ?o "[7]" "[9]"] by auto
qed

text \<open>
  C29. What is written to the player cache is read back: the actions, their arguments, their
  number and the compiled function, whatever follows in the file. The answer is 0 exactly when
  the engine accepts the code.
\<close>

theorem sig_cache_roundtrip:
  assumes "ints_ok a" "sa_bytecode a = Some b" "length b = unat (sa_bc_len a)"
    and "arrays_ok a0" "sa_bytecode a0 = None"
    and "malloc_ok js_malloc" "js_malloc (length b) \<noteq> None"
  shows "\<exists>f. ytdl_sig_actions_save_file a fd = Some (fd @ f, 0) \<and>
    (\<exists>a' r. ytdl_sig_actions_load_file js_malloc js a0 (f @ rest) = Some (a', rest, r) \<and>
       sa_actions a' = sa_actions a \<and> sa_actions_arg a' = sa_actions_arg a \<and>
       sa_actions_size a' = sa_actions_size a \<and> sa_bc_len a' = sa_bc_len a \<and> sa_bytecode a' = Some b \<and>
       sa_script a' = JS_ReadObject js b \<and>
       (r = 0 \<longleftrightarrow> JS_ReadObject js b \<noteq> JS_EXCEPTION \<and> JS_EvalFunction js (JS_ReadObject js b) \<noteq> JS_EXCEPTION))"
  using assms by (rule save_load)

theorem sig_cache_roundtrip_witness:
  "\<exists>f. ytdl_sig_actions_save_file ((fst (ytdl_sig_actions_init True True))\<lparr>sa_bytecode := Some ''x'', sa_bc_len := 1\<rparr>) []
     = Some (f, 0) \<and> f \<noteq> []"
proof -
  let ?fresh = "fst (ytdl_sig_actions_init True True)"
  let ?a = "?fresh\<lparr>sa_bytecode := Some ''x'', sa_bc_len := 1\<rparr>"
  let ?js = "\<lparr>JS_Eval = \<lambda>_. JS_VALUE 1, JS_WriteObject = \<lambda>_. None, JS_ReadObject = \<lambda>_. JS_VALUE 1,
      JS_EvalFunction = \<lambda>_. JS_VALUE 2, JS_IsFunction = \<lambda>_. True\<rparr>"
  have a: "ints_ok ?a" "arrays_ok ?fresh" "sa_bytecode ?fresh = None"
    by code_simp+
  have m: "malloc_ok (\<lambda>n. Some (replicate n NUL))" by (simp add: malloc_ok_def)
  obtain f where f: "ytdl_sig_actions_save_file ?a [] = Some ([] @ f, 0)"
    "\<exists>a' r. ytdl_sig_actions_load_file (\<lambda>n. Some (replicate n NUL)) ?js ?fresh (f @ ''z'') = Some (a', ''z'', r) \<and> sa_bytecode a' = Some ''x''"
    using sig_cache_roundtrip[OF a(1) _ _ a(2,3) m, of "''x''" "[]" ?js "''z''"] by auto
  have "f \<noteq> []"
  proof
    assume "f = []"
    with f(2) show False
      by (auto simp: ytdl_sig_actions_load_file_def Let_def a(3) overwrite_def HEAD_SIZE_def YTDL_MAX_SIG_def split: if_splits)
  qed
  thus ?thesis using f(1) by simp
qed

text \<open>
  The JavaScript that is compiled is the wrapper with the function of the player inside: the
  block allocated for it holds all of it, so the text is not cut.
\<close>

theorem js_wrapper_complete:
  assumes "malloc_ok malloc" "\<forall>n. malloc n \<noteq> None" "s \<le> e" "e \<le> length buf" "e - s < 2 ^ 31"
    "NUL \<notin> set (take (e - s) (drop s buf))"
  shows "js_function malloc buf s e = Some (JS_FUNC_HEAD @ take (e - s) (drop s buf) @ JS_FUNC_TAIL)"
  using assms by (rule js_function_text)

theorem js_wrapper_complete_witness:
  "js_function (\<lambda>n. Some (replicate n NUL)) ''xf=function(a){}'' 3 16 = Some (JS_FUNC_HEAD @ ''function(a){}'' @ JS_FUNC_TAIL)"
  using js_wrapper_complete[of "\<lambda>n. Some (replicate n NUL)" 3 16 "''xf=function(a){}''"] by (simp add: malloc_ok_def)

end
