(* ===== verification/Json.thy ===== *)
theory Json
  imports Ytdl_Prelude
begin

text \<open>
  The JSON values the scrapers read, and the accessors of \<open>include/ytdl/yyjson.h\<close> they use. The
  parser itself is a parameter of the theories that call it; a document is the value tree it
  stands for. A value pointer is an option, \<^term>\<open>None\<close> for \<open>NULL\<close>. Integers and the bits
  of a \<open>double\<close> are 64-bit words. A string may contain NULs; what \<open>yyjson_get_str\<close> gives is
  the block of its characters and a terminator.
\<close>

datatype json =
    JNull
  | JBool bool
  | JUint u64
  | JSint u64
  | JReal u64
  | JStr string
  | JArr "json list"
  | JObj "(string \<times> json) list"

definition yyjson_get_str :: "json option \<Rightarrow> string option" where
  "yyjson_get_str v = (case v of Some (JStr s) \<Rightarrow> Some (s @ [NUL]) | _ \<Rightarrow> None)"

definition yyjson_get_len :: "json option \<Rightarrow> nat" where
  "yyjson_get_len v = (case v of Some (JStr s) \<Rightarrow> length s | _ \<Rightarrow> 0)"

text \<open>The 64-bit payload cut to an \<open>int\<close>.\<close>

definition yyjson_get_int :: "json option \<Rightarrow> int" where
  "yyjson_get_int v =
     (case v of
        Some (JUint w) \<Rightarrow> sint (ucast w :: u32)
      | Some (JSint w) \<Rightarrow> sint (ucast w :: u32)
      | _ \<Rightarrow> 0)"

definition yyjson_get_real :: "json option \<Rightarrow> u64" where
  "yyjson_get_real v = (case v of Some (JReal w) \<Rightarrow> w | _ \<Rightarrow> 0)"

definition yyjson_equals_str :: "json option \<Rightarrow> string \<Rightarrow> bool" where
  "yyjson_equals_str v str = (case v of Some (JStr s) \<Rightarrow> s = str | _ \<Rightarrow> False)"

text \<open>The first member with the key.\<close>

definition yyjson_obj_get :: "json option \<Rightarrow> string \<Rightarrow> json option" where
  "yyjson_obj_get obj key = (case obj of Some (JObj kvs) \<Rightarrow> map_of kvs key | _ \<Rightarrow> None)"

text \<open>
  The keys and values an object iterator passes, in order: none for a value that is no object.
\<close>

definition yyjson_obj_items :: "json option \<Rightarrow> (string \<times> json) list" where
  "yyjson_obj_items obj = (case obj of Some (JObj kvs) \<Rightarrow> kvs | _ \<Rightarrow> [])"

definition yyjson_arr_items :: "json option \<Rightarrow> json list" where
  "yyjson_arr_items arr = (case arr of Some (JArr vs) \<Rightarrow> vs | _ \<Rightarrow> [])"

definition yyjson_arr_size :: "json option \<Rightarrow> nat" where
  "yyjson_arr_size arr = length (yyjson_arr_items arr)"

definition yyjson_arr_get_first :: "json option \<Rightarrow> json option" where
  "yyjson_arr_get_first arr = (case yyjson_arr_items arr of [] \<Rightarrow> None | v # _ \<Rightarrow> Some v)"

text \<open>
  A loop over the members that stores the values of some keys keeps the last value of each:
  \<open>last_of\<close> is that value.
\<close>

fun last_of :: "(string \<times> 'a) list \<Rightarrow> string \<Rightarrow> 'a option" where
  "last_of [] k = None"
| "last_of (kv # kvs) k =
     (case last_of kvs k of Some v \<Rightarrow> Some v | None \<Rightarrow> if fst kv = k then Some (snd kv) else None)"

lemma last_of_map_of: "distinct (map fst kvs) \<Longrightarrow> last_of kvs k = map_of kvs k"
proof (induction kvs)
  case (Cons kv kvs)
  have "last_of kvs k = map_of kvs k" using Cons by simp
  moreover have "fst kv = k \<Longrightarrow> map_of kvs k = None"
    using Cons.prems by (auto simp: map_of_eq_None_iff)
  ultimately show ?case by (cases kv) (auto split: option.splits)
qed simp

lemma last_of_mem: "last_of kvs k = Some v \<Longrightarrow> (k, v) \<in> set kvs"
  by (induction kvs) (auto split: option.splits if_splits)

end
