(* ===== verification/Info.thy ===== *)
theory Info
  imports Net Json Sig "HOL-Library.Signed_Division"
begin

text \<open>
  The video information of \<open>src/info.c\<close> (\<open>include/ytdl/info.h\<close>): what is scraped off the watch
  page, the fields read from the JSON in it and the choice of a format (the deciphering of a stream
  URL is in \<open>Cipher\<close>).

  A \<open>const char *\<close> is the block it starts, \<^term>\<open>None\<close> for \<open>NULL\<close>. The JSON parser and the
  JavaScript function that transforms the URL are parameters.
\<close>

section \<open>State\<close>

definition YTDL_INFO_FORMAT_POPULATED :: u64 where "YTDL_INFO_FORMAT_POPULATED = 1"
definition YTDL_INFO_FORMAT_HAS_VID :: u64 where "YTDL_INFO_FORMAT_HAS_VID = 2"
definition YTDL_INFO_FORMAT_HAS_AUD :: u64 where "YTDL_INFO_FORMAT_HAS_AUD = 4"

definition YTLD_INFO_AUDIO_QUALITY_LOW :: int where "YTLD_INFO_AUDIO_QUALITY_LOW = 2"
definition YTLD_INFO_AUDIO_QUALITY_MEDIUM :: int where "YTLD_INFO_AUDIO_QUALITY_MEDIUM = 1"

record ytdl_info_format =
  f_val :: json
  f_flags :: u64
  f_url :: "string option"
  f_itag :: int
  f_url_untouched :: "string option"
  f_cipher :: "string option"
  f_mime_type :: "string option"
  f_bitrate :: int
  f_width :: int
  f_height :: int
  f_content_length :: int
  f_quality :: "string option"
  f_quality_label :: "string option"
  f_fps :: int
  f_average_bitrate :: int
  f_audio_channels :: int
  f_audio_quality :: int
  f_approx_duration_ms :: int

datatype ytdl_info_playability_status =
    YTDL_PLAYABILITY_OK
  | YTDL_PLAYABILITY_UNKNOWN
  | YTDL_PLAYABILITY_LOGIN_REQUIRED
  | YTDL_PLAYABILITY_LIVE_STREAM_OFFLINE
  | YTDL_PLAYABILITY_UNPLAYABLE

text \<open>
  An entry of \<open>formats\<close> is \<^term>\<open>None\<close> while it points to no format: it is \<open>NULL\<close>, or the
  array was allocated and the entry not written yet.
\<close>

record ytdl_info_ctx =
  i_formats :: "ytdl_info_format option list option"
  i_formats_size :: nat
  i_playability_status :: ytdl_info_playability_status
  i_ps_message :: "string option"
  i_title :: "string option"
  i_length_seconds :: "string option"
  i_channel_id :: "string option"
  i_short_description :: "string option"
  i_average_rating :: u64
  i_view_count :: "string option"
  i_author :: "string option"
  i_init_pr_doc :: "json option"
  i_init_d_doc :: "json option"
  i_player_response :: "json option"
  i_response :: "json option"
  i_video_details :: "json option"
  i_ps :: "json option"
  i_sd :: "json option"
  i_sd_formats :: "json option"
  i_sd_adaptive_formats :: "json option"
  i_dash_manifest_url :: "string option"
  i_is_pr_populated :: bool
  i_is_fmt_populated :: bool
  i_is_details_populated :: bool
  i_cver :: string
  i_player_url :: string
  i_sig_actions :: "ytdl_sig_actions option"

definition ytdl_info_ctx_init :: ytdl_info_ctx where
  "ytdl_info_ctx_init =
     \<lparr>i_formats = None, i_formats_size = 0, i_playability_status = YTDL_PLAYABILITY_OK, i_ps_message = None,
      i_title = None, i_length_seconds = None, i_channel_id = None, i_short_description = None,
      i_average_rating = 0, i_view_count = None, i_author = None, i_init_pr_doc = None, i_init_d_doc = None,
      i_player_response = None, i_response = None, i_video_details = None, i_ps = None, i_sd = None,
      i_sd_formats = None, i_sd_adaptive_formats = None, i_dash_manifest_url = None,
      i_is_pr_populated = False, i_is_fmt_populated = False, i_is_details_populated = False,
      i_cver = replicate 20 NUL, i_player_url = replicate 150 NUL, i_sig_actions = None\<rparr>"

text \<open>\<open>ytdl_info_ctx_free\<close>: what is released; it follows every entry of \<open>formats\<close>.\<close>

datatype info_release = FreeDoc json | FreeUrl string | FreeFormat ytdl_info_format | FreeFormats

fun free_formats :: "ytdl_info_format option list \<Rightarrow> nat \<Rightarrow> info_release list option" where
  "free_formats fs 0 = Some []"
| "free_formats fs (Suc n) =
     (case fs of
        Some f # fs \<Rightarrow>
          map_option (\<lambda>r. (case f_url f of None \<Rightarrow> [] | Some u \<Rightarrow> [FreeUrl u]) @ FreeFormat f # r) (free_formats fs n)
      | _ \<Rightarrow> None)"

definition ytdl_info_ctx_free :: "ytdl_info_ctx \<Rightarrow> info_release list option" where
  "ytdl_info_ctx_free info =
     map_option
       (\<lambda>r. (case i_init_pr_doc info of None \<Rightarrow> [] | Some d \<Rightarrow> [FreeDoc d]) @
            (case i_init_d_doc info of None \<Rightarrow> [] | Some d \<Rightarrow> [FreeDoc d]) @ r)
       (case i_formats info of
          None \<Rightarrow> Some []
        | Some fs \<Rightarrow> map_option (\<lambda>r. r @ [FreeFormats]) (free_formats fs (i_formats_size info)))"

section \<open>The watch page\<close>

text \<open>
  The characters from \<open>p\<close> on up to a quote, which becomes a NUL; without one among the first
  \<open>n\<close> no NUL is stored.
\<close>

fun copy_quoted :: "string \<Rightarrow> nat \<Rightarrow> string \<Rightarrow> nat \<Rightarrow> nat \<Rightarrow> string option" where
  "copy_quoted m p dst i 0 = Some dst"
| "copy_quoted m p dst i (Suc n) =
     (case rd m (p + i) of
        None \<Rightarrow> None
      | Some c \<Rightarrow>
          if c = CHR 0x22 then wr dst i NUL
          else (case wr dst i c of None \<Rightarrow> None | Some dst \<Rightarrow> copy_quoted m p dst (Suc i) n))"

definition CVER_MARK :: string where
  "CVER_MARK = ''{'' @ quoted ''key'' @ '':'' @ quoted ''cver'' @ '','' @ quoted ''value'' @ '':'' @ [CHR 0x22]"

definition JS_URL_MARK :: string where "JS_URL_MARK = quoted ''jsUrl'' @ '':'' @ [CHR 0x22]"

definition INITIAL_DATA_MARK :: string where "INITIAL_DATA_MARK = '' ytInitialData = ''"

definition PLAYER_RESPONSE_MARK :: string where "PLAYER_RESPONSE_MARK = '' ytInitialPlayerResponse = ''"

definition SCRIPT_END :: string where "SCRIPT_END = '';</script>''"

text \<open>A pointer that is used without a check for \<open>NULL\<close>.\<close>

definition deref :: "'a option option \<Rightarrow> 'a option" where
  "deref r = (case r of Some (Some x) \<Rightarrow> Some x | _ \<Rightarrow> None)"

definition ytdl_info_extract_watch_html ::
    "(string \<Rightarrow> json option) \<Rightarrow> ytdl_info_ctx \<Rightarrow> string \<Rightarrow> nat \<Rightarrow> (ytdl_info_ctx \<times> int) option" where
  "ytdl_info_extract_watch_html yyjson_read info buf buf_len =
     do { p \<leftarrow> deref (strnstr buf 0 CVER_MARK buf_len);
          cver \<leftarrow> copy_quoted buf (p + 23) (i_cver info) 0 20;
          info \<leftarrow> Some (info\<lparr>i_cver := cver\<rparr>);
          p \<leftarrow> deref (strnstr buf 0 JS_URL_MARK buf_len);
          url \<leftarrow> copy_quoted buf (p + 9) (i_player_url info) 0 150;
          info \<leftarrow> Some (info\<lparr>i_player_url := url\<rparr>);
          s \<leftarrow> strnstr buf 0 INITIAL_DATA_MARK buf_len;
          case s of None \<Rightarrow> Some (info, 1) | Some s \<Rightarrow>
          let s = s + 17 in
          do { e \<leftarrow> strnstr buf s SCRIPT_END (buf_len - s);
          case e of None \<Rightarrow> Some (info, 2) | Some e \<Rightarrow>
          do { txt \<leftarrow> slice buf s (e - s);
          info \<leftarrow> Some (info\<lparr>i_init_d_doc := yyjson_read txt, i_response := yyjson_read txt\<rparr>);
          if i_init_d_doc info = None then Some (info, 3)
          else do { s \<leftarrow> strnstr buf 0 PLAYER_RESPONSE_MARK buf_len;
          case s of None \<Rightarrow> Some (info, 4) | Some s \<Rightarrow>
          let s = s + 27 in
          do { e1 \<leftarrow> strnstr buf s SCRIPT_END (buf_len - s);
          case e1 of None \<Rightarrow> Some (info, 5) | Some e1 \<Rightarrow>
          do { e2 \<leftarrow> strnstr buf s '';var '' (buf_len - s);
          case e2 of None \<Rightarrow> Some (info, 6) | Some e2 \<Rightarrow>
          let e = (if e1 < e2 then e1 else e2) in
          do { txt \<leftarrow> slice buf s (e - s);
          info \<leftarrow> Some (info\<lparr>i_init_pr_doc := yyjson_read txt, i_player_response := yyjson_read txt\<rparr>);
          Some (info, if i_init_pr_doc info = None then -1 else 0) }}}}}}}"

section \<open>Reading the player response\<close>

fun pr_keys :: "ytdl_info_ctx \<Rightarrow> (string \<times> json) list \<Rightarrow> ytdl_info_ctx" where
  "pr_keys info [] = info"
| "pr_keys info ((key, val) # kvs) =
     pr_keys
       (if key = ''playabilityStatus'' then info\<lparr>i_ps := Some val\<rparr>
        else if key = ''streamingData'' then info\<lparr>i_sd := Some val\<rparr>
        else if key = ''videoDetails'' then info\<lparr>i_video_details := Some val\<rparr>
        else info) kvs"

definition ytdl__populate_pr_dat :: "ytdl_info_ctx \<Rightarrow> ytdl_info_ctx" where
  "ytdl__populate_pr_dat info =
     (if i_is_pr_populated info then info
      else (pr_keys info (yyjson_obj_items (i_player_response info)))\<lparr>i_is_pr_populated := True\<rparr>)"

definition status_of :: "json option \<Rightarrow> ytdl_info_playability_status" where
  "status_of stat =
     (if yyjson_equals_str stat ''OK'' then YTDL_PLAYABILITY_OK
      else if yyjson_equals_str stat ''LOGIN_REQUIRED'' then YTDL_PLAYABILITY_LOGIN_REQUIRED
      else if yyjson_equals_str stat ''UNPLAYABLE'' then YTDL_PLAYABILITY_UNPLAYABLE
      else YTDL_PLAYABILITY_UNKNOWN)"

text \<open>The status is cached unless it is 0, which is \<open>YTDL_PLAYABILITY_OK\<close>.\<close>

definition ytdl_info_get_playability_status :: "ytdl_info_ctx \<Rightarrow> ytdl_info_ctx \<times> ytdl_info_playability_status" where
  "ytdl_info_get_playability_status info =
     (if i_playability_status info \<noteq> YTDL_PLAYABILITY_OK then (info, i_playability_status info)
      else if i_player_response info = None then (info, YTDL_PLAYABILITY_UNKNOWN)
      else
        let info = ytdl__populate_pr_dat info in
        if i_ps info = None then (info, YTDL_PLAYABILITY_UNKNOWN)
        else
          let stat = yyjson_obj_get (i_ps info) ''status'';
              st = (if stat = None then YTDL_PLAYABILITY_UNKNOWN else status_of stat)
          in (info\<lparr>i_playability_status := st\<rparr>, st))"

definition ytdl_info_get_playability_status_message :: "ytdl_info_ctx \<Rightarrow> ytdl_info_ctx \<times> string option" where
  "ytdl_info_get_playability_status_message info =
     (if i_ps_message info \<noteq> None then (info, i_ps_message info)
      else if i_player_response info = None then (info, None)
      else
        let info = ytdl__populate_pr_dat info in
        if i_ps info = None then (info, None)
        else
          let messages = yyjson_obj_get (i_ps info) ''messages'' in
          if messages = None then (info, yyjson_get_str (yyjson_obj_get (i_ps info) ''reason''))
          else if yyjson_arr_size messages = 0 then (info, None)
          else (info, yyjson_get_str (yyjson_arr_get_first messages)))"

fun sd_keys :: "ytdl_info_ctx \<Rightarrow> (string \<times> json) list \<Rightarrow> ytdl_info_ctx" where
  "sd_keys info [] = info"
| "sd_keys info ((key, val) # kvs) =
     sd_keys
       (if key = ''formats'' then info\<lparr>i_sd_formats := Some val\<rparr>
        else if key = ''adaptiveFormats'' then info\<lparr>i_sd_adaptive_formats := Some val\<rparr>
        else if key = ''dashManifestUrl'' then info\<lparr>i_dash_manifest_url := yyjson_get_str (Some val)\<rparr>
        else info) kvs"

definition new_format :: "json \<Rightarrow> ytdl_info_format" where
  "new_format val =
     \<lparr>f_val = val, f_flags = 0, f_url = None, f_itag = 0, f_url_untouched = None, f_cipher = None,
      f_mime_type = None, f_bitrate = 0, f_width = 0, f_height = 0, f_content_length = 0, f_quality = None,
      f_quality_label = None, f_fps = 0, f_average_bitrate = 0, f_audio_channels = 0, f_audio_quality = 0,
      f_approx_duration_ms = 0\<rparr>"

text \<open>
  The loops that allocate the formats: \<open>calloc_ok n\<close> tells whether the \<open>n\<close>-th allocation
  succeeds. The flag is False when one failed, which ends both loops.
\<close>

fun alloc_formats :: "(nat \<Rightarrow> bool) \<Rightarrow> ytdl_info_format option list \<Rightarrow> nat \<Rightarrow> json list \<Rightarrow>
    ytdl_info_format option list \<times> bool" where
  "alloc_formats calloc_ok fs idx [] = (fs, True)"
| "alloc_formats calloc_ok fs idx (v # vs) =
     (if calloc_ok idx then alloc_formats calloc_ok (fs[idx := Some (new_format v)]) (Suc idx) vs
      else (fs[idx := None], False))"

definition ytdl_info_extract_formats :: "bool \<Rightarrow> (nat \<Rightarrow> bool) \<Rightarrow> ytdl_info_ctx \<Rightarrow> ytdl_info_ctx \<times> int" where
  "ytdl_info_extract_formats array_ok calloc_ok info =
     (if i_player_response info = None then (info, -1)
      else
        let info = ytdl__populate_pr_dat info in
        if i_sd info = None then (info, -1)
        else
          let info = (if i_sd_formats info = None \<or> i_sd_adaptive_formats info = None
                      then sd_keys info (yyjson_obj_items (i_sd info)) else info) in
          if i_sd_formats info = None \<or> i_sd_adaptive_formats info = None then (info, -1)
          else
            let adaptive_offset = yyjson_arr_size (i_sd_formats info);
                n = adaptive_offset + yyjson_arr_size (i_sd_adaptive_formats info);
                info = info\<lparr>i_formats_size := n\<rparr>
            in if n = 0 then (info, -1)
               else if \<not> array_ok then (info\<lparr>i_formats := None\<rparr>, 1)
               else
                 let (fs, ok) = alloc_formats calloc_ok (replicate n None) 0 (yyjson_arr_items (i_sd_formats info)) in
                 if \<not> ok then (info\<lparr>i_formats := Some fs\<rparr>, 1)
                 else
                   let (fs, ok) = alloc_formats calloc_ok fs adaptive_offset (yyjson_arr_items (i_sd_adaptive_formats info))
                   in (info\<lparr>i_formats := Some fs\<rparr>, if ok then 0 else 1))"

definition ytdl_info_set_sig_actions :: "ytdl_info_ctx \<Rightarrow> ytdl_sig_actions \<Rightarrow> ytdl_info_ctx" where
  "ytdl_info_set_sig_actions info sig_actions = info\<lparr>i_sig_actions := Some sig_actions\<rparr>"

fun details_keys :: "ytdl_info_ctx \<Rightarrow> (string \<times> json) list \<Rightarrow> ytdl_info_ctx" where
  "details_keys info [] = info"
| "details_keys info ((key, val) # kvs) =
     details_keys
       (if key = ''title'' then info\<lparr>i_title := yyjson_get_str (Some val)\<rparr>
        else if key = ''lengthSeconds'' then info\<lparr>i_length_seconds := yyjson_get_str (Some val)\<rparr>
        else if key = ''channelId'' then info\<lparr>i_channel_id := yyjson_get_str (Some val)\<rparr>
        else if key = ''shortDescription'' then info\<lparr>i_short_description := yyjson_get_str (Some val)\<rparr>
        else if key = ''viewCount'' then info\<lparr>i_view_count := yyjson_get_str (Some val)\<rparr>
        else if key = ''author'' then info\<lparr>i_author := yyjson_get_str (Some val)\<rparr>
        else if key = ''averageRating'' then info\<lparr>i_average_rating := yyjson_get_real (Some val)\<rparr>
        else info) kvs"

definition ytdl_info_extract_video_details :: "ytdl_info_ctx \<Rightarrow> ytdl_info_ctx" where
  "ytdl_info_extract_video_details info =
     (if i_is_details_populated info then info
      else (details_keys info (yyjson_obj_items (i_video_details info)))\<lparr>i_is_details_populated := True\<rparr>)"

section \<open>Formats\<close>

text \<open>
  \<open>atoll\<close>: blanks, a sign, digits. A number that does not fit is undefined behaviour, and so
  is a null pointer.
\<close>

definition isspace :: "char \<Rightarrow> bool" where
  "isspace c \<longleftrightarrow> uchar c = 32 \<or> 9 \<le> uchar c \<and> uchar c \<le> 13"

definition isdigit :: "char \<Rightarrow> bool" where
  "isdigit c \<longleftrightarrow> 48 \<le> uchar c \<and> uchar c \<le> 57"

definition digits_val :: "string \<Rightarrow> nat" where
  "digits_val s = foldl (\<lambda>a c. a * 10 + (uchar c - 48)) 0 (takeWhile isdigit s)"

definition int64 :: "int \<Rightarrow> int option" where
  "int64 v = (if - (2 ^ 63) \<le> v \<and> v < 2 ^ 63 then Some v else None)"

definition atoll :: "string option \<Rightarrow> int option" where
  "atoll p =
     do { m \<leftarrow> p;
          l \<leftarrow> strlen m;
          let s = dropWhile isspace (take l m) in
          int64 (case s of
              [] \<Rightarrow> 0
            | c # t \<Rightarrow>
                if c = CHR ''-'' then - int (digits_val t)
                else if c = CHR ''+'' then int (digits_val t)
                else int (digits_val s)) }"

definition audio_quality_of :: "json \<Rightarrow> int option" where
  "audio_quality_of val =
     do { m \<leftarrow> yyjson_get_str (Some val);
          c \<leftarrow> (if yyjson_get_len (Some val) = 0 then None else rd m (yyjson_get_len (Some val) - 1));
          Some (if c = CHR ''W'' then YTLD_INFO_AUDIO_QUALITY_LOW else YTLD_INFO_AUDIO_QUALITY_MEDIUM) }"

text \<open>
  The chain of comparisons with the key, in order, each with what it stores.
\<close>

definition format_setters :: "(string \<times> (ytdl_info_format \<Rightarrow> json \<Rightarrow> ytdl_info_format option)) list" where
  "format_setters =
     [(''itag'', \<lambda>f v. Some (f\<lparr>f_itag := yyjson_get_int (Some v)\<rparr>)),
      (''url'', \<lambda>f v. Some (f\<lparr>f_url_untouched := yyjson_get_str (Some v)\<rparr>)),
      (''mimeType'', \<lambda>f v. Some (f\<lparr>f_mime_type := yyjson_get_str (Some v)\<rparr>)),
      (''signatureCipher'', \<lambda>f v. Some (f\<lparr>f_cipher := yyjson_get_str (Some v)\<rparr>)),
      (''cipher'', \<lambda>f v. Some (f\<lparr>f_cipher := yyjson_get_str (Some v)\<rparr>)),
      (''bitrate'', \<lambda>f v. Some (f\<lparr>f_bitrate := yyjson_get_int (Some v)\<rparr>)),
      (''width'', \<lambda>f v.
         Some (f\<lparr>f_flags := f_flags f OR YTDL_INFO_FORMAT_HAS_VID, f_width := yyjson_get_int (Some v)\<rparr>)),
      (''height'', \<lambda>f v. Some (f\<lparr>f_height := yyjson_get_int (Some v)\<rparr>)),
      (''contentLength'', \<lambda>f v. map_option (\<lambda>n. f\<lparr>f_content_length := n\<rparr>) (atoll (yyjson_get_str (Some v)))),
      (''quality'', \<lambda>f v. Some (f\<lparr>f_quality := yyjson_get_str (Some v)\<rparr>)),
      (''qualityLabel'', \<lambda>f v. Some (f\<lparr>f_quality_label := yyjson_get_str (Some v)\<rparr>)),
      (''fps'', \<lambda>f v. Some (f\<lparr>f_fps := yyjson_get_int (Some v)\<rparr>)),
      (''averageBitrate'', \<lambda>f v. Some (f\<lparr>f_average_bitrate := yyjson_get_int (Some v)\<rparr>)),
      (''audioChannels'', \<lambda>f v.
         Some (f\<lparr>f_flags := f_flags f OR YTDL_INFO_FORMAT_HAS_AUD, f_audio_channels := yyjson_get_int (Some v)\<rparr>)),
      (''approxDurationMs'', \<lambda>f v.
         map_option (\<lambda>n. f\<lparr>f_approx_duration_ms := n\<rparr>) (atoll (yyjson_get_str (Some v)))),
      (''audioQuality'', \<lambda>f v. map_option (\<lambda>q. f\<lparr>f_audio_quality := q\<rparr>) (audio_quality_of v))]"

definition format_key :: "ytdl_info_format \<Rightarrow> string \<Rightarrow> json \<Rightarrow> ytdl_info_format option" where
  "format_key f key val = (case map_of format_setters key of None \<Rightarrow> Some f | Some g \<Rightarrow> g f val)"

fun format_keys :: "ytdl_info_format \<Rightarrow> (string \<times> json) list \<Rightarrow> ytdl_info_format option" where
  "format_keys f [] = Some f"
| "format_keys f (kv # kvs) =
     (case format_key f (fst kv) (snd kv) of None \<Rightarrow> None | Some f \<Rightarrow> format_keys f kvs)"

definition ytdl_info_format_populate :: "ytdl_info_format \<Rightarrow> ytdl_info_format option" where
  "ytdl_info_format_populate f =
     (if f_flags f AND YTDL_INFO_FORMAT_POPULATED \<noteq> 0 then Some f
      else map_option (\<lambda>f. f\<lparr>f_flags := f_flags f OR YTDL_INFO_FORMAT_POPULATED\<rparr>)
             (format_keys f (yyjson_obj_items (Some (f_val f)))))"

text \<open>The loop follows \<open>formats_size\<close> entries.\<close>

fun populate_formats :: "ytdl_info_format option list \<Rightarrow> nat \<Rightarrow> ytdl_info_format option list option" where
  "populate_formats fs 0 = Some fs"
| "populate_formats fs (Suc n) =
     (case fs of
        Some f # fs \<Rightarrow>
          do { f \<leftarrow> ytdl_info_format_populate f; fs \<leftarrow> populate_formats fs n; Some (Some f # fs) }
      | _ \<Rightarrow> None)"

definition ytdl__info_format_populate_all :: "ytdl_info_ctx \<Rightarrow> ytdl_info_ctx option" where
  "ytdl__info_format_populate_all info =
     (if i_is_fmt_populated info then Some info
      else if i_formats_size info = 0 then Some (info\<lparr>i_is_fmt_populated := True\<rparr>)
      else (case i_formats info of
          None \<Rightarrow> None
        | Some fs \<Rightarrow>
            map_option (\<lambda>fs. info\<lparr>i_formats := Some fs, i_is_fmt_populated := True\<rparr>)
              (populate_formats fs (i_formats_size info))))"

definition has_flag :: "ytdl_info_format \<Rightarrow> u64 \<Rightarrow> bool" where
  "has_flag f b \<longleftrightarrow> f_flags f AND b \<noteq> 0"

text \<open>\<open>a + b\<close> of \<open>int\<close>s, undefined when it overflows.\<close>

definition int_add :: "int \<Rightarrow> int \<Rightarrow> int option" where "int_add a b = int32 (a + b)"
definition int_sub :: "int \<Rightarrow> int \<Rightarrow> int option" where "int_sub a b = int32 (a - b)"
definition int_mul :: "int \<Rightarrow> int \<Rightarrow> int option" where "int_mul a b = int32 (a * b)"

definition int_div :: "int \<Rightarrow> int \<Rightarrow> int option" where
  "int_div a b = (if b = 0 then None else int32 (a sdiv b))"

text \<open>The first score of both functions: \<open>!!((flags & AUD) & (flags & VID))\<close>, or 2, or 0.\<close>

definition flag_score :: "ytdl_info_format \<Rightarrow> int" where
  "flag_score f =
     (let a_score = (if (f_flags f AND YTDL_INFO_FORMAT_HAS_AUD) AND (f_flags f AND YTDL_INFO_FORMAT_HAS_VID) \<noteq> 0
                     then 1 else 0)
      in if a_score \<noteq> 0 then a_score else if has_flag f YTDL_INFO_FORMAT_HAS_VID then 2 else 0)"

definition quality_score :: "ytdl_info_format \<Rightarrow> int option" where
  "quality_score f = do { x \<leftarrow> int_add (f_width f) (f_fps f); int_add x (f_bitrate f) }"

definition video_score :: "ytdl_info_format \<Rightarrow> int option" where
  "video_score f = do { q \<leftarrow> quality_score f; int_add (flag_score f) q }"

definition audio_score :: "ytdl_info_format \<Rightarrow> int option" where
  "audio_score f =
     (if flag_score f \<noteq> 0 then do { q \<leftarrow> quality_score f; int_add (flag_score f) q }
      else do { x \<leftarrow> int_mul (f_bitrate f) (f_audio_channels f);
                x \<leftarrow> int_div x (f_audio_quality f);
                int_sub (flag_score f) x })"

fun best_video_loop :: "ytdl_info_format option list \<Rightarrow> nat \<Rightarrow> nat \<Rightarrow> nat \<Rightarrow> int \<Rightarrow> nat option" where
  "best_video_loop fs i 0 idx score = Some idx"
| "best_video_loop fs i (Suc n) idx score =
     (case rd fs i of
        Some (Some f) \<Rightarrow>
          if \<not> has_flag f YTDL_INFO_FORMAT_HAS_VID then best_video_loop fs (Suc i) n idx score
          else (case video_score f of
              None \<Rightarrow> None
            | Some a \<Rightarrow> if a > score then best_video_loop fs (Suc i) n i a else best_video_loop fs (Suc i) n idx score)
      | _ \<Rightarrow> None)"

definition ytdl_info_get_best_video_format :: "ytdl_info_ctx \<Rightarrow> (ytdl_info_ctx \<times> nat) option" where
  "ytdl_info_get_best_video_format info =
     do { info \<leftarrow> ytdl__info_format_populate_all info;
          idx \<leftarrow> best_video_loop (case i_formats info of None \<Rightarrow> [] | Some fs \<Rightarrow> fs) 0 (i_formats_size info) 0 0;
          Some (info, idx) }"

fun best_audio_loop :: "ytdl_info_format option list \<Rightarrow> nat \<Rightarrow> nat \<Rightarrow> nat \<Rightarrow> int \<Rightarrow> nat option" where
  "best_audio_loop fs i 0 idx score = Some idx"
| "best_audio_loop fs i (Suc n) idx score =
     (case rd fs i of
        Some (Some f) \<Rightarrow>
          if \<not> has_flag f YTDL_INFO_FORMAT_HAS_AUD then best_audio_loop fs (Suc i) n idx score
          else (case audio_score f of
              None \<Rightarrow> None
            | Some a \<Rightarrow> if a < score then best_audio_loop fs (Suc i) n i a else best_audio_loop fs (Suc i) n idx score)
      | _ \<Rightarrow> None)"

definition ytdl_info_get_best_audio_format :: "ytdl_info_ctx \<Rightarrow> (ytdl_info_ctx \<times> nat) option" where
  "ytdl_info_get_best_audio_format info =
     do { info \<leftarrow> ytdl__info_format_populate_all info;
          idx \<leftarrow> best_audio_loop (case i_formats info of None \<Rightarrow> [] | Some fs \<Rightarrow> fs) 0 (i_formats_size info) 0 0;
          Some (info, idx) }"

section \<open>Facts about the watch page\<close>

text \<open>The same search on the text: what follows a mark, and what precedes one.\<close>

definition after :: "string \<Rightarrow> string \<Rightarrow> string option" where
  "after mark s = map_option (\<lambda>i. drop (i + length mark) s) (find_sub mark s)"

definition upto :: "string \<Rightarrow> string \<Rightarrow> string option" where
  "upto mark s = map_option (\<lambda>i. take i s) (find_sub mark s)"

definition unquoted :: "string \<Rightarrow> string" where
  "unquoted s = takeWhile (\<lambda>c. c \<noteq> CHR 0x22) s"

lemma strnstr_plain:
  assumes "NUL \<notin> set buf" "NUL \<notin> set mark" "mark \<noteq> []" "s \<le> length buf"
  shows "strnstr buf s mark (length buf - s) = Some (map_option ((+) s) (find_sub mark (drop s buf)))"
proof -
  have "cstr (drop s buf) = drop s buf" using assms(1) by (intro cstr_id) (auto dest: in_set_dropD)
  thus ?thesis using strnstr_spec[OF assms(2,3), of s "length buf - s" buf] assms(4) by simp
qed

lemma strnstr_plain0:
  assumes "NUL \<notin> set buf" "NUL \<notin> set mark" "mark \<noteq> []"
  shows "strnstr buf 0 mark (length buf) = Some (find_sub mark buf)"
  using strnstr_plain[OF assms, of 0] by (cases "find_sub mark buf") auto

lemma copy_quoted_spec:
  assumes "CHR 0x22 \<in> set (take n (drop (p + i) m))" "i + n \<le> length dst"
  shows "\<exists>dst'. copy_quoted m p dst i n = Some dst' \<and> length dst' = length dst \<and>
    take i dst' = take i dst \<and> drop i dst' = unquoted (drop (p + i) m) @ NUL # drop (Suc (length (unquoted (drop (p + i) m)))) (drop i dst)"
  using assms
proof (induction m p dst i n rule: copy_quoted.induct)
  case (2 m p dst i n)
  have pi: "p + i < length m" using 2(2) by (cases "p + i < length m") auto
  have i: "i < length dst" using 2(3) by simp
  have d: "drop (p + i) m = m ! (p + i) # drop (p + Suc i) m" using pi by (simp add: Cons_nth_drop_Suc)
  show ?case
  proof (cases "m ! (p + i) = CHR 0x22")
    case True
    hence "unquoted (drop (p + i) m) = []" unfolding d by (simp add: unquoted_def)
    thus ?thesis using True pi i by (auto simp: drop_update_cancel Cons_nth_drop_Suc[symmetric] upd_conv_take_nth_drop)
  next
    case False
    have u: "unquoted (drop (p + i) m) = m ! (p + i) # unquoted (drop (p + Suc i) m)"
      using False unfolding d by (simp add: unquoted_def)
    let ?dst = "dst[i := m ! (p + i)]"
    have q: "CHR 0x22 \<in> set (take n (drop (p + Suc i) m))" using 2(2) False unfolding d by simp
    obtain dst' where dst': "copy_quoted m p ?dst (Suc i) n = Some dst'" "length dst' = length dst"
      "take (Suc i) dst' = take (Suc i) ?dst"
      "drop (Suc i) dst' = unquoted (drop (p + Suc i) m) @ NUL # drop (Suc (length (unquoted (drop (p + Suc i) m)))) (drop (Suc i) ?dst)"
      using 2(1)[of "m ! (p + i)" ?dst] pi i False q 2(3) by auto
    have i': "i < length dst'" using dst'(2) i by simp
    have "dst' ! i = take (Suc i) dst' ! i" by simp
    also have "\<dots> = m ! (p + i)" unfolding dst'(3) using i by simp
    finally have e: "drop i dst' = m ! (p + i) # drop (Suc i) dst'" using i' by (metis Cons_nth_drop_Suc)
    have "take i dst' = take i (take (Suc i) dst')" by simp
    also have "\<dots> = take i dst" unfolding dst'(3) by simp
    finally show ?thesis using pi i False dst'(1,2) e u dst'(4) by (simp add: add.commute)
  qed
qed simp

lemma unquoted_no_NUL: "NUL \<notin> set s \<Longrightarrow> NUL \<notin> set (unquoted s)"
  by (auto simp: unquoted_def dest: set_takeWhileD)

lemma copy_quoted_text:
  assumes "CHR 0x22 \<in> set (take n (drop p m))" "n \<le> length dst" "NUL \<notin> set m"
  shows "\<exists>dst'. copy_quoted m p dst 0 n = Some dst' \<and> length dst' = length dst \<and> cstr dst' = unquoted (drop p m)"
proof -
  have "NUL \<notin> set (unquoted (drop p m))" using assms(3) by (intro unquoted_no_NUL) (auto dest: in_set_dropD)
  thus ?thesis using copy_quoted_spec[of n p 0 m dst] assms(1,2) by (auto simp: cstr_append)
qed

definition page_status :: "(string \<Rightarrow> json option) \<Rightarrow> string \<Rightarrow> int" where
  "page_status yyjson_read page =
     (case after INITIAL_DATA_MARK page of
        None \<Rightarrow> 1
      | Some d \<Rightarrow>
          (case upto SCRIPT_END d of
             None \<Rightarrow> 2
           | Some t \<Rightarrow>
               if yyjson_read t = None then 3
               else (case after PLAYER_RESPONSE_MARK page of
                   None \<Rightarrow> 4
                 | Some d \<Rightarrow>
                     (case (upto SCRIPT_END d, upto '';var '' d) of
                        (None, _) \<Rightarrow> 5
                      | (Some _, None) \<Rightarrow> 6
                      | (Some t1, Some t2) \<Rightarrow>
                          if yyjson_read (if length t1 < length t2 then t1 else t2) = None then -1 else 0))))"

lemma marks_plain:
  "NUL \<notin> set CVER_MARK" "NUL \<notin> set JS_URL_MARK" "NUL \<notin> set INITIAL_DATA_MARK"
  "NUL \<notin> set PLAYER_RESPONSE_MARK" "NUL \<notin> set SCRIPT_END" "CVER_MARK \<noteq> []" "JS_URL_MARK \<noteq> []"
  "INITIAL_DATA_MARK \<noteq> []" "PLAYER_RESPONSE_MARK \<noteq> []" "SCRIPT_END \<noteq> []"
  "length CVER_MARK = 23" "length JS_URL_MARK = 9" "length INITIAL_DATA_MARK = 17" "length PLAYER_RESPONSE_MARK = 27"
  by (simp_all add: CVER_MARK_def JS_URL_MARK_def INITIAL_DATA_MARK_def PLAYER_RESPONSE_MARK_def SCRIPT_END_def quoted_def)

lemma find_sub_bound: "find_sub f s = Some i \<Longrightarrow> i + length f \<le> length s"
  using find_sub_Some by blast

text \<open>The text between a position and the mark that is found from there.\<close>

lemma strnstr_upto:
  assumes "NUL \<notin> set buf" "NUL \<notin> set mark" "mark \<noteq> []" "s \<le> length buf"
  shows "strnstr buf s mark (length buf - s) = Some None \<and> upto mark (drop s buf) = None \<or>
    (\<exists>e. strnstr buf s mark (length buf - s) = Some (Some e) \<and> s \<le> e \<and>
       slice buf s (e - s) = upto mark (drop s buf) \<and> upto mark (drop s buf) \<noteq> None \<and>
       length (the (upto mark (drop s buf))) = e - s)"
proof (cases "find_sub mark (drop s buf)")
  case None
  thus ?thesis using strnstr_plain[OF assms] by (simp add: upto_def)
next
  case (Some i)
  have "i + length mark \<le> length (drop s buf)" by (rule find_sub_bound[OF Some])
  thus ?thesis using strnstr_plain[OF assms] Some assms(4)
    by (intro disjI2 exI[of _ "s + i"]) (simp add: upto_def slice_def)
qed

lemma extract_watch_html_spec:
  fixes info :: ytdl_info_ctx
  assumes nul: "NUL \<notin> set page"
    and cver: "after CVER_MARK page = Some c" "CHR 0x22 \<in> set (take 20 c)" "length (i_cver info) = 20"
    and url: "after JS_URL_MARK page = Some u" "CHR 0x22 \<in> set (take 150 u)" "length (i_player_url info) = 150"
  shows "\<exists>info'. ytdl_info_extract_watch_html yyjson_read info page (length page) = Some (info', page_status yyjson_read page) \<and>
    cstr (i_cver info') = unquoted c \<and> cstr (i_player_url info') = unquoted u \<and>
    (page_status yyjson_read page = 0 \<longrightarrow>
       (\<exists>d t. after INITIAL_DATA_MARK page = Some d \<and> upto SCRIPT_END d = Some t \<and> i_response info' = yyjson_read t) \<and>
       (\<exists>d t1 t2. after PLAYER_RESPONSE_MARK page = Some d \<and> upto SCRIPT_END d = Some t1 \<and> upto '';var '' d = Some t2 \<and>
          i_player_response info' = yyjson_read (if length t1 < length t2 then t1 else t2) \<and> i_player_response info' \<noteq> None))"
proof -
  note mp = marks_plain
  note find = strnstr_plain0[OF nul]
  obtain p where p: "find_sub CVER_MARK page = Some p" "c = drop (p + 23) page"
    using cver(1) mp(11) by (auto simp: after_def)
  obtain q where q: "find_sub JS_URL_MARK page = Some q" "u = drop (q + 9) page"
    using url(1) mp(12) by (auto simp: after_def)
  obtain cv where cv: "copy_quoted page (p + 23) (i_cver info) 0 20 = Some cv" "cstr cv = unquoted c"
    using copy_quoted_text[of 20 "p + 23" page "i_cver info"] cver(2,3) p(2) nul by auto
  obtain pu where pu: "copy_quoted page (q + 9) (i_player_url info) 0 150 = Some pu" "cstr pu = unquoted u"
    using copy_quoted_text[of 150 "q + 9" page "i_player_url info"] url(2,3) q(2) nul by auto
  let ?info1 = "info\<lparr>i_cver := cv, i_player_url := pu\<rparr>"
  have head: "ytdl_info_extract_watch_html yyjson_read info page (length page) =
      (case find_sub INITIAL_DATA_MARK page of None \<Rightarrow> Some (?info1, 1) | Some s \<Rightarrow>
        let s = s + 17 in
        do { e \<leftarrow> strnstr page s SCRIPT_END (length page - s);
        case e of None \<Rightarrow> Some (?info1, 2) | Some e \<Rightarrow>
        do { txt \<leftarrow> slice page s (e - s);
        let info = ?info1\<lparr>i_init_d_doc := yyjson_read txt, i_response := yyjson_read txt\<rparr> in
        if i_init_d_doc info = None then Some (info, 3)
        else (case find_sub PLAYER_RESPONSE_MARK page of None \<Rightarrow> Some (info, 4) | Some s \<Rightarrow>
          let s = s + 27 in
          do { e1 \<leftarrow> strnstr page s SCRIPT_END (length page - s);
          case e1 of None \<Rightarrow> Some (info, 5) | Some e1 \<Rightarrow>
          do { e2 \<leftarrow> strnstr page s '';var '' (length page - s);
          case e2 of None \<Rightarrow> Some (info, 6) | Some e2 \<Rightarrow>
          let e = (if e1 < e2 then e1 else e2) in
          do { txt \<leftarrow> slice page s (e - s);
          let info = info\<lparr>i_init_pr_doc := yyjson_read txt, i_player_response := yyjson_read txt\<rparr> in
          Some (info, if i_init_pr_doc info = None then -1 else 0) }}})}})"
    unfolding ytdl_info_extract_watch_html_def
    by (simp add: find[OF mp(1,6)] find[OF mp(2,7)] find[OF mp(3,8)] find[OF mp(4,9)] deref_def p(1) q(1) cv(1) pu(1) Let_def
        cong: option.case_cong if_cong)
  have var: "NUL \<notin> set '';var ''" "'';var '' \<noteq> []" by simp_all
  show ?thesis
  proof (cases "find_sub INITIAL_DATA_MARK page")
    case None
    thus ?thesis using head cv pu by (simp add: page_status_def after_def)
  next
    case (Some s)
    have s: "s + 17 \<le> length page" using find_sub_bound[OF Some] mp(13) by simp
    have aft: "after INITIAL_DATA_MARK page = Some (drop (s + 17) page)" using Some mp(13) by (simp add: after_def)
    note up = strnstr_upto[OF nul mp(5,10) s]
    show ?thesis
    proof (cases "upto SCRIPT_END (drop (s + 17) page)")
      case None
      thus ?thesis using head Some up cv pu aft by (auto simp: page_status_def Let_def)
    next
      case (Some t)
      then obtain e where e: "strnstr page (s + 17) SCRIPT_END (length page - (s + 17)) = Some (Some e)"
        "slice page (s + 17) (e - (s + 17)) = Some t" using up by auto
      note S = \<open>find_sub INITIAL_DATA_MARK page = Some s\<close>
      let ?info2 = "?info1\<lparr>i_init_d_doc := yyjson_read t, i_response := yyjson_read t\<rparr>"
      show ?thesis
      proof (cases "yyjson_read t = None \<or> find_sub PLAYER_RESPONSE_MARK page = None")
        case True
        thus ?thesis using head S e cv pu aft Some by (auto simp: page_status_def Let_def after_def)
      next
        case False
        then obtain r d where r: "find_sub PLAYER_RESPONSE_MARK page = Some r" "yyjson_read t = Some d" by auto
        have r27: "r + 27 \<le> length page" using find_sub_bound[OF r(1)] mp(14) by simp
        have aftr: "after PLAYER_RESPONSE_MARK page = Some (drop (r + 27) page)" using r(1) mp(14) by (simp add: after_def)
        note up1 = strnstr_upto[OF nul mp(5,10) r27] and up2 = strnstr_upto[OF nul var r27]
        show ?thesis
        proof (cases "upto SCRIPT_END (drop (r + 27) page) = None \<or> upto '';var '' (drop (r + 27) page) = None")
          case True
          thus ?thesis using head S e cv pu aft Some r aftr up1 up2 by (auto simp: page_status_def Let_def)
        next
          case False
          then obtain t1 t2 where t: "upto SCRIPT_END (drop (r + 27) page) = Some t1" "upto '';var '' (drop (r + 27) page) = Some t2"
            by auto
          obtain e1 where e1: "strnstr page (r + 27) SCRIPT_END (length page - (r + 27)) = Some (Some e1)"
            "slice page (r + 27) (e1 - (r + 27)) = Some t1" "length t1 = e1 - (r + 27)" "r + 27 \<le> e1" using up1 t(1) by auto
          obtain e2 where e2: "strnstr page (r + 27) '';var '' (length page - (r + 27)) = Some (Some e2)"
            "slice page (r + 27) (e2 - (r + 27)) = Some t2" "length t2 = e2 - (r + 27)" "r + 27 \<le> e2" using up2 t(2) by auto
          have lt: "e1 < e2 \<longleftrightarrow> length t1 < length t2" using e1(3,4) e2(3,4) by auto
          have sl: "slice page (r + 27) ((if e1 < e2 then e1 else e2) - (r + 27)) = Some (if length t1 < length t2 then t1 else t2)"
            using e1(2) e2(2) lt by simp
          let ?t = "if length t1 < length t2 then t1 else t2"
          let ?info3 = "?info2\<lparr>i_init_pr_doc := yyjson_read ?t, i_player_response := yyjson_read ?t\<rparr>"
          have st: "page_status yyjson_read page = (if yyjson_read ?t = None then -1 else 0)"
            using aft Some r(2) aftr t by (simp add: page_status_def)
          have "ytdl_info_extract_watch_html yyjson_read info page (length page) =
              Some (?info3, page_status yyjson_read page)"
            unfolding head S option.case Let_def e(1) bind.bind_lunit e(2) r(1) e1(1) e2(1) sl st
            by (simp add: r(2))
          thus ?thesis using aft Some aftr t cv pu st by (intro exI[of _ ?info3]) (auto split: if_splits)
        qed
      qed
    qed
  qed
qed

section \<open>Facts about the formats\<close>

text \<open>The loops over the members keep the last value of each key.\<close>

lemma pr_keys_last:
  "pr_keys info kvs = info
     \<lparr>i_ps := (case last_of kvs ''playabilityStatus'' of None \<Rightarrow> i_ps info | v \<Rightarrow> v),
      i_sd := (case last_of kvs ''streamingData'' of None \<Rightarrow> i_sd info | v \<Rightarrow> v),
      i_video_details := (case last_of kvs ''videoDetails'' of None \<Rightarrow> i_video_details info | v \<Rightarrow> v)\<rparr>"
  by (induction info kvs rule: pr_keys.induct) (auto split: option.splits)

lemma sd_keys_last:
  "sd_keys info kvs = info
     \<lparr>i_sd_formats := (case last_of kvs ''formats'' of None \<Rightarrow> i_sd_formats info | v \<Rightarrow> v),
      i_sd_adaptive_formats := (case last_of kvs ''adaptiveFormats'' of None \<Rightarrow> i_sd_adaptive_formats info | v \<Rightarrow> v),
      i_dash_manifest_url :=
        (case last_of kvs ''dashManifestUrl'' of None \<Rightarrow> i_dash_manifest_url info | v \<Rightarrow> yyjson_get_str v)\<rparr>"
  by (induction info kvs rule: sd_keys.induct) (auto split: option.splits)

lemma details_keys_last:
  "details_keys info kvs = info
     \<lparr>i_title := (case last_of kvs ''title'' of None \<Rightarrow> i_title info | v \<Rightarrow> yyjson_get_str v),
      i_length_seconds := (case last_of kvs ''lengthSeconds'' of None \<Rightarrow> i_length_seconds info | v \<Rightarrow> yyjson_get_str v),
      i_channel_id := (case last_of kvs ''channelId'' of None \<Rightarrow> i_channel_id info | v \<Rightarrow> yyjson_get_str v),
      i_short_description :=
        (case last_of kvs ''shortDescription'' of None \<Rightarrow> i_short_description info | v \<Rightarrow> yyjson_get_str v),
      i_view_count := (case last_of kvs ''viewCount'' of None \<Rightarrow> i_view_count info | v \<Rightarrow> yyjson_get_str v),
      i_author := (case last_of kvs ''author'' of None \<Rightarrow> i_author info | v \<Rightarrow> yyjson_get_str v),
      i_average_rating := (case last_of kvs ''averageRating'' of None \<Rightarrow> i_average_rating info | v \<Rightarrow> yyjson_get_real v)\<rparr>"
  by (induction info kvs rule: details_keys.induct) (auto split: option.splits)

lemma alloc_formats_length: "length (fst (alloc_formats ok fs i vs)) = length fs"
  by (induction ok fs i vs rule: alloc_formats.induct) auto

lemma alloc_formats_all:
  assumes "\<forall>j. i \<le> j \<and> j < i + length vs \<longrightarrow> ok j" "i + length vs \<le> length fs"
  shows "alloc_formats ok fs i vs = (take i fs @ map (Some \<circ> new_format) vs @ drop (i + length vs) fs, True)"
  using assms
proof (induction ok fs i vs rule: alloc_formats.induct)
  case (2 ok fs i v vs)
  have "take (Suc i) (fs[i := Some (new_format v)]) = take i fs @ [Some (new_format v)]"
    using 2(3) by (simp add: take_Suc_conv_app_nth)
  thus ?case using 2 by auto
qed simp

lemma alloc_formats_fail:
  "\<not> snd (alloc_formats ok fs i vs) \<Longrightarrow> i + length vs \<le> length fs \<Longrightarrow>
     \<exists>j < length fs. fst (alloc_formats ok fs i vs) ! j = None"
proof (induction ok fs i vs rule: alloc_formats.induct)
  case (2 ok fs i v vs)
  show ?case
  proof (cases "ok i")
    case False
    thus ?thesis using 2(3) by (intro exI[of _ i]) simp
  qed (use 2 in auto)
qed simp

text \<open>The two loops one after the other.\<close>

definition fill_formats :: "(nat \<Rightarrow> bool) \<Rightarrow> json list \<Rightarrow> json list \<Rightarrow> ytdl_info_format option list \<times> bool" where
  "fill_formats ok f a =
     (let (fs, ok1) = alloc_formats ok (replicate (length f + length a) None) 0 f
      in if \<not> ok1 then (fs, False) else alloc_formats ok fs (length f) a)"

lemma fill_formats_all: "\<forall>j < length f + length a. ok j \<Longrightarrow> fill_formats ok f a = (map (Some \<circ> new_format) (f @ a), True)"
  by (simp add: fill_formats_def alloc_formats_all)

lemma fill_formats_length: "length (fst (fill_formats ok f a)) = length f + length a"
proof (cases "alloc_formats ok (replicate (length f + length a) None) 0 f")
  case (Pair fs ok1)
  have "length fs = length f + length a"
    using alloc_formats_length[of ok "replicate (length f + length a) None" 0 f] Pair by simp
  thus ?thesis using Pair by (simp add: fill_formats_def alloc_formats_length)
qed

lemma fill_formats_fail:
  assumes "\<not> snd (fill_formats ok f a)"
  shows "\<exists>j < length f + length a. fst (fill_formats ok f a) ! j = None"
proof (cases "alloc_formats ok (replicate (length f + length a) None) 0 f")
  case (Pair fs ok1)
  have len: "length fs = length f + length a"
    using alloc_formats_length[of ok "replicate (length f + length a) None" 0 f] Pair by simp
  show ?thesis
  proof (cases ok1)
    case False
    thus ?thesis using alloc_formats_fail[of ok "replicate (length f + length a) None" 0 f] Pair len
      by (simp add: fill_formats_def)
  next
    case True
    thus ?thesis using alloc_formats_fail[of ok fs "length f" a] assms Pair len by (simp add: fill_formats_def)
  qed
qed

lemma free_formats_None: "j < n \<Longrightarrow> n \<le> length fs \<Longrightarrow> fs ! j = None \<Longrightarrow> free_formats fs n = None"
proof (induction n arbitrary: fs j)
  case (Suc n)
  show ?case
  proof (cases fs)
    case (Cons x xs)
    show ?thesis
    proof (cases x)
      case (Some f)
      then obtain j' where "j = Suc j'" using Suc.prems(3) Cons by (cases j) auto
      thus ?thesis using Suc.IH[of j' xs] Suc.prems Cons Some by simp
    qed (simp add: Cons)
  qed simp
qed simp

text \<open>A context that was filled from a page and not read yet.\<close>

definition fresh_page :: "ytdl_info_ctx \<Rightarrow> json \<Rightarrow> bool" where
  "fresh_page info pr \<longleftrightarrow> i_player_response info = Some pr \<and> \<not> i_is_pr_populated info \<and> i_ps info = None \<and>
     i_sd info = None \<and> i_sd_formats info = None \<and> i_sd_adaptive_formats info = None \<and> i_formats info = None \<and>
     i_playability_status info = YTDL_PLAYABILITY_OK"

definition member :: "json option \<Rightarrow> string \<Rightarrow> json option" where
  "member v key = last_of (yyjson_obj_items v) key"

lemma populate_pr_fresh:
  assumes "fresh_page info pr"
  shows "i_ps (ytdl__populate_pr_dat info) = member (Some pr) ''playabilityStatus''"
    "i_sd (ytdl__populate_pr_dat info) = member (Some pr) ''streamingData''"
    "i_sd_formats (ytdl__populate_pr_dat info) = None" "i_sd_adaptive_formats (ytdl__populate_pr_dat info) = None"
    "i_playability_status (ytdl__populate_pr_dat info) = YTDL_PLAYABILITY_OK"
    "i_player_response (ytdl__populate_pr_dat info) = Some pr"
  using assms by (auto simp: ytdl__populate_pr_dat_def fresh_page_def pr_keys_last member_def split: option.splits)

definition format_values :: "json \<Rightarrow> json list option" where
  "format_values pr =
     (case member (Some pr) ''streamingData'' of
        None \<Rightarrow> None
      | Some sd \<Rightarrow>
          (case (member (Some sd) ''formats'', member (Some sd) ''adaptiveFormats'') of
             (Some f, Some a) \<Rightarrow> Some (yyjson_arr_items (Some f) @ yyjson_arr_items (Some a))
           | _ \<Rightarrow> None))"

lemma extract_formats_cases:
  assumes "fresh_page info pr"
  shows "if format_values pr = None \<or> format_values pr = Some [] then snd (ytdl_info_extract_formats True ok info) = -1
    else \<exists>f a info1. format_values pr = Some (f @ a) \<and> i_formats_size info1 = length f + length a \<and>
      ytdl_info_extract_formats True ok info =
        (info1\<lparr>i_formats := Some (fst (fill_formats ok f a))\<rparr>, if snd (fill_formats ok f a) then 0 else 1)"
proof -
  let ?i = "ytdl__populate_pr_dat info"
  note pp = populate_pr_fresh[OF assms]
  have pr: "i_player_response info = Some pr" using assms by (simp add: fresh_page_def)
  show ?thesis
  proof (cases "member (Some pr) ''streamingData''")
    case None
    thus ?thesis using pr pp by (simp add: ytdl_info_extract_formats_def Let_def format_values_def)
  next
    case (Some sd)
    let ?k = "sd_keys ?i (yyjson_obj_items (Some sd))"
    have k: "i_sd_formats ?k = member (Some sd) ''formats''" "i_sd_adaptive_formats ?k = member (Some sd) ''adaptiveFormats''"
      using pp by (auto simp: sd_keys_last member_def split: option.splits)
    show ?thesis
    proof (cases "member (Some sd) ''formats'' = None \<or> member (Some sd) ''adaptiveFormats'' = None")
      case True
      thus ?thesis using pr pp Some k by (auto simp: ytdl_info_extract_formats_def Let_def format_values_def split: option.splits)
    next
      case False
      then obtain fa aa where fa: "member (Some sd) ''formats'' = Some fa" "member (Some sd) ''adaptiveFormats'' = Some aa" by auto
      have fv: "format_values pr = Some (yyjson_arr_items (Some fa) @ yyjson_arr_items (Some aa))"
        using Some fa by (simp add: format_values_def)
      show ?thesis
      proof (cases "yyjson_arr_items (Some fa) @ yyjson_arr_items (Some aa) = []")
        case True
        thus ?thesis using pr pp Some k fa fv
          by (simp add: ytdl_info_extract_formats_def Let_def yyjson_arr_size_def)
      next
        case False
        let ?f = "yyjson_arr_items (Some fa)" and ?a = "yyjson_arr_items (Some aa)"
        let ?info1 = "?k\<lparr>i_formats_size := length ?f + length ?a\<rparr>"
        have "ytdl_info_extract_formats True ok info =
          (?info1\<lparr>i_formats := Some (fst (fill_formats ok ?f ?a))\<rparr>, if snd (fill_formats ok ?f ?a) then 0 else 1)"
          using pr pp Some k fa False
          by (simp add: ytdl_info_extract_formats_def Let_def yyjson_arr_size_def fill_formats_def split: prod.splits)
        moreover have "i_formats_size ?info1 = length ?f + length ?a" by simp
        moreover have nc: "\<not> (format_values pr = None \<or> format_values pr = Some [])" using fv False by simp
        ultimately show ?thesis unfolding if_not_P[OF nc] using fv by blast
      qed
    qed
  qed
qed

text \<open>Reading a format: the last value of each key, and the flags that two keys set.\<close>

definition key_get :: "(string \<times> json) list \<Rightarrow> string \<Rightarrow> (json option \<Rightarrow> 'a) \<Rightarrow> 'a \<Rightarrow> 'a" where
  "key_get kvs key get d = (case last_of kvs key of None \<Rightarrow> d | Some v \<Rightarrow> get (Some v))"

lemma key_get_Nil [simp]: "key_get [] key get d = d"
  by (simp add: key_get_def)

lemma key_get_Cons: "key_get (kv # kvs) key get d = key_get kvs key get (if fst kv = key then get (Some (snd kv)) else d)"
  by (simp add: key_get_def split: option.splits)

lemma format_key_cases:
  assumes "format_key f key val = Some f'"
  obtains "f' = f" "map_of format_setters key = None"
  | g where "(key, g) \<in> set format_setters" "g f val = Some f'"
  using assms by (auto simp: format_key_def split: option.splits dest: map_of_SomeD)

text \<open>A field changes only with its own key; a key that is in the table is not passed over.\<close>

lemma no_setter: "map_of format_setters key = None \<Longrightarrow> key \<notin> {''itag'', ''bitrate'', ''width'', ''contentLength'', ''fps'', ''audioChannels''}"
  by (auto simp: format_setters_def)

lemma format_key_width:
  "format_key f key val = Some f' \<Longrightarrow> f_width f' = (if key = ''width'' then yyjson_get_int (Some val) else f_width f)"
  by (erule format_key_cases, fastforce dest: no_setter, auto simp: format_setters_def)

lemma format_key_fps:
  "format_key f key val = Some f' \<Longrightarrow> f_fps f' = (if key = ''fps'' then yyjson_get_int (Some val) else f_fps f)"
  by (erule format_key_cases, fastforce dest: no_setter, auto simp: format_setters_def)

lemma format_key_bitrate:
  "format_key f key val = Some f' \<Longrightarrow> f_bitrate f' = (if key = ''bitrate'' then yyjson_get_int (Some val) else f_bitrate f)"
  by (erule format_key_cases, fastforce dest: no_setter, auto simp: format_setters_def)

lemma format_key_itag:
  "format_key f key val = Some f' \<Longrightarrow> f_itag f' = (if key = ''itag'' then yyjson_get_int (Some val) else f_itag f)"
  by (erule format_key_cases, fastforce dest: no_setter, auto simp: format_setters_def)

lemma format_key_audio_channels:
  "format_key f key val = Some f' \<Longrightarrow> f_audio_channels f' = (if key = ''audioChannels'' then yyjson_get_int (Some val) else f_audio_channels f)"
  by (erule format_key_cases, fastforce dest: no_setter, auto simp: format_setters_def)

lemma format_key_content_length:
  "format_key f key val = Some f' \<Longrightarrow> f_content_length f' = (if key = ''contentLength'' then the (atoll (yyjson_get_str (Some val))) else f_content_length f)"
  by (erule format_key_cases, fastforce dest: no_setter, auto simp: format_setters_def)

lemma format_key_flags:
  "format_key f key val = Some f' \<Longrightarrow> f_flags f' = f_flags f OR (if key = ''width'' then YTDL_INFO_FORMAT_HAS_VID else 0)
     OR (if key = ''audioChannels'' then YTDL_INFO_FORMAT_HAS_AUD else 0)"
  by (erule format_key_cases, drule no_setter, simp,
      simp add: format_setters_def split del: if_split, elim disjE conjE; simp; fastforce)

lemma format_keys_field:
  assumes "\<And>f k v f'. format_key f k v = Some f' \<Longrightarrow> g f' = (if k = key then h (Some v) else g f)"
    and "format_keys f kvs = Some f'"
  shows "g f' = key_get kvs key h (g f)"
  using assms(2)
proof (induction f kvs rule: format_keys.induct)
  case (2 f kv kvs)
  then obtain f1 where f1: "format_key f (fst kv) (snd kv) = Some f1" "format_keys f1 kvs = Some f'"
    by (auto split: option.splits)
  show ?case using "2.IH"[OF f1] by (simp add: key_get_Cons assms(1)[OF f1(1)])
qed simp

lemma format_keys_flags:
  assumes "format_keys f kvs = Some f'"
  shows "f_flags f' = f_flags f OR (if last_of kvs ''width'' = None then 0 else YTDL_INFO_FORMAT_HAS_VID)
       OR (if last_of kvs ''audioChannels'' = None then 0 else YTDL_INFO_FORMAT_HAS_AUD)"
  using assms
proof (induction f kvs rule: format_keys.induct)
  case (2 f kv kvs)
  then obtain f1 where f1: "format_key f (fst kv) (snd kv) = Some f1" "format_keys f1 kvs = Some f'"
    by (auto split: option.splits)
  have "fst kv = ''width'' \<Longrightarrow> fst kv \<noteq> ''audioChannels''" by simp
  thus ?case
    unfolding "2.IH"[OF f1] format_key_flags[OF f1(1)]
    by (cases "last_of kvs ''width''"; cases "last_of kvs ''audioChannels''")
      (simp_all add: or.assoc or.commute[of YTDL_INFO_FORMAT_HAS_AUD] or.left_commute[of YTDL_INFO_FORMAT_HAS_AUD])
qed simp

lemma format_keys_fields:
  assumes "format_keys f kvs = Some f'"
  shows "f_width f' = key_get kvs ''width'' yyjson_get_int (f_width f)"
    "f_fps f' = key_get kvs ''fps'' yyjson_get_int (f_fps f)"
    "f_bitrate f' = key_get kvs ''bitrate'' yyjson_get_int (f_bitrate f)"
    "f_itag f' = key_get kvs ''itag'' yyjson_get_int (f_itag f)"
    "f_audio_channels f' = key_get kvs ''audioChannels'' yyjson_get_int (f_audio_channels f)"
    "f_content_length f' = key_get kvs ''contentLength'' (\<lambda>v. the (atoll (yyjson_get_str v))) (f_content_length f)"
  by (rule format_keys_field[where g = f_width, OF _ assms], erule format_key_width,
      rule format_keys_field[where g = f_fps, OF _ assms], erule format_key_fps,
      rule format_keys_field[where g = f_bitrate, OF _ assms], erule format_key_bitrate,
      rule format_keys_field[where g = f_itag, OF _ assms], erule format_key_itag,
      rule format_keys_field[where g = f_audio_channels, OF _ assms], erule format_key_audio_channels,
      rule format_keys_field[where g = f_content_length, OF _ assms], erule format_key_content_length)

lemma populate_new_format:
  assumes "ytdl_info_format_populate (new_format val) = Some f"
  defines "kvs \<equiv> yyjson_obj_items (Some val)"
  shows "f_width f = key_get kvs ''width'' yyjson_get_int 0" "f_fps f = key_get kvs ''fps'' yyjson_get_int 0"
    "f_bitrate f = key_get kvs ''bitrate'' yyjson_get_int 0" "f_itag f = key_get kvs ''itag'' yyjson_get_int 0"
    "f_audio_channels f = key_get kvs ''audioChannels'' yyjson_get_int 0"
    "f_content_length f = key_get kvs ''contentLength'' (\<lambda>v. the (atoll (yyjson_get_str v))) 0"
    "has_flag f YTDL_INFO_FORMAT_HAS_VID \<longleftrightarrow> last_of kvs ''width'' \<noteq> None"
    "has_flag f YTDL_INFO_FORMAT_HAS_AUD \<longleftrightarrow> last_of kvs ''audioChannels'' \<noteq> None"
    "has_flag f YTDL_INFO_FORMAT_POPULATED"
proof -
  obtain g where g: "format_keys (new_format val) kvs = Some g" "f = g\<lparr>f_flags := f_flags g OR YTDL_INFO_FORMAT_POPULATED\<rparr>"
    using assms(1) by (auto simp: ytdl_info_format_populate_def new_format_def kvs_def)
  note F = format_keys_fields[OF g(1)]
  show "f_width f = key_get kvs ''width'' yyjson_get_int 0" "f_fps f = key_get kvs ''fps'' yyjson_get_int 0"
    "f_bitrate f = key_get kvs ''bitrate'' yyjson_get_int 0" "f_itag f = key_get kvs ''itag'' yyjson_get_int 0"
    "f_audio_channels f = key_get kvs ''audioChannels'' yyjson_get_int 0"
    "f_content_length f = key_get kvs ''contentLength'' (\<lambda>v. the (atoll (yyjson_get_str v))) 0"
    using F g(2) by (simp_all add: new_format_def)
  have fl: "f_flags f = (if last_of kvs ''width'' = None then 0 else 2) OR (if last_of kvs ''audioChannels'' = None then 0 else 4) OR 1"
    using format_keys_flags[OF g(1)] g(2) by (simp add: new_format_def YTDL_INFO_FORMAT_HAS_VID_def YTDL_INFO_FORMAT_HAS_AUD_def YTDL_INFO_FORMAT_POPULATED_def)
  show "has_flag f YTDL_INFO_FORMAT_HAS_VID \<longleftrightarrow> last_of kvs ''width'' \<noteq> None"
    "has_flag f YTDL_INFO_FORMAT_HAS_AUD \<longleftrightarrow> last_of kvs ''audioChannels'' \<noteq> None"
    "has_flag f YTDL_INFO_FORMAT_POPULATED"
    unfolding has_flag_def fl
    by (simp_all add: YTDL_INFO_FORMAT_HAS_VID_def YTDL_INFO_FORMAT_HAS_AUD_def YTDL_INFO_FORMAT_POPULATED_def)
qed

text \<open>Both choices are a search for the first greatest score above 0.\<close>

fun argmax_from :: "(nat \<Rightarrow> int) \<Rightarrow> nat \<Rightarrow> nat \<Rightarrow> nat \<Rightarrow> int \<Rightarrow> nat" where
  "argmax_from sc i 0 idx s = idx"
| "argmax_from sc i (Suc n) idx s =
     (if sc i > s then argmax_from sc (Suc i) n i (sc i) else argmax_from sc (Suc i) n idx s)"

lemma argmax_from_spec:
  fixes n :: nat
  assumes "\<forall>j < i. sc j \<le> s" "0 < s \<longrightarrow> idx < i \<and> sc idx = s \<and> (\<forall>j < idx. sc j < s)" "0 \<le> s" "s = 0 \<longrightarrow> idx = 0"
  defines "r \<equiv> argmax_from sc i n idx s"
  shows "(\<forall>j < i + n. sc j \<le> 0) \<and> r = 0 \<or>
    r < i + n \<and> 0 < sc r \<and> (\<forall>j < i + n. sc j \<le> sc r) \<and> (\<forall>j < r. sc j < sc r)"
  using assms(1-4) unfolding r_def
proof (induction sc i n idx s rule: argmax_from.induct)
  case (1 sc i idx s)
  thus ?case by (cases "s = 0") auto
next
  case (2 sc i n idx s)
  show ?case
  proof (cases "sc i > s")
    case True
    have a: "\<forall>j < Suc i. sc j \<le> sc i" using 2(3) True by (auto simp: less_Suc_eq)
    have b: "0 < sc i \<longrightarrow> i < Suc i \<and> sc i = sc i \<and> (\<forall>j < i. sc j < sc i)" using 2(3) True by auto
    from 2(1)[OF True a b] True 2(5) show ?thesis by simp
  next
    case False
    have a: "\<forall>j < Suc i. sc j \<le> s" using 2(3) False by (auto simp: less_Suc_eq)
    have b: "0 < s \<longrightarrow> idx < Suc i \<and> sc idx = s \<and> (\<forall>j < idx. sc j < s)" using 2(4) by auto
    from 2(2)[OF False a b 2(5,6)] False show ?thesis by simp
  qed
qed

definition first_best :: "(nat \<Rightarrow> int) \<Rightarrow> nat \<Rightarrow> nat \<Rightarrow> bool" where
  "first_best sc n r \<longleftrightarrow> (\<forall>j < n. sc j \<le> 0) \<and> r = 0 \<or>
     r < n \<and> 0 < sc r \<and> (\<forall>j < n. sc j \<le> sc r) \<and> (\<forall>j < r. sc j < sc r)"

lemma argmax_first_best: "first_best sc n (argmax_from sc 0 n 0 0)"
  using argmax_from_spec[of 0 sc 0 0 n] by (simp add: first_best_def)

text \<open>The scores, 0 for what the loops pass over.\<close>

definition video_points :: "ytdl_info_format option list \<Rightarrow> nat \<Rightarrow> int" where
  "video_points fs i = (case fs ! i of None \<Rightarrow> 0 | Some f \<Rightarrow>
     if has_flag f YTDL_INFO_FORMAT_HAS_VID then the (video_score f) else 0)"

definition audio_points :: "ytdl_info_format option list \<Rightarrow> nat \<Rightarrow> int" where
  "audio_points fs i = (case fs ! i of None \<Rightarrow> 0 | Some f \<Rightarrow>
     if has_flag f YTDL_INFO_FORMAT_HAS_AUD then - the (audio_score f) else 0)"

lemma best_video_loop_argmax:
  assumes "i + n \<le> length fs" "0 \<le> s"
    "\<forall>j < length fs. \<exists>f. fs ! j = Some f \<and> (has_flag f YTDL_INFO_FORMAT_HAS_VID \<longrightarrow> video_score f \<noteq> None)"
  shows "best_video_loop fs i n idx s = Some (argmax_from (video_points fs) i n idx s)"
  using assms
proof (induction n arbitrary: i idx s)
  case (Suc n)
  have "i < length fs" using Suc.prems(1) by simp
  then obtain f where f: "fs ! i = Some f" "has_flag f YTDL_INFO_FORMAT_HAS_VID \<longrightarrow> video_score f \<noteq> None"
    using Suc.prems(3) by blast
  hence "video_points fs i = (if has_flag f YTDL_INFO_FORMAT_HAS_VID then the (video_score f) else 0)"
    by (simp add: video_points_def)
  thus ?case using Suc f by (auto simp del: argmax_from.simps(1))
qed simp

lemma best_audio_loop_argmax:
  assumes "i + n \<le> length fs" "s \<le> 0"
    "\<forall>j < length fs. \<exists>f. fs ! j = Some f \<and> (has_flag f YTDL_INFO_FORMAT_HAS_AUD \<longrightarrow> audio_score f \<noteq> None)"
  shows "best_audio_loop fs i n idx s = Some (argmax_from (audio_points fs) i n idx (- s))"
  using assms
proof (induction n arbitrary: i idx s)
  case (Suc n)
  have "i < length fs" using Suc.prems(1) by simp
  then obtain f where f: "fs ! i = Some f" "has_flag f YTDL_INFO_FORMAT_HAS_AUD \<longrightarrow> audio_score f \<noteq> None"
    using Suc.prems(3) by blast
  have IH: "best_audio_loop fs (Suc i) n idx' s' = Some (argmax_from (audio_points fs) (Suc i) n idx' (- s'))"
    if "s' \<le> 0" for idx' s' using Suc.IH[of "Suc i" s' idx'] Suc.prems that by simp
  have "audio_points fs i = (if has_flag f YTDL_INFO_FORMAT_HAS_AUD then - the (audio_score f) else 0)"
    using f(1) by (simp add: audio_points_def)
  thus ?case using Suc.prems f IH by auto
qed simp

text \<open>The test for both flags is never true: the bits are different.\<close>

lemma flag_score_eq: "flag_score f = (if has_flag f YTDL_INFO_FORMAT_HAS_VID then 2 else 0)"
proof -
  have "(f_flags f AND YTDL_INFO_FORMAT_HAS_AUD) AND (f_flags f AND YTDL_INFO_FORMAT_HAS_VID) =
      (f_flags f AND f_flags f) AND (YTDL_INFO_FORMAT_HAS_AUD AND YTDL_INFO_FORMAT_HAS_VID)"
    by (simp only: ac_simps and.idem and.left_idem)
  also have "\<dots> = 0" by (simp add: YTDL_INFO_FORMAT_HAS_AUD_def YTDL_INFO_FORMAT_HAS_VID_def)
  finally show ?thesis by (simp add: flag_score_def)
qed

lemma format_key_audio_quality:
  "format_key f key val = Some f' \<Longrightarrow> f_audio_quality f' = (if key = ''audioQuality'' then the (audio_quality_of val) else f_audio_quality f)"
  by (erule format_key_cases, drule map_of_eq_None_iff[THEN iffD1], fastforce simp: format_setters_def, auto simp: format_setters_def)

lemma populate_audio_quality:
  assumes "ytdl_info_format_populate (new_format val) = Some f"
  shows "f_audio_quality f = key_get (yyjson_obj_items (Some val)) ''audioQuality'' (\<lambda>v. the (audio_quality_of (the v))) 0"
proof -
  obtain g where g: "format_keys (new_format val) (yyjson_obj_items (Some val)) = Some g" "f_audio_quality f = f_audio_quality g"
    using assms by (auto simp: ytdl_info_format_populate_def new_format_def)
  have "f_audio_quality g = key_get (yyjson_obj_items (Some val)) ''audioQuality'' (\<lambda>v. the (audio_quality_of (the v))) (f_audio_quality (new_format val))"
    by (rule format_keys_field[OF _ g(1)]) (simp add: format_key_audio_quality)
  thus ?thesis using g(2) by (simp add: new_format_def)
qed

text \<open>The scores as the JSON values have them.\<close>

definition int_of_key :: "json \<Rightarrow> string \<Rightarrow> int" where
  "int_of_key v key = key_get (yyjson_obj_items (Some v)) key yyjson_get_int 0"

definition has_key :: "json \<Rightarrow> string \<Rightarrow> bool" where
  "has_key v key \<longleftrightarrow> last_of (yyjson_obj_items (Some v)) key \<noteq> None"

definition json_video_score :: "json \<Rightarrow> int" where
  "json_video_score v =
     (if has_key v ''width'' then 2 + (int_of_key v ''width'' + int_of_key v ''fps'' + int_of_key v ''bitrate'') else 0)"

definition json_audio_quality :: "json \<Rightarrow> int" where
  "json_audio_quality v = key_get (yyjson_obj_items (Some v)) ''audioQuality'' (\<lambda>v. the (audio_quality_of (the v))) 0"

definition json_audio_score :: "json \<Rightarrow> int" where
  "json_audio_score v =
     (if \<not> has_key v ''audioChannels'' then 0
      else if has_key v ''width'' then - (2 + (int_of_key v ''width'' + int_of_key v ''fps'' + int_of_key v ''bitrate''))
      else int_of_key v ''bitrate'' * int_of_key v ''audioChannels'' sdiv json_audio_quality v)"

lemma int32_Some: "int32 v = Some w \<longleftrightarrow> w = v \<and> - (2 ^ 31) \<le> v \<and> v < 2 ^ 31"
  by (auto simp: int32_def)

lemma int_ops_Some:
  "int_add a b = Some c \<Longrightarrow> c = a + b" "int_sub a b = Some c \<Longrightarrow> c = a - b" "int_mul a b = Some c \<Longrightarrow> c = a * b"
  "int_div a b = Some c \<Longrightarrow> c = a sdiv b"
  by (auto simp: int_add_def int_sub_def int_mul_def int_div_def int32_Some split: if_splits)

lemma quality_score_value: "quality_score f = Some s \<Longrightarrow> s = f_width f + f_fps f + f_bitrate f"
  by (auto simp: quality_score_def bind_eq_Some_conv dest!: int_ops_Some)

lemma video_score_value: "video_score f = Some s \<Longrightarrow> s = flag_score f + (f_width f + f_fps f + f_bitrate f)"
  by (auto simp: video_score_def bind_eq_Some_conv dest!: int_ops_Some quality_score_value)

lemma audio_score_value:
  "audio_score f = Some s \<Longrightarrow> s = (if flag_score f \<noteq> 0 then flag_score f + (f_width f + f_fps f + f_bitrate f)
     else - (f_bitrate f * f_audio_channels f sdiv f_audio_quality f))"
  by (auto simp: audio_score_def bind_eq_Some_conv dest!: int_ops_Some quality_score_value split: if_splits)

lemma video_score_json:
  assumes "ytdl_info_format_populate (new_format v) = Some f" "has_flag f YTDL_INFO_FORMAT_HAS_VID \<longrightarrow> video_score f \<noteq> None"
  shows "(if has_flag f YTDL_INFO_FORMAT_HAS_VID then the (video_score f) else 0) = json_video_score v"
  using assms(2) populate_new_format(1,2,3,7)[OF assms(1)] video_score_value[of f]
  by (cases "video_score f") (simp_all add: json_video_score_def int_of_key_def has_key_def flag_score_eq)

lemma audio_score_json:
  assumes "ytdl_info_format_populate (new_format v) = Some f" "has_flag f YTDL_INFO_FORMAT_HAS_AUD \<longrightarrow> audio_score f \<noteq> None"
  shows "(if has_flag f YTDL_INFO_FORMAT_HAS_AUD then - the (audio_score f) else 0) = json_audio_score v"
  using assms(2) populate_new_format(1,2,3,5,7,8)[OF assms(1)] populate_audio_quality[OF assms(1)] audio_score_value[of f]
  by (cases "audio_score f") (simp_all add: json_audio_score_def json_audio_quality_def int_of_key_def has_key_def flag_score_eq)

lemma populate_formats_map:
  assumes "\<forall>v \<in> set vs. ytdl_info_format_populate (new_format v) \<noteq> None"
  shows "populate_formats (map (Some \<circ> new_format) vs) (length vs) =
    Some (map (\<lambda>v. ytdl_info_format_populate (new_format v)) vs)"
  using assms by (induction vs) auto

text \<open>A context whose formats were just extracted.\<close>

definition new_formats :: "ytdl_info_ctx \<Rightarrow> json list \<Rightarrow> bool" where
  "new_formats info vs \<longleftrightarrow> i_formats info = Some (map (Some \<circ> new_format) vs) \<and> i_formats_size info = length vs \<and>
     vs \<noteq> [] \<and> \<not> i_is_fmt_populated info"

lemma populate_all_new:
  assumes "new_formats info vs" "\<forall>v \<in> set vs. ytdl_info_format_populate (new_format v) \<noteq> None"
  shows "ytdl__info_format_populate_all info =
    Some (info\<lparr>i_formats := Some (map (\<lambda>v. ytdl_info_format_populate (new_format v)) vs), i_is_fmt_populated := True\<rparr>)"
  using assms by (simp add: new_formats_def ytdl__info_format_populate_all_def populate_formats_map)

lemma argmax_from_cong: "(\<And>j. i \<le> j \<Longrightarrow> j < i + n \<Longrightarrow> sc j = sc' j) \<Longrightarrow> argmax_from sc i n idx s = argmax_from sc' i n idx s"
  by (induction n arbitrary: i idx s) auto

lemma best_video_index:
  assumes "new_formats info vs"
    "\<forall>v \<in> set vs. \<exists>f. ytdl_info_format_populate (new_format v) = Some f \<and>
       (has_flag f YTDL_INFO_FORMAT_HAS_VID \<longrightarrow> video_score f \<noteq> None)"
  shows "\<exists>info' r. ytdl_info_get_best_video_format info = Some (info', r) \<and> first_best (\<lambda>i. json_video_score (vs ! i)) (length vs) r"
proof -
  let ?fs = "map (\<lambda>v. ytdl_info_format_populate (new_format v)) vs"
  have nth: "\<exists>f. ?fs ! j = Some f \<and> (has_flag f YTDL_INFO_FORMAT_HAS_VID \<longrightarrow> video_score f \<noteq> None) \<and>
      video_points ?fs j = json_video_score (vs ! j)" if j: "j < length vs" for j
  proof -
    obtain f where f: "ytdl_info_format_populate (new_format (vs ! j)) = Some f" "has_flag f YTDL_INFO_FORMAT_HAS_VID \<longrightarrow> video_score f \<noteq> None"
      using assms(2) nth_mem[OF j] by blast
    thus ?thesis using video_score_json[OF f] j by (simp add: video_points_def)
  qed
  have "best_video_loop ?fs 0 (length vs) 0 0 = Some (argmax_from (video_points ?fs) 0 (length vs) 0 0)"
    using nth by (intro best_video_loop_argmax) (simp_all, blast)
  also have "argmax_from (video_points ?fs) 0 (length vs) 0 0 = argmax_from (\<lambda>i. json_video_score (vs ! i)) 0 (length vs) 0 0"
    by (rule argmax_from_cong) (use nth in auto)
  finally have loop: "best_video_loop ?fs 0 (length vs) 0 0 = Some (argmax_from (\<lambda>i. json_video_score (vs ! i)) 0 (length vs) 0 0)" .
  have "ytdl__info_format_populate_all info = Some (info\<lparr>i_formats := Some ?fs, i_is_fmt_populated := True\<rparr>)"
    by (rule populate_all_new[OF assms(1)]) (use assms(2) in auto)
  thus ?thesis using loop assms(1) argmax_first_best[of "\<lambda>i. json_video_score (vs ! i)" "length vs"]
    by (simp add: ytdl_info_get_best_video_format_def new_formats_def)
qed

lemma best_audio_index:
  assumes "new_formats info vs"
    "\<forall>v \<in> set vs. \<exists>f. ytdl_info_format_populate (new_format v) = Some f \<and>
       (has_flag f YTDL_INFO_FORMAT_HAS_AUD \<longrightarrow> audio_score f \<noteq> None)"
  shows "\<exists>info' r. ytdl_info_get_best_audio_format info = Some (info', r) \<and> first_best (\<lambda>i. json_audio_score (vs ! i)) (length vs) r"
proof -
  let ?fs = "map (\<lambda>v. ytdl_info_format_populate (new_format v)) vs"
  have nth: "\<exists>f. ?fs ! j = Some f \<and> (has_flag f YTDL_INFO_FORMAT_HAS_AUD \<longrightarrow> audio_score f \<noteq> None) \<and>
      audio_points ?fs j = json_audio_score (vs ! j)" if j: "j < length vs" for j
  proof -
    obtain f where f: "ytdl_info_format_populate (new_format (vs ! j)) = Some f" "has_flag f YTDL_INFO_FORMAT_HAS_AUD \<longrightarrow> audio_score f \<noteq> None"
      using assms(2) nth_mem[OF j] by blast
    thus ?thesis using audio_score_json[OF f] j by (simp add: audio_points_def)
  qed
  have "best_audio_loop ?fs 0 (length vs) 0 0 = Some (argmax_from (audio_points ?fs) 0 (length vs) 0 (- 0))"
    using nth by (intro best_audio_loop_argmax) (simp_all, blast)
  also have "argmax_from (audio_points ?fs) 0 (length vs) 0 (- 0) = argmax_from (\<lambda>i. json_audio_score (vs ! i)) 0 (length vs) 0 0"
    unfolding minus_zero by (rule argmax_from_cong) (use nth in auto)
  finally have loop: "best_audio_loop ?fs 0 (length vs) 0 0 = Some (argmax_from (\<lambda>i. json_audio_score (vs ! i)) 0 (length vs) 0 0)" .
  have "ytdl__info_format_populate_all info = Some (info\<lparr>i_formats := Some ?fs, i_is_fmt_populated := True\<rparr>)"
    by (rule populate_all_new[OF assms(1)]) (use assms(2) in auto)
  thus ?thesis using loop assms(1) argmax_first_best[of "\<lambda>i. json_audio_score (vs ! i)" "length vs"]
    by (simp add: ytdl_info_get_best_audio_format_def new_formats_def)
qed

lemma free_formats_all: "free_formats (map (Some \<circ> new_format) vs) (length vs) = Some (map (FreeFormat \<circ> new_format) vs)"
  by (induction vs) (auto simp: new_format_def)

lemma extract_formats_keeps:
  "i_is_fmt_populated (fst (ytdl_info_extract_formats a ok info)) = i_is_fmt_populated info"
proof -
  have [simp]: "i_is_fmt_populated (ytdl__populate_pr_dat info) = i_is_fmt_populated info"
    by (simp add: ytdl__populate_pr_dat_def pr_keys_last)
  have [simp]: "i_is_fmt_populated (sd_keys i kvs) = i_is_fmt_populated i" for i kvs
    by (simp add: sd_keys_last)
  show ?thesis by (auto simp: ytdl_info_extract_formats_def Let_def split: prod.splits)
qed

section \<open>Properties\<close>

lemma has_key_score:
  assumes "0 \<le> int_of_key v ''width'' + int_of_key v ''fps'' + int_of_key v ''bitrate''"
  shows "0 < json_video_score v \<longleftrightarrow> has_key v ''width''" "0 < json_audio_score v \<longrightarrow> has_key v ''audioChannels'' \<and> \<not> has_key v ''width''"
  using assms by (auto simp: json_video_score_def json_audio_score_def)

lemma first_best_pos:
  assumes "first_best sc n r" "j < n" "0 < sc j"
  shows "r < n \<and> 0 < sc r \<and> (\<forall>j < n. sc j \<le> sc r) \<and> (\<forall>j < r. sc j < sc r)"
  using assms by (fastforce simp: first_best_def)

text \<open>
  C16. A watch page on which the client version and the player URL are found and closed by a quote
  within the 20 and 150 characters of their arrays is read without leaving the buffer: both are
  stored, terminated; the status is the one that the marks on the page and the JSON parser give,
  and when it is 0 the two documents are the parsed texts between their marks, the player
  response up to whichever of its two end marks comes first.
\<close>

theorem watch_html_reads:
  assumes "NUL \<notin> set page"
    and "after CVER_MARK page = Some c" "CHR 0x22 \<in> set (take 20 c)"
    and "after JS_URL_MARK page = Some u" "CHR 0x22 \<in> set (take 150 u)"
  shows "\<exists>info. ytdl_info_extract_watch_html yyjson_read ytdl_info_ctx_init page (length page) =
      Some (info, page_status yyjson_read page) \<and>
    cstr (i_cver info) = unquoted c \<and> cstr (i_player_url info) = unquoted u \<and>
    (page_status yyjson_read page = 0 \<longrightarrow>
       (\<exists>d t. after INITIAL_DATA_MARK page = Some d \<and> upto SCRIPT_END d = Some t \<and> i_response info = yyjson_read t) \<and>
       (\<exists>d t1 t2. after PLAYER_RESPONSE_MARK page = Some d \<and> upto SCRIPT_END d = Some t1 \<and> upto '';var '' d = Some t2 \<and>
          i_player_response info = yyjson_read (if length t1 < length t2 then t1 else t2) \<and> i_player_response info \<noteq> None))"
  by (rule extract_watch_html_spec) (use assms in \<open>simp_all add: ytdl_info_ctx_init_def\<close>)

definition demo_page :: string where
  "demo_page = CVER_MARK @ ''2.1'' @ [CHR 0x22] @ JS_URL_MARK @ ''/p.js'' @ [CHR 0x22] @ INITIAL_DATA_MARK @ ''{}'' @ SCRIPT_END @
     PLAYER_RESPONSE_MARK @ ''[]'' @ '';var '' @ SCRIPT_END"

lemma watch_html_reads_witness:
  "\<exists>info. ytdl_info_extract_watch_html (\<lambda>t. Some (JStr t)) ytdl_info_ctx_init demo_page (length demo_page) = Some (info, 0) \<and>
     cstr (i_cver info) = ''2.1'' \<and> cstr (i_player_url info) = ''/p.js'' \<and> i_player_response info = Some (JStr ''[]'')"
proof -
  obtain c u where cu: "after CVER_MARK demo_page = Some c" "CHR 0x22 \<in> set (take 20 c)" "unquoted c = ''2.1''"
    "after JS_URL_MARK demo_page = Some u" "CHR 0x22 \<in> set (take 150 u)" "unquoted u = ''/p.js''"
    by (rule that[of "the (after CVER_MARK demo_page)" "the (after JS_URL_MARK demo_page)"]) code_simp+
  have "NUL \<notin> set demo_page" by code_simp
  note R = watch_html_reads[OF this cu(1,2,4,5), of "\<lambda>t. Some (JStr t)"]
  have st: "page_status (\<lambda>t. Some (JStr t)) demo_page = 0" by code_simp
  have pr: "map_option (upto SCRIPT_END) (after PLAYER_RESPONSE_MARK demo_page) = Some (Some ''[];var '')"
    "map_option (upto '';var '') (after PLAYER_RESPONSE_MARK demo_page) = Some (Some ''[]'')" by code_simp+
  show ?thesis using R pr unfolding st cu(3,6) by auto
qed

text \<open>
  C31. From a player response that has formats the extraction lists all of them when every
  allocation succeeds: first the entries of \<open>formats\<close>, then those of \<open>adaptiveFormats\<close>, in their
  order, each unread; the answer is 0 and the context can be released. Without formats the
  answer is -1.
\<close>

theorem extract_formats_list:
  assumes "fresh_page info pr" "\<not> i_is_fmt_populated info"
  shows "case ytdl_info_extract_formats True (\<lambda>_. True) info of (info', r) \<Rightarrow>
    (r = 0 \<longleftrightarrow> format_values pr \<noteq> None \<and> format_values pr \<noteq> Some []) \<and> (r = 0 \<or> r = -1) \<and>
    (r = 0 \<longrightarrow> new_formats info' (the (format_values pr)) \<and> ytdl_info_ctx_free info' \<noteq> None)"
proof (cases "format_values pr = None \<or> format_values pr = Some []")
  case True
  thus ?thesis using extract_formats_cases[OF assms(1), of "\<lambda>_. True"] by (auto split: prod.splits)
next
  case False
  obtain f a info1 where e0: "format_values pr = Some (f @ a)" "i_formats_size info1 = length f + length a"
    "ytdl_info_extract_formats True (\<lambda>_. True) info =
      (info1\<lparr>i_formats := Some (fst (fill_formats (\<lambda>_. True) f a))\<rparr>, if snd (fill_formats (\<lambda>_. True) f a) then 0 else 1)"
    using extract_formats_cases[OF assms(1), of "\<lambda>_. True", unfolded if_not_P[OF False]] by blast
  have fill: "fill_formats (\<lambda>_. True) f a = (map (Some \<circ> new_format) (f @ a), True)" by (rule fill_formats_all) simp
  note e = e0(1,2) e0(3)[unfolded fill fst_conv snd_conv if_True]
  have "i_is_fmt_populated (fst (ytdl_info_extract_formats True (\<lambda>_. True) info)) = i_is_fmt_populated info"
    by (rule extract_formats_keeps)
  hence "\<not> i_is_fmt_populated info1" using e(3) assms(2) by simp
  thus ?thesis using False e free_formats_all[of "f @ a"] by (auto simp: new_formats_def ytdl_info_ctx_free_def)
qed

definition demo_response :: json where
  "demo_response = JObj [(''streamingData'', JObj [(''formats'', JArr [JObj [(''itag'', JUint 18)]]),
     (''adaptiveFormats'', JArr [JObj [(''itag'', JUint 251)]])])]"

lemma extract_formats_list_witness:
  "new_formats (fst (ytdl_info_extract_formats True (\<lambda>_. True) (ytdl_info_ctx_init\<lparr>i_player_response := Some demo_response\<rparr>)))
     [JObj [(''itag'', JUint 18)], JObj [(''itag'', JUint 251)]]"
proof -
  have v: "format_values demo_response = Some [JObj [(''itag'', JUint 18)], JObj [(''itag'', JUint 251)]]" by code_simp
  have "fresh_page (ytdl_info_ctx_init\<lparr>i_player_response := Some demo_response\<rparr>) demo_response"
    by (simp add: fresh_page_def ytdl_info_ctx_init_def)
  from extract_formats_list[OF this] show ?thesis by (auto simp: v ytdl_info_ctx_init_def split: prod.splits)
qed

text \<open>
  C32. When an allocation of a format fails the answer is 1, and the context that is left cannot be
  released: \<open>ytdl_info_ctx_free\<close> follows an entry that points to no format.
\<close>

theorem extract_formats_oom:
  assumes "fresh_page info pr" "ytdl_info_extract_formats True calloc_ok info = (info', 1)"
  shows "ytdl_info_ctx_free info' = None"
proof -
  obtain f a info1 where e: "i_formats_size info1 = length f + length a"
    "info' = info1\<lparr>i_formats := Some (fst (fill_formats calloc_ok f a))\<rparr>" "\<not> snd (fill_formats calloc_ok f a)"
    using extract_formats_cases[OF assms(1), of calloc_ok] assms(2) by (auto split: if_splits)
  obtain j where j: "j < length f + length a" "fst (fill_formats calloc_ok f a) ! j = None" using fill_formats_fail[OF e(3)] by blast
  have "free_formats (fst (fill_formats calloc_ok f a)) (length f + length a) = None"
    by (rule free_formats_None[OF j(1) _ j(2)]) (simp add: fill_formats_length)
  thus ?thesis using e by (simp add: ytdl_info_ctx_free_def)
qed

lemma extract_formats_oom_witness:
  "ytdl_info_ctx_free (fst (ytdl_info_extract_formats True (\<lambda>n. n = 0) (ytdl_info_ctx_init\<lparr>i_player_response := Some demo_response\<rparr>))) = None"
proof -
  let ?i = "ytdl_info_ctx_init\<lparr>i_player_response := Some demo_response\<rparr>"
  have "fresh_page ?i demo_response" by (simp add: fresh_page_def ytdl_info_ctx_init_def)
  moreover have "snd (ytdl_info_extract_formats True (\<lambda>n. n = 0) ?i) = 1" by code_simp
  ultimately show ?thesis using extract_formats_oom[of ?i demo_response "\<lambda>n. n = 0" "fst (ytdl_info_extract_formats True (\<lambda>n. n = 0) ?i)"]
    by (simp add: prod_eq_iff)
qed

text \<open>The members of a format are what the reading expects, and its score fits an \<open>int\<close>.\<close>

definition video_fits :: "json \<Rightarrow> bool" where
  "video_fits v \<longleftrightarrow> (\<exists>f. ytdl_info_format_populate (new_format v) = Some f \<and>
     (has_flag f YTDL_INFO_FORMAT_HAS_VID \<longrightarrow> video_score f \<noteq> None))"

definition audio_fits :: "json \<Rightarrow> bool" where
  "audio_fits v \<longleftrightarrow> (\<exists>f. ytdl_info_format_populate (new_format v) = Some f \<and>
     (has_flag f YTDL_INFO_FORMAT_HAS_AUD \<longrightarrow> audio_score f \<noteq> None))"

lemma video_fits_code: "video_fits v = (case ytdl_info_format_populate (new_format v) of None \<Rightarrow> False
   | Some f \<Rightarrow> has_flag f YTDL_INFO_FORMAT_HAS_VID \<longrightarrow> video_score f \<noteq> None)"
  by (auto simp: video_fits_def split: option.splits)

lemma audio_fits_code: "audio_fits v = (case ytdl_info_format_populate (new_format v) of None \<Rightarrow> False
   | Some f \<Rightarrow> has_flag f YTDL_INFO_FORMAT_HAS_AUD \<longrightarrow> audio_score f \<noteq> None)"
  by (auto simp: audio_fits_def split: option.splits)

definition demo_formats :: "json list" where
  "demo_formats =
     [JObj [(''width'', JUint 640), (''fps'', JUint 30), (''bitrate'', JUint 500)],
      JObj [(''audioChannels'', JUint 2), (''bitrate'', JUint 128), (''audioQuality'', JStr ''AUDIO_QUALITY_LOW'')],
      JObj [(''width'', JUint 1280), (''fps'', JUint 30), (''bitrate'', JUint 900), (''audioChannels'', JUint 2)]]"

definition demo_info :: ytdl_info_ctx where
  "demo_info = ytdl_info_ctx_init\<lparr>i_formats := Some (map (Some \<circ> new_format) demo_formats), i_formats_size := 3\<rparr>"

lemma demo_new: "new_formats demo_info demo_formats"
  by (simp add: new_formats_def demo_info_def demo_formats_def ytdl_info_ctx_init_def)

text \<open>
  C33. The best video format of a fresh list, in which some format has a width: it has a width
  itself, and of all such formats the greatest sum of width, frame rate and bitrate, the first of
  several. No entry behind the list is read and no \<open>int\<close> overflows while the scores fit.
\<close>

theorem best_video_format:
  assumes "new_formats info vs"
    and "\<forall>v \<in> set vs. video_fits v"
    and "\<forall>v \<in> set vs. 0 \<le> int_of_key v ''width'' + int_of_key v ''fps'' + int_of_key v ''bitrate''"
    and "\<exists>v \<in> set vs. has_key v ''width''"
  shows "\<exists>info' r. ytdl_info_get_best_video_format info = Some (info', r) \<and> r < length vs \<and> has_key (vs ! r) ''width'' \<and>
    (\<forall>j < length vs. json_video_score (vs ! j) \<le> json_video_score (vs ! r)) \<and>
    (\<forall>j < r. json_video_score (vs ! j) < json_video_score (vs ! r))"
proof -
  obtain info' r where r: "ytdl_info_get_best_video_format info = Some (info', r)"
    "first_best (\<lambda>i. json_video_score (vs ! i)) (length vs) r" using best_video_index[OF assms(1)] assms(2) unfolding video_fits_def by blast
  obtain j where j: "j < length vs" "has_key (vs ! j) ''width''" using assms(4) by (auto simp: in_set_conv_nth)
  have "0 < json_video_score (vs ! j)" using has_key_score(1) assms(3) j by simp
  note b = first_best_pos[OF r(2) j(1) this]
  have "has_key (vs ! r) ''width''" using b has_key_score(1)[of "vs ! r"] assms(3) by simp
  thus ?thesis using r(1) b by blast
qed

lemma best_video_format_witness:
  "\<exists>info' r. ytdl_info_get_best_video_format demo_info = Some (info', r) \<and> r < 3 \<and> has_key (demo_formats ! r) ''width''"
proof -
  have "\<forall>v \<in> set demo_formats. video_fits v" unfolding video_fits_code by code_simp
  moreover have "\<forall>v \<in> set demo_formats. 0 \<le> int_of_key v ''width'' + int_of_key v ''fps'' + int_of_key v ''bitrate''" by code_simp
  moreover have "\<exists>v \<in> set demo_formats. has_key v ''width''" by code_simp
  moreover have "length demo_formats = 3" by (simp add: demo_formats_def)
  ultimately show ?thesis using best_video_format[OF demo_new] by auto
qed

text \<open>
  The best audio format of a fresh list, in which some format has audio and no video and a
  positive score: it has audio and no video itself, and of all such formats the greatest bitrate
  times channels, divided by the quality class, the first of several.
\<close>

theorem best_audio_format:
  assumes "new_formats info vs"
    and "\<forall>v \<in> set vs. audio_fits v"
    and "\<forall>v \<in> set vs. 0 \<le> int_of_key v ''width'' + int_of_key v ''fps'' + int_of_key v ''bitrate''"
    and "\<exists>v \<in> set vs. 0 < json_audio_score v"
  shows "\<exists>info' r. ytdl_info_get_best_audio_format info = Some (info', r) \<and> r < length vs \<and>
    has_key (vs ! r) ''audioChannels'' \<and> \<not> has_key (vs ! r) ''width'' \<and>
    (\<forall>j < length vs. json_audio_score (vs ! j) \<le> json_audio_score (vs ! r)) \<and>
    (\<forall>j < r. json_audio_score (vs ! j) < json_audio_score (vs ! r))"
proof -
  obtain info' r where r: "ytdl_info_get_best_audio_format info = Some (info', r)"
    "first_best (\<lambda>i. json_audio_score (vs ! i)) (length vs) r" using best_audio_index[OF assms(1)] assms(2) unfolding audio_fits_def by blast
  obtain j where j: "j < length vs" "0 < json_audio_score (vs ! j)" using assms(4) by (auto simp: in_set_conv_nth)
  note b = first_best_pos[OF r(2) j]
  have "has_key (vs ! r) ''audioChannels'' \<and> \<not> has_key (vs ! r) ''width''"
    using b has_key_score(2)[of "vs ! r"] assms(3) by simp
  thus ?thesis using r(1) b by blast
qed

lemma best_audio_format_witness:
  "\<exists>info' r. ytdl_info_get_best_audio_format demo_info = Some (info', r) \<and> r < 3 \<and> has_key (demo_formats ! r) ''audioChannels''"
proof -
  have "\<forall>v \<in> set demo_formats. audio_fits v" unfolding audio_fits_code by code_simp
  moreover have "\<forall>v \<in> set demo_formats. 0 \<le> int_of_key v ''width'' + int_of_key v ''fps'' + int_of_key v ''bitrate''" by code_simp
  moreover have "\<exists>v \<in> set demo_formats. 0 < json_audio_score v" by code_simp
  moreover have "length demo_formats = 3" by (simp add: demo_formats_def)
  ultimately show ?thesis using best_audio_format[OF demo_new] by auto
qed

text \<open>
  The playability status of a fresh page is \<open>YTDL_PLAYABILITY_OK\<close> exactly when its player
  response states \<open>OK\<close>, it is never \<open>YTDL_PLAYABILITY_LIVE_STREAM_OFFLINE\<close>, and asking again
  gives the same answer.
\<close>

theorem playability_status_stated:
  assumes "fresh_page info pr"
  shows "case ytdl_info_get_playability_status info of (info', st) \<Rightarrow>
    (st = YTDL_PLAYABILITY_OK \<longleftrightarrow>
       yyjson_equals_str (yyjson_obj_get (member (Some pr) ''playabilityStatus'') ''status'') ''OK'') \<and>
    st \<noteq> YTDL_PLAYABILITY_LIVE_STREAM_OFFLINE \<and> snd (ytdl_info_get_playability_status info') = st"
proof -
  have pr: "i_playability_status info = YTDL_PLAYABILITY_OK" "i_player_response info = Some pr"
    using assms by (simp_all add: fresh_page_def)
  have again: "ytdl__populate_pr_dat (ytdl__populate_pr_dat info) = ytdl__populate_pr_dat info"
    "ytdl__populate_pr_dat (ytdl__populate_pr_dat info\<lparr>i_playability_status := st\<rparr>) = ytdl__populate_pr_dat info\<lparr>i_playability_status := st\<rparr>" for st
    by (simp_all add: ytdl__populate_pr_dat_def)
  show ?thesis using pr again populate_pr_fresh[OF assms]
    by (auto simp: ytdl_info_get_playability_status_def Let_def status_of_def yyjson_equals_str_def yyjson_obj_get_def
        split: option.splits json.splits)
qed

lemma playability_status_stated_witness:
  "snd (ytdl_info_get_playability_status (ytdl_info_ctx_init\<lparr>i_player_response :=
     Some (JObj [(''playabilityStatus'', JObj [(''status'', JStr ''OK'')])])\<rparr>)) = YTDL_PLAYABILITY_OK"
proof -
  let ?pr = "JObj [(''playabilityStatus'', JObj [(''status'', JStr ''OK'')])]"
  have "fresh_page (ytdl_info_ctx_init\<lparr>i_player_response := Some ?pr\<rparr>) ?pr" by (simp add: fresh_page_def ytdl_info_ctx_init_def)
  moreover have "yyjson_equals_str (yyjson_obj_get (member (Some ?pr) ''playabilityStatus'') ''status'') ''OK''" by code_simp
  ultimately show ?thesis using playability_status_stated[of "ytdl_info_ctx_init\<lparr>i_player_response := Some ?pr\<rparr>" ?pr]
    by (auto split: prod.splits)
qed

end
