(* ===== verification/Cipher.thy ===== *)
theory Cipher
  imports Info
begin

text \<open>
  The deciphering of a stream URL in \<open>src/info.c\<close>: percent-decoding, from one block into another
  and in place, the signature actions as loops over a block, the fields of a cipher, and
  \<open>ytdl_info_get_format_url2\<close>, with the JavaScript function that transforms the URL as a parameter.

  The facts relate the blocks to texts: \<open>pct_decode\<close> is what an encoded text stands for,
  \<open>js_actions\<close> what the functions of the player do to a string.
\<close>

section \<open>Deciphering\<close>

text \<open>
  \<open>ytdl__strrev\<close>: the swaps of the two indices that meet in the middle. They are \<open>int\<close>s: a
  length that does not fit is left out.
\<close>

function strrev_loop :: "string \<Rightarrow> nat \<Rightarrow> nat \<Rightarrow> string option" where
  "strrev_loop str i j =
     (if i > j then
        do { ch \<leftarrow> rd str i; c \<leftarrow> rd str j;
             str \<leftarrow> wr str i c; str \<leftarrow> wr str j ch;
             strrev_loop str (i - 1) (j + 1) }
      else Some str)"
  by auto
termination by (relation "measure (\<lambda>(_, i, j). i - j)") auto

declare strrev_loop.simps [simp del]

definition ytdl__strrev :: "string \<Rightarrow> string option" where
  "ytdl__strrev str =
     (case rd str 0 of
        None \<Rightarrow> None
      | Some c \<Rightarrow>
          if c = NUL then Some str
          else (case strlen str of None \<Rightarrow> None | Some l \<Rightarrow> if int l \<le> 2 ^ 31 then strrev_loop str (l - 1) 0 else None))"

text \<open>
  \<open>urldecode\<close>. One round reads a character, or an escape, and says where the next begins; the
  C library's \<open>isxdigit\<close> is defined for every \<open>char\<close> and false for negative ones.
\<close>

definition isxdigit :: "char \<Rightarrow> bool" where
  "isxdigit c \<longleftrightarrow> 48 \<le> uchar c \<and> uchar c \<le> 57 \<or> 65 \<le> uchar c \<and> uchar c \<le> 70 \<or> 97 \<le> uchar c \<and> uchar c \<le> 102"

definition xdigit_val :: "char \<Rightarrow> nat" where
  "xdigit_val a =
     (if uchar a < 65 then uchar a - 48 else if uchar a < 97 then uchar a - (65 - 10) else uchar a - (97 - 10))"

definition decode_at :: "string \<Rightarrow> nat \<Rightarrow> (char \<times> nat) option" where
  "decode_at src s =
     do { ch \<leftarrow> rd src s;
          if ch \<noteq> CHR ''%'' then Some (ch, s + 1)
          else do { a \<leftarrow> rd src (s + 1);
            if \<not> isxdigit a then Some (ch, s + 1)
            else do { b \<leftarrow> rd src (s + 2);
              if \<not> isxdigit b then Some (ch, s + 1)
              else Some (char_of (16 * xdigit_val a + xdigit_val b), s + 3) }}}"

lemma decode_at_next: "decode_at src s = Some (c, s') \<Longrightarrow> s < s' \<and> s < length src"
  by (auto simp: decode_at_def bind_eq_Some_conv dest!: rd_SomeD split: if_splits)

text \<open>From one block into another, and inside one block; the answer is the length.\<close>

function urldecode_loop :: "string \<Rightarrow> nat \<Rightarrow> string \<Rightarrow> nat \<Rightarrow> (string \<times> nat) option" where
  "urldecode_loop dst d src s =
     (case decode_at src s of
        None \<Rightarrow> None
      | Some (ch, s') \<Rightarrow>
          (case wr dst d ch of
             None \<Rightarrow> None
           | Some dst \<Rightarrow> if ch = NUL then Some (dst, d) else urldecode_loop dst (Suc d) src s'))"
  by auto
termination by (relation "measure (\<lambda>(_, _, src, s). length src - s)") (auto dest!: decode_at_next)

declare urldecode_loop.simps [simp del]

definition urldecode :: "string \<Rightarrow> string \<Rightarrow> nat \<Rightarrow> (string \<times> nat) option" where
  "urldecode dst src s = urldecode_loop dst 0 src s"

function urldecode_inplace_loop :: "string \<Rightarrow> nat \<Rightarrow> nat \<Rightarrow> (string \<times> nat) option" where
  "urldecode_inplace_loop m d s =
     (case decode_at m s of
        None \<Rightarrow> None
      | Some (ch, s') \<Rightarrow>
          (case wr m d ch of
             None \<Rightarrow> None
           | Some m \<Rightarrow> if ch = NUL then Some (m, d) else urldecode_inplace_loop m (Suc d) s'))"
  by auto
termination by (relation "measure (\<lambda>(m, _, s). length m - s)") (auto dest!: decode_at_next wr_SomeD)

declare urldecode_inplace_loop.simps [simp del]

definition urldecode_inplace :: "string \<Rightarrow> (string \<times> nat) option" where
  "urldecode_inplace m = urldecode_inplace_loop m 0 0"

text \<open>
  One action on the signature, a block with a terminator. The argument of a swap is reduced
  modulo the length where the character is read, and not where it is written; a splice moves
  the rest and the terminator to the front.
\<close>

fun splice_loop :: "string \<Rightarrow> u64 \<Rightarrow> nat \<Rightarrow> nat \<Rightarrow> string option" where
  "splice_loop sg arg x 0 = Some sg"
| "splice_loop sg arg x (Suc n) =
     do { c \<leftarrow> rd sg (unat (arg + of_nat x)); sg \<leftarrow> wr sg x c; splice_loop sg arg (Suc x) n }"

definition apply_action :: "string \<Rightarrow> int \<Rightarrow> int \<Rightarrow> string option" where
  "apply_action sg act arg =
     (if act = YTDL_SIG_ACTION_REVERSE then ytdl__strrev sg
      else if act = YTDL_SIG_ACTION_SWAP then
        do { first \<leftarrow> rd sg 0;
             l \<leftarrow> strlen sg;
             c \<leftarrow> (if l = 0 then None else rd sg (unat (of_int arg :: u64) mod l));
             sg \<leftarrow> wr sg 0 c;
             if arg < 0 then None else wr sg (nat arg) first }
      else if act = YTDL_SIG_ACTION_SPLICE \<or> act = YTDL_SIG_ACTION_SLICE then
        do { l \<leftarrow> strlen sg;
             splice_loop sg (of_int arg) 0 (unat (of_nat l - of_int arg + 1 :: u64)) }
      else Some sg)"

fun apply_loop :: "ytdl_sig_actions \<Rightarrow> string \<Rightarrow> nat \<Rightarrow> nat \<Rightarrow> string option" where
  "apply_loop a sg i 0 = Some sg"
| "apply_loop a sg i (Suc n) =
     do { act \<leftarrow> rd (sa_actions a) i; arg \<leftarrow> rd (sa_actions_arg a) i;
          sg \<leftarrow> apply_action sg act arg; apply_loop a sg (Suc i) n }"

definition apply_actions :: "ytdl_sig_actions \<Rightarrow> string \<Rightarrow> string option" where
  "apply_actions a sg = apply_loop a sg 0 (unat (of_int (sa_actions_size a) :: u64))"

text \<open>
  The allocations are not checked: a failed one is dereferenced. \<open>mem n\<close> tells whether \<open>n\<close>
  bytes can be had.
\<close>

definition calloc :: "(nat \<Rightarrow> bool) \<Rightarrow> nat \<Rightarrow> string option" where
  "calloc mem n = (if mem n then Some (replicate n NUL) else None)"

definition strdup :: "(nat \<Rightarrow> bool) \<Rightarrow> string \<Rightarrow> string option" where
  "strdup mem m = do { l \<leftarrow> strlen m; if mem (l + 1) then Some (take l m @ [NUL]) else None }"

definition strstr :: "string \<Rightarrow> nat \<Rightarrow> string \<Rightarrow> nat option option" where
  "strstr m p needle =
     do { _ \<leftarrow> strlen (drop p m); Some (map_option ((+) p) (find_sub needle (cstr (drop p m)))) }"

text \<open>Where a field of the cipher starts and ends: \<open>Some None\<close> when its name is not there.\<close>

definition cipher_field :: "string \<Rightarrow> string \<Rightarrow> (nat \<times> nat) option option" where
  "cipher_field cipher name =
     do { l \<leftarrow> strlen cipher;
          s \<leftarrow> strstr cipher 0 name;
          case s of
            None \<Rightarrow> Some None
          | Some s \<Rightarrow>
              let s = s + length name in
              do { e \<leftarrow> strstr cipher s ''&'';
                   Some (Some (s, case e of None \<Rightarrow> l | Some e \<Rightarrow> e)) } }"

text \<open>A fresh block with the decoded field.\<close>

definition decode_field :: "(nat \<Rightarrow> bool) \<Rightarrow> string \<Rightarrow> nat \<times> nat \<Rightarrow> string option" where
  "decode_field mem cipher f =
     do { m \<leftarrow> calloc mem (snd f - fst f + 1); (m, _) \<leftarrow> urldecode m cipher (fst f); Some m }"

text \<open>\<open>realloc\<close> of the URL, and the text printed behind it.\<close>

definition append_sig :: "(nat \<Rightarrow> bool) \<Rightarrow> string \<Rightarrow> string \<Rightarrow> string \<Rightarrow> string option" where
  "append_sig mem url sp sg =
     do { url_offset \<leftarrow> strlen url; lsp \<leftarrow> strlen sp; lsg \<leftarrow> strlen sg;
          let url_len = url_offset + (lsp + 2) + lsg in
          do { url \<leftarrow> (if mem (url_len + 2)
                       then Some (take (url_len + 2) url @ replicate (url_len + 2 - length url) NUL) else None);
               let t = ''&'' @ cstr sp @ ''='' @ cstr sg @ [NUL] in
               blit url url_offset t (length t) } }"

definition decipher_url :: "(nat \<Rightarrow> bool) \<Rightarrow> ytdl_sig_actions \<Rightarrow> string \<Rightarrow> string option option" where
  "decipher_url mem a c =
     do { cipher \<leftarrow> strdup mem c;
          sig_f \<leftarrow> cipher_field cipher ''s='';
          case sig_f of None \<Rightarrow> Some None | Some sig_f \<Rightarrow>
          do { sp_f \<leftarrow> cipher_field cipher ''sp='';
          case sp_f of None \<Rightarrow> Some None | Some sp_f \<Rightarrow>
          do { url_f \<leftarrow> cipher_field cipher ''url='';
          case url_f of None \<Rightarrow> Some None | Some url_f \<Rightarrow>
          do { cipher \<leftarrow> wr cipher (snd sig_f) NUL;
               cipher \<leftarrow> wr cipher (snd sp_f) NUL;
               cipher \<leftarrow> wr cipher (snd url_f) NUL;
               sg \<leftarrow> decode_field mem cipher sig_f;
               sp \<leftarrow> decode_field mem cipher sp_f;
               url \<leftarrow> decode_field mem cipher url_f;
               (url, _) \<leftarrow> urldecode_inplace url;
               sg \<leftarrow> apply_actions a sg;
               map_option Some (append_sig mem url sp sg) }}}}"

text \<open>What calling the transforming function gives: an exception, a value that has no string, a string.\<close>

datatype js_result = JsThrows | JsNoString | JsString string

definition ytdl_info_get_format_url2 ::
    "(nat \<Rightarrow> bool) \<Rightarrow> (jsval \<Rightarrow> string \<Rightarrow> js_result) \<Rightarrow> ytdl_info_ctx \<Rightarrow> ytdl_info_format \<Rightarrow>
     (ytdl_info_format \<times> string option) option" where
  "ytdl_info_get_format_url2 mem JS_Call info format =
     (if f_url format \<noteq> None then Some (format, f_url format)
      else
        do { format \<leftarrow> ytdl_info_format_populate format;
             url \<leftarrow> (case f_cipher format of
                 Some c \<Rightarrow> do { a \<leftarrow> i_sig_actions info; decipher_url mem a c }
               | None \<Rightarrow>
                   (case f_url_untouched format of
                      None \<Rightarrow> Some None
                    | Some u \<Rightarrow>
                        do { l \<leftarrow> strlen u; m \<leftarrow> calloc mem (l + 1); (m, _) \<leftarrow> urldecode m u 0; Some (Some m) }));
             case url of
               None \<Rightarrow> Some (format, None)
             | Some url \<Rightarrow>
                 do { a \<leftarrow> i_sig_actions info;
                      case JS_Call (sa_func a) (cstr url) of
                        JsThrows \<Rightarrow> Some (format\<lparr>f_url := Some url\<rparr>, Some url)
                      | JsNoString \<Rightarrow> None
                      | JsString s \<Rightarrow>
                          do { u \<leftarrow> strdup mem (s @ [NUL]); Some (format\<lparr>f_url := Some u\<rparr>, Some u) } } })"

section \<open>Facts about the decoding\<close>

lemma strrev_loop_spec:
  "strrev_loop (a @ m @ b) (length a + length m - 1) (length a) = Some (a @ rev m @ b)"
proof (induction m arbitrary: a b rule: measure_induct_rule[of length])
  case (less m)
  show ?case
  proof (cases "length m \<le> 1")
    case True
    hence "m = [] \<or> (\<exists>x. m = [x])" by (cases m) auto
    thus ?thesis by (subst strrev_loop.simps) auto
  next
    case False
    then obtain x t where "m = x # t" "t \<noteq> []" by (cases m) auto
    then obtain y k where m: "m = x # k @ [y]" by (metis append_butlast_last_id)
    have "strrev_loop (a @ m @ b) (length a + length m - 1) (length a) =
        strrev_loop ((a @ [y]) @ k @ (x # b)) (length a + length k) (length a + 1)"
      by (subst strrev_loop.simps) (simp add: m nth_append list_update_append)
    also have "\<dots> = strrev_loop ((a @ [y]) @ k @ (x # b)) (length (a @ [y]) + length k - 1) (length (a @ [y]))" by simp
    also have "\<dots> = Some ((a @ [y]) @ rev k @ (x # b))" by (rule less) (simp add: m)
    finally show ?thesis by (simp add: m)
  qed
qed

lemma strlen_block: "NUL \<notin> set s \<Longrightarrow> strlen (s @ NUL # r) = Some (length s)"
  by (simp add: strlen_def cstr_append)

lemma strrev_spec:
  assumes "NUL \<notin> set s" "int (length s) \<le> 2 ^ 31"
  shows "ytdl__strrev (s @ NUL # r) = Some (rev s @ NUL # r)"
proof (cases s)
  case (Cons c t)
  have "strrev_loop ([] @ s @ NUL # r) (length ([]::string) + length s - 1) (length ([]::string)) = Some ([] @ rev s @ NUL # r)"
    by (rule strrev_loop_spec)
  moreover have "c \<noteq> NUL" using assms(1) Cons by auto
  ultimately show ?thesis using assms Cons strlen_block[OF assms(1), of r] by (simp add: ytdl__strrev_def)
qed (simp add: ytdl__strrev_def)

text \<open>The text a percent-encoded text stands for, up to the first NUL it decodes to.\<close>

definition escape_of :: "char \<Rightarrow> char \<Rightarrow> char" where
  "escape_of a b = char_of (16 * xdigit_val a + xdigit_val b)"

fun pct_decode :: "string \<Rightarrow> string" where
  "pct_decode [] = []"
| "pct_decode (c # t) =
     (case t of
        a # b # t' \<Rightarrow>
          if c = CHR ''%'' \<and> isxdigit a \<and> isxdigit b
          then (if escape_of a b = NUL then [] else escape_of a b # pct_decode t')
          else c # pct_decode t
      | _ \<Rightarrow> c # pct_decode t)"

definition escaped :: "string \<Rightarrow> bool" where
  "escaped s \<longleftrightarrow> 3 \<le> length s \<and> s ! 0 = CHR ''%'' \<and> isxdigit (s ! 1) \<and> isxdigit (s ! 2)"

lemma pct_decode_plain: "\<not> escaped (c # t) \<Longrightarrow> pct_decode (c # t) = c # pct_decode t"
  by (cases t; cases "tl t") (auto simp: escaped_def)

lemma pct_decode_escape: "isxdigit a \<Longrightarrow> isxdigit b \<Longrightarrow> pct_decode (CHR ''%'' # a # b # t) =
   (if escape_of a b = NUL then [] else escape_of a b # pct_decode t)"
  by simp

declare pct_decode.simps(2) [simp del]

lemma pct_induct [case_names Nil Plain Escape]:
  assumes "P []" "\<And>c t. \<not> escaped (c # t) \<Longrightarrow> P t \<Longrightarrow> P (c # t)"
    and "\<And>a b t. isxdigit a \<Longrightarrow> isxdigit b \<Longrightarrow> P t \<Longrightarrow> P (CHR ''%'' # a # b # t)"
  shows "P s"
proof (induction s rule: measure_induct_rule[of length])
  case (less s)
  show ?case
  proof (cases "escaped s")
    case True
    then obtain a b t where "s = CHR ''%'' # a # b # t" "isxdigit a" "isxdigit b"
      by (cases s; cases "tl s"; cases "tl (tl s)") (auto simp: escaped_def)
    thus ?thesis using less assms(3) by simp
  next
    case False
    thus ?thesis using less assms(1,2) by (cases s) auto
  qed
qed

lemma isxdigit_NUL [simp]: "\<not> isxdigit NUL"
  by (simp add: isxdigit_def uchar_def)

text \<open>One round on a terminated text.\<close>

lemma drop_Cons: "drop p m = x # xs \<Longrightarrow> rd m p = Some x \<and> drop (Suc p) m = xs"
  by (cases "p < length m") (auto simp: Cons_nth_drop_Suc[symmetric])

lemma decode_at_NUL: "drop p m = NUL # r \<Longrightarrow> decode_at m p = Some (NUL, p + 1)"
  using drop_Cons[of p m] by (auto simp: decode_at_def)

lemma decode_at_escape:
  assumes "drop p m = CHR ''%'' # a # b # t" "isxdigit a" "isxdigit b"
  shows "decode_at m p = Some (escape_of a b, p + 3) \<and> drop (p + 3) m = t"
  using drop_Cons[OF assms(1)] drop_Cons[of "p + 1" m a "b # t"] drop_Cons[of "p + 2" m b t] assms(2,3)
  by (simp add: decode_at_def escape_of_def eval_nat_numeral)

lemma decode_at_plain:
  assumes "drop p m = (c # t) @ NUL # r" "\<not> escaped (c # t)"
  shows "decode_at m p = Some (c, p + 1)"
proof -
  have c: "rd m p = Some c" "drop (p + 1) m = t @ NUL # r" using drop_Cons[of p m c "t @ NUL # r"] assms(1) by simp_all
  show ?thesis
  proof (cases t)
    case Nil
    thus ?thesis using c drop_Cons[of "p + 1" m] by (auto simp: decode_at_def)
  next
    case (Cons a t')
    have a: "rd m (p + 1) = Some a" "drop (p + 2) m = t' @ NUL # r"
      using drop_Cons[of "p + 1" m a "t' @ NUL # r"] c(2) Cons by simp_all
    show ?thesis
    proof (cases t')
      case Nil
      thus ?thesis using c(1) a drop_Cons[of "p + 2" m] by (auto simp: decode_at_def)
    next
      case (Cons b t'')
      thus ?thesis using c(1) a drop_Cons[of "p + 2" m b "t'' @ NUL # r"] assms(2) \<open>t = a # t'\<close>
        by (auto simp: decode_at_def escaped_def)
    qed
  qed
qed

lemma pct_decode_length: "length (pct_decode s) \<le> length s"
  by (induction s rule: pct_induct) (auto simp: pct_decode_plain pct_decode_escape)

lemma pct_decode_no_NUL: "NUL \<notin> set s \<Longrightarrow> NUL \<notin> set (pct_decode s)"
  by (induction s rule: pct_induct) (auto simp: pct_decode_plain pct_decode_escape)

text \<open>
  Both loops from a position on, on a terminated text: what they leave before the position they
  write at, and behind what they wrote.
\<close>

lemma urldecode_loop_exact:
  assumes "drop p src = s @ NUL # r" "NUL \<notin> set s" "d + length (pct_decode s) < length dst"
  shows "\<exists>z. urldecode_loop dst d src p = Some (take d dst @ pct_decode s @ NUL # z, d + length (pct_decode s)) \<and>
    length z = length dst - (d + length (pct_decode s) + 1)"
  using assms
proof (induction s arbitrary: dst d p rule: pct_induct)
  case Nil
  thus ?case using decode_at_NUL[of p src r]
    by (subst urldecode_loop.simps) (auto simp: upd_conv_take_nth_drop)
next
  case (Plain c t)
  note p = pct_decode_plain[OF Plain.hyps]
  have c: "c \<noteq> NUL" "d < length dst" using Plain.prems p by auto
  have dr: "drop (p + 1) src = t @ NUL # r" using drop_Cons[of p src c "t @ NUL # r"] Plain.prems(1) by simp
  have "urldecode_loop dst d src p = urldecode_loop (dst[d := c]) (Suc d) src (p + 1)"
    using decode_at_plain[OF Plain.prems(1) Plain.hyps] c by (subst urldecode_loop.simps) simp
  moreover have "take (Suc d) (dst[d := c]) = take d dst @ [c]" using c by (simp add: take_Suc_conv_app_nth)
  ultimately show ?case using Plain.IH[OF dr, of "Suc d" "dst[d := c]"] Plain.prems p by auto
next
  case (Escape a b t)
  note e = decode_at_escape[of p src a b "t @ NUL # r"]
  have d: "d < length dst" using Escape.prems by auto
  show ?case
  proof (cases "escape_of a b = NUL")
    case True
    thus ?thesis using e Escape d by (subst urldecode_loop.simps) (auto simp: upd_conv_take_nth_drop pct_decode_escape)
  next
    case False
    let ?c = "escape_of a b"
    have "urldecode_loop dst d src p = urldecode_loop (dst[d := ?c]) (Suc d) src (p + 3)"
      using e Escape.prems Escape.hyps d False by (subst urldecode_loop.simps) simp
    moreover have "take (Suc d) (dst[d := ?c]) = take d dst @ [?c]" using d by (simp add: take_Suc_conv_app_nth)
    moreover have "drop (p + 3) src = t @ NUL # r" using e Escape.prems(1) Escape.hyps by simp
    ultimately show ?thesis using Escape.IH[of "p + 3" "Suc d" "dst[d := ?c]"] Escape.prems Escape.hyps False pct_decode_escape by auto
  qed
qed

text \<open>A block with no room for the terminator is overrun.\<close>

lemma urldecode_loop_overruns:
  assumes "drop p src = s @ NUL # r" "NUL \<notin> set s" "length dst \<le> d + length (pct_decode s)"
  shows "urldecode_loop dst d src p = None"
  using assms
proof (induction s arbitrary: dst d p rule: pct_induct)
  case Nil
  thus ?case using decode_at_NUL[of p src r] by (subst urldecode_loop.simps) simp
next
  case (Plain c t)
  have dr: "drop (p + 1) src = t @ NUL # r" using drop_Cons[of p src c "t @ NUL # r"] Plain.prems(1) by simp
  have "c \<noteq> NUL" using Plain.prems by auto
  then show ?case using decode_at_plain[OF Plain.prems(1) Plain.hyps] Plain.IH[OF dr, of "dst[d := c]" "Suc d"] Plain.prems pct_decode_plain[OF Plain.hyps]
    by (subst urldecode_loop.simps) (cases "d < length dst"; simp)
next
  case (Escape a b t)
  note e = decode_at_escape[of p src a b "t @ NUL # r"]
  have dr: "drop (p + 3) src = t @ NUL # r" using e Escape.prems(1) Escape.hyps by simp
  show ?case using e Escape.prems Escape.hyps Escape.IH[OF dr, of "dst[d := escape_of a b]" "Suc d"] pct_decode_escape
    by (subst urldecode_loop.simps) (cases "d < length dst"; cases "escape_of a b = NUL"; simp)
qed

lemma urldecode_loop_spec:
  assumes "drop p src = s @ NUL # r" "NUL \<notin> set s" "d + length s < length dst"
  shows "\<exists>z. urldecode_loop dst d src p = Some (take d dst @ pct_decode s @ NUL # z, d + length (pct_decode s)) \<and>
    length z = length dst - (d + length (pct_decode s) + 1)"
  using urldecode_loop_exact[OF assms(1,2)] assms(3) pct_decode_length[of s] by simp

lemma urldecode_inplace_loop_spec:
  assumes "drop p m = s @ NUL # r" "NUL \<notin> set s" "d \<le> p"
  shows "\<exists>z. urldecode_inplace_loop m d p = Some (take d m @ pct_decode s @ NUL # z, d + length (pct_decode s)) \<and>
    length z = length m - (d + length (pct_decode s) + 1)"
  using assms
proof (induction s arbitrary: m d p rule: pct_induct)
  case Nil
  hence "d < length m" by (cases "p < length m") auto
  thus ?case using Nil decode_at_NUL[of p m r]
    by (subst urldecode_inplace_loop.simps) (auto simp: upd_conv_take_nth_drop)
next
  case (Plain c t)
  have c: "c \<noteq> NUL" "d < length m" using Plain.prems by (auto, cases "p < length m", auto)
  have dr: "drop (p + 1) (m[d := c]) = t @ NUL # r" using drop_Cons[of p m c "t @ NUL # r"] Plain.prems(1,3) by simp
  have "urldecode_inplace_loop m d p = urldecode_inplace_loop (m[d := c]) (Suc d) (p + 1)"
    using decode_at_plain[OF Plain.prems(1) Plain.hyps] c by (subst urldecode_inplace_loop.simps) simp
  moreover have "take (Suc d) (m[d := c]) = take d m @ [c]" using c by (simp add: take_Suc_conv_app_nth)
  ultimately show ?case using Plain.IH[OF dr, of "Suc d"] Plain.prems pct_decode_plain[OF Plain.hyps] by auto
next
  case (Escape a b t)
  note e = decode_at_escape[of p m a b "t @ NUL # r"]
  have d: "d < length m" using Escape.prems by (cases "p < length m") auto
  show ?case
  proof (cases "escape_of a b = NUL")
    case True
    thus ?thesis using e Escape d by (subst urldecode_inplace_loop.simps) (auto simp: upd_conv_take_nth_drop pct_decode_escape)
  next
    case False
    let ?c = "escape_of a b"
    have "urldecode_inplace_loop m d p = urldecode_inplace_loop (m[d := ?c]) (Suc d) (p + 3)"
      using e Escape.prems Escape.hyps d False by (subst urldecode_inplace_loop.simps) simp
    moreover have "take (Suc d) (m[d := ?c]) = take d m @ [?c]" using d by (simp add: take_Suc_conv_app_nth)
    moreover have "drop (p + 3) (m[d := ?c]) = t @ NUL # r" using e Escape.prems(1,3) Escape.hyps by simp
    ultimately show ?thesis
      using Escape.IH[of "p + 3" "m[d := ?c]" "Suc d"] Escape.prems Escape.hyps False pct_decode_escape by auto
  qed
qed

section \<open>Facts about the signature\<close>

text \<open>The four functions of the player as JavaScript has them, on the characters of the string.\<close>

definition js_action :: "int \<Rightarrow> int \<Rightarrow> string \<Rightarrow> string" where
  "js_action act b a =
     (if act = YTDL_SIG_ACTION_REVERSE then rev a
      else if act = YTDL_SIG_ACTION_SWAP then a[0 := a ! (nat b mod length a), nat b mod length a := a ! 0]
      else if act = YTDL_SIG_ACTION_SPLICE \<or> act = YTDL_SIG_ACTION_SLICE then drop (nat b) a
      else a)"

text \<open>What the copies in C need of the argument.\<close>

definition arg_fits :: "int \<Rightarrow> int \<Rightarrow> string \<Rightarrow> bool" where
  "arg_fits act b a \<longleftrightarrow> int (length a) \<le> 2 ^ 31 \<and>
     (act = YTDL_SIG_ACTION_SWAP \<longrightarrow> 0 \<le> b \<and> b < int (length a)) \<and>
     (act = YTDL_SIG_ACTION_SPLICE \<or> act = YTDL_SIG_ACTION_SLICE \<longrightarrow> 0 \<le> b \<and> b \<le> int (length a))"

lemma splice_loop_spec:
  assumes "unat arg + x + n \<le> length m" "unat arg + x + n < 2 ^ 64" "x + n \<le> length m"
  shows "splice_loop m arg x n = Some (take x m @ take n (drop (unat arg + x) m) @ drop (x + n) m)"
  using assms
proof (induction n arbitrary: m x)
  case (Suc n)
  let ?a = "unat arg"
  have u: "unat (arg + of_nat x) = ?a + x" using Suc.prems by (simp add: unat_word_ariths unat_of_nat64)
  have "splice_loop m arg x (Suc n) = splice_loop (m[x := m ! (?a + x)]) arg (Suc x) n" using Suc.prems u by simp
  also have "\<dots> = Some (take (Suc x) (m[x := m ! (?a + x)]) @ take n (drop (?a + Suc x) (m[x := m ! (?a + x)])) @
      drop (Suc x + n) (m[x := m ! (?a + x)]))" by (rule Suc.IH) (use Suc.prems in simp_all)
  also have "take (Suc x) (m[x := m ! (?a + x)]) = take x m @ [m ! (?a + x)]" using Suc.prems by (simp add: take_Suc_conv_app_nth)
  finally have "splice_loop m arg x (Suc n) = Some ((take x m @ [m ! (?a + x)]) @ take n (drop (?a + Suc x) m) @ drop (Suc x + n) m)"
    using Suc.prems by (simp del: splice_loop.simps)
  moreover have "m ! (?a + x) # take n (drop (?a + Suc x) m) = take (Suc n) (drop (?a + x) m)"
    using Suc.prems by (simp add: Cons_nth_drop_Suc[symmetric])
  ultimately show ?case by (simp del: splice_loop.simps)
qed simp

lemma splice_spec:
  assumes "NUL \<notin> set s" "k \<le> length s" "int (length s) \<le> 2 ^ 31"
  shows "\<exists>r'. splice_loop (s @ NUL # r) (of_int (int k)) 0 (unat (of_nat (length s) - of_int (int k) + 1 :: u64)) = Some (drop k s @ NUL # r')"
proof -
  let ?n = "length s - k + 1" and ?m = "s @ NUL # r"
  have a: "unat (of_int (int k) :: u64) = k" using assms by (simp add: unat_of_nat64)
  have E: "of_nat (length s) - of_int (int k) + 1 = (of_nat ?n :: u64)" using assms(2) by (simp add: of_nat_diff)
  have "?n < 2 ^ 64" using assms(2,3) by simp
  hence n: "unat (of_nat (length s) - of_int (int k) + 1 :: u64) = ?n" unfolding E by (rule unat_of_nat64)
  have "splice_loop ?m (of_int (int k)) 0 ?n =
      Some (take 0 ?m @ take ?n (drop (unat (of_int (int k) :: u64) + 0) ?m) @ drop (0 + ?n) ?m)"
    by (rule splice_loop_spec) (use assms a in simp_all)
  also have "take ?n (drop (unat (of_int (int k) :: u64) + 0) ?m) = drop k s @ [NUL]" using assms(2) by (simp only: a) simp
  finally show ?thesis unfolding n by simp
qed

lemma swap_spec:
  assumes "NUL \<notin> set s" "k < length s" "int (length s) \<le> 2 ^ 31"
  shows "apply_action (s @ NUL # r) YTDL_SIG_ACTION_SWAP (int k) = Some (s[0 := s ! k, k := s ! 0] @ NUL # r)"
proof -
  have a: "unat (of_int (int k) :: u64) = k" using assms by (simp add: unat_of_nat64)
  have l: "strlen (s @ NUL # r) = Some (length s)" by (rule strlen_block[OF assms(1)])
  have s0: "s \<noteq> []" using assms(2) by auto
  have "apply_action (s @ NUL # r) YTDL_SIG_ACTION_SWAP (int k) =
      do { sg \<leftarrow> wr (s @ NUL # r) 0 (s ! k); wr sg k (s ! 0) }"
    using s0 assms(2) by (simp add: apply_action_def YTDL_SIG_ACTION_SWAP_def YTDL_SIG_ACTION_REVERSE_def l a nth_append del: of_int_of_nat_eq)
  also have "\<dots> = Some ((s @ NUL # r)[0 := s ! k, k := s ! 0])" using assms(2) by simp
  also have "(s @ NUL # r)[0 := s ! k, k := s ! 0] = s[0 := s ! k, k := s ! 0] @ NUL # r" using assms(2) s0 by (simp add: list_update_append)
  finally show ?thesis .
qed

lemma apply_action_spec:
  assumes "NUL \<notin> set s" "arg_fits act b s"
  shows "\<exists>r'. apply_action (s @ NUL # r) act b = Some (js_action act b s @ NUL # r')"
proof -
  consider "act = YTDL_SIG_ACTION_REVERSE" | "act = YTDL_SIG_ACTION_SWAP"
    | "act = YTDL_SIG_ACTION_SPLICE \<or> act = YTDL_SIG_ACTION_SLICE"
    | "act \<notin> {YTDL_SIG_ACTION_REVERSE, YTDL_SIG_ACTION_SWAP, YTDL_SIG_ACTION_SPLICE, YTDL_SIG_ACTION_SLICE}" by auto
  thus ?thesis
  proof cases
    case 1
    thus ?thesis using assms by (simp add: apply_action_def js_action_def arg_fits_def strrev_spec)
  next
    case 2
    then obtain k where "b = int k" "k < length s" using assms(2) by (cases b) (auto simp: arg_fits_def)
    thus ?thesis using 2 assms swap_spec[of s k r]
      by (auto simp: js_action_def arg_fits_def YTDL_SIG_ACTION_SWAP_def YTDL_SIG_ACTION_REVERSE_def)
  next
    case 3
    then obtain k where k: "b = int k" "k \<le> length s" using assms(2) by (cases b) (auto simp: arg_fits_def)
    have "apply_action (s @ NUL # r) act b = splice_loop (s @ NUL # r) (of_int (int k)) 0 (unat (of_nat (length s) - of_int (int k) + 1 :: u64))"
      using 3 k(1) strlen_block[OF assms(1), of r]
      by (auto simp: apply_action_def YTDL_SIG_ACTION_SWAP_def YTDL_SIG_ACTION_REVERSE_def YTDL_SIG_ACTION_SLICE_def YTDL_SIG_ACTION_SPLICE_def)
    moreover have "js_action act b s = drop k s" using 3 k(1)
      by (auto simp: js_action_def YTDL_SIG_ACTION_SWAP_def YTDL_SIG_ACTION_REVERSE_def YTDL_SIG_ACTION_SLICE_def YTDL_SIG_ACTION_SPLICE_def)
    moreover have "int (length s) \<le> 2 ^ 31" using assms(2) by (simp add: arg_fits_def)
    ultimately show ?thesis using splice_spec[OF assms(1) k(2), of r] by simp
  next
    case 4
    thus ?thesis by (simp add: apply_action_def js_action_def)
  qed
qed

lemma js_action_no_NUL:
  assumes "NUL \<notin> set s" "arg_fits act b s"
  shows "NUL \<notin> set (js_action act b s)"
proof -
  have "set (s[0 := s ! (nat b mod length s), nat b mod length s := s ! 0]) \<subseteq> set s" if "s \<noteq> []"
  proof -
    have "s ! (nat b mod length s) \<in> set s" "s ! 0 \<in> set s" using that by simp_all
    thus ?thesis by (intro set_update_subsetI) auto
  qed
  moreover have "s \<noteq> []" if "act = YTDL_SIG_ACTION_SWAP" using assms(2) that by (auto simp: arg_fits_def)
  ultimately show ?thesis using assms(1) by (auto simp: js_action_def dest: in_set_dropD)
qed

text \<open>A list of actions, each fitting what those before it leave.\<close>

fun js_actions :: "(int \<times> int) list \<Rightarrow> string \<Rightarrow> string" where
  "js_actions [] a = a"
| "js_actions ((act, b) # acts) a = js_actions acts (js_action act b a)"

fun args_fit :: "(int \<times> int) list \<Rightarrow> string \<Rightarrow> bool" where
  "args_fit [] a \<longleftrightarrow> True"
| "args_fit ((act, b) # acts) a \<longleftrightarrow> arg_fits act b a \<and> args_fit acts (js_action act b a)"

text \<open>The calls that the first \<open>n\<close> entries of the two arrays stand for.\<close>

definition calls_of :: "ytdl_sig_actions \<Rightarrow> (int \<times> int) list" where
  "calls_of a = take (nat (sa_actions_size a)) (zip (sa_actions a) (sa_actions_arg a))"

definition actions_ok :: "ytdl_sig_actions \<Rightarrow> bool" where
  "actions_ok a \<longleftrightarrow> 0 \<le> sa_actions_size a \<and> sa_actions_size a < 2 ^ 31 \<and>
     nat (sa_actions_size a) \<le> length (sa_actions a) \<and> nat (sa_actions_size a) \<le> length (sa_actions_arg a)"

lemma apply_loop_spec:
  assumes "NUL \<notin> set s" "i + n \<le> length (sa_actions a)" "i + n \<le> length (sa_actions_arg a)"
    "args_fit (take n (drop i (zip (sa_actions a) (sa_actions_arg a)))) s"
  shows "\<exists>r'. apply_loop a (s @ NUL # r) i n =
      Some (js_actions (take n (drop i (zip (sa_actions a) (sa_actions_arg a)))) s @ NUL # r') \<and>
      NUL \<notin> set (js_actions (take n (drop i (zip (sa_actions a) (sa_actions_arg a)))) s)"
  using assms
proof (induction n arbitrary: s r i)
  case (Suc n)
  let ?act = "sa_actions a ! i" and ?b = "sa_actions_arg a ! i"
  have i: "i < length (sa_actions a)" "i < length (sa_actions_arg a)" using Suc.prems by simp_all
  have d: "take (Suc n) (drop i (zip (sa_actions a) (sa_actions_arg a))) =
      (?act, ?b) # take n (drop (Suc i) (zip (sa_actions a) (sa_actions_arg a)))"
    using i by (simp add: Cons_nth_drop_Suc[symmetric])
  have fit: "arg_fits ?act ?b s" "args_fit (take n (drop (Suc i) (zip (sa_actions a) (sa_actions_arg a)))) (js_action ?act ?b s)"
    using Suc.prems(4) unfolding d by simp_all
  obtain r1 where r1: "apply_action (s @ NUL # r) ?act ?b = Some (js_action ?act ?b s @ NUL # r1)"
    using apply_action_spec[OF Suc.prems(1) fit(1)] by blast
  show ?case unfolding d
    using Suc.IH[OF js_action_no_NUL[OF Suc.prems(1) fit(1)], of "Suc i" r1] Suc.prems(2,3) fit(2) r1 i by simp
qed simp

lemma apply_actions_spec:
  assumes "NUL \<notin> set s" "actions_ok a" "args_fit (calls_of a) s"
  shows "\<exists>r'. apply_actions a (s @ NUL # r) = Some (js_actions (calls_of a) s @ NUL # r') \<and>
    NUL \<notin> set (js_actions (calls_of a) s)"
proof -
  have n: "unat (of_int (sa_actions_size a) :: u64) = nat (sa_actions_size a)"
    using assms(2) by (cases "sa_actions_size a") (auto simp: actions_ok_def unat_of_nat64)
  show ?thesis using apply_loop_spec[OF assms(1), of 0 "nat (sa_actions_size a)" a r] assms(2,3)
    by (simp add: apply_actions_def n calls_of_def actions_ok_def)
qed

section \<open>Facts about the cipher\<close>

lemma find_sub_at:
  assumes "take (length f) (drop i xs) = f" "\<forall>j < i. take (length f) (drop j xs) \<noteq> f"
  shows "find_sub f xs = Some i"
proof (cases "find_sub f xs")
  case None
  thus ?thesis using find_sub_None[OF None assms(1)] by simp
next
  case (Some k)
  hence "take (length f) (drop k xs) = f" "\<forall>j < k. take (length f) (drop j xs) \<noteq> f" using find_sub_Some by blast+
  hence "\<not> k < i" "\<not> i < k" using assms by blast+
  thus ?thesis using Some by simp
qed

lemma window_nth: "take (length f) (drop j t) = f \<Longrightarrow> k < length f \<Longrightarrow> j + k < length t \<and> t ! (j + k) = f ! k"
proof -
  assume a: "take (length f) (drop j t) = f" "k < length f"
  have "length f \<le> length t - j" using arg_cong[OF a(1), of length] by simp
  moreover have "t ! (j + k) = take (length f) (drop j t) ! k" using a(2) calculation by simp
  ultimately show ?thesis using a by simp
qed

lemma find_amp: "CHR ''&'' \<notin> set a \<Longrightarrow> find_sub ''&'' (a @ CHR ''&'' # r) = Some (length a)"
  by (induction a) auto

lemma find_no_amp: "CHR ''&'' \<notin> set a \<Longrightarrow> find_sub ''&'' a = None"
  by (induction a) auto

text \<open>A cipher as the player response has it.\<close>

definition cipher_text :: "string \<Rightarrow> string \<Rightarrow> string \<Rightarrow> string" where
  "cipher_text a b c = ''s='' @ a @ ''&sp='' @ b @ ''&url='' @ c"

definition field_plain :: "string \<Rightarrow> bool" where
  "field_plain s \<longleftrightarrow> NUL \<notin> set s \<and> CHR ''&'' \<notin> set s"

lemma field_plainD: "field_plain s \<Longrightarrow> NUL \<notin> set s" "field_plain s \<Longrightarrow> CHR ''&'' \<notin> set s"
  by (simp_all add: field_plain_def)

lemma find_s: "find_sub ''s='' (cipher_text a b c) = Some 0"
  by (simp add: cipher_text_def)

lemma nth_mid: "length p \<le> k \<Longrightarrow> k < length p + length m \<Longrightarrow> (p @ m @ r) ! k \<in> set m"
  by (auto simp: nth_append)

text \<open>An equals sign stands only where a field begins.\<close>

lemma cipher_equals1:
  assumes "CHR ''='' \<notin> set a" "2 \<le> k" "k < length a + 5"
  shows "cipher_text a b c ! k \<noteq> CHR ''=''"
proof -
  have "cipher_text a b c = ''s='' @ (a @ ''&sp'') @ ''='' @ b @ ''&url='' @ c" by (simp add: cipher_text_def)
  thus ?thesis using nth_mid[of "''s=''" k "a @ ''&sp''" "''='' @ b @ ''&url='' @ c"] assms by auto
qed

lemma cipher_equals2:
  assumes "CHR ''='' \<notin> set b" "length a + 6 \<le> k" "k < length a + length b + 10"
  shows "cipher_text a b c ! k \<noteq> CHR ''=''"
proof -
  have "cipher_text a b c = (''s='' @ a @ ''&sp='') @ (b @ ''&url'') @ ''='' @ c" by (simp add: cipher_text_def)
  thus ?thesis using nth_mid[of "''s='' @ a @ ''&sp=''" k "b @ ''&url''" "''='' @ c"] assms by auto
qed

lemma find_sp:
  assumes "CHR ''='' \<notin> set a"
  shows "find_sub ''sp='' (cipher_text a b c) = Some (length a + 3)"
proof (rule find_sub_at)
  let ?t = "cipher_text a b c"
  show "\<forall>j < length a + 3. take (length ''sp='') (drop j ?t) \<noteq> ''sp=''"
  proof (intro allI impI notI)
    fix j assume j: "j < length a + 3" "take (length ''sp='') (drop j ?t) = ''sp=''"
    show False using window_nth[OF j(2), of 2] cipher_equals1[OF assms, of "j + 2" b c] j(1) by simp
  qed
  have "drop (length a + 3) ?t = ''sp='' @ b @ ''&url='' @ c" by (simp add: cipher_text_def eval_nat_numeral)
  thus "take (length ''sp='') (drop (length a + 3) ?t) = ''sp=''" by simp
qed

lemma find_url:
  assumes "CHR ''='' \<notin> set a" "CHR ''='' \<notin> set b"
  shows "find_sub ''url='' (cipher_text a b c) = Some (length a + length b + 7)"
proof (rule find_sub_at)
  let ?t = "cipher_text a b c"
  have amp: "?t ! (length a + 2) = CHR ''&''" by (simp add: cipher_text_def nth_append eval_nat_numeral)
  show "\<forall>j < length a + length b + 7. take (length ''url='') (drop j ?t) \<noteq> ''url=''"
  proof (intro allI impI notI)
    fix j assume j: "j < length a + length b + 7" "take (length ''url='') (drop j ?t) = ''url=''"
    have e: "?t ! (j + 3) = CHR ''=''" "?t ! j = CHR ''u''" using window_nth[OF j(2), of 3] window_nth[OF j(2), of 0] by simp_all
    hence "\<not> j + 3 < length a + 5" "\<not> length a + 6 \<le> j + 3"
      using cipher_equals1[OF assms(1), of "j + 3" b c] cipher_equals2[OF assms(2), of a "j + 3" c] j(1) by auto
    hence "j = length a + 2" by simp
    thus False using e(2) amp by simp
  qed
  have "drop (length a + length b + 7) ?t = ''url='' @ c" by (simp add: cipher_text_def eval_nat_numeral)
  thus "take (length ''url='') (drop (length a + length b + 7) ?t) = ''url=''" by simp
qed

lemma cipher_no_NUL: "field_plain a \<Longrightarrow> field_plain b \<Longrightarrow> field_plain c \<Longrightarrow> NUL \<notin> set (cipher_text a b c)"
  by (simp add: cipher_text_def field_plain_def)

lemma strstr_block:
  assumes "NUL \<notin> set t" "p \<le> length t"
  shows "strstr (t @ [NUL]) p needle = Some (map_option ((+) p) (find_sub needle (drop p t)))"
proof -
  have d: "drop p (t @ [NUL]) = drop p t @ NUL # []" using assms(2) by simp
  have n: "NUL \<notin> set (drop p t)" using assms(1) by (auto dest: in_set_dropD)
  show ?thesis unfolding strstr_def d by (simp add: strlen_block[OF n, of "[]", simplified] cstr_append[OF n, of "[]"] n)
qed

lemma cipher_field_at:
  assumes "NUL \<notin> set t" "find_sub name t = Some i" "drop (i + length name) t = x @ r" "CHR ''&'' \<notin> set x"
    and "r = [] \<or> (\<exists>r'. r = CHR ''&'' # r')"
  shows "cipher_field (t @ [NUL]) name = Some (Some (i + length name, i + length name + length x))"
proof -
  have b: "i + length name \<le> length t" using find_sub_Some[OF assms(2)] by simp
  have l: "length t = i + length name + length x + length r" using arg_cong[OF assms(3), of length] b by simp
  have s0: "strstr (t @ [NUL]) 0 name = Some (Some i)" using strstr_block[OF assms(1), of 0 name] assms(2) by simp
  have "find_sub ''&'' (x @ r) = (if r = [] then None else Some (length x))"
    using assms(4,5) find_amp find_no_amp by auto
  hence "strstr (t @ [NUL]) (i + length name) ''&'' = Some (if r = [] then None else Some (i + length name + length x))"
    using strstr_block[OF assms(1) b, of "''&''"] assms(3) by simp
  thus ?thesis using s0 strlen_block[OF assms(1), of "[]"] l by (simp add: cipher_field_def Let_def)
qed

lemma cipher_fields:
  assumes "field_plain a" "field_plain b" "field_plain c" "CHR ''='' \<notin> set a" "CHR ''='' \<notin> set b"
  defines "m \<equiv> cipher_text a b c @ [NUL]"
  shows "cipher_field m ''s='' = Some (Some (2, 2 + length a))"
    "cipher_field m ''sp='' = Some (Some (length a + 6, length a + 6 + length b))"
    "cipher_field m ''url='' = Some (Some (length a + length b + 11, length a + length b + 11 + length c))"
proof -
  note n = cipher_no_NUL[OF assms(1-3)] and p = field_plainD(2)
  show "cipher_field m ''s='' = Some (Some (2, 2 + length a))" unfolding m_def
    using cipher_field_at[OF n find_s, of a "''&sp='' @ b @ ''&url='' @ c"] p[OF assms(1)] by (simp add: cipher_text_def eval_nat_numeral)
  show "cipher_field m ''sp='' = Some (Some (length a + 6, length a + 6 + length b))" unfolding m_def
    using cipher_field_at[OF n find_sp[OF assms(4)], of b "''&url='' @ c"] p[OF assms(2)] by (simp add: cipher_text_def eval_nat_numeral)
  show "cipher_field m ''url='' = Some (Some (length a + length b + 11, length a + length b + 11 + length c))" unfolding m_def
    using cipher_field_at[OF n find_url[OF assms(4,5)], of c "[]"] p[OF assms(3)] by (simp add: cipher_text_def eval_nat_numeral)
qed

lemma decode_field_spec:
  assumes "drop s m = x @ NUL # r" "NUL \<notin> set x" "e = s + length x"
  shows "\<exists>z. decode_field (\<lambda>_. True) m (s, e) = Some (pct_decode x @ NUL # z)"
  using urldecode_loop_spec[OF assms(1,2), of 0 "replicate (length x + 1) NUL"] assms(3)
  by (auto simp: decode_field_def calloc_def urldecode_def)

lemma append_sig_spec:
  assumes "NUL \<notin> set u" "NUL \<notin> set p" "NUL \<notin> set s"
  shows "\<exists>z. append_sig (\<lambda>_. True) (u @ NUL # r1) (p @ NUL # r2) (s @ NUL # r3) = Some ((u @ ''&'' @ p @ ''='' @ s) @ NUL # z)"
  using assms by (simp add: append_sig_def strlen_block cstr_append blit_def Let_def)

lemma decipher_url_spec:
  assumes "field_plain a" "field_plain b" "field_plain c" "CHR ''='' \<notin> set a" "CHR ''='' \<notin> set b"
    and "actions_ok acts" "args_fit (calls_of acts) (pct_decode a)"
  shows "\<exists>z. decipher_url (\<lambda>_. True) acts (cipher_text a b c @ [NUL]) =
    Some (Some ((pct_decode (pct_decode c) @ ''&'' @ pct_decode b @ ''='' @ js_actions (calls_of acts) (pct_decode a)) @ NUL # z))"
proof -
  note n = cipher_no_NUL[OF assms(1-3)] and F = cipher_fields[OF assms(1-5)]
  note N = field_plainD(1)[OF assms(1)] field_plainD(1)[OF assms(2)] field_plainD(1)[OF assms(3)]
  let ?m = "''s='' @ a @ NUL # ''sp='' @ b @ NUL # ''url='' @ c @ [NUL]"
  have dup: "strdup (\<lambda>_. True) (cipher_text a b c @ [NUL]) = Some (cipher_text a b c @ [NUL])"
    using strlen_block[OF n, of "[]"] by (simp add: strdup_def)
  have w: "(cipher_text a b c @ [NUL])[2 + length a := NUL, length a + 6 + length b := NUL,
      length a + length b + 11 + length c := NUL] = ?m"
    by (simp add: cipher_text_def list_update_append eval_nat_numeral)
  have len: "length (cipher_text a b c @ [NUL]) = length a + length b + length c + 12" by (simp add: cipher_text_def)
  have d: "drop 2 ?m = a @ NUL # ''sp='' @ b @ NUL # ''url='' @ c @ [NUL]"
    "drop (length a + 6) ?m = b @ NUL # ''url='' @ c @ [NUL]" "drop (length a + length b + 11) ?m = c @ NUL # []"
    by (simp_all add: eval_nat_numeral)
  obtain z1 z2 z3 where z1: "decode_field (\<lambda>_. True) ?m (2, 2 + length a) = Some (pct_decode a @ NUL # z1)"
    and z2: "decode_field (\<lambda>_. True) ?m (length a + 6, length a + 6 + length b) = Some (pct_decode b @ NUL # z2)"
    and z3: "decode_field (\<lambda>_. True) ?m (length a + length b + 11, length a + length b + 11 + length c) = Some (pct_decode c @ NUL # z3)"
    using decode_field_spec[OF d(1) N(1) refl] decode_field_spec[OF d(2) N(2) refl] decode_field_spec[OF d(3) N(3) refl] by blast
  note D = pct_decode_no_NUL[OF N(1)] pct_decode_no_NUL[OF N(2)] pct_decode_no_NUL[OF N(3)]
  obtain z4 where z4: "urldecode_inplace (pct_decode c @ NUL # z3) =
      Some (pct_decode (pct_decode c) @ NUL # z4, length (pct_decode (pct_decode c)))"
    using urldecode_inplace_loop_spec[of 0 "pct_decode c @ NUL # z3" "pct_decode c" z3 0] D(3)
    by (auto simp: urldecode_inplace_def)
  obtain z5 where z5: "apply_actions acts (pct_decode a @ NUL # z1) = Some (js_actions (calls_of acts) (pct_decode a) @ NUL # z5)"
    "NUL \<notin> set (js_actions (calls_of acts) (pct_decode a))"
    using apply_actions_spec[OF D(1) assms(6,7), of z1] by blast
  obtain z where z: "append_sig (\<lambda>_. True) (pct_decode (pct_decode c) @ NUL # z4) (pct_decode b @ NUL # z2)
      (js_actions (calls_of acts) (pct_decode a) @ NUL # z5) =
      Some ((pct_decode (pct_decode c) @ ''&'' @ pct_decode b @ ''='' @ js_actions (calls_of acts) (pct_decode a)) @ NUL # z)"
    using append_sig_spec[OF pct_decode_no_NUL[OF D(3)] D(2) z5(2), of z4 z2 z5] by blast
  let ?t = "cipher_text a b c @ [NUL]"
  have W: "wr ?t (2 + length a) NUL = Some (?t[2 + length a := NUL])"
    "wr (?t[2 + length a := NUL]) (length a + 6 + length b) NUL = Some (?t[2 + length a := NUL, length a + 6 + length b := NUL])"
    "wr (?t[2 + length a := NUL, length a + 6 + length b := NUL]) (length a + length b + 11 + length c) NUL = Some ?m"
    unfolding w[symmetric] by (simp_all only: wr_in length_list_update len)
  have "decipher_url (\<lambda>_. True) acts ?t =
    map_option Some (append_sig (\<lambda>_. True) (pct_decode (pct_decode c) @ NUL # z4) (pct_decode b @ NUL # z2)
      (js_actions (calls_of acts) (pct_decode a) @ NUL # z5))"
    by (simp only: decipher_url_def dup F W z1 z2 z3 z4 z5(1) bind.bind_lunit option.case fst_conv snd_conv prod.case)
  thus ?thesis using z by simp
qed

section \<open>Properties\<close>

text \<open>
  C5. The actions on a signature do what the functions of the player do in JavaScript, one after
  the other: reversing, swapping the first character with another, and dropping a prefix, for up
  to as many actions as are recorded, with swap arguments below the length and splice arguments
  up to the length that is left. The block keeps its terminator, and nothing behind it is
  touched.
\<close>

theorem actions_match_javascript:
  assumes "NUL \<notin> set s" "actions_ok a" "args_fit (calls_of a) s"
  shows "\<exists>m. apply_actions a (s @ NUL # r) = Some m \<and> cstr m = js_actions (calls_of a) s"
  using apply_actions_spec[OF assms, of r] by (auto simp: cstr_append)

definition demo_actions :: ytdl_sig_actions where
  "demo_actions = (fst (ytdl_sig_actions_init True True))
     \<lparr>sa_actions := [2, 1, 4], sa_actions_arg := [0, 3, 2], sa_actions_size := 3\<rparr>"

lemma demo_actions_ok: "actions_ok demo_actions" "calls_of demo_actions = [(2, 0), (1, 3), (4, 2)]"
  by (simp_all add: demo_actions_def actions_ok_def calls_of_def ytdl_sig_actions_init_def)

lemma demo_fit: "args_fit [(2, 0), (1, 3), (4, 2)] ''abcdef''" "js_actions [(2, 0), (1, 3), (4, 2)] ''abcdef'' = ''dfba''"
  by code_simp+

lemma actions_match_javascript_witness:
  "\<exists>m. apply_actions demo_actions (''abcdef'' @ NUL # []) = Some m \<and> cstr m = ''dfba''"
  using actions_match_javascript[of "''abcdef''" demo_actions "[]"] demo_actions_ok demo_fit by auto

text \<open>A swap argument that is not below the length is reduced only where the character is read.\<close>

lemma swap_writes_outside: "apply_action (''ab'' @ [NUL]) YTDL_SIG_ACTION_SWAP 4 = None" "js_action YTDL_SIG_ACTION_SWAP 4 ''ab'' = ''ab''"
  by code_simp+

text \<open>A splice argument that is greater than the length leaves the text, where JavaScript empties it.\<close>

lemma splice_not_clamped: "apply_action (''ab'' @ [NUL]) YTDL_SIG_ACTION_SPLICE 3 = Some (''ab'' @ [NUL])"
  "js_action YTDL_SIG_ACTION_SPLICE 3 ''ab'' = []"
  by code_simp+

text \<open>
  C34. \<open>urldecode\<close> decodes a terminated text into another block exactly when that block has room for
  the decoded text and a terminator: then nothing is written outside the block, the answer is the
  length of the decoded text, and decoding in place gives the same text and the same length, inside
  the block of the text. A block with less room is overrun. In particular the block may be shorter than
  the text when there are escapes, and has to be one byte longer than \<open>strlen\<close> when there are none.
\<close>

theorem urldecode_same_in_place:
  assumes "NUL \<notin> set s"
  shows "(\<exists>m. urldecode_inplace (s @ NUL # r) = Some (m, length (pct_decode s)) \<and> cstr m = pct_decode s \<and> length m = length (s @ NUL # r)) \<and>
    (if length (pct_decode s) < length dst
     then \<exists>m. urldecode dst (s @ NUL # r) 0 = Some (m, length (pct_decode s)) \<and> cstr m = pct_decode s \<and> length m = length dst
     else urldecode dst (s @ NUL # r) 0 = None)"
proof -
  have d: "drop 0 (s @ NUL # r) = s @ NUL # r" by simp
  note P = pct_decode_no_NUL[OF assms] pct_decode_length[of s]
  obtain z where z: "urldecode_inplace_loop (s @ NUL # r) 0 0 = Some (pct_decode s @ NUL # z, length (pct_decode s))"
    "length z = length (s @ NUL # r) - (length (pct_decode s) + 1)"
    using urldecode_inplace_loop_spec[OF d assms, of 0] by auto
  show ?thesis using z P urldecode_loop_exact[OF d assms, of 0 dst] urldecode_loop_overruns[OF d assms, of dst 0]
    by (auto simp: urldecode_def urldecode_inplace_def cstr_append)
qed

lemma urldecode_same_in_place_witness:
  "\<exists>m m'. urldecode_inplace (''a%20b'' @ NUL # []) = Some (m, 3) \<and> cstr m = ''a b'' \<and>
     urldecode (replicate 4 NUL) (''a%20b'' @ NUL # []) 0 = Some (m', 3) \<and> cstr m' = ''a b'' \<and>
     urldecode (replicate 3 NUL) (''a%20b'' @ NUL # []) 0 = None"
proof -
  have d: "pct_decode ''a%20b'' = ''a b''" by code_simp
  show ?thesis using urldecode_same_in_place[of "''a%20b''" "[]" "replicate 4 NUL"]
    urldecode_same_in_place[of "''a%20b''" "[]" "replicate 3 NUL"] unfolding d by auto
qed

text \<open>
  The comment at \<open>urldecode\<close> asks for \<open>strlen (src)\<close> bytes: for a text with no escapes the terminator is
  written behind such a block.
\<close>

lemma pct_decode_unescaped: "CHR ''%'' \<notin> set s \<Longrightarrow> pct_decode s = s"
proof (induction s)
  case (Cons c s)
  then have "\<not> escaped (c # s)" by (auto simp: escaped_def)
  then show ?case using Cons by (simp add: pct_decode_plain)
qed simp

lemma urldecode_needs_terminator:
  "NUL \<notin> set s \<Longrightarrow> CHR ''%'' \<notin> set s \<Longrightarrow> length dst = length s \<Longrightarrow> urldecode dst (s @ NUL # r) 0 = None"
  using urldecode_loop_overruns[of 0 "s @ NUL # r" s r dst 0] by (simp add: urldecode_def pct_decode_unescaped)

text \<open>The encoding of RFC 3986: every character but the unreserved ones becomes an escape.\<close>

definition hex_digit :: "nat \<Rightarrow> char" where
  "hex_digit n = char_of (if n < 10 then 48 + n else 55 + n)"

definition unreserved :: "char \<Rightarrow> bool" where
  "unreserved c \<longleftrightarrow> isxdigit c \<or> 65 \<le> uchar c \<and> uchar c \<le> 90 \<or> 97 \<le> uchar c \<and> uchar c \<le> 122 \<or> c \<in> set ''-._~''"

fun pct_encode :: "string \<Rightarrow> string" where
  "pct_encode [] = []"
| "pct_encode (c # s) =
     (if unreserved c then [c] else [CHR ''%'', hex_digit (uchar c div 16), hex_digit (uchar c mod 16)]) @ pct_encode s"

lemma hex_digit_ok: "n < 16 \<Longrightarrow> isxdigit (hex_digit n) \<and> xdigit_val (hex_digit n) = n"
  by (auto simp: isxdigit_def xdigit_val_def hex_digit_def)

lemma hex_escape: "escape_of (hex_digit (uchar c div 16)) (hex_digit (uchar c mod 16)) = c"
proof -
  have "uchar c div 16 < 16" using uchar_less[of c] by (simp add: less_mult_imp_div_less)
  thus ?thesis using hex_digit_ok[of "uchar c div 16"] hex_digit_ok[of "uchar c mod 16"] by (simp add: escape_of_def)
qed

lemma pct_decode_encode: "NUL \<notin> set s \<Longrightarrow> pct_decode (pct_encode s) = s"
proof (induction s)
  case (Cons c s)
  have "uchar c div 16 < 16" using uchar_less[of c] by (simp add: less_mult_imp_div_less)
  note h = hex_digit_ok[OF this] hex_digit_ok[of "uchar c mod 16"]
  show ?case
  proof (cases "unreserved c")
    case True
    hence "c \<noteq> CHR ''%''" by (auto simp: unreserved_def isxdigit_def uchar_def)
    hence "\<not> escaped (c # pct_encode s)" by (simp add: escaped_def)
    thus ?thesis using True Cons by (simp add: pct_decode_plain)
  next
    case False
    thus ?thesis using Cons h hex_escape[of c] by (auto simp: pct_decode_escape)
  qed
qed simp

lemma pct_encode_chars: "c \<in> set (pct_encode s) \<Longrightarrow> unreserved c \<or> isxdigit c \<or> c = CHR ''%''"
proof (induction s)
  case (Cons d s)
  have "uchar d div 16 < 16" using uchar_less[of d] by (simp add: less_mult_imp_div_less)
  thus ?case using Cons hex_digit_ok[of "uchar d div 16"] hex_digit_ok[of "uchar d mod 16"] by (auto split: if_splits)
qed simp

lemma pct_encode_plain: "NUL \<notin> set (pct_encode s)" "CHR ''&'' \<notin> set (pct_encode s)" "CHR ''='' \<notin> set (pct_encode s)"
  using pct_encode_chars[of NUL s] pct_encode_chars[of "CHR ''&''" s] pct_encode_chars[of "CHR ''=''" s]
  by (auto simp: unreserved_def isxdigit_def uchar_def)

text \<open>
  C35. Decoding undoes the encoding of RFC 3986, for every text without a NUL.
\<close>

theorem urldecode_encode:
  assumes "NUL \<notin> set s"
  shows "\<exists>m n. urldecode_inplace (pct_encode s @ [NUL]) = Some (m, n) \<and> cstr m = s \<and> n = length s"
proof -
  obtain z where "urldecode_inplace_loop (pct_encode s @ [NUL]) 0 0 = Some (s @ NUL # z, length s)"
    using urldecode_inplace_loop_spec[of 0 "pct_encode s @ [NUL]" "pct_encode s" "[]" 0] pct_encode_plain(1)[of s]
      pct_decode_encode[OF assms] by auto
  thus ?thesis using assms by (simp add: urldecode_inplace_def cstr_append)
qed

lemma urldecode_encode_witness:
  "\<exists>m n. urldecode_inplace (pct_encode ''a b&'' @ [NUL]) = Some (m, n) \<and> cstr m = ''a b&''"
  using urldecode_encode[of "''a b&''"] by auto

text \<open>
  C7. The URL of a format that has a cipher of the form the player response gives, with plain
  fields, memory at hand, and actions whose swap arguments are below the length and whose splice
  arguments are at most the length (\<open>args_fit\<close>): the URL decoded twice, the name of the signature parameter, and
  the signature put through the actions, passed to the transforming function; what that gives
  is stored as the format's URL.
\<close>

theorem cipher_url_deciphered:
  assumes "f_url format = None" "ytdl_info_format_populate format = Some f"
    and "f_cipher f = Some (cipher_text a b c @ [NUL])" "i_sig_actions info = Some acts"
    and "field_plain a" "field_plain b" "field_plain c" "CHR ''='' \<notin> set a" "CHR ''='' \<notin> set b"
    and "actions_ok acts" "args_fit (calls_of acts) (pct_decode a)"
    and "JS_Call (sa_func acts)
      (pct_decode (pct_decode c) @ ''&'' @ pct_decode b @ ''='' @ js_actions (calls_of acts) (pct_decode a)) = JsString u"
    and "NUL \<notin> set u"
  shows "ytdl_info_get_format_url2 (\<lambda>_. True) JS_Call info format = Some (f\<lparr>f_url := Some (u @ [NUL])\<rparr>, Some (u @ [NUL]))"
proof -
  let ?u = "pct_decode (pct_decode c) @ ''&'' @ pct_decode b @ ''='' @ js_actions (calls_of acts) (pct_decode a)"
  obtain z where z: "decipher_url (\<lambda>_. True) acts (cipher_text a b c @ [NUL]) = Some (Some (?u @ NUL # z))"
    using decipher_url_spec[OF assms(5-11)] by blast
  note N = field_plainD(1)[OF assms(5)] field_plainD(1)[OF assms(6)] field_plainD(1)[OF assms(7)]
  have "NUL \<notin> set ?u" using pct_decode_no_NUL[OF N(2)] pct_decode_no_NUL[OF pct_decode_no_NUL[OF N(3)]]
      apply_actions_spec[OF pct_decode_no_NUL[OF N(1)] assms(10,11), of "[]"] by auto
  hence "cstr (?u @ NUL # z) = ?u" by (rule cstr_append)
  moreover have "strdup (\<lambda>_. True) (u @ [NUL]) = Some (u @ [NUL])"
    using strlen_block[OF assms(13), of "[]"] by (simp add: strdup_def)
  ultimately show ?thesis unfolding ytdl_info_get_format_url2_def using assms(1-4,12) z
    by (simp only: not_True_eq_False if_False option.case bind.bind_lunit js_result.case simp_thms)
qed

definition demo_cipher :: string where
  "demo_cipher = cipher_text (pct_encode ''abcdef'') (pct_encode ''sig'') (pct_encode (pct_encode ''http://h''))"

definition demo_cipher_format :: ytdl_info_format where
  "demo_cipher_format = new_format (JObj [(''signatureCipher'', JStr demo_cipher)])"

lemma cipher_url_deciphered_witness:
  "\<exists>f. ytdl_info_get_format_url2 (\<lambda>_. True) (\<lambda>_. JsString) (ytdl_info_ctx_init\<lparr>i_sig_actions := Some demo_actions\<rparr>) demo_cipher_format =
     Some (f, Some (''http://h&sig=dfba'' @ [NUL]))"
proof -
  let ?f = "demo_cipher_format\<lparr>f_cipher := Some (demo_cipher @ [NUL]), f_flags := 1\<rparr>"
  have p: "ytdl_info_format_populate demo_cipher_format = Some ?f"
    by (simp add: demo_cipher_format_def ytdl_info_format_populate_def new_format_def yyjson_obj_items_def format_key_def
        format_setters_def yyjson_get_str_def YTDL_INFO_FORMAT_POPULATED_def)
  have c: "f_cipher ?f = Some (cipher_text (pct_encode ''abcdef'') (pct_encode ''sig'') (pct_encode (pct_encode ''http://h'')) @ [NUL])"
    by (simp add: demo_cipher_def)
  have d: "pct_decode (pct_encode ''abcdef'') = ''abcdef''" "pct_decode (pct_encode ''sig'') = ''sig''"
    "pct_decode (pct_decode (pct_encode (pct_encode ''http://h''))) = ''http://h''"
    using pct_decode_encode[of "''abcdef''"] pct_decode_encode[of "''sig''"] pct_decode_encode[of "''http://h''"]
      pct_decode_encode[OF pct_encode_plain(1), of "''http://h''"] by (simp_all del: pct_encode.simps)
  have nf: "f_url demo_cipher_format = None" by (simp add: demo_cipher_format_def new_format_def)
  have fits: "args_fit (calls_of demo_actions) (pct_decode (pct_encode ''abcdef''))" unfolding demo_actions_ok(2) d by (rule demo_fit(1))
  have fp: "field_plain (pct_encode s)" for s using pct_encode_plain by (simp add: field_plain_def)
  have call: "JsString (pct_decode (pct_decode (pct_encode (pct_encode ''http://h''))) @ ''&'' @ pct_decode (pct_encode ''sig'') @ ''='' @
      js_actions (calls_of demo_actions) (pct_decode (pct_encode ''abcdef''))) = JsString ''http://h&sig=dfba''"
    unfolding d demo_actions_ok(2) demo_fit(2) by simp
  have i: "i_sig_actions (ytdl_info_ctx_init\<lparr>i_sig_actions := Some demo_actions\<rparr>) = Some demo_actions" by simp
  show ?thesis
    using cipher_url_deciphered[OF nf p c i fp fp fp pct_encode_plain(3) pct_encode_plain(3) demo_actions_ok(1) fits, of "\<lambda>_. JsString", OF call]
    by auto
qed

end
