(* ===== verification/Dash.thy ===== *)
theory Dash
  imports Cipher
begin

text \<open>
  The DASH manifests of \<open>src/dash.c\<close> (\<open>include/ytdl/dash.h\<close>): the choice of a video and an audio
  representation in the XML tree of a manifest, and the iterators over their segments.

  libxml2 is not part of the repository. A document is the tree its node structures form: of a
  node the code reads whether it is an element, its name, its attributes and its children, in
  order; a node pointer that is moved along \<open>next\<close> is the list of a node and the siblings behind
  it, empty for \<open>NULL\<close>. The functions that are called on the tree (\<open>xmlGetProp\<close>,
  \<open>xmlNodeListGetString\<close>) and the parser are parameters; their strings are blocks. What the
  fields with the prefixes \<open>a_\<close> and \<open>v_\<close> hold is one record each.
\<close>

datatype xml_node =
    XElement string "(string \<times> xml_node list) list" "xml_node list"
  | XOther

fun is_element :: "xml_node \<Rightarrow> bool" where
  "is_element (XElement _ _ _) = True"
| "is_element XOther = False"

fun node_children :: "xml_node \<Rightarrow> xml_node list" where
  "node_children (XElement _ _ cs) = cs"
| "node_children XOther = []"

fun node_attrs :: "xml_node \<Rightarrow> (string \<times> xml_node list) list" where
  "node_attrs (XElement _ as _) = as"
| "node_attrs XOther = []"

text \<open>An element with the name.\<close>

fun named :: "string \<Rightarrow> xml_node \<Rightarrow> bool" where
  "named name (XElement n _ _) \<longleftrightarrow> n = name"
| "named name XOther \<longleftrightarrow> False"

record libxml =
  xmlGetProp :: "xml_node \<Rightarrow> string \<Rightarrow> string option"
  xmlNodeListGetString :: "xml_node list \<Rightarrow> string option"

record dash_stream =
  ds_rep :: "xml_node option"
  ds_bandwidth :: int
  ds_base_url :: "string option"
  ds_segment_path :: "string option"
  ds_initial_segment :: "string option"
  ds_segment_list :: "xml_node list"
  ds_segment_count :: u64

text \<open>The document is given by its root element, if it has one.\<close>

record ytdl_dash_ctx =
  dash_doc :: "xml_node option"
  dash_a :: dash_stream
  dash_v :: dash_stream

definition stream_0 :: dash_stream where
  "stream_0 = \<lparr>ds_rep = None, ds_bandwidth = 0, ds_base_url = None, ds_segment_path = None,
     ds_initial_segment = None, ds_segment_list = [], ds_segment_count = 0\<rparr>"

definition ytdl_dash_ctx_init :: "(string \<Rightarrow> xml_node option option) \<Rightarrow> string \<Rightarrow> ytdl_dash_ctx \<times> int" where
  "ytdl_dash_ctx_init xmlReadMemory buf =
     (case xmlReadMemory buf of
        None \<Rightarrow> (\<lparr>dash_doc = None, dash_a = stream_0, dash_v = stream_0\<rparr>, -1)
      | Some doc \<Rightarrow> (\<lparr>dash_doc = doc, dash_a = stream_0, dash_v = stream_0\<rparr>, 0))"

text \<open>What \<open>ytdl_dash_ctx_free\<close> releases beside the document, in order.\<close>

definition stream_strings :: "dash_stream \<Rightarrow> string list" where
  "stream_strings s =
     (case ds_base_url s of None \<Rightarrow> [] | Some u \<Rightarrow> [u]) @ (case ds_segment_path s of None \<Rightarrow> [] | Some u \<Rightarrow> [u]) @
     (case ds_initial_segment s of None \<Rightarrow> [] | Some u \<Rightarrow> [u])"

definition ytdl_dash_ctx_free :: "ytdl_dash_ctx \<Rightarrow> string list" where
  "ytdl_dash_ctx_free ctx = stream_strings (dash_a ctx) @ stream_strings (dash_v ctx)"

section \<open>Choosing the representations\<close>

definition better :: "dash_stream \<Rightarrow> int \<Rightarrow> dash_stream \<times> bool" where
  "better s bw = (if bw > ds_bandwidth s then (s\<lparr>ds_bandwidth := bw\<rparr>, True) else (s, False))"

definition ytdl_dash_get_best_representation ::
    "libxml \<Rightarrow> ytdl_dash_ctx \<Rightarrow> xml_node \<Rightarrow> xml_node \<Rightarrow> bool \<Rightarrow> (ytdl_dash_ctx \<times> bool) option" where
  "ytdl_dash_get_best_representation xml ctx adaptation representation is_video =
     (case xmlGetProp xml representation ''bandwidth'' of
        None \<Rightarrow> Some (ctx, False)
      | Some attr \<Rightarrow>
          do { bw \<leftarrow> atoll (Some attr);
               Some (if is_video then (let (s, ok) = better (dash_v ctx) bw in (ctx\<lparr>dash_v := s\<rparr>, ok))
                     else (let (s, ok) = better (dash_a ctx) bw in (ctx\<lparr>dash_a := s\<rparr>, ok))) })"

type_synonym pick_filter = "ytdl_dash_ctx \<Rightarrow> xml_node \<Rightarrow> xml_node \<Rightarrow> bool \<Rightarrow> (ytdl_dash_ctx \<times> bool) option"

definition set_rep :: "ytdl_dash_ctx \<Rightarrow> xml_node \<Rightarrow> bool \<Rightarrow> ytdl_dash_ctx" where
  "set_rep ctx rep is_video =
     (if is_video then ctx\<lparr>dash_v := (dash_v ctx)\<lparr>ds_rep := Some rep\<rparr>\<rparr>
      else ctx\<lparr>dash_a := (dash_a ctx)\<lparr>ds_rep := Some rep\<rparr>\<rparr>)"

fun pick_loop :: "pick_filter \<Rightarrow> ytdl_dash_ctx \<Rightarrow> xml_node \<Rightarrow> bool \<Rightarrow> xml_node list \<Rightarrow> ytdl_dash_ctx option" where
  "pick_loop filt ctx adaptation is_video [] = Some ctx"
| "pick_loop filt ctx adaptation is_video (n # ns) =
     (if named ''Representation'' n
      then (case filt ctx adaptation n is_video of
          None \<Rightarrow> None
        | Some (ctx, ok) \<Rightarrow> pick_loop filt (if ok then set_rep ctx n is_video else ctx) adaptation is_video ns)
      else pick_loop filt ctx adaptation is_video ns)"

definition ytdl__dash_representation_pick :: "pick_filter \<Rightarrow> ytdl_dash_ctx \<Rightarrow> xml_node \<Rightarrow> bool \<Rightarrow> ytdl_dash_ctx option" where
  "ytdl__dash_representation_pick filt ctx adaptation is_video =
     pick_loop filt ctx adaptation is_video (node_children adaptation)"

text \<open>The attributes of an adaptation set: each \<open>mimeType\<close> starts a round over its representations.\<close>

fun mime_loop :: "libxml \<Rightarrow> pick_filter \<Rightarrow> ytdl_dash_ctx \<Rightarrow> xml_node \<Rightarrow> (string \<times> xml_node list) list \<Rightarrow> ytdl_dash_ctx option" where
  "mime_loop xml filt ctx adapt [] = Some ctx"
| "mime_loop xml filt ctx adapt ((name, val) # attrs) =
     do { ctx \<leftarrow>
            (if name = ''mimeType''
             then do { mimeType \<leftarrow> xmlNodeListGetString xml val;
                       a \<leftarrow> strncmp_at mimeType 0 ''audio'' 5;
                       if a = 0 then ytdl__dash_representation_pick filt ctx adapt False
                       else do { v \<leftarrow> strncmp_at mimeType 0 ''video'' 5;
                         if v = 0 then ytdl__dash_representation_pick filt ctx adapt True else Some ctx } }
             else Some ctx);
          mime_loop xml filt ctx adapt attrs }"

fun adapt_loop :: "libxml \<Rightarrow> pick_filter \<Rightarrow> ytdl_dash_ctx \<Rightarrow> xml_node list \<Rightarrow> ytdl_dash_ctx option" where
  "adapt_loop xml filt ctx [] = Some ctx"
| "adapt_loop xml filt ctx (n # ns) =
     do { ctx \<leftarrow> (if named ''AdaptationSet'' n then mime_loop xml filt ctx n (node_attrs n) else Some ctx);
          adapt_loop xml filt ctx ns }"

fun rep_loop :: "libxml \<Rightarrow> dash_stream \<Rightarrow> xml_node list \<Rightarrow> dash_stream" where
  "rep_loop xml s [] = s"
| "rep_loop xml s (n # ns) =
     rep_loop xml
       (if named ''BaseURL'' n then s\<lparr>ds_base_url := xmlNodeListGetString xml (node_children n)\<rparr>
        else if named ''SegmentList'' n then s\<lparr>ds_segment_list := n # ns\<rparr>
        else s) ns"

fun segment_loop :: "libxml \<Rightarrow> dash_stream \<Rightarrow> xml_node list \<Rightarrow> dash_stream" where
  "segment_loop xml s [] = s"
| "segment_loop xml s (n # ns) =
     segment_loop xml
       (if named ''Initialization'' n
        then s\<lparr>ds_initial_segment := xmlGetProp xml n ''sourceURL'', ds_segment_count := ds_segment_count s + 1\<rparr>
        else if named ''SegmentURL'' n then s\<lparr>ds_segment_count := ds_segment_count s + 1\<rparr>
        else s) ns"

text \<open>The last rounds: the segments are counted, and the cursor moves to the first of them.\<close>

definition open_segments :: "libxml \<Rightarrow> dash_stream \<Rightarrow> dash_stream" where
  "open_segments xml s =
     (let cs = node_children (hd (ds_segment_list s)) in (segment_loop xml s cs)\<lparr>ds_segment_list := cs\<rparr>)"

definition ytdl_dash_get_format :: "libxml \<Rightarrow> pick_filter \<Rightarrow> ytdl_dash_ctx \<Rightarrow> (ytdl_dash_ctx \<times> int) option" where
  "ytdl_dash_get_format xml filt ctx =
     do { root_el \<leftarrow> dash_doc ctx;
          if \<not> named ''MPD'' root_el then Some (ctx, -1)
          else (case dropWhile (\<lambda>n. \<not> is_element n) (node_children root_el) of
              [] \<Rightarrow> None
            | period_el # _ \<Rightarrow>
                if \<not> named ''Period'' period_el then Some (ctx, -1)
                else do { ctx \<leftarrow> adapt_loop xml filt ctx (node_children period_el);
                  case (ds_rep (dash_v ctx), ds_rep (dash_a ctx)) of
                    (Some rep_v, Some rep_a) \<Rightarrow>
                      let v = rep_loop xml (dash_v ctx) (node_children rep_v);
                          a = rep_loop xml (dash_a ctx) (node_children rep_a);
                          ctx = ctx\<lparr>dash_a := a, dash_v := v\<rparr>
                      in if ds_base_url a = None \<or> ds_segment_list a = [] \<or> ds_segment_list v = [] \<or> ds_base_url v = None
                         then Some (ctx, -1)
                         else Some (ctx\<lparr>dash_a := open_segments xml a, dash_v := open_segments xml v\<rparr>, 0)
                  | _ \<Rightarrow> Some (ctx, -1) }) }"

section \<open>The segments\<close>

fun find_segment :: "xml_node list \<Rightarrow> xml_node list" where
  "find_segment [] = []"
| "find_segment (n # ns) = (if named ''SegmentURL'' n then n # ns else find_segment ns)"

definition next_segment :: "libxml \<Rightarrow> (nat \<Rightarrow> bool) \<Rightarrow> dash_stream \<Rightarrow> (dash_stream \<times> string option) option" where
  "next_segment xml mem s =
     (case (ds_segment_path s, ds_initial_segment s) of
        (None, Some i) \<Rightarrow> do { p \<leftarrow> strdup mem i; Some (s\<lparr>ds_segment_path := Some p\<rparr>, Some p) }
      | _ \<Rightarrow>
          (case find_segment (ds_segment_list s) of
             [] \<Rightarrow> Some (s\<lparr>ds_segment_path := None, ds_segment_list := []\<rparr>, None)
           | n # ns \<Rightarrow>
               let p = xmlGetProp xml n ''media''
               in Some (s\<lparr>ds_segment_path := p, ds_segment_list := ns\<rparr>, p)))"

definition ytdl_dash_next_video_segment :: "libxml \<Rightarrow> (nat \<Rightarrow> bool) \<Rightarrow> ytdl_dash_ctx \<Rightarrow> (ytdl_dash_ctx \<times> string option) option" where
  "ytdl_dash_next_video_segment xml mem ctx =
     map_option (\<lambda>(s, r). (ctx\<lparr>dash_v := s\<rparr>, r)) (next_segment xml mem (dash_v ctx))"

definition ytdl_dash_next_audio_segment :: "libxml \<Rightarrow> (nat \<Rightarrow> bool) \<Rightarrow> ytdl_dash_ctx \<Rightarrow> (ytdl_dash_ctx \<times> string option) option" where
  "ytdl_dash_next_audio_segment xml mem ctx =
     map_option (\<lambda>(s, r). (ctx\<lparr>dash_a := s\<rparr>, r)) (next_segment xml mem (dash_a ctx))"

section \<open>Facts about the choice\<close>

definition stream_of :: "ytdl_dash_ctx \<Rightarrow> bool \<Rightarrow> dash_stream" where
  "stream_of ctx is_video = (if is_video then dash_v ctx else dash_a ctx)"

definition bandwidth_of :: "libxml \<Rightarrow> xml_node \<Rightarrow> int" where
  "bandwidth_of xml r = (case xmlGetProp xml r ''bandwidth'' of None \<Rightarrow> 0 | Some a \<Rightarrow> the (atoll (Some a)))"

text \<open>The representations of a kind in a period, in the order they are seen.\<close>

definition mime_is :: "libxml \<Rightarrow> bool \<Rightarrow> xml_node list \<Rightarrow> bool" where
  "mime_is xml is_video val \<longleftrightarrow>
     (case xmlNodeListGetString xml val of None \<Rightarrow> False
      | Some m \<Rightarrow> take 5 m = (if is_video then ''video'' else ''audio''))"

definition reps_of :: "xml_node \<Rightarrow> xml_node list" where
  "reps_of adapt = filter (named ''Representation'') (node_children adapt)"

definition set_reps :: "libxml \<Rightarrow> bool \<Rightarrow> xml_node \<Rightarrow> (string \<times> xml_node list) list \<Rightarrow> xml_node list" where
  "set_reps xml is_video adapt attrs =
     concat (map (\<lambda>(name, val). if name = ''mimeType'' \<and> mime_is xml is_video val then reps_of adapt else []) attrs)"

definition period_reps :: "libxml \<Rightarrow> bool \<Rightarrow> xml_node list \<Rightarrow> xml_node list" where
  "period_reps xml is_video ns =
     concat (map (\<lambda>n. if named ''AdaptationSet'' n then set_reps xml is_video n (node_attrs n) else []) ns)"

text \<open>What a round with the built-in filter does to a stream.\<close>

definition pick_best :: "libxml \<Rightarrow> dash_stream \<Rightarrow> xml_node \<Rightarrow> dash_stream" where
  "pick_best xml s r =
     (if bandwidth_of xml r > ds_bandwidth s then s\<lparr>ds_bandwidth := bandwidth_of xml r, ds_rep := Some r\<rparr> else s)"

abbreviation best :: "libxml \<Rightarrow> pick_filter" where
  "best xml \<equiv> ytdl_dash_get_best_representation xml"

lemma best_round:
  assumes "best xml ctx adapt r k = Some (ctx1, ok)" "0 \<le> ds_bandwidth (stream_of ctx k)"
  defines "ctx' \<equiv> (if ok then set_rep ctx1 r k else ctx1)"
  shows "stream_of ctx' k = pick_best xml (stream_of ctx k) r" "stream_of ctx' (\<not> k) = stream_of ctx (\<not> k)"
  using assms(1,2) unfolding ctx'_def
  by (auto simp: ytdl_dash_get_best_representation_def stream_of_def pick_best_def bandwidth_of_def better_def set_rep_def Let_def
      bind_eq_Some_conv split: option.splits if_splits prod.splits)

lemma pick_best_mono: "ds_bandwidth s \<le> ds_bandwidth (pick_best xml s r)"
  by (simp add: pick_best_def)

lemma pick_fold_mono: "ds_bandwidth s \<le> ds_bandwidth (foldl (pick_best xml) s rs)"
  by (induction rs arbitrary: s) (auto intro: order_trans[OF pick_best_mono])

lemma pick_loop_best:
  assumes "pick_loop (best xml) ctx adapt k ns = Some ctx'" "0 \<le> ds_bandwidth (stream_of ctx k)"
  shows "stream_of ctx' k = foldl (pick_best xml) (stream_of ctx k) (filter (named ''Representation'') ns) \<and>
    stream_of ctx' (\<not> k) = stream_of ctx (\<not> k)"
  using assms
proof (induction ns arbitrary: ctx)
  case (Cons n ns)
  show ?case
  proof (cases "named ''Representation'' n")
    case True
    then obtain ctx1 ok where b: "best xml ctx adapt n k = Some (ctx1, ok)"
      and l: "pick_loop (best xml) (if ok then set_rep ctx1 n k else ctx1) adapt k ns = Some ctx'"
      using Cons.prems(1) by (auto split: option.splits)
    note r = best_round[OF b Cons.prems(2)]
    have "0 \<le> ds_bandwidth (stream_of (if ok then set_rep ctx1 n k else ctx1) k)"
      unfolding r(1) using Cons.prems(2) pick_best_mono[of "stream_of ctx k" xml n] by linarith
    from Cons.IH[OF l this] show ?thesis using True r by simp
  next
    case False
    thus ?thesis using Cons by simp
  qed
qed simp

lemma strncmp_at_zero:
  "strncmp_at m p w (length w) = Some d \<Longrightarrow> NUL \<notin> set w \<Longrightarrow> d = 0 \<longleftrightarrow> take (length w) (drop p m) = w"
proof (induction w arbitrary: p)
  case (Cons c w)
  have p: "p < length m" using Cons.prems(1) by (cases "p < length m") auto
  have t: "take (length (c # w)) (drop p m) = m ! p # take (length w) (drop (Suc p) m)"
    using p by (simp add: Cons_nth_drop_Suc[symmetric])
  show ?case
  proof (cases "m ! p = c")
    case True
    thus ?thesis using Cons p t by (auto simp: Let_def)
  next
    case False
    thus ?thesis using Cons.prems p t uchar_inj[of "m ! p" c] by (auto simp: Let_def)
  qed
qed simp

lemma strncmp_5:
  assumes "strncmp_at m 0 w 5 = Some d" "length w = 5" "NUL \<notin> set w"
  shows "d = 0 \<longleftrightarrow> take 5 m = w"
  using strncmp_at_zero[of m 0 w d] assms by simp

lemma mime_round:
  assumes "xmlNodeListGetString xml val = Some m" "strncmp_at m 0 ''audio'' 5 = Some a"
  shows "mime_is xml False val \<longleftrightarrow> a = 0" "a = 0 \<Longrightarrow> \<not> mime_is xml True val"
    "strncmp_at m 0 ''video'' 5 = Some v \<Longrightarrow> mime_is xml True val \<longleftrightarrow> v = 0"
proof -
  have a: "a = 0 \<longleftrightarrow> take 5 m = ''audio''" using strncmp_5[OF assms(2)] by simp
  thus "mime_is xml False val \<longleftrightarrow> a = 0" "a = 0 \<Longrightarrow> \<not> mime_is xml True val" using assms(1) by (auto simp: mime_is_def)
  assume v: "strncmp_at m 0 ''video'' 5 = Some v"
  show "mime_is xml True val \<longleftrightarrow> v = 0" using assms(1) strncmp_5[OF v] by (simp add: mime_is_def)
qed

lemma mime_step:
  assumes "mime_loop xml (best xml) ctx adapt ((name, val) # attrs) = Some ctx'" "\<And>k. 0 \<le> ds_bandwidth (stream_of ctx k)"
  shows "\<exists>ctx1. mime_loop xml (best xml) ctx1 adapt attrs = Some ctx' \<and>
    (\<forall>k. stream_of ctx1 k = foldl (pick_best xml) (stream_of ctx k)
       (if name = ''mimeType'' \<and> mime_is xml k val then reps_of adapt else []))"
proof (cases "name = ''mimeType''")
  case False
  thus ?thesis using assms by auto
next
  case True
  obtain m a where m: "xmlNodeListGetString xml val = Some m" "strncmp_at m 0 ''audio'' 5 = Some a"
    using assms(1) True by (auto simp: bind_eq_Some_conv)
  show ?thesis
  proof (cases "a = 0")
    case a: True
    then obtain ctx1 where c1: "pick_loop (best xml) ctx adapt False (node_children adapt) = Some ctx1" "mime_loop xml (best xml) ctx1 adapt attrs = Some ctx'"
      using assms(1) True m by (auto simp: bind_eq_Some_conv ytdl__dash_representation_pick_def)
    have "\<not> mime_is xml True val" "mime_is xml False val" using mime_round(1,2)[OF m] a by auto
    hence "mime_is xml k val \<longleftrightarrow> \<not> k" for k by (cases k) auto
    moreover have "stream_of ctx1 k = (if k then stream_of ctx k else foldl (pick_best xml) (stream_of ctx k) (reps_of adapt))" for k
      using pick_loop_best[OF c1(1) assms(2)] by (cases k) (auto simp: reps_of_def)
    ultimately show ?thesis using c1(2) True by auto
  next
    case a: False
    then obtain v where v: "strncmp_at m 0 ''video'' 5 = Some v" using assms(1) True m by (auto simp: bind_eq_Some_conv)
    note mr = mime_round[OF m] 
    show ?thesis
    proof (cases "v = 0")
      case v0: True
      then obtain ctx1 where c1: "pick_loop (best xml) ctx adapt True (node_children adapt) = Some ctx1" "mime_loop xml (best xml) ctx1 adapt attrs = Some ctx'"
        using assms(1) True m a v by (auto simp: bind_eq_Some_conv ytdl__dash_representation_pick_def)
      have "mime_is xml True val" "\<not> mime_is xml False val" using mr(1) mr(3)[OF v] a v0 by auto
      hence "mime_is xml k val \<longleftrightarrow> k" for k by (cases k) auto
      moreover have "stream_of ctx1 k = (if k then foldl (pick_best xml) (stream_of ctx k) (reps_of adapt) else stream_of ctx k)" for k
        using pick_loop_best[OF c1(1) assms(2)] by (cases k) (auto simp: reps_of_def)
      ultimately show ?thesis using c1(2) True by auto
    next
      case v0: False
      hence "mime_loop xml (best xml) ctx adapt attrs = Some ctx'" using assms(1) True m a v by simp
      moreover have "\<not> mime_is xml k val" for k using mr(1) mr(3)[OF v] a v0 by (cases k) auto
      ultimately show ?thesis by auto
    qed
  qed
qed

lemma mime_loop_best:
  assumes "mime_loop xml (best xml) ctx adapt attrs = Some ctx'" "\<And>k. 0 \<le> ds_bandwidth (stream_of ctx k)"
  shows "stream_of ctx' k = foldl (pick_best xml) (stream_of ctx k) (set_reps xml k adapt attrs)"
  using assms
proof (induction attrs arbitrary: ctx)
  case (Cons x attrs)
  obtain name val where x: "x = (name, val)" by (cases x)
  obtain ctx1 where c1: "mime_loop xml (best xml) ctx1 adapt attrs = Some ctx'"
    "\<And>k. stream_of ctx1 k = foldl (pick_best xml) (stream_of ctx k)
       (if name = ''mimeType'' \<and> mime_is xml k val then reps_of adapt else [])"
    using mime_step[OF Cons.prems[unfolded x]] by blast
  have "0 \<le> ds_bandwidth (stream_of ctx1 k)" for k
    using Cons.prems(2)[of k] pick_fold_mono order_trans unfolding c1(2) by blast
  from Cons.IH[OF c1(1) this] show ?case using c1(2) by (simp add: x set_reps_def)
qed (simp add: set_reps_def)

lemma adapt_loop_best:
  assumes "adapt_loop xml (best xml) ctx ns = Some ctx'" "\<And>k. 0 \<le> ds_bandwidth (stream_of ctx k)"
  shows "stream_of ctx' k = foldl (pick_best xml) (stream_of ctx k) (period_reps xml k ns)"
  using assms
proof (induction ns arbitrary: ctx)
  case (Cons n ns)
  then obtain ctx1 where c1: "(if named ''AdaptationSet'' n then mime_loop xml (best xml) ctx n (node_attrs n) else Some ctx) = Some ctx1"
    "adapt_loop xml (best xml) ctx1 ns = Some ctx'" by (auto simp: bind_eq_Some_conv)
  have s: "stream_of ctx1 k = foldl (pick_best xml) (stream_of ctx k)
      (if named ''AdaptationSet'' n then set_reps xml k n (node_attrs n) else [])" for k
    using c1(1) mime_loop_best[OF _ Cons.prems(2)] by (auto split: if_splits)
  have "0 \<le> ds_bandwidth (stream_of ctx1 k)" for k
    using Cons.prems(2)[of k] pick_fold_mono order_trans unfolding s by blast
  from Cons.IH[OF c1(2) this] show ?case using s by (simp add: period_reps_def)
qed (simp add: period_reps_def)

text \<open>The fold finds the first representation of the greatest bandwidth.\<close>

lemma pick_fold_spec:
  fixes xml :: libxml and rs :: "xml_node list"
  assumes "ds_bandwidth s = 0" "ds_rep s = None"
  defines "s' \<equiv> foldl (pick_best xml) s rs"
  shows "(\<forall>r \<in> set rs. bandwidth_of xml r \<le> ds_bandwidth s') \<and>
    (case ds_rep s' of None \<Rightarrow> ds_bandwidth s' = 0
     | Some r \<Rightarrow> \<exists>i < length rs. rs ! i = r \<and> bandwidth_of xml r = ds_bandwidth s' \<and> 0 < ds_bandwidth s' \<and>
         (\<forall>j < i. bandwidth_of xml (rs ! j) < bandwidth_of xml r))"
  unfolding s'_def
proof (induction rs rule: rev_induct)
  case Nil
  thus ?case using assms by simp
next
  case (snoc r rs)
  define t where "t = foldl (pick_best xml) s rs"
  have t: "\<forall>r \<in> set rs. bandwidth_of xml r \<le> ds_bandwidth t"
    "case ds_rep t of None \<Rightarrow> ds_bandwidth t = 0
     | Some r \<Rightarrow> \<exists>i < length rs. rs ! i = r \<and> bandwidth_of xml r = ds_bandwidth t \<and> 0 < ds_bandwidth t \<and>
         (\<forall>j < i. bandwidth_of xml (rs ! j) < bandwidth_of xml r)"
    using snoc unfolding t_def by blast+
  have step: "foldl (pick_best xml) s (rs @ [r]) = pick_best xml t r" by (simp add: t_def)
  show ?case
  proof (cases "bandwidth_of xml r > ds_bandwidth t")
    case True
    have "0 < bandwidth_of xml r" using True pick_fold_mono[of s xml rs] assms(1) unfolding t_def by linarith
    have lt: "\<forall>q \<in> set rs. bandwidth_of xml q < bandwidth_of xml r" using t(1) True by fastforce
    have e: "pick_best xml t r = t\<lparr>ds_bandwidth := bandwidth_of xml r, ds_rep := Some r\<rparr>" using True by (simp add: pick_best_def)
    have "\<forall>j < length rs. bandwidth_of xml ((rs @ [r]) ! j) < bandwidth_of xml r" using lt by (simp add: nth_append)
    thus ?thesis unfolding step e using \<open>0 < bandwidth_of xml r\<close> lt by (auto intro!: exI[of _ "length rs"])
  next
    case False
    hence e: "pick_best xml t r = t" by (simp add: pick_best_def)
    show ?thesis
    proof (cases "ds_rep t")
      case (Some q)
      then obtain i where "i < length rs" "rs ! i = q" "bandwidth_of xml q = ds_bandwidth t" "0 < ds_bandwidth t"
        "\<forall>j < i. bandwidth_of xml (rs ! j) < bandwidth_of xml q" using t(2) by auto
      thus ?thesis unfolding step e using Some False t(1) by (auto simp: nth_append intro!: exI[of _ i])
    qed (use False t step e in auto)
  qed
qed

section \<open>Facts about the segments\<close>

definition last_named :: "string \<Rightarrow> xml_node list \<Rightarrow> xml_node option" where
  "last_named name ns = (case filter (named name) ns of [] \<Rightarrow> None | ms \<Rightarrow> Some (last ms))"

lemma rep_loop_spec:
  "ds_base_url (rep_loop xml s ns) = (case last_named ''BaseURL'' ns of None \<Rightarrow> ds_base_url s
     | Some n \<Rightarrow> xmlNodeListGetString xml (node_children n)) \<and>
   (case last_named ''SegmentList'' ns of None \<Rightarrow> ds_segment_list (rep_loop xml s ns) = ds_segment_list s
     | Some n \<Rightarrow> ds_segment_list (rep_loop xml s ns) \<noteq> [] \<and> hd (ds_segment_list (rep_loop xml s ns)) = n) \<and>
   ds_rep (rep_loop xml s ns) = ds_rep s \<and> ds_bandwidth (rep_loop xml s ns) = ds_bandwidth s \<and>
   ds_initial_segment (rep_loop xml s ns) = ds_initial_segment s \<and> ds_segment_count (rep_loop xml s ns) = ds_segment_count s \<and>
   ds_segment_path (rep_loop xml s ns) = ds_segment_path s"
proof (induction ns arbitrary: s)
  case (Cons n ns)
  have "\<not> (named ''BaseURL'' n \<and> named ''SegmentList'' n)" by (cases n) auto
  thus ?case using Cons by (auto simp: last_named_def split: list.splits)
qed (simp add: last_named_def)

definition segment_nodes :: "xml_node list \<Rightarrow> xml_node list" where
  "segment_nodes ns = filter (named ''SegmentURL'') ns"

lemma segment_loop_spec:
  "ds_initial_segment (segment_loop xml s ns) = (case last_named ''Initialization'' ns of None \<Rightarrow> ds_initial_segment s
     | Some n \<Rightarrow> xmlGetProp xml n ''sourceURL'') \<and>
   ds_segment_count (segment_loop xml s ns) =
     ds_segment_count s + of_nat (length (filter (named ''Initialization'') ns) + length (segment_nodes ns)) \<and>
   ds_base_url (segment_loop xml s ns) = ds_base_url s \<and> ds_rep (segment_loop xml s ns) = ds_rep s \<and>
   ds_bandwidth (segment_loop xml s ns) = ds_bandwidth s \<and> ds_segment_path (segment_loop xml s ns) = ds_segment_path s"
proof (induction ns arbitrary: s)
  case (Cons n ns)
  have "\<not> (named ''Initialization'' n \<and> named ''SegmentURL'' n)" by (cases n) auto
  thus ?case using Cons by (auto simp: last_named_def segment_nodes_def algebra_simps split: list.splits)
qed (simp add: last_named_def segment_nodes_def)

text \<open>Answers of the iterator, call after call.\<close>

fun segments :: "libxml \<Rightarrow> (nat \<Rightarrow> bool) \<Rightarrow> dash_stream \<Rightarrow> nat \<Rightarrow> (string option list \<times> dash_stream) option" where
  "segments xml mem s 0 = Some ([], s)"
| "segments xml mem s (Suc n) =
     do { (s, r) \<leftarrow> next_segment xml mem s; (rs, s) \<leftarrow> segments xml mem s n; Some (r # rs, s) }"

lemma find_segment_nodes: "segment_nodes (find_segment ns) = segment_nodes ns \<and>
    (find_segment ns = [] \<longleftrightarrow> segment_nodes ns = []) \<and> (\<forall>m ms. find_segment ns = m # ms \<longrightarrow> segment_nodes ns = m # segment_nodes ms)"
  by (induction ns) (auto simp: segment_nodes_def)

lemma segments_rest:
  assumes "ds_segment_path s = Some p" "\<forall>n \<in> set (segment_nodes (ds_segment_list s)). xmlGetProp xml n ''media'' \<noteq> None"
  shows "segments xml mem s (length (segment_nodes (ds_segment_list s)) + 1) =
    Some (map (\<lambda>n. xmlGetProp xml n ''media'') (segment_nodes (ds_segment_list s)) @ [None],
      s\<lparr>ds_segment_path := None, ds_segment_list := []\<rparr>)"
  using assms
proof (induction "segment_nodes (ds_segment_list s)" arbitrary: s p)
  case Nil
  hence "find_segment (ds_segment_list s) = []" using find_segment_nodes[of "ds_segment_list s"] by simp
  thus ?case using Nil by (simp add: next_segment_def)
next
  case (Cons n ns)
  obtain m ms where f: "find_segment (ds_segment_list s) = m # ms"
    using find_segment_nodes[of "ds_segment_list s"] Cons.hyps(2) by (cases "find_segment (ds_segment_list s)") auto
  hence m: "m = n" "ns = segment_nodes ms" using find_segment_nodes[of "ds_segment_list s"] Cons.hyps(2) by auto
  obtain q where q: "xmlGetProp xml n ''media'' = Some q" using Cons.prems(2) Cons.hyps(2)[symmetric] by auto
  let ?s = "s\<lparr>ds_segment_path := Some q, ds_segment_list := ms\<rparr>"
  have nx: "next_segment xml mem s = Some (?s, Some q)" using f m(1) q Cons.prems(1) by (simp add: next_segment_def Let_def)
  have IH: "segments xml mem ?s (length (segment_nodes ms) + 1) =
      Some (map (\<lambda>n. xmlGetProp xml n ''media'') (segment_nodes ms) @ [None], ?s\<lparr>ds_segment_path := None, ds_segment_list := []\<rparr>)"
    using Cons.hyps(1)[of ?s q] Cons.prems(2) Cons.hyps(2)[symmetric] m(2) by simp
  have "segments xml mem s (Suc (length (segment_nodes ms) + 1)) =
      Some (Some q # map (\<lambda>n. xmlGetProp xml n ''media'') (segment_nodes ms) @ [None], ?s\<lparr>ds_segment_path := None, ds_segment_list := []\<rparr>)"
    by (simp only: segments.simps(2) nx IH bind.bind_lunit prod.case)
  thus ?case using Cons.hyps(2)[symmetric] m(2) q by simp
qed

lemma segments_append:
  "segments xml mem s (m + n) = do { (rs, s) \<leftarrow> segments xml mem s m; (qs, s) \<leftarrow> segments xml mem s n; Some (rs @ qs, s) }"
  by (induction m arbitrary: s) (auto split: bind_splits)

text \<open>A stream that is open on the best of some representations.\<close>

definition open_on_best :: "libxml \<Rightarrow> xml_node list \<Rightarrow> dash_stream \<Rightarrow> bool" where
  "open_on_best xml rs s \<longleftrightarrow> (\<exists>r l i.
       ds_rep s = Some r \<and> i < length rs \<and> rs ! i = r \<and> 0 < bandwidth_of xml r \<and>
       (\<forall>q \<in> set rs. bandwidth_of xml q \<le> bandwidth_of xml r) \<and> (\<forall>j < i. bandwidth_of xml (rs ! j) < bandwidth_of xml r) \<and>
       map_option (\<lambda>n. xmlNodeListGetString xml (node_children n)) (last_named ''BaseURL'' (node_children r)) = Some (ds_base_url s) \<and>
       ds_base_url s \<noteq> None \<and> last_named ''SegmentList'' (node_children r) = Some l \<and> ds_segment_list s = node_children l \<and>
       ds_initial_segment s = (case last_named ''Initialization'' (node_children l) of None \<Rightarrow> None | Some n \<Rightarrow> xmlGetProp xml n ''sourceURL'') \<and>
       ds_segment_count s = of_nat (length (filter (named ''Initialization'') (node_children l)) + length (segment_nodes (node_children l))) \<and>
       ds_segment_path s = None)"

lemma open_on_bestI:
  assumes "s1 = foldl (pick_best xml) stream_0 rs" "ds_rep s1 = Some r" "s2 = rep_loop xml s1 (node_children r)"
    and "ds_base_url s2 \<noteq> None" "ds_segment_list s2 \<noteq> []"
  shows "open_on_best xml rs (open_segments xml s2)"
proof -
  have z: "ds_bandwidth stream_0 = 0" "ds_rep stream_0 = None" by (simp_all add: stream_0_def)
  obtain i where i: "i < length rs" "rs ! i = r" "bandwidth_of xml r = ds_bandwidth s1" "0 < ds_bandwidth s1"
    "\<forall>q \<in> set rs. bandwidth_of xml q \<le> ds_bandwidth s1" "\<forall>j < i. bandwidth_of xml (rs ! j) < bandwidth_of xml r"
    using pick_fold_spec[OF z, where xml = xml and rs = rs] assms(1,2) by auto
  have keep: "ds_base_url (pick_best xml s q) = ds_base_url s" "ds_segment_list (pick_best xml s q) = ds_segment_list s"
    "ds_initial_segment (pick_best xml s q) = ds_initial_segment s" "ds_segment_count (pick_best xml s q) = ds_segment_count s"
    "ds_segment_path (pick_best xml s q) = ds_segment_path s" for s q by (simp_all add: pick_best_def)
  have "ds_base_url (foldl (pick_best xml) s rs) = ds_base_url s \<and> ds_segment_list (foldl (pick_best xml) s rs) = ds_segment_list s \<and>
    ds_initial_segment (foldl (pick_best xml) s rs) = ds_initial_segment s \<and> ds_segment_count (foldl (pick_best xml) s rs) = ds_segment_count s \<and>
    ds_segment_path (foldl (pick_best xml) s rs) = ds_segment_path s" for s by (induction rs arbitrary: s) (simp_all add: keep)
  hence s1: "ds_base_url s1 = None" "ds_segment_list s1 = []" "ds_initial_segment s1 = None" "ds_segment_count s1 = 0" "ds_segment_path s1 = None"
    unfolding assms(1) by (simp_all add: stream_0_def)
  note R = rep_loop_spec[of xml s1 "node_children r", folded assms(3)]
  obtain b where b: "last_named ''BaseURL'' (node_children r) = Some b" "ds_base_url s2 = xmlNodeListGetString xml (node_children b)"
    using R s1(1) assms(4) by (cases "last_named ''BaseURL'' (node_children r)") auto
  obtain l where l: "last_named ''SegmentList'' (node_children r) = Some l" "hd (ds_segment_list s2) = l"
    using R s1(2) assms(5) by (cases "last_named ''SegmentList'' (node_children r)") auto
  have R2: "ds_rep s2 = Some r" "ds_initial_segment s2 = None" "ds_segment_count s2 = 0" "ds_segment_path s2 = None"
    using R s1(3-5) assms(2) by simp_all
  show ?thesis unfolding open_on_best_def
    by (rule exI[of _ r], rule exI[of _ l], rule exI[of _ i])
      (use i b l R2 assms(4) segment_loop_spec[of xml s2 "node_children l"] in \<open>simp add: open_segments_def Let_def split: option.split\<close>)
qed

section \<open>Properties\<close>

text \<open>
  C19. On a manifest for which the choice with the built-in filter answers 0: of each kind the
  representation is the first with the greatest bandwidth of all that the period has for the
  kind, its base URL is the text of its last \<open>BaseURL\<close>, the cursor stands before the children of
  its last \<open>SegmentList\<close>, the first segment is the source of the last \<open>Initialization\<close> there, and
  the count is that of the \<open>Initialization\<close> and \<open>SegmentURL\<close> elements.
\<close>

theorem dash_best_format:
  assumes "ytdl_dash_get_format xml (ytdl_dash_get_best_representation xml) (fst (ytdl_dash_ctx_init read_xml buf)) = Some (ctx, 0)"
  shows "\<exists>root period rest. read_xml buf = Some (Some root) \<and> named ''MPD'' root \<and> named ''Period'' period \<and>
    dropWhile (\<lambda>n. \<not> is_element n) (node_children root) = period # rest \<and>
    (\<forall>k. open_on_best xml (period_reps xml k (node_children period)) (stream_of ctx k))"
proof -
  have init: "stream_of (fst (ytdl_dash_ctx_init read_xml buf)) k = stream_0" for k
    by (simp add: ytdl_dash_ctx_init_def stream_of_def split: option.splits)
  obtain root where root: "read_xml buf = Some (Some root)" "named ''MPD'' root"
    using assms by (auto simp: ytdl_dash_get_format_def ytdl_dash_ctx_init_def bind_eq_Some_conv split: option.splits if_splits)
  let ?c0 = "\<lparr>dash_doc = Some root, dash_a = stream_0, dash_v = stream_0\<rparr>"
  obtain period rest where p: "dropWhile (\<lambda>n. \<not> is_element n) (node_children root) = period # rest" "named ''Period'' period"
    using assms root by (auto simp: ytdl_dash_get_format_def ytdl_dash_ctx_init_def split: list.splits if_splits)
  obtain ctx1 rep_v rep_a where c1: "adapt_loop xml (best xml) ?c0 (node_children period) = Some ctx1"
    "ds_rep (dash_v ctx1) = Some rep_v" "ds_rep (dash_a ctx1) = Some rep_a"
    using assms root p by (auto simp: ytdl_dash_get_format_def ytdl_dash_ctx_init_def bind_eq_Some_conv split: option.splits)
  define s where "s k = rep_loop xml (stream_of ctx1 k) (node_children (if k then rep_v else rep_a))" for k
  have ok: "ds_base_url (s k) \<noteq> None \<and> ds_segment_list (s k) \<noteq> []" and fin: "stream_of ctx k = open_segments xml (s k)" for k
    using assms root p c1 by (cases k; auto simp: ytdl_dash_get_format_def ytdl_dash_ctx_init_def Let_def s_def stream_of_def split: if_splits)+
  have s1: "stream_of ctx1 k = foldl (pick_best xml) stream_0 (period_reps xml k (node_children period))" for k
    using adapt_loop_best[OF c1(1)] by (simp add: stream_of_def stream_0_def)
  have each: "open_on_best xml (period_reps xml k (node_children period)) (stream_of ctx k)" for k
    unfolding fin by (rule open_on_bestI[OF s1 _ s_def]) (use c1(2,3) ok in \<open>simp_all add: stream_of_def\<close>)
  show ?thesis using root p each by blast
qed

definition demo_xml :: libxml where
  "demo_xml = \<lparr>xmlGetProp = (\<lambda>n name. map_option (\<lambda>cs. case cs of [XElement t _ _] \<Rightarrow> t @ [NUL] | _ \<Rightarrow> [NUL]) (map_of (node_attrs n) name)),
     xmlNodeListGetString = (\<lambda>ns. case ns of [XElement t _ _] \<Rightarrow> Some (t @ [NUL]) | _ \<Rightarrow> None)\<rparr>"

definition demo_set :: "string \<Rightarrow> string \<Rightarrow> xml_node" where
  "demo_set mime base = XElement ''AdaptationSet'' [(''mimeType'', [XElement mime [] []])]
     [XElement ''Representation'' [(''bandwidth'', [XElement ''100'' [] []])] [],
      XElement ''Representation'' [(''bandwidth'', [XElement ''900'' [] []])]
        [XElement ''BaseURL'' [] [XElement base [] []],
         XElement ''SegmentList'' []
           [XElement ''Initialization'' [(''sourceURL'', [XElement ''i'' [] []])] [],
            XElement ''SegmentURL'' [(''media'', [XElement ''1'' [] []])] [],
            XElement ''SegmentURL'' [(''media'', [XElement ''2'' [] []])] []]]]"

definition demo_mpd :: xml_node where
  "demo_mpd = XElement ''MPD'' [] [XOther, XElement ''Period'' [] [demo_set ''audio/mp4'' ''A'', demo_set ''video/mp4'' ''V'']]"

lemma dash_best_format_witness:
  "open_on_best demo_xml (period_reps demo_xml True (node_children (node_children demo_mpd ! 1)))
     (stream_of (fst (the (ytdl_dash_get_format demo_xml (ytdl_dash_get_best_representation demo_xml)
       (fst (ytdl_dash_ctx_init (\<lambda>_. Some (Some demo_mpd)) []))))) True)"
proof -
  let ?r = "ytdl_dash_get_format demo_xml (ytdl_dash_get_best_representation demo_xml) (fst (ytdl_dash_ctx_init (\<lambda>_. Some (Some demo_mpd)) []))"
  have "map_option snd ?r = Some 0" by code_simp
  then obtain ctx where ctx: "?r = Some (ctx, 0)" by auto
  have "dropWhile (\<lambda>n. \<not> is_element n) (node_children demo_mpd) = [node_children demo_mpd ! 1]" by (simp add: demo_mpd_def)
  thus ?thesis using dash_best_format[OF ctx] ctx by auto
qed

text \<open>
  C36. After the choice the calls for a segment answer the first segment, then the media of every
  \<open>SegmentURL\<close> in document order, then \<open>NULL\<close>, as long as each of them has a \<open>media\<close> attribute. The
  call after that begins again with the first segment: the end is reported once.
\<close>

theorem dash_segments_in_order:
  assumes "ds_segment_path s = None" "ds_initial_segment s = Some (i @ [NUL])" "NUL \<notin> set i"
    and "\<forall>n \<in> set (segment_nodes (ds_segment_list s)). xmlGetProp xml n ''media'' \<noteq> None"
  shows "map_option fst (segments xml (\<lambda>_. True) s (length (segment_nodes (ds_segment_list s)) + 3)) =
    Some ([Some (i @ [NUL])] @ map (\<lambda>n. xmlGetProp xml n ''media'') (segment_nodes (ds_segment_list s)) @ [None, Some (i @ [NUL])])"
proof -
  let ?n = "length (segment_nodes (ds_segment_list s))" and ?s = "s\<lparr>ds_segment_path := Some (i @ [NUL])\<rparr>"
  have dup: "strdup (\<lambda>_. True) (i @ [NUL]) = Some (i @ [NUL])" using strlen_block[OF assms(3), of "[]"] by (simp add: strdup_def)
  hence first: "next_segment xml (\<lambda>_. True) s = Some (?s, Some (i @ [NUL]))" using assms(1,2) by (simp add: next_segment_def)
  let ?e = "?s\<lparr>ds_segment_path := None, ds_segment_list := []\<rparr>"
  have rest: "segments xml (\<lambda>_. True) ?s (?n + 1) =
      Some (map (\<lambda>n. xmlGetProp xml n ''media'') (segment_nodes (ds_segment_list s)) @ [None], ?e)"
    using segments_rest[of ?s "i @ [NUL]" xml "\<lambda>_. True"] assms(4) by simp
  obtain e' where again: "segments xml (\<lambda>_. True) ?e 1 = Some ([Some (i @ [NUL])], e')"
    using dup assms(2) by (simp add: next_segment_def)
  have "segments xml (\<lambda>_. True) s (Suc ((?n + 1) + 1)) =
      Some (Some (i @ [NUL]) # (map (\<lambda>n. xmlGetProp xml n ''media'') (segment_nodes (ds_segment_list s)) @ [None]) @ [Some (i @ [NUL])], e')"
    by (simp only: segments.simps(2) segments_append[of xml "\<lambda>_. True" ?s "?n + 1" 1] first rest again bind.bind_lunit prod.case)
  thus ?thesis by (simp add: eval_nat_numeral)
qed

lemma dash_segments_in_order_witness:
  "map_option fst (segments demo_xml (\<lambda>_. True)
     (stream_0\<lparr>ds_initial_segment := Some (''i'' @ [NUL]), ds_segment_list := [XElement ''SegmentURL'' [(''media'', [XElement ''1'' [] []])] []]\<rparr>) 4) =
   Some [Some (''i'' @ [NUL]), Some (''1'' @ [NUL]), None, Some (''i'' @ [NUL])]"
  using dash_segments_in_order[of "stream_0\<lparr>ds_initial_segment := Some (''i'' @ [NUL]), ds_segment_list := [XElement ''SegmentURL'' [(''media'', [XElement ''1'' [] []])] []]\<rparr>" "''i''" demo_xml]
  by (simp add: stream_0_def segment_nodes_def demo_xml_def eval_nat_numeral)

text \<open>A manifest whose root has no element is followed through a null pointer.\<close>

lemma dash_empty_mpd: "ytdl_dash_get_format xml filt (fst (ytdl_dash_ctx_init (\<lambda>_. Some (Some (XElement ''MPD'' [] [XOther]))) buf)) = None"
  by (simp add: ytdl_dash_get_format_def ytdl_dash_ctx_init_def)

end
