(* ===== verification/Http.thy ===== *)
theory Http
  imports Ytdl_Prelude "HOL-Library.Multiset"
begin

text \<open>
  The HTTP client of \<open>src/http\<close> (\<open>net.c\<close>, \<open>tcp.c\<close>, \<open>http.c\<close>): connecting, the TLS session, the queue
  of writes, reading, and closing.

  libuv, OpenSSL and llhttp are not part of the repository. What their functions answer is an
  argument of the step that calls them, and what the code tells the outside is an entry of the
  log of the client: bytes handed to the socket, to the TLS session or to the parser, statuses,
  callbacks. The caller's callbacks are parameters that may change the client. A pointer is
  \<open>Null\<close>, \<open>Live\<close>, or \<open>Freed\<close> while it still holds an address that was released; using or
  releasing one that is not live gives \<^term>\<open>None\<close>, and so does a failed allocation, which the
  code does not check.
\<close>

section \<open>State\<close>

datatype ytdl_net_err_type =
    YTDL_NET_E_OK
  | YTDL_NET_E_UNKNOWN
  | YTDL_NET_NOT_2XX
  | YTDL_NET_E_GETADDRINFO
  | YTDL_NET_E_TCP_INIT
  | YTDL_NET_E_CONNECT_INIT
  | YTDL_NET_E_TCP_CONNECT
  | YTDL_NET_E_TCP_EOF
  | YTDL_NET_E_READ_CB
  | YTDL_NET_E_READ_POLL
  | YTDL_NET_E_READ_INIT
  | YTDL_NET_E_WRITE_INIT
  | YTDL_NET_E_WRITE_CB
  | YTDL_NET_E_UNSUPPORTED_SCHEMA
  | YTDL_NET_E_POLL_INIT
  | YTDL_NET_E_POLL
  | YTDL_NET_E_PARSE
  | YTDL_NET_E_PROTOCOL_UPGRADE
  | YTDL_NET_E_DISCONNECTED
  | YTDL_NET_E_TLS
  | YTDL_NET_E_TLS_CTX_METHOD
  | YTDL_NET_E_TLS_CTX_NEW
  | YTDL_NET_E_TLS_CTX_VERIFY_PATHS
  | YTDL_NET_E_TLS_CTX_CIPHERS
  | YTDL_NET_E_TLS_NEW
  | YTDL_NET_E_TLS_SET_FD
  | YTDL_NET_E_TLS_SESSION
  | YTDL_NET_E_TLS_SESSION_HOST
  | YTDL_NET_E_TLS_SESSION_CLOSED
  | YTDL_NET_E_TLS_SESSION_HANDSHAKE_FAILED
  | YTDL_NET_E_TLS_SESSION_READ_FAILED
  | YTDL_NET_E_TLS_SESSION_WRITE_FAILED

type_synonym ytdl_net_status = "ytdl_net_err_type \<times> int"

datatype 'a ptr = Null | Live 'a | Freed

text \<open>A write job: its bytes, and its callback, by a number.\<close>

record ytdl_https_write_job =
  job_base :: string
  job_cb :: nat

datatype http_event =
    Status ytdl_net_status
  | Done nat ytdl_net_status
  | SslWrite string
  | Feed string
  | TcpSend string nat
  | CloseRequest
  | Ready
  | Connecting
  | Resolving string
  | KeepAlive nat
  | Closed

datatype poll_state = NoPoll | Polling | PollStopped | PollClosing

text \<open>Which handler the running idle handle has.\<close>

datatype idle_state = NoIdle | Handshake | TlsShutdown

record ytdl_http_client =
  h_keep_alive :: bool
  h_keep_alive_secs :: nat
  h_is_tls :: bool
  h_hostname :: "string ptr"
  h_ssl :: "unit ptr"
  h_tls_ctx :: "unit ptr"
  h_tls_read_buf :: "unit ptr"
  h_queue :: "ytdl_https_write_job ptr list ptr"
  h_poll :: poll_state
  h_idle :: idle_state
  h_reading :: bool
  h_log :: "http_event list"

definition say :: "http_event \<Rightarrow> ytdl_http_client \<Rightarrow> ytdl_http_client" where
  "say e c = c\<lparr>h_log := h_log c @ [e]\<rparr>"

text \<open>The callbacks of the caller: what the status, the data and the end of a write do to the client.\<close>

record http_callbacks =
  on_status :: "ytdl_http_client \<Rightarrow> ytdl_net_status \<Rightarrow> ytdl_http_client option"
  on_read :: "ytdl_http_client \<Rightarrow> string \<Rightarrow> ytdl_http_client option"
  on_done :: "nat \<Rightarrow> ytdl_http_client \<Rightarrow> ytdl_net_status \<Rightarrow> ytdl_http_client option"
  on_ready :: "ytdl_http_client \<Rightarrow> ytdl_http_client option"

definition status_cb :: "http_callbacks \<Rightarrow> ytdl_net_err_type \<Rightarrow> int \<Rightarrow> ytdl_http_client \<Rightarrow> ytdl_http_client option" where
  "status_cb cbs t code c = on_status cbs (say (Status (t, code)) c) (t, code)"

definition write_done :: "http_callbacks \<Rightarrow> nat \<Rightarrow> ytdl_net_err_type \<Rightarrow> int \<Rightarrow> ytdl_http_client \<Rightarrow> ytdl_http_client option" where
  "write_done cbs cb t code c = on_done cbs cb (say (Done cb (t, code)) c) (t, code)"

definition read_cb :: "http_callbacks \<Rightarrow> string \<Rightarrow> ytdl_http_client \<Rightarrow> ytdl_http_client option" where
  "read_cb cbs bytes c = on_read cbs (say (Feed bytes) c) bytes"

definition ready_cb :: "http_callbacks \<Rightarrow> ytdl_http_client \<Rightarrow> ytdl_http_client option" where
  "ready_cb cbs c = on_ready cbs (say Ready c)"

text \<open>A function of OpenSSL is called with the session; \<open>free\<close> and \<open>SSL_free\<close> release a pointer.\<close>

definition use :: "'a ptr \<Rightarrow> 'a option" where
  "use p = (case p of Live x \<Rightarrow> Some x | _ \<Rightarrow> None)"

definition release :: "'a ptr \<Rightarrow> 'a ptr option" where
  "release p = (case p of Null \<Rightarrow> Some Null | Live _ \<Rightarrow> Some Freed | Freed \<Rightarrow> None)"

section \<open>Hosts\<close>

definition ytdl_net_is_numeric_host_af :: "(string \<Rightarrow> int \<Rightarrow> int) \<Rightarrow> string \<Rightarrow> int \<Rightarrow> bool" where
  "ytdl_net_is_numeric_host_af uv_inet_pton hostname family \<longleftrightarrow> uv_inet_pton hostname family = 1"

definition AF_INET :: int where "AF_INET = 2"
definition AF_INET6 :: int where "AF_INET6 = 10"

definition ytdl_net_is_numeric_host_v6 :: "(string \<Rightarrow> int \<Rightarrow> int) \<Rightarrow> string \<Rightarrow> bool" where
  "ytdl_net_is_numeric_host_v6 uv_inet_pton hostname = ytdl_net_is_numeric_host_af uv_inet_pton hostname AF_INET6"

definition ytdl_net_is_numeric_host_v4 :: "(string \<Rightarrow> int \<Rightarrow> int) \<Rightarrow> string \<Rightarrow> bool" where
  "ytdl_net_is_numeric_host_v4 uv_inet_pton hostname = ytdl_net_is_numeric_host_af uv_inet_pton hostname AF_INET"

definition ytdl_net_is_numeric_host_v :: "(string \<Rightarrow> int \<Rightarrow> int) \<Rightarrow> string \<Rightarrow> int" where
  "ytdl_net_is_numeric_host_v uv_inet_pton hostname =
     (if ytdl_net_is_numeric_host_v4 uv_inet_pton hostname then 4
      else if ytdl_net_is_numeric_host_v6 uv_inet_pton hostname then 6
      else 0)"

definition ytdl_net_is_numeric_host :: "(string \<Rightarrow> int \<Rightarrow> int) \<Rightarrow> string \<Rightarrow> bool" where
  "ytdl_net_is_numeric_host uv_inet_pton hostname \<longleftrightarrow>
     ytdl_net_is_numeric_host_v6 uv_inet_pton hostname \<or> ytdl_net_is_numeric_host_v4 uv_inet_pton hostname"

section \<open>TCP\<close>

text \<open>The fields both initialisations set; the answer of \<open>uv_tcp_init\<close> is the first argument.\<close>

definition ytdl_tcp_client_init :: "int \<Rightarrow> ytdl_http_client \<Rightarrow> ytdl_http_client \<times> int" where
  "ytdl_tcp_client_init uv_tcp_init c =
     (if uv_tcp_init \<noteq> 0 then (c, 0) else (c\<lparr>h_keep_alive := False, h_keep_alive_secs := 1\<rparr>, 1))"

text \<open>The continuation is \<open>connect_cb\<close>.\<close>

definition ytdl__tcp_client_connect_cb ::
    "http_callbacks \<Rightarrow> (ytdl_http_client \<Rightarrow> ytdl_http_client option) \<Rightarrow> int \<Rightarrow> ytdl_http_client \<Rightarrow> ytdl_http_client option" where
  "ytdl__tcp_client_connect_cb cbs connect_cb status c =
     (if status \<noteq> 0 then status_cb cbs YTDL_NET_E_TCP_CONNECT status c
      else connect_cb (if h_keep_alive c then say (KeepAlive (h_keep_alive_secs c)) c else c))"

definition ytdl__tcp_client_connect :: "http_callbacks \<Rightarrow> int \<Rightarrow> ytdl_http_client \<Rightarrow> ytdl_http_client option" where
  "ytdl__tcp_client_connect cbs uv_tcp_connect c =
     (if uv_tcp_connect \<noteq> 0 then status_cb cbs YTDL_NET_E_CONNECT_INIT uv_tcp_connect c else Some (say Connecting c))"

definition ytdl__tcp_client_getaddrinfo_cb :: "http_callbacks \<Rightarrow> int \<Rightarrow> int \<Rightarrow> ytdl_http_client \<Rightarrow> ytdl_http_client option" where
  "ytdl__tcp_client_getaddrinfo_cb cbs uv_tcp_connect status c =
     (if status < 0 then status_cb cbs YTDL_NET_E_GETADDRINFO status c else ytdl__tcp_client_connect cbs uv_tcp_connect c)"

definition ytdl_tcp_client_connect ::
    "http_callbacks \<Rightarrow> bool \<Rightarrow> (string \<Rightarrow> int \<Rightarrow> int) \<Rightarrow> int \<Rightarrow> int \<Rightarrow> ytdl_http_client \<Rightarrow> string \<Rightarrow> (ytdl_http_client \<times> int) option" where
  "ytdl_tcp_client_connect cbs has_status_cb uv_inet_pton uv_ip_addr uv_tcp_connect c host =
     (if \<not> has_status_cb then Some (c, -1) else
      let v = ytdl_net_is_numeric_host_v uv_inet_pton host in
      if v \<noteq> 0 then
        (if v = 4 \<or> v = 6
         then do { c \<leftarrow> ytdl__tcp_client_connect cbs uv_tcp_connect c; Some (c, if uv_ip_addr \<noteq> 0 then -4 else 0) }
         else Some (c, -3))
      else Some (say (Resolving host) c, 0))"

section \<open>HTTP\<close>

definition SSL_ERROR_NONE :: int where "SSL_ERROR_NONE = 0"
definition SSL_ERROR_WANT_READ :: int where "SSL_ERROR_WANT_READ = 2"
definition SSL_ERROR_WANT_WRITE :: int where "SSL_ERROR_WANT_WRITE = 3"
definition SSL_ERROR_WANT_X509_LOOKUP :: int where "SSL_ERROR_WANT_X509_LOOKUP = 4"
definition SSL_ERROR_SYSCALL :: int where "SSL_ERROR_SYSCALL = 5"
definition SSL_ERROR_ZERO_RETURN :: int where "SSL_ERROR_ZERO_RETURN = 6"
definition UV_EOF :: int where "UV_EOF = -4095"

definition wants_more :: "int \<Rightarrow> bool" where
  "wants_more err \<longleftrightarrow> err = SSL_ERROR_WANT_READ \<or> err = SSL_ERROR_WANT_WRITE \<or> err = SSL_ERROR_WANT_X509_LOOKUP"

text \<open>The parser answers an error code and the flag \<open>upgrade\<close>; its callbacks may change the client.\<close>

definition ytdl_http_client_parse_read ::
    "http_callbacks \<Rightarrow> (ytdl_http_client \<Rightarrow> string \<Rightarrow> (ytdl_http_client \<times> int \<times> bool) option) \<Rightarrow>
     ytdl_http_client \<Rightarrow> string \<Rightarrow> ytdl_http_client option" where
  "ytdl_http_client_parse_read cbs llhttp_execute c bytes =
     do { (c, err, upgrade) \<leftarrow> llhttp_execute c bytes;
          c \<leftarrow> (if err \<noteq> 0 then status_cb cbs YTDL_NET_E_PARSE err c else Some c);
          if upgrade then status_cb cbs YTDL_NET_E_PROTOCOL_UPGRADE err c else Some c }"

definition ytdl__http_client_write_cb :: "http_callbacks \<Rightarrow> nat \<Rightarrow> int \<Rightarrow> ytdl_http_client \<Rightarrow> ytdl_http_client option" where
  "ytdl__http_client_write_cb cbs cb status c =
     (if status \<noteq> 0 then map_option (say CloseRequest) (write_done cbs cb YTDL_NET_E_WRITE_CB status c)
      else map_option (say CloseRequest) (write_done cbs cb YTDL_NET_E_OK status c))"

text \<open>\<open>mem\<close>: the allocations succeed.\<close>

definition ytdl_http_client_write ::
    "http_callbacks \<Rightarrow> bool \<Rightarrow> int \<Rightarrow> ytdl_http_client \<Rightarrow> string \<Rightarrow> nat \<Rightarrow> ytdl_http_client option" where
  "ytdl_http_client_write cbs mem uv_write c buf cb =
     (if h_ssl c \<noteq> Null
      then (if \<not> mem then None
            else do { bufs \<leftarrow> (case h_queue c of Null \<Rightarrow> Some [] | Live bufs \<Rightarrow> Some bufs | Freed \<Rightarrow> None);
                      Some (c\<lparr>h_queue := Live (bufs @ [Live \<lparr>job_base = buf, job_cb = cb\<rparr>])\<rparr>) })
      else if \<not> mem then None
      else if uv_write \<noteq> 0 then write_done cbs cb YTDL_NET_E_WRITE_INIT uv_write c
      else Some (say (TcpSend buf cb) c))"

definition ytdl_http_client_init :: "int \<Rightarrow> ytdl_http_client \<Rightarrow> ytdl_http_client \<times> int" where
  "ytdl_http_client_init uv_tcp_init c =
     (case ytdl_tcp_client_init uv_tcp_init c of
        (c, r) \<Rightarrow>
          if r = 0 then (c, 0)
          else (c\<lparr>h_is_tls := False, h_hostname := Null, h_ssl := Null, h_tls_ctx := Null,
                  h_tls_read_buf := Null, h_queue := Live []\<rparr>, 1))"

text \<open>
  The idle handler that ends the session, with the answer of \<open>SSL_shutdown\<close>. The close callback
  runs whether \<open>uv_tcp_close_reset\<close> succeeds (later) or fails (at once).
\<close>

definition ytdl__http_client_tls_shutdown_cb :: "int \<Rightarrow> ytdl_http_client \<Rightarrow> ytdl_http_client option" where
  "ytdl__http_client_tls_shutdown_cb SSL_shutdown c =
     do { _ \<leftarrow> use (h_ssl c);
          if SSL_shutdown < 0 \<and> wants_more SSL_shutdown then Some c
          else do { ssl \<leftarrow> release (h_ssl c);
                    ctx \<leftarrow> release (h_tls_ctx c);
                    Some (say Closed (c\<lparr>h_idle := NoIdle, h_ssl := ssl, h_tls_ctx := ctx\<rparr>)) } }"

fun release_jobs :: "'a ptr list \<Rightarrow> 'a ptr list option" where
  "release_jobs [] = Some []"
| "release_jobs (p # ps) = do { p \<leftarrow> release p; ps \<leftarrow> release_jobs ps; Some (p # ps) }"

definition ytdl__tls_poll_close :: "int \<Rightarrow> ytdl_http_client \<Rightarrow> ytdl_http_client option" where
  "ytdl__tls_poll_close uv_idle_start c =
     do { bufs \<leftarrow> (case h_queue c of Null \<Rightarrow> Some [] | Live bufs \<Rightarrow> Some bufs | Freed \<Rightarrow> None);
          _ \<leftarrow> release_jobs bufs;
          queue \<leftarrow> release (h_queue c);
          read_buf \<leftarrow> release (h_tls_read_buf c);
          let c = c\<lparr>h_queue := queue, h_tls_read_buf := read_buf, h_poll := NoPoll\<rparr> in
          Some (if uv_idle_start \<noteq> 0 then say Closed c else c\<lparr>h_idle := TlsShutdown\<rparr>) }"

text \<open>Stopping and closing a poll handle needs one that was initialised.\<close>

definition ytdl_http_client_shutdown :: "ytdl_http_client \<Rightarrow> ytdl_http_client option" where
  "ytdl_http_client_shutdown c =
     do { hostname \<leftarrow> release (h_hostname c);
          let c = c\<lparr>h_hostname := hostname\<rparr> in
          if h_ssl c \<noteq> Null
          then (if h_poll c = NoPoll \<or> h_poll c = PollClosing then None else Some (c\<lparr>h_poll := PollClosing\<rparr>))
          else Some (say Closed c) }"

definition ytdl__http_client_read_cb :: "http_callbacks \<Rightarrow> int \<Rightarrow> string \<Rightarrow> ytdl_http_client \<Rightarrow> ytdl_http_client option" where
  "ytdl__http_client_read_cb cbs nread bytes c =
     (if nread > 0 then read_cb cbs (take (nat nread) bytes) c
      else if nread \<noteq> UV_EOF then status_cb cbs YTDL_NET_E_READ_CB nread (c\<lparr>h_reading := False\<rparr>)
      else status_cb cbs YTDL_NET_E_TCP_EOF nread (c\<lparr>h_reading := False\<rparr>))"

text \<open>
  What \<open>SSL_read_ex\<close> answers, call after call, while the loop asks for more: bytes with more of
  them pending, the last bytes, or a failure with its error and what \<open>recv\<close> sees then.
\<close>

datatype ssl_reads = ReadMore string ssl_reads | ReadLast string | ReadFail int int

text \<open>Where the reading goes on: at \<open>exit_read\<close> or at \<open>write_exit\<close>, with the two flags.\<close>

record poll_flags =
  pf_exit :: bool
  pf_free_handle :: bool
  pf_notified :: bool

fun tls_read_loop :: "http_callbacks \<Rightarrow> ssl_reads \<Rightarrow> ytdl_http_client \<Rightarrow> (ytdl_http_client \<times> poll_flags) option" where
  "tls_read_loop cbs (ReadMore bytes rs) c =
     do { _ \<leftarrow> use (h_ssl c); c \<leftarrow> read_cb cbs bytes c; tls_read_loop cbs rs c }"
| "tls_read_loop cbs (ReadLast bytes) c =
     do { _ \<leftarrow> use (h_ssl c); c \<leftarrow> read_cb cbs bytes c;
          Some (c, \<lparr>pf_exit = False, pf_free_handle = False, pf_notified = False\<rparr>) }"
| "tls_read_loop cbs (ReadFail err recv) c =
     do { _ \<leftarrow> use (h_ssl c);
          if wants_more err then Some (c, \<lparr>pf_exit = False, pf_free_handle = False, pf_notified = False\<rparr>)
          else if err = SSL_ERROR_ZERO_RETURN
          then do { c \<leftarrow> status_cb cbs YTDL_NET_E_TLS_SESSION_CLOSED err c;
                    Some (c, \<lparr>pf_exit = False, pf_free_handle = True, pf_notified = True\<rparr>) }
          else if err = SSL_ERROR_SYSCALL \<and> recv = 0
          then do { c \<leftarrow> status_cb cbs YTDL_NET_E_TLS_SESSION_CLOSED err c;
                    Some (c, \<lparr>pf_exit = True, pf_free_handle = True, pf_notified = True\<rparr>) }
          else do { c \<leftarrow> status_cb cbs YTDL_NET_E_TLS_SESSION_READ_FAILED err c;
                    Some (c, \<lparr>pf_exit = False, pf_free_handle = True, pf_notified = False\<rparr>) } }"

text \<open>
  \<open>YTDL_HTTP_POP_BUF\<close>: the job at index \<open>i\<close>, which was the last when it was read, is released,
  and the array loses its last entry.
\<close>

definition YTDL_HTTP_POP_BUF :: "nat \<Rightarrow> ytdl_http_client \<Rightarrow> ytdl_http_client option" where
  "YTDL_HTTP_POP_BUF i c =
     do { bufs \<leftarrow> use (h_queue c);
          p \<leftarrow> rd bufs i;
          p \<leftarrow> release p;
          bufs \<leftarrow> wr bufs i p;
          Some (c\<lparr>h_queue := Live (butlast bufs)\<rparr>) }"

text \<open>
  The writing: \<open>ssl_write\<close> is what \<open>SSL_get_error\<close> makes of the answer of \<open>SSL_write\<close>. Empty jobs
  are dropped first. The last argument bounds the drops: the length of the queue is enough.
\<close>

fun tls_write :: "http_callbacks \<Rightarrow> int \<Rightarrow> poll_flags \<Rightarrow> ytdl_http_client \<Rightarrow> nat \<Rightarrow> (ytdl_http_client \<times> poll_flags) option" where
  "tls_write cbs ssl_write fl c n =
     do { bufs \<leftarrow> (case h_queue c of Null \<Rightarrow> Some [] | Live bufs \<Rightarrow> Some bufs | Freed \<Rightarrow> None);
          if bufs = [] then Some (c, fl)
          else let i = length bufs - 1 in
          do { job \<leftarrow> use (last bufs);
               if job_base job = []
               then (case n of 0 \<Rightarrow> None
                     | Suc n \<Rightarrow> do { c \<leftarrow> YTDL_HTTP_POP_BUF i c; tls_write cbs ssl_write fl c n })
               else do { _ \<leftarrow> use (h_ssl c);
                 let c = say (SslWrite (job_base job)) c; err = ssl_write in
                 if err < 0
                 then (if wants_more err then Some (c, fl)
                       else if err = SSL_ERROR_ZERO_RETURN
                       then do { c \<leftarrow> write_done cbs (job_cb job) YTDL_NET_E_TLS_SESSION_CLOSED err c;
                                 c \<leftarrow> (if pf_notified fl then Some c else status_cb cbs YTDL_NET_E_TLS_SESSION_CLOSED err c);
                                 c \<leftarrow> YTDL_HTTP_POP_BUF i c;
                                 Some (c, fl\<lparr>pf_free_handle := True, pf_notified := True\<rparr>) }
                       else do { c \<leftarrow> write_done cbs (job_cb job) YTDL_NET_E_TLS_SESSION_WRITE_FAILED err c;
                                 c \<leftarrow> YTDL_HTTP_POP_BUF i c;
                                 Some (c, fl) })
                 else do { c \<leftarrow> write_done cbs (job_cb job) YTDL_NET_E_OK err c;
                           c \<leftarrow> YTDL_HTTP_POP_BUF i c;
                           Some (c, fl) } } } }"

declare tls_write.simps [simp del]

text \<open>The events of a poll: readable with what is read, and writable with the answer of a write.\<close>

definition ytdl__http_client_tls_poll_cb ::
    "http_callbacks \<Rightarrow> int \<Rightarrow> ssl_reads option \<Rightarrow> int option \<Rightarrow> ytdl_http_client \<Rightarrow> ytdl_http_client option" where
  "ytdl__http_client_tls_poll_cb cbs status readable writable c =
     (if status < 0 then status_cb cbs YTDL_NET_E_POLL status (c\<lparr>h_poll := PollStopped\<rparr>)
      else do { (c, fl) \<leftarrow> (case readable of
                    None \<Rightarrow> Some (c, \<lparr>pf_exit = False, pf_free_handle = False, pf_notified = False\<rparr>)
                  | Some rs \<Rightarrow> tls_read_loop cbs rs c);
                (c, fl) \<leftarrow> (case writable of
                    Some err \<Rightarrow> if pf_exit fl then Some (c, fl)
                      else tls_write cbs err fl c (case h_queue c of Live bufs \<Rightarrow> length bufs | _ \<Rightarrow> 0)
                  | None \<Rightarrow> Some (c, fl));
                Some (if pf_free_handle fl then c\<lparr>h_poll := PollStopped\<rparr> else c) })"

text \<open>
  The handshake: the answer of \<open>SSL_connect\<close>, its error, and the answers of \<open>uv_poll_init_socket\<close>
  and \<open>uv_poll_start\<close>.
\<close>

definition ytdl__http_client_tls_handshake_cb ::
    "http_callbacks \<Rightarrow> int \<Rightarrow> int \<Rightarrow> int \<Rightarrow> int \<Rightarrow> ytdl_http_client \<Rightarrow> ytdl_http_client option" where
  "ytdl__http_client_tls_handshake_cb cbs success err poll_init poll_start c =
     do { _ \<leftarrow> use (h_ssl c);
          if success < 0
          then (if wants_more err then Some c
                else if err = SSL_ERROR_ZERO_RETURN
                then status_cb cbs YTDL_NET_E_TLS_SESSION_CLOSED err (c\<lparr>h_idle := NoIdle\<rparr>)
                else status_cb cbs YTDL_NET_E_TLS_SESSION_HANDSHAKE_FAILED err (c\<lparr>h_idle := NoIdle\<rparr>))
          else
            let c = c\<lparr>h_idle := NoIdle\<rparr> in
            if poll_init \<noteq> 0 then status_cb cbs YTDL_NET_E_POLL_INIT poll_init c
            else if poll_start \<noteq> 0 then status_cb cbs YTDL_NET_E_POLL_INIT poll_start (c\<lparr>h_poll := PollStopped\<rparr>)
            else ready_cb cbs (c\<lparr>h_poll := Polling\<rparr>) }"

text \<open>Which step of the setup of a session fails, with the code \<open>ERR_get_error\<close> gives.\<close>

record tls_setup =
  ts_method :: bool
  ts_ctx_new :: bool
  ts_verify_paths :: bool
  ts_ssl_new :: bool
  ts_ciphers :: bool
  ts_host :: bool
  ts_set_fd :: bool
  ts_error :: int
  ts_read_start :: int

definition tls_open :: "http_callbacks \<Rightarrow> (string \<Rightarrow> int \<Rightarrow> int) \<Rightarrow> tls_setup \<Rightarrow> ytdl_http_client \<Rightarrow> ytdl_http_client option" where
  "tls_open cbs uv_inet_pton ts c =
     (if \<not> ts_method ts then status_cb cbs YTDL_NET_E_TLS_CTX_METHOD (ts_error ts) c
      else if \<not> ts_ctx_new ts then status_cb cbs YTDL_NET_E_TLS_CTX_NEW (ts_error ts) (c\<lparr>h_tls_ctx := Null\<rparr>)
      else let c = c\<lparr>h_tls_ctx := Live ()\<rparr> in
      if \<not> ts_verify_paths ts then status_cb cbs YTDL_NET_E_TLS_CTX_VERIFY_PATHS (ts_error ts) (c\<lparr>h_tls_ctx := Freed\<rparr>)
      else if \<not> ts_ssl_new ts then status_cb cbs YTDL_NET_E_TLS_NEW (ts_error ts) (c\<lparr>h_ssl := Null, h_tls_ctx := Freed\<rparr>)
      else let c = c\<lparr>h_ssl := Live ()\<rparr> in
      if \<not> ts_ciphers ts then status_cb cbs YTDL_NET_E_TLS_CTX_CIPHERS (ts_error ts) (c\<lparr>h_ssl := Freed, h_tls_ctx := Freed\<rparr>)
      else do { hostname \<leftarrow> use (h_hostname c);
        if \<not> ytdl_net_is_numeric_host uv_inet_pton hostname \<and> \<not> ts_host ts
        then status_cb cbs YTDL_NET_E_TLS_SESSION_HOST (ts_error ts) (c\<lparr>h_ssl := Freed, h_tls_ctx := Freed\<rparr>)
        else let c = c\<lparr>h_tls_read_buf := Live ()\<rparr> in
        if \<not> ts_set_fd ts then status_cb cbs YTDL_NET_E_TLS_SET_FD (ts_error ts) (c\<lparr>h_ssl := Null, h_tls_ctx := Freed\<rparr>)
        else Some (c\<lparr>h_idle := Handshake\<rparr>) })"

definition ytdl__http_client_tcp_connect_cb ::
    "http_callbacks \<Rightarrow> (string \<Rightarrow> int \<Rightarrow> int) \<Rightarrow> tls_setup \<Rightarrow> ytdl_http_client \<Rightarrow> ytdl_http_client option" where
  "ytdl__http_client_tcp_connect_cb cbs uv_inet_pton ts c =
     (if h_is_tls c
      then do { c \<leftarrow> (if h_ssl c \<noteq> Null
                     then do { ssl \<leftarrow> release (h_ssl c); ctx \<leftarrow> release (h_tls_ctx c); Some (c\<lparr>h_ssl := ssl, h_tls_ctx := ctx\<rparr>) }
                     else Some c);
                tls_open cbs uv_inet_pton ts c }
      else if ts_read_start ts \<noteq> 0
      then status_cb cbs YTDL_NET_E_READ_INIT (ts_read_start ts) (c\<lparr>h_reading := False\<rparr>)
      else ready_cb cbs (c\<lparr>h_reading := True\<rparr>))"

definition ytdl_http_client_connect ::
    "http_callbacks \<Rightarrow> bool \<Rightarrow> (string \<Rightarrow> int \<Rightarrow> int) \<Rightarrow> int \<Rightarrow> int \<Rightarrow> ytdl_http_client \<Rightarrow> bool \<Rightarrow> string \<Rightarrow> (ytdl_http_client \<times> int) option" where
  "ytdl_http_client_connect cbs has_status_cb uv_inet_pton uv_ip_addr uv_tcp_connect c is_tls host =
     ytdl_tcp_client_connect cbs has_status_cb uv_inet_pton uv_ip_addr uv_tcp_connect
       (c\<lparr>h_is_tls := is_tls, h_hostname := Live host\<rparr>) host"

section \<open>Facts about the write queue\<close>

text \<open>Callbacks that do not touch the client, as those of the downloads: they print.\<close>

definition quiet :: http_callbacks where
  "quiet = \<lparr>on_status = (\<lambda>c _. Some c), on_read = (\<lambda>c _. Some c), on_done = (\<lambda>_ c _. Some c), on_ready = Some\<rparr>"

lemma quiet_simps [simp]:
  "status_cb quiet t e c = Some (say (Status (t, e)) c)" "write_done quiet cb t e c = Some (say (Done cb (t, e)) c)"
  "read_cb quiet b c = Some (say (Feed b) c)" "ready_cb quiet c = Some (say Ready c)"
  by (simp_all add: status_cb_def write_done_def read_cb_def ready_cb_def quiet_def)

lemma say_simps [simp]:
  "h_ssl (say e c) = h_ssl c" "h_queue (say e c) = h_queue c" "h_log (say e c) = h_log c @ [e]" "h_poll (say e c) = h_poll c"
  "h_idle (say e c) = h_idle c" "h_tls_ctx (say e c) = h_tls_ctx c" "h_hostname (say e c) = h_hostname c" "h_is_tls (say e c) = h_is_tls c"
  by (simp_all add: say_def)

text \<open>A client with an open session and these jobs queued, the first submitted first.\<close>

definition queued :: "ytdl_http_client \<Rightarrow> ytdl_https_write_job list \<Rightarrow> bool" where
  "queued c js \<longleftrightarrow> h_ssl c = Live () \<and> h_queue c = Live (map Live js)"

lemma pop_last: "queued c (js @ [j]) \<Longrightarrow> YTDL_HTTP_POP_BUF (length js) c = Some (c\<lparr>h_queue := Live (map Live js)\<rparr>)"
  by (simp add: queued_def YTDL_HTTP_POP_BUF_def use_def release_def nth_append list_update_append)

definition no_empty :: "ytdl_https_write_job list \<Rightarrow> ytdl_https_write_job list" where
  "no_empty js = rev (dropWhile (\<lambda>j. job_base j = []) (rev js))"

lemma no_empty_snoc: "no_empty (js @ [j]) = (if job_base j = [] then no_empty js else js @ [j])"
  by (simp add: no_empty_def)

text \<open>What a writable socket does when \<open>SSL_get_error\<close> does not answer a negative number.\<close>

definition after_write :: "int \<Rightarrow> ytdl_http_client \<Rightarrow> ytdl_https_write_job list \<Rightarrow> ytdl_http_client" where
  "after_write err c js =
     (if no_empty js = [] then c\<lparr>h_queue := Live []\<rparr>
      else let j = last (no_empty js) in
        c\<lparr>h_queue := Live (map Live (butlast (no_empty js))),
          h_log := h_log c @ [SslWrite (job_base j), Done (job_cb j) (YTDL_NET_E_OK, err)]\<rparr>)"

lemma tls_write_quiet:
  assumes "queued c js" "0 \<le> err" "length js \<le> n"
  shows "tls_write quiet err fl c n = Some (after_write err c js, fl)"
  using assms
proof (induction js arbitrary: c n rule: rev_induct)
  case Nil
  thus ?case by (subst tls_write.simps) (simp add: queued_def after_write_def no_empty_def)
next
  case (snoc j js)
  have q: "h_queue c = Live (map Live (js @ [j]))" "h_ssl c = Live ()" using snoc.prems(1) by (simp_all add: queued_def)
  show ?case
  proof (cases "job_base j = []")
    case True
    obtain m where m: "n = Suc m" using snoc.prems(3) by (cases n) auto
    let ?c = "c\<lparr>h_queue := Live (map Live js)\<rparr>"
    have "tls_write quiet err fl c n = tls_write quiet err fl ?c m"
      using q True m pop_last[OF snoc.prems(1)] by (subst tls_write.simps) (simp add: use_def)
    also have "\<dots> = Some (after_write err ?c js, fl)" by (rule snoc.IH) (use snoc.prems m in \<open>simp_all add: queued_def\<close>)
    also have "after_write err ?c js = after_write err c (js @ [j])" using True by (simp add: after_write_def no_empty_snoc Let_def)
    finally show ?thesis .
  next
    case False
    have "queued (say (Done (job_cb j) (YTDL_NET_E_OK, err)) (say (SslWrite (job_base j)) c)) (js @ [j])"
      using snoc.prems(1) by (simp add: queued_def)
    note pop = pop_last[OF this]
    show ?thesis using q False snoc.prems(2) pop
      by (subst tls_write.simps) (simp add: use_def Let_def after_write_def no_empty_snoc say_def)
  qed
qed

text \<open>The callbacks of writes that ran, and the bytes of the calls of \<open>SSL_write\<close>, whatever it answered.\<close>

definition cbs_done :: "http_event list \<Rightarrow> (nat \<times> ytdl_net_status) list" where
  "cbs_done es = concat (map (\<lambda>e. case e of Done cb st \<Rightarrow> [(cb, st)] | _ \<Rightarrow> []) es)"

definition ssl_writes :: "http_event list \<Rightarrow> string list" where
  "ssl_writes es = concat (map (\<lambda>e. case e of SslWrite b \<Rightarrow> [b] | _ \<Rightarrow> []) es)"

lemma cbs_done_simps [simp]: "cbs_done [] = []" "cbs_done (es @ fs) = cbs_done es @ cbs_done fs" "cbs_done (Done cb st # es) = (cb, st) # cbs_done es"
  "cbs_done (SslWrite b # es) = cbs_done es" "cbs_done (Feed b # es) = cbs_done es" "cbs_done (Status st # es) = cbs_done es"
  by (simp_all add: cbs_done_def)

lemma ssl_writes_simps [simp]: "ssl_writes [] = []" "ssl_writes (es @ fs) = ssl_writes es @ ssl_writes fs"
  "ssl_writes (Done cb st # es) = ssl_writes es" "ssl_writes (SslWrite b # es) = b # ssl_writes es"
  "ssl_writes (Feed b # es) = ssl_writes es" "ssl_writes (Status st # es) = ssl_writes es"
  by (simp_all add: ssl_writes_def)

text \<open>Reading with such callbacks leaves the session and the queue alone, and writes nothing.\<close>

lemma tls_read_quiet:
  "h_ssl c = Live () \<Longrightarrow> \<exists>c' fl. tls_read_loop quiet rs c = Some (c', fl) \<and> h_ssl c' = Live () \<and> h_queue c' = h_queue c \<and>
    cbs_done (h_log c') = cbs_done (h_log c) \<and> ssl_writes (h_log c') = ssl_writes (h_log c)"
proof (induction rs arbitrary: c)
  case (ReadMore b rs)
  from ReadMore.IH[of "say (Feed b) c"] ReadMore.prems show ?case by (auto simp: use_def)
qed (auto simp: use_def)

text \<open>Operations on an open client: a write of the caller, or an event of the poll.\<close>

datatype http_op = Submit string nat | Poll "ssl_reads option" "int option"

fun http_step :: "ytdl_http_client \<Rightarrow> http_op \<Rightarrow> ytdl_http_client option" where
  "http_step c (Submit buf cb) = ytdl_http_client_write quiet True 0 c buf cb"
| "http_step c (Poll readable writable) = ytdl__http_client_tls_poll_cb quiet 0 readable writable c"

fun http_run :: "ytdl_http_client \<Rightarrow> http_op list \<Rightarrow> ytdl_http_client option" where
  "http_run c [] = Some c"
| "http_run c (x # xs) = (case http_step c x of None \<Rightarrow> None | Some c \<Rightarrow> http_run c xs)"

definition submitted :: "http_op list \<Rightarrow> ytdl_https_write_job multiset" where
  "submitted xs = mset (concat (map (\<lambda>x. case x of Submit b cb \<Rightarrow> if b = [] then [] else [\<lparr>job_base = b, job_cb = cb\<rparr>] | _ \<Rightarrow> []) xs))"

definition waiting :: "ytdl_https_write_job list \<Rightarrow> ytdl_https_write_job multiset" where
  "waiting js = mset (filter (\<lambda>j. job_base j \<noteq> []) js)"

lemma http_run_append: "http_run c (xs @ ys) = (case http_run c xs of None \<Rightarrow> None | Some c \<Rightarrow> http_run c ys)"
  by (induction xs arbitrary: c) (auto split: option.splits)

lemma submit_step: "queued c js \<Longrightarrow> http_step c (Submit b cb) = Some (c\<lparr>h_queue := Live (map Live (js @ [\<lparr>job_base = b, job_cb = cb\<rparr>]))\<rparr>)"
  by (simp add: queued_def ytdl_http_client_write_def)

lemma no_empty_filter: "filter (\<lambda>j. job_base j \<noteq> []) (no_empty js) = filter (\<lambda>j. job_base j \<noteq> []) js"
  by (induction js rule: rev_induct) (auto simp: no_empty_snoc, simp add: no_empty_def)

lemma no_empty_last: "no_empty js \<noteq> [] \<Longrightarrow> job_base (last (no_empty js)) \<noteq> []"
  by (induction js rule: rev_induct) (auto simp: no_empty_snoc, simp add: no_empty_def)

lemma poll_step:
  assumes "queued c js" "writable = None \<or> (\<exists>e. writable = Some e \<and> 0 \<le> e)"
  shows "\<exists>c1 c'. http_step c (Poll readable writable) = Some c' \<and> queued c1 js \<and>
    cbs_done (h_log c1) = cbs_done (h_log c) \<and> ssl_writes (h_log c1) = ssl_writes (h_log c) \<and>
    ((\<exists>p. c' = c1\<lparr>h_poll := p\<rparr>) \<or> (\<exists>e p. 0 \<le> e \<and> writable = Some e \<and> c' = (after_write e c1 js)\<lparr>h_poll := p\<rparr>)) \<and>
    (readable = None \<longrightarrow> c1 = c \<and> (\<forall>e. writable = Some e \<longrightarrow> c' = after_write e c js))"
proof -
  let ?r = "case readable of None \<Rightarrow> Some (c, \<lparr>pf_exit = False, pf_free_handle = False, pf_notified = False\<rparr>) | Some rs \<Rightarrow> tls_read_loop quiet rs c"
  have ssl: "h_ssl c = Live ()" using assms(1) by (simp add: queued_def)
  obtain c1 fl where c1: "?r = Some (c1, fl)" "h_ssl c1 = Live ()" "h_queue c1 = h_queue c" "cbs_done (h_log c1) = cbs_done (h_log c)"
    "ssl_writes (h_log c1) = ssl_writes (h_log c)"
    "readable = None \<longrightarrow> c1 = c \<and> fl = \<lparr>pf_exit = False, pf_free_handle = False, pf_notified = False\<rparr>"
    using ssl tls_read_quiet[OF ssl] by (cases readable) fastforce+
  have q: "queued c1 js" using c1(2,3) assms(1) by (simp add: queued_def)
  have len: "h_queue c1 = Live (map Live js)" using q by (simp add: queued_def)
  show ?thesis
  proof (cases "writable = None \<or> pf_exit fl")
    case True
    have "\<exists>p. http_step c (Poll readable writable) = Some (c1\<lparr>h_poll := p\<rparr>)"
    proof (cases "pf_free_handle fl")
      case True
      thus ?thesis using c1(1) \<open>writable = None \<or> pf_exit fl\<close>
        by (intro exI[of _ PollStopped]) (auto simp: ytdl__http_client_tls_poll_cb_def split: option.splits)
    next
      case False
      thus ?thesis using c1(1) \<open>writable = None \<or> pf_exit fl\<close>
        by (intro exI[of _ "h_poll c1"]) (auto simp: ytdl__http_client_tls_poll_cb_def split: option.splits)
    qed
    then obtain p where "http_step c (Poll readable writable) = Some (c1\<lparr>h_poll := p\<rparr>)" by blast
    moreover have "writable = None" if "readable = None" using True c1(6) that by auto
    ultimately show ?thesis using q c1(4-6)
      by (intro exI[of _ c1] exI[of _ "c1\<lparr>h_poll := p\<rparr>"]) auto
  next
    case False
    then obtain e where e: "writable = Some e" "0 \<le> e" using assms(2) by auto
    have w: "tls_write quiet e fl c1 (length js) = Some (after_write e c1 js, fl)" by (rule tls_write_quiet[OF q e(2)]) simp
    have st: "http_step c (Poll readable writable) =
        Some (if pf_free_handle fl then (after_write e c1 js)\<lparr>h_poll := PollStopped\<rparr> else after_write e c1 js)"
      using c1(1) e(1) False w len by (simp add: ytdl__http_client_tls_poll_cb_def)
    note st
    moreover have "\<exists>p. (if pf_free_handle fl then (after_write e c1 js)\<lparr>h_poll := PollStopped\<rparr> else after_write e c1 js) = (after_write e c1 js)\<lparr>h_poll := p\<rparr>"
      by (cases "pf_free_handle fl") (auto intro: exI[of _ "h_poll (after_write e c1 js)"])
    ultimately obtain p where p: "http_step c (Poll readable writable) = Some ((after_write e c1 js)\<lparr>h_poll := p\<rparr>)" by metis
    have "(after_write e c1 js)\<lparr>h_poll := p\<rparr> = after_write e c js" if "readable = None"
      using p st c1(6) that by simp
    thus ?thesis using p q c1(4-6) e
      by (intro exI[of _ c1] exI[of _ "(after_write e c1 js)\<lparr>h_poll := p\<rparr>"]) auto
  qed
qed

text \<open>What was submitted: the callbacks and the bytes of the writes that are not empty.\<close>

fun jobs_of :: "http_op list \<Rightarrow> ytdl_https_write_job list" where
  "jobs_of [] = []"
| "jobs_of (Submit b cb # xs) = (if b = [] then [] else [\<lparr>job_base = b, job_cb = cb\<rparr>]) @ jobs_of xs"
| "jobs_of (Poll r w # xs) = jobs_of xs"

definition real :: "ytdl_https_write_job list \<Rightarrow> ytdl_https_write_job list" where
  "real js = filter (\<lambda>j. job_base j \<noteq> []) js"

text \<open>
  A write of the log and the callback after it stand for one call of \<open>SSL_write\<close> and its answer, the
  error of \<open>SSL_get_error\<close>: 0 when the session took the bytes, and any other when it did not.
\<close>

definition session_answers :: "http_event list \<Rightarrow> ((string \<times> nat) \<times> int) list" where
  "session_answers es = map2 (\<lambda>b (cb, t, e). ((b, cb), e)) (ssl_writes es) (cbs_done es)"

definition taken :: "http_event list \<Rightarrow> (string \<times> nat) list" where
  "taken es = map fst (filter (\<lambda>(_, e). e = SSL_ERROR_NONE) (session_answers es))"

definition refused :: "http_event list \<Rightarrow> (string \<times> nat) list" where
  "refused es = map fst (filter (\<lambda>(_, e). e \<noteq> SSL_ERROR_NONE) (session_answers es))"

definition answered :: "http_event list \<Rightarrow> bool" where
  "answered es \<longleftrightarrow> length (ssl_writes es) = length (cbs_done es)"

definition job_write :: "ytdl_https_write_job \<Rightarrow> string \<times> nat" where
  "job_write j = (job_base j, job_cb j)"

lemma taken_or_refused: "mset (taken es) + mset (refused es) = mset (map fst (session_answers es))"
proof -
  have "mset (map fst (filter P xs)) + mset (map fst (filter (\<lambda>x. \<not> P x) xs)) = mset (map fst xs)" for P and xs :: "((string \<times> nat) \<times> int) list"
    by (induction xs) auto
  from this[of "\<lambda>(_, e). e = SSL_ERROR_NONE"] show ?thesis by (simp add: taken_def refused_def case_prod_unfold)
qed

lemma session_answers_log: "ssl_writes (h_log c) = ssl_writes (h_log d) \<Longrightarrow> cbs_done (h_log c) = cbs_done (h_log d) \<Longrightarrow>
    session_answers (h_log c) = session_answers (h_log d) \<and> answered (h_log c) = answered (h_log d)"
  by (simp add: session_answers_def answered_def)

text \<open>The writes that were handed to the session or wait, and what the callbacks were told.\<close>

definition accounts :: "ytdl_http_client \<Rightarrow> ytdl_https_write_job list \<Rightarrow> (string \<times> nat) multiset \<Rightarrow> bool" where
  "accounts c js ws \<longleftrightarrow> queued c js \<and> answered (h_log c) \<and>
     mset (map fst (session_answers (h_log c))) + mset (map job_write (real js)) = ws \<and>
     (\<forall>d \<in> set (cbs_done (h_log c)). fst (snd d) = YTDL_NET_E_OK)"

lemma accounts_poll [simp]: "accounts (c\<lparr>h_poll := p\<rparr>) js ws = accounts c js ws"
  by (simp add: accounts_def queued_def)

lemma after_write_account:
  assumes "accounts c js ws"
  shows "\<exists>js'. accounts (after_write e c js) js' ws"
proof (cases "no_empty js = []")
  case True
  hence "real js = []" using no_empty_filter[of js] by (simp add: real_def)
  thus ?thesis using assms True by (intro exI[of _ "[]"]) (simp add: after_write_def accounts_def queued_def real_def)
next
  case False
  define k where "k = butlast (no_empty js)"
  define j where "j = last (no_empty js)"
  have nj: "no_empty js = k @ [j]" using False by (simp add: k_def j_def)
  have r: "real js = real k @ [j]" using no_empty_filter[of js] no_empty_last[OF False] by (simp add: real_def nj)
  have aw: "after_write e c js = c\<lparr>h_queue := Live (map Live k), h_log := h_log c @ [SslWrite (job_base j), Done (job_cb j) (YTDL_NET_E_OK, e)]\<rparr>"
    using False by (simp add: after_write_def k_def j_def Let_def)
  show ?thesis unfolding aw using assms
    by (intro exI[of _ k]) (auto simp: accounts_def queued_def r answered_def session_answers_def job_write_def)
qed

lemma http_step_account:
  assumes "accounts c js ws" "\<forall>r e. x = Poll r (Some e) \<longrightarrow> 0 \<le> e"
  shows "\<exists>c' js'. http_step c x = Some c' \<and> accounts c' js' (ws + mset (map job_write (jobs_of [x])))"
proof (cases x)
  case (Submit b cb)
  have q: "queued c js" using assms(1) by (simp add: accounts_def)
  show ?thesis using submit_step[OF q, of b cb] assms(1) Submit
    by (intro exI[of _ "c\<lparr>h_queue := Live (map Live (js @ [\<lparr>job_base = b, job_cb = cb\<rparr>]))\<rparr>"]
        exI[of _ "js @ [\<lparr>job_base = b, job_cb = cb\<rparr>]"]) (auto simp: accounts_def queued_def real_def job_write_def)
next
  case (Poll readable writable)
  have q: "queued c js" using assms(1) by (simp add: accounts_def)
  have w: "writable = None \<or> (\<exists>e. writable = Some e \<and> 0 \<le> e)" using assms(2) Poll by (cases writable) auto
  obtain c1 c' where c': "http_step c (Poll readable writable) = Some c'" "queued c1 js"
    "cbs_done (h_log c1) = cbs_done (h_log c)" "ssl_writes (h_log c1) = ssl_writes (h_log c)"
    "(\<exists>p. c' = c1\<lparr>h_poll := p\<rparr>) \<or> (\<exists>e p. 0 \<le> e \<and> writable = Some e \<and> c' = (after_write e c1 js)\<lparr>h_poll := p\<rparr>)"
    using poll_step[OF q w, of readable] by blast
  have "accounts c1 js ws" using c'(2-4) session_answers_log[OF c'(4,3)] assms(1) by (simp add: accounts_def)
  then show ?thesis using c'(1,5) after_write_account[of c1 js ws] Poll by auto
qed

lemma http_run_account:
  "accounts c js ws \<Longrightarrow> \<forall>r e. Poll r (Some e) \<in> set xs \<longrightarrow> 0 \<le> e \<Longrightarrow>
     \<exists>c' js'. http_run c xs = Some c' \<and> accounts c' js' (ws + mset (map job_write (jobs_of xs)))"
proof (induction xs arbitrary: c js ws)
  case (Cons x xs)
  have j: "jobs_of (x # xs) = jobs_of [x] @ jobs_of xs" by (cases x) simp_all
  have "\<forall>r e. x = Poll r (Some e) \<longrightarrow> 0 \<le> e" using Cons.prems(2) by simp
  from http_step_account[OF Cons.prems(1) this] obtain c1 js1 where c1: "http_step c x = Some c1"
    "accounts c1 js1 (ws + mset (map job_write (jobs_of [x])))" by blast
  have "\<forall>r e. Poll r (Some e) \<in> set xs \<longrightarrow> 0 \<le> e" using Cons.prems(2) by simp
  from Cons.IH[OF c1(2) this] show ?case using c1(1) unfolding j by (auto simp: add.assoc)
qed auto

section \<open>Properties\<close>

text \<open>
  C17. On an open TLS session, whatever the order of the writes of the caller and of the readable
  and writable events, with any answers of the session (\<open>SSL_get_error\<close> is never negative) and
  callbacks that leave the client alone: the client stays usable, and each write that is not empty
  either still waits or was handed to \<open>SSL_write\<close> once, with its callback run once. Of those handed
  over some were taken by the session, the others refused (it wanted to be asked again, or had
  failed): a refused write is dropped, never handed over again, and its callback is told success as
  all the others are.
\<close>

theorem tls_writes_accounted:
  assumes "queued c []" "h_log c = []" "\<forall>r e. Poll r (Some e) \<in> set xs \<longrightarrow> 0 \<le> e"
  shows "\<exists>c' js. http_run c xs = Some c' \<and> queued c' js \<and>
    length (ssl_writes (h_log c')) = length (cbs_done (h_log c')) \<and>
    mset (taken (h_log c')) + mset (refused (h_log c')) + mset (map job_write (real js)) = mset (map job_write (jobs_of xs)) \<and>
    (\<forall>d \<in> set (cbs_done (h_log c')). fst (snd d) = YTDL_NET_E_OK)"
proof -
  have "accounts c [] {#}" using assms(1,2) by (simp add: accounts_def answered_def session_answers_def real_def)
  from http_run_account[OF this assms(3)] show ?thesis unfolding taken_or_refused by (auto simp: accounts_def answered_def)
qed

definition demo_client :: ytdl_http_client where
  "demo_client = \<lparr>h_keep_alive = True, h_keep_alive_secs = 1, h_is_tls = True, h_hostname = Live ''h'', h_ssl = Live (),
     h_tls_ctx = Live (), h_tls_read_buf = Live (), h_queue = Live [], h_poll = Polling, h_idle = NoIdle, h_reading = False, h_log = []\<rparr>"

lemma tls_writes_accounted_witness:
  "\<exists>c' js. http_run demo_client [Submit ''a'' 1, Submit ''b'' 2, Poll (Some (ReadLast ''x'')) (Some 3), Poll None (Some 0), Submit ''c'' 3] = Some c' \<and>
     mset (taken (h_log c')) + mset (refused (h_log c')) + mset (map job_write (real js)) = {#(''a'', 1), (''b'', 2), (''c'', 3)#} \<and>
     taken (h_log c') = [(''a'', 1)] \<and> refused (h_log c') = [(''b'', 2)]"
proof -
  let ?xs = "[Submit ''a'' 1, Submit ''b'' 2, Poll (Some (ReadLast ''x'')) (Some 3), Poll None (Some 0), Submit ''c'' 3]"
  have "map_option (\<lambda>c. (taken (h_log c), refused (h_log c))) (http_run demo_client ?xs) = Some ([(''a'', 1)], [(''b'', 2)])"
    by code_simp
  moreover have "queued demo_client []" "h_log demo_client = []" by (simp_all add: demo_client_def queued_def)
  ultimately show ?thesis using tls_writes_accounted[of demo_client ?xs] by (auto simp: job_write_def)
qed

lemma submit_run:
  "queued c js \<Longrightarrow> http_run c (map (\<lambda>(b, cb). Submit b cb) ws) =
     Some (c\<lparr>h_queue := Live (map Live (js @ map (\<lambda>(b, cb). \<lparr>job_base = b, job_cb = cb\<rparr>) ws))\<rparr>)"
proof (induction ws arbitrary: c js)
  case (Cons w ws)
  obtain b cb where w: "w = (b, cb)" by (cases w)
  let ?c = "c\<lparr>h_queue := Live (map Live (js @ [\<lparr>job_base = b, job_cb = cb\<rparr>]))\<rparr>"
  have "queued ?c (js @ [\<lparr>job_base = b, job_cb = cb\<rparr>])" using Cons.prems by (simp add: queued_def)
  from Cons.IH[OF this] show ?case using submit_step[OF Cons.prems, of b cb] by (simp add: w)
qed (simp add: queued_def)

lemma poll_run:
  assumes "queued c js" "\<forall>j \<in> set js. job_base j \<noteq> []" "length errs = length js" "\<forall>e \<in> set errs. 0 \<le> e"
  shows "\<exists>c'. http_run c (map (\<lambda>e. Poll None (Some e)) errs) = Some c' \<and>
    ssl_writes (h_log c') = ssl_writes (h_log c) @ rev (map job_base js) \<and>
    cbs_done (h_log c') = cbs_done (h_log c) @ zip (rev (map job_cb js)) (map (\<lambda>e. (YTDL_NET_E_OK, e)) errs)"
  using assms
proof (induction errs arbitrary: c js)
  case (Cons e errs)
  obtain k j where js: "js = k @ [j]" using Cons.prems(3) by (cases js rule: rev_cases) auto
  have ne: "no_empty js = k @ [j]" using Cons.prems(2) by (simp add: js no_empty_snoc)
  let ?c = "after_write e c js"
  have aw: "?c = c\<lparr>h_queue := Live (map Live k), h_log := h_log c @ [SslWrite (job_base j), Done (job_cb j) (YTDL_NET_E_OK, e)]\<rparr>"
    by (simp add: after_write_def ne Let_def)
  have "Some e = None \<or> (\<exists>e'. Some e = Some e' \<and> 0 \<le> e')" using Cons.prems(4) by simp
  from poll_step[OF Cons.prems(1) this, of None] have st: "http_step c (Poll None (Some e)) = Some ?c" by auto
  have "queued ?c k" using Cons.prems(1) by (simp add: aw queued_def)
  from Cons.IH[OF this] obtain c' where "http_run ?c (map (\<lambda>e. Poll None (Some e)) errs) = Some c'"
    "ssl_writes (h_log c') = ssl_writes (h_log ?c) @ rev (map job_base k)"
    "cbs_done (h_log c') = cbs_done (h_log ?c) @ zip (rev (map job_cb k)) (map (\<lambda>e. (YTDL_NET_E_OK, e)) errs)"
    using Cons.prems by (auto simp: js)
  moreover have "ssl_writes (h_log ?c) = ssl_writes (h_log c) @ [job_base j]"
    "cbs_done (h_log ?c) = cbs_done (h_log c) @ [(job_cb j, (YTDL_NET_E_OK, e))]" unfolding aw by simp_all
  ultimately show ?case using st by (intro exI[of _ c']) (simp add: js)
qed simp

text \<open>
  C37. Writes that are queued before the socket is writable leave in the opposite order, the last
  one first, one with each writable event; and each callback is told success with the error the
  session answered, also when the session wanted to be asked again or had failed.
\<close>

theorem tls_writes_reversed:
  assumes "queued c []" "\<forall>w \<in> set ws. fst w \<noteq> []" "length errs = length ws" "\<forall>e \<in> set errs. 0 \<le> e"
  shows "\<exists>c'. http_run c (map (\<lambda>(b, cb). Submit b cb) ws @ map (\<lambda>e. Poll None (Some e)) errs) = Some c' \<and>
    ssl_writes (h_log c') = ssl_writes (h_log c) @ rev (map fst ws) \<and>
    cbs_done (h_log c') = cbs_done (h_log c) @ zip (rev (map snd ws)) (map (\<lambda>e. (YTDL_NET_E_OK, e)) errs)"
proof -
  let ?js = "map (\<lambda>(b, cb). \<lparr>job_base = b, job_cb = cb\<rparr>) ws" and ?c = "c\<lparr>h_queue := Live (map Live (map (\<lambda>(b, cb). \<lparr>job_base = b, job_cb = cb\<rparr>) ws))\<rparr>"
  have s: "http_run c (map (\<lambda>(b, cb). Submit b cb) ws) = Some ?c" using submit_run[OF assms(1), of ws] by simp
  have "queued ?c ?js" using assms(1) by (simp add: queued_def)
  moreover have "\<forall>j \<in> set ?js. job_base j \<noteq> []" using assms(2) by auto
  ultimately obtain c' where c': "http_run ?c (map (\<lambda>e. Poll None (Some e)) errs) = Some c'"
    "ssl_writes (h_log c') = ssl_writes (h_log c) @ rev (map job_base ?js)"
    "cbs_done (h_log c') = cbs_done (h_log c) @ zip (rev (map job_cb ?js)) (map (\<lambda>e. (YTDL_NET_E_OK, e)) errs)"
    using poll_run[of ?c ?js errs] assms(3,4) by auto
  have m: "map job_base ?js = map fst ws" "map job_cb ?js = map snd ws" by auto
  have "http_run c (map (\<lambda>(b, cb). Submit b cb) ws @ map (\<lambda>e. Poll None (Some e)) errs) = Some c'"
    by (simp only: http_run_append s option.case c'(1))
  thus ?thesis using c'(2,3) unfolding m by blast
qed

lemma tls_writes_reversed_witness:
  "\<exists>c'. http_run demo_client [Submit ''a'' 1, Submit ''b'' 2, Poll None (Some 0), Poll None (Some SSL_ERROR_WANT_WRITE)] = Some c' \<and>
     ssl_writes (h_log c') = [''b'', ''a''] \<and> cbs_done (h_log c') = [(2, (YTDL_NET_E_OK, 0)), (1, (YTDL_NET_E_OK, 3))]"
  using tls_writes_reversed[of demo_client "[(''a'', 1), (''b'', 2)]" "[0, SSL_ERROR_WANT_WRITE]"]
  by (simp add: demo_client_def queued_def SSL_ERROR_WANT_WRITE_def)

text \<open>
  A session whose setup failed after it was made stays a dangling pointer: the next connection,
  and closing the client after the poll began, release it again.
\<close>

definition failing_setup :: tls_setup where
  "failing_setup = \<lparr>ts_method = True, ts_ctx_new = True, ts_verify_paths = True, ts_ssl_new = True, ts_ciphers = False,
     ts_host = True, ts_set_fd = True, ts_error = 1, ts_read_start = 0\<rparr>"

lemma reconnect_releases_twice:
  "ytdl__http_client_tcp_connect_cb quiet pton failing_setup demo_client \<bind> ytdl__http_client_tcp_connect_cb quiet pton ts = None"
  by (simp add: ytdl__http_client_tcp_connect_cb_def tls_open_def demo_client_def failing_setup_def release_def say_def)

text \<open>Closing a client whose handshake has not ended stops a poll handle that was never initialised.\<close>

lemma shutdown_before_poll: "ytdl_http_client_shutdown (demo_client\<lparr>h_poll := NoPoll\<rparr>) = None"
  by (simp add: ytdl_http_client_shutdown_def demo_client_def release_def)

text \<open>\<open>uv_inet_pton\<close> answers 0 for success and a negative number otherwise: no host counts as numeric.\<close>

lemma no_host_numeric:
  "(\<And>h f. uv_inet_pton h f \<le> 0) \<Longrightarrow> ytdl_net_is_numeric_host_v uv_inet_pton host = 0 \<and> \<not> ytdl_net_is_numeric_host uv_inet_pton host"
proof -
  assume a: "\<And>h f. uv_inet_pton h f \<le> 0"
  have "uv_inet_pton h f \<noteq> 1" for h f using a[of h f] by linarith
  thus ?thesis by (simp add: ytdl_net_is_numeric_host_v_def ytdl_net_is_numeric_host_def ytdl_net_is_numeric_host_v4_def
        ytdl_net_is_numeric_host_v6_def ytdl_net_is_numeric_host_af_def)
qed

text \<open>An answer 0 of \<open>SSL_connect\<close>, a handshake that was refused, starts the polling.\<close>

lemma refused_handshake_is_ready:
  "ytdl__http_client_tls_handshake_cb quiet 0 err 0 0 (demo_client\<lparr>h_poll := NoPoll\<rparr>) = Some (say Ready demo_client)"
  by (simp add: ytdl__http_client_tls_handshake_cb_def demo_client_def use_def)

end
