(* ===== verification/Dl.thy ===== *)
theory Dl
  imports Hashmap Net Info Cipher Http
begin

text \<open>
  The downloader of \<open>src/dl.c\<close> (\<open>include/ytdl/dl.h\<close>): the queue of videos whose page and player
  are fetched over one connection, and the cache file of the players. The media and DASH
  downloads of the same file are in \<open>Media\<close> and \<open>Dash_Dl\<close>.

  The functions libuv and llhttp call back are steps on a context. The HTTP client of a context is
  that of \<open>Http\<close>, with callbacks that only print. What a context asks of the outside (its memory,
  the parsers, the functions of the caller) is an environment; \<^term>\<open>None\<close> is undefined
  behaviour, an allocation whose failure is not checked among it.
\<close>

section \<open>Bodies and requests\<close>

text \<open>The three body callbacks do the same to their buffer.\<close>

definition append_body :: "realloc \<Rightarrow> ytdl_buf \<Rightarrow> string \<Rightarrow> ytdl_buf option" where
  "append_body realloc buf bytes =
     (let n = of_nat (length bytes);
          buf = (if b_size buf < b_len buf + n then ytdl_buf_realloc realloc buf (b_len buf + n) else buf)
      in do { buf \<leftarrow> buf_write buf (unat (b_len buf)) bytes (length bytes);
              Some (buf\<lparr>b_len := b_len buf + n\<rparr>) })"

text \<open>A request on the stack, before its builder ran.\<close>

definition request_0 :: ytdl_buf where
  "request_0 = \<lparr>b_base = None, b_len = 0, b_size = 0\<rparr>"

text \<open>
  The write of a request, whose callback \<open>ytdl__write_cb\<close> has the number 0, and what the callbacks
  print for the events of a client.
\<close>

datatype dl_message =
    WriteError ytdl_net_status
  | HttpError ytdl_net_status
  | WatchExtractError int
  | Unplayable string
  | SigExtractError
  | MapError

definition ytdl__write_cb :: "ytdl_net_status \<Rightarrow> dl_message list" where
  "ytdl__write_cb status = (if fst status \<noteq> YTDL_NET_E_OK then [WriteError status] else [])"

definition ytdl__status_cb :: "ytdl_net_status \<Rightarrow> dl_message list" where
  "ytdl__status_cb status = (if fst status \<noteq> YTDL_NET_E_OK then [HttpError status] else [])"

definition printed :: "http_event list \<Rightarrow> dl_message list" where
  "printed es = concat (map (\<lambda>e. case e of Done cb st \<Rightarrow> ytdl__write_cb st | Status st \<Rightarrow> ytdl__status_cb st | _ \<Rightarrow> []) es)"

definition send :: "bool \<Rightarrow> int \<Rightarrow> ytdl_http_client \<Rightarrow> ytdl_buf \<Rightarrow> ytdl_http_client option" where
  "send mem uv_write c buf = ytdl_http_client_write quiet mem uv_write c (buf_content buf) 0"

section \<open>State\<close>

definition YTDL_DL_IS_CONNECTED :: u32 where "YTDL_DL_IS_CONNECTED = 1"
definition YTDL_DL_IS_SHUTDOWN :: u32 where "YTDL_DL_IS_SHUTDOWN = 2"
definition YTDL_DL_IS_IDLE :: u32 where "YTDL_DL_IS_IDLE = 4"

record ytdl_dl_video =
  v_id :: string
  v_info :: ytdl_info_ctx
  v_response :: ytdl_buf
  v_on_complete :: nat

record ytdl_dl_player =
  pl_player_path :: "string option"
  pl_sig_actions :: ytdl_sig_actions

type_synonym player_map = "(string, ytdl_dl_player) hashmap_base"

text \<open>The array of the queue is a block of \<open>size\<close> pointers.\<close>

record ytdl_dl_queue =
  q_videos :: "ytdl_dl_video ptr list ptr"
  q_len :: u64
  q_size :: u64

datatype body_cb = WatchBody | PlayerBody
datatype message_cb = WatchComplete | PlayerComplete

datatype dl_event =
    Print dl_message
  | Complete nat ytdl_dl_video
  | FreePlayer "string option" "sig_release list"
  | FreeVideo "info_release list"
  | OnClose nat

record ytdl_dl_ctx =
  dl_queue :: ytdl_dl_queue
  dl_http :: ytdl_http_client
  dl_on_body :: body_cb
  dl_on_message_complete :: message_cb
  dl_player_js :: ytdl_buf
  dl_player_map :: player_map
  dl_status :: u32
  dl_on_close :: "nat option"
  dl_stopping :: bool
  dl_log :: "dl_event list"

datatype alloc_site = QueueAlloc | PlayerAlloc | PathAlloc | MapAlloc | WriteAlloc | IdleAlloc

text \<open>
  The environment of a step: the allocators, which of the other allocations succeed, what a block
  for a video holds at first, the answer of \<open>uv_write\<close>, the parser of JSON, the engine and the
  regular expressions of \<open>Sig\<close>, and what the caller's \<open>on_complete\<close> callbacks do.
\<close>

record dl_env =
  en_malloc :: malloc
  en_realloc :: realloc
  en_mem :: "alloc_site \<Rightarrow> bool"
  en_video :: "ytdl_dl_video option"
  en_uv_write :: int
  en_yyjson_read :: "string \<Rightarrow> json option"
  en_js :: js_engine
  en_js_malloc :: malloc
  en_runtime :: bool
  en_context :: bool
  en_captures :: "nat \<Rightarrow> bool"
  en_obj_regexp :: regex
  en_func_regexp :: regex
  en_on_complete :: "nat \<Rightarrow> ytdl_dl_ctx \<Rightarrow> ytdl_dl_ctx option"

definition note_dl :: "dl_event \<Rightarrow> ytdl_dl_ctx \<Rightarrow> ytdl_dl_ctx" where
  "note_dl e ctx = ctx\<lparr>dl_log := dl_log ctx @ [e]\<rparr>"

text \<open>\<open>ctx->queue.videos[0]\<close>, read and written through the array.\<close>

definition video_0 :: "ytdl_dl_ctx \<Rightarrow> ytdl_dl_video option" where
  "video_0 ctx = do { vs \<leftarrow> use (q_videos (dl_queue ctx)); p \<leftarrow> rd vs 0; use p }"

definition set_videos :: "ytdl_dl_video ptr list ptr \<Rightarrow> ytdl_dl_ctx \<Rightarrow> ytdl_dl_ctx" where
  "set_videos vs ctx = ctx\<lparr>dl_queue := (dl_queue ctx)\<lparr>q_videos := vs\<rparr>\<rparr>"

definition set_len :: "u64 \<Rightarrow> ytdl_dl_ctx \<Rightarrow> ytdl_dl_ctx" where
  "set_len n ctx = ctx\<lparr>dl_queue := (dl_queue ctx)\<lparr>q_len := n\<rparr>\<rparr>"

definition put_video :: "nat \<Rightarrow> ytdl_dl_video ptr \<Rightarrow> ytdl_dl_ctx \<Rightarrow> ytdl_dl_ctx option" where
  "put_video i p ctx = do { vs \<leftarrow> use (q_videos (dl_queue ctx)); vs \<leftarrow> wr vs i p; Some (set_videos (Live vs) ctx) }"

section \<open>The queue\<close>

definition ytdl__watch_body_cb :: "dl_env \<Rightarrow> ytdl_dl_ctx \<Rightarrow> string \<Rightarrow> ytdl_dl_ctx option" where
  "ytdl__watch_body_cb env ctx bytes =
     do { vid \<leftarrow> video_0 ctx;
          buf \<leftarrow> append_body (en_realloc env) (v_response vid) bytes;
          put_video 0 (Live (vid\<lparr>v_response := buf\<rparr>)) ctx }"

definition yt__player_body_cb :: "dl_env \<Rightarrow> ytdl_dl_ctx \<Rightarrow> string \<Rightarrow> ytdl_dl_ctx option" where
  "yt__player_body_cb env ctx bytes =
     do { buf \<leftarrow> append_body (en_realloc env) (dl_player_js ctx) bytes; Some (ctx\<lparr>dl_player_js := buf\<rparr>) }"

definition dl_send :: "dl_env \<Rightarrow> ytdl_dl_ctx \<Rightarrow> ytdl_buf \<Rightarrow> ytdl_dl_ctx option" where
  "dl_send env ctx buf = do { c \<leftarrow> send (en_mem env WriteAlloc) (en_uv_write env) (dl_http ctx) buf; Some (ctx\<lparr>dl_http := c\<rparr>) }"

definition ytdl__dl_wake :: "dl_env \<Rightarrow> ytdl_dl_ctx \<Rightarrow> ytdl_dl_ctx option" where
  "ytdl__dl_wake env ctx =
     (if dl_status ctx AND YTDL_DL_IS_IDLE = 0 then Some ctx
      else if q_len (dl_queue ctx) = 0 then Some ctx
      else let ctx = ctx\<lparr>dl_on_body := WatchBody, dl_on_message_complete := WatchComplete\<rparr> in
      do { vid \<leftarrow> video_0 ctx;
           _ \<leftarrow> strlen (v_id vid);
           buf \<leftarrow> ytdl_net_request_watch_html (en_malloc env) request_0 (v_id vid);
           ctx \<leftarrow> dl_send env ctx buf;
           Some (ctx\<lparr>dl_status := dl_status ctx XOR YTDL_DL_IS_IDLE\<rparr>) })"

text \<open>\<open>videos[i] = videos[i + 1]\<close> for the next \<open>n\<close> indices.\<close>

fun shift_videos :: "'a list \<Rightarrow> nat \<Rightarrow> nat \<Rightarrow> 'a list option" where
  "shift_videos vs i 0 = Some vs"
| "shift_videos vs i (Suc n) = do { p \<leftarrow> rd vs (i + 1); vs \<leftarrow> wr vs i p; shift_videos vs (i + 1) n }"

definition ytdl__dl_finalize :: "dl_env \<Rightarrow> ytdl_dl_ctx \<Rightarrow> ytdl_dl_player \<Rightarrow> ytdl_dl_ctx option" where
  "ytdl__dl_finalize env ctx player =
     do { vid \<leftarrow> video_0 ctx;
          let vid = vid\<lparr>v_info := ytdl_info_set_sig_actions (v_info vid) (pl_sig_actions player)\<rparr>;
          ctx \<leftarrow> put_video 0 (Live vid) ctx;
          ctx \<leftarrow> en_on_complete env (v_on_complete vid) (note_dl (Complete (v_on_complete vid) vid) ctx);
          vid \<leftarrow> video_0 ctx;
          freed \<leftarrow> ytdl_info_ctx_free (v_info vid);
          ctx \<leftarrow> put_video 0 Freed (note_dl (FreeVideo freed) ctx);
          vs \<leftarrow> use (q_videos (dl_queue ctx));
          vs \<leftarrow> shift_videos vs 0 (unat (q_len (dl_queue ctx) - 1));
          let ctx = (set_videos (Live vs) ctx)\<lparr>dl_status := dl_status ctx OR YTDL_DL_IS_IDLE\<rparr>;
          let ctx = set_len (q_len (dl_queue ctx) - 1) ctx;
          if q_len (dl_queue ctx) > 0 then ytdl__dl_wake env ctx else Some ctx }"

text \<open>
  \<open>hashmap_put\<close> of a player under its path. The path is a copy of \<open>player_url\<close>, or \<open>NULL\<close>.
\<close>

definition put_player :: "dl_env \<Rightarrow> ytdl_dl_ctx \<Rightarrow> ytdl_dl_player \<Rightarrow> (ytdl_dl_ctx \<times> int) option" where
  "put_player env ctx player =
     do { (r, m) \<leftarrow> hashmap_base_put (en_mem env MapAlloc) (dl_player_map ctx) (pl_player_path player) (Some player);
          Some (ctx\<lparr>dl_player_map := m\<rparr>, r) }"

definition path_copy :: "dl_env \<Rightarrow> string \<Rightarrow> string option option" where
  "path_copy env path = do { _ \<leftarrow> strlen path; Some (if en_mem env PathAlloc then Some (cstr path) else None) }"

definition ytdl__player_js_complete :: "dl_env \<Rightarrow> ytdl_dl_ctx \<Rightarrow> ytdl_dl_ctx option" where
  "ytdl__player_js_complete env ctx =
     do { vid \<leftarrow> video_0 ctx;
          if \<not> en_mem env PlayerAlloc then Some ctx
          else do { path \<leftarrow> path_copy env (i_player_url (v_info vid));
               js \<leftarrow> b_base (dl_player_js ctx);
               (a, r) \<leftarrow> ytdl_sig_actions_extract (en_malloc env) (en_captures env) (en_js env) (en_obj_regexp env) (en_func_regexp env)
                 (fst (ytdl_sig_actions_init (en_runtime env) (en_context env))) js (unat (b_len (dl_player_js ctx)));
               if r \<noteq> 0 then Some (note_dl (Print SigExtractError) ctx)
               else
                 let player = \<lparr>pl_player_path = path, pl_sig_actions = a\<rparr> in
                 do { (ctx, r) \<leftarrow> put_player env ctx player;
                      if r < 0 then Some (note_dl (Print MapError) ctx)
                      else ytdl__dl_finalize env (ctx\<lparr>dl_player_js := (dl_player_js ctx)\<lparr>b_len := 0\<rparr>\<rparr>) player } } }"

definition ytdl__watch_html_complete :: "dl_env \<Rightarrow> ytdl_dl_ctx \<Rightarrow> ytdl_dl_ctx option" where
  "ytdl__watch_html_complete env ctx =
     do { vid \<leftarrow> video_0 ctx;
          page \<leftarrow> b_base (v_response vid);
          (info, ret) \<leftarrow> ytdl_info_extract_watch_html (en_yyjson_read env) (v_info vid) page (unat (b_len (v_response vid)));
          ctx \<leftarrow> put_video 0 (Live (vid\<lparr>v_info := info\<rparr>)) ctx;
          if ret \<noteq> 0 then Some (note_dl (Print (WatchExtractError ret)) ctx)
          else let (info, st) = ytdl_info_get_playability_status info in
          do { ctx \<leftarrow> put_video 0 (Live (vid\<lparr>v_info := info\<rparr>)) ctx;
               if st \<noteq> YTDL_PLAYABILITY_OK
               then let (info, message) = ytdl_info_get_playability_status_message info in
                    do { ctx \<leftarrow> put_video 0 (Live (vid\<lparr>v_info := info\<rparr>)) ctx;
                         m \<leftarrow> message;
                         Some (note_dl (Print (Unplayable m)) ctx) }
               else do { _ \<leftarrow> strlen (i_player_url info);
                    player \<leftarrow> hashmap_base_get (dl_player_map ctx) (Some (i_player_url info));
                    case player of
                      Some player \<Rightarrow> ytdl__dl_finalize env ctx player
                    | None \<Rightarrow>
                        let ctx = ctx\<lparr>dl_on_body := PlayerBody, dl_on_message_complete := PlayerComplete\<rparr> in
                        do { buf \<leftarrow> ytdl_net_request_player_js (en_malloc env) request_0 (i_player_url info);
                             dl_send env ctx buf } } } }"

definition ytdl_dl_ctx_init :: "dl_env \<Rightarrow> int \<Rightarrow> ytdl_dl_ctx \<Rightarrow> ytdl_dl_ctx \<times> int" where
  "ytdl_dl_ctx_init env uv_tcp_init ctx =
     (let ctx = ctx\<lparr>dl_player_js := ytdl_buf_alloc (en_malloc env) (dl_player_js ctx) 1\<rparr> in
      if b_base (dl_player_js ctx) = None then (ctx, 1)
      else let (c, r) = ytdl_http_client_init uv_tcp_init (dl_http ctx); ctx = ctx\<lparr>dl_http := c\<rparr> in
      if r = 0 then (ctx\<lparr>dl_player_js := ytdl_buf_free (dl_player_js ctx)\<rparr>, 1)
      else if \<not> en_mem env QueueAlloc
      then ((set_videos Null ctx)\<lparr>dl_player_js := ytdl_buf_free (dl_player_js ctx)\<rparr>, 1)
      else
        (ctx\<lparr>dl_queue := \<lparr>q_videos = Live [Null], q_len = 0, q_size = 1\<rparr>,
             dl_player_map := hashmap_base_init hashmap_hash_string strcmp,
             dl_http := c\<lparr>h_keep_alive := True\<rparr>,
             dl_on_body := WatchBody, dl_on_message_complete := WatchComplete,
             dl_status := 0, dl_on_close := None\<rparr>, 0))"

text \<open>
  The growth of a full queue: \<open>size *= 1.5\<close> rounds down (the product is exact below \<open>2^52\<close>), and
  \<open>realloc\<close> keeps the pointers both blocks have.
\<close>

definition grow_queue :: "dl_env \<Rightarrow> ytdl_dl_queue \<Rightarrow> ytdl_dl_queue option" where
  "grow_queue env q =
     do { old \<leftarrow> (case q_videos q of Null \<Rightarrow> Some [] | Live vs \<Rightarrow> Some vs | Freed \<Rightarrow> None);
          let n = of_nat (3 * unat (q_size q) div 2);
          let slots = unat (8 * n) div 8;
          Some (q\<lparr>q_size := n,
            q_videos := (if en_mem env QueueAlloc then Live (take slots old @ replicate (slots - length old) Null) else Null)\<rparr>) }"

definition ytdl_dl_get_info :: "dl_env \<Rightarrow> ytdl_dl_ctx \<Rightarrow> string \<Rightarrow> nat \<Rightarrow> (ytdl_dl_ctx \<times> int) option" where
  "ytdl_dl_get_info env ctx vid_id on_complete =
     do { q \<leftarrow> (if q_size (dl_queue ctx) = q_len (dl_queue ctx) then grow_queue env (dl_queue ctx) else Some (dl_queue ctx));
          let ctx = ctx\<lparr>dl_queue := q\<rparr>;
          if q_videos q = Null then Some (ctx, -1)
          else let i = unat (q_len q) in
          do { vid \<leftarrow> en_video env;
               ident \<leftarrow> slice vid_id 0 YTDL_ID_SIZE;
               let response = ytdl_buf_alloc (en_malloc env) (v_response vid) 1;
               let vid = vid\<lparr>v_id := ident, v_response := response\<rparr>;
               ctx \<leftarrow> put_video i (Live vid) (set_len (q_len q + 1) ctx);
               if b_base response = None then Some (ctx, -1)
               else do { ctx \<leftarrow> put_video i (Live (vid\<lparr>v_info := ytdl_info_ctx_init, v_on_complete := on_complete\<rparr>)) ctx;
                         ctx \<leftarrow> ytdl__dl_wake env ctx;
                         Some (ctx, 0) } } }"

section \<open>Connecting and closing\<close>

definition ytdl__connected_cb :: "dl_env \<Rightarrow> ytdl_dl_ctx \<Rightarrow> ytdl_dl_ctx option" where
  "ytdl__connected_cb env ctx =
     ytdl__dl_wake env (ctx\<lparr>dl_status := dl_status ctx OR (YTDL_DL_IS_CONNECTED OR YTDL_DL_IS_IDLE)\<rparr>)"

definition ytdl_dl_ctx_connect :: "(string \<Rightarrow> int \<Rightarrow> int) \<Rightarrow> int \<Rightarrow> int \<Rightarrow> ytdl_dl_ctx \<Rightarrow> (ytdl_dl_ctx \<times> int) option" where
  "ytdl_dl_ctx_connect uv_inet_pton uv_ip_addr uv_tcp_connect ctx =
     do { (c, r) \<leftarrow> ytdl_http_client_connect quiet True uv_inet_pton uv_ip_addr uv_tcp_connect (dl_http ctx) True ''www.youtube.com'';
          Some (ctx\<lparr>dl_http := c\<rparr>, r) }"

definition ytdl__close_cb :: "ytdl_dl_ctx \<Rightarrow> ytdl_dl_ctx" where
  "ytdl__close_cb ctx = (case dl_on_close ctx of None \<Rightarrow> ctx | Some cb \<Rightarrow> note_dl (OnClose cb) ctx)"

text \<open>The request to stop starts an idle handle, whose handler releases everything.\<close>

definition ytdl_dl_shutdown :: "dl_env \<Rightarrow> ytdl_dl_ctx \<Rightarrow> ytdl_dl_ctx option" where
  "ytdl_dl_shutdown env ctx = (if en_mem env IdleAlloc then Some (ctx\<lparr>dl_stopping := True\<rparr>) else None)"

fun free_videos :: "ytdl_dl_video ptr list \<Rightarrow> nat \<Rightarrow> nat \<Rightarrow> dl_event list option" where
  "free_videos vs i 0 = Some []"
| "free_videos vs i (Suc n) =
     do { p \<leftarrow> rd vs i; vid \<leftarrow> use p;
          freed \<leftarrow> ytdl_info_ctx_free (v_info vid);
          es \<leftarrow> free_videos vs (i + 1) n;
          Some (FreeVideo freed # es) }"

definition players_of :: "player_map \<Rightarrow> ytdl_dl_player list option" where
  "players_of m = hashmap_foreach_data (Suc (unat (hb_table_size m))) m"

definition ytdl__dl_shutdown :: "ytdl_dl_ctx \<Rightarrow> ytdl_dl_ctx option" where
  "ytdl__dl_shutdown ctx =
     do { c \<leftarrow> (if dl_status ctx AND YTDL_DL_IS_CONNECTED \<noteq> 0 then ytdl_http_client_shutdown (dl_http ctx) else Some (dl_http ctx));
          players \<leftarrow> players_of (dl_player_map ctx);
          let freed = map (\<lambda>p. FreePlayer (pl_player_path p) (ytdl_sig_actions_free (pl_sig_actions p))) players;
          vs \<leftarrow> (if q_len (dl_queue ctx) = 0 then Some [] else use (q_videos (dl_queue ctx)));
          es \<leftarrow> free_videos vs 0 (unat (q_len (dl_queue ctx)));
          arr \<leftarrow> release (q_videos (dl_queue ctx));
          Some (set_videos arr (ctx\<lparr>dl_http := c, dl_player_js := ytdl_buf_free (dl_player_js ctx),
            dl_player_map := (dl_player_map ctx)\<lparr>hb_table := [], hb_table_size := 0, hb_size := 0\<rparr>,
            dl_stopping := False, dl_log := dl_log ctx @ freed @ es\<rparr>)) }"

section \<open>The cache of players\<close>

definition save_player :: "string \<Rightarrow> ytdl_dl_player \<Rightarrow> string option" where
  "save_player fd player =
     do { path \<leftarrow> pl_player_path player;
          (fd, _) \<leftarrow> ytdl_sig_actions_save_file (pl_sig_actions player) (fd @ path @ [NUL]);
          Some fd }"

fun save_players :: "string \<Rightarrow> ytdl_dl_player list \<Rightarrow> string option" where
  "save_players fd [] = Some fd"
| "save_players fd (p # ps) = do { fd \<leftarrow> save_player fd p; save_players fd ps }"

definition ytdl_dl_player_cache_save_file :: "ytdl_dl_ctx \<Rightarrow> string \<Rightarrow> string option" where
  "ytdl_dl_player_cache_save_file ctx fd = do { ps \<leftarrow> players_of (dl_player_map ctx); save_players fd ps }"

text \<open>
  The path in the file, up to its NUL, into the array from position \<open>k\<close> on: \<open>Some None\<close> when the array
  is full. At the end of the file \<open>fgetc\<close> is \<open>-1\<close>, stored as the character 255.
\<close>

function read_path :: "string \<Rightarrow> nat \<Rightarrow> string \<Rightarrow> (string \<times> string) option option" where
  "read_path path k fd =
     (if k > 99 then Some None
      else let c = (case fd of [] \<Rightarrow> char_of (255 :: nat) | c # _ \<Rightarrow> c) in
        (case wr path k c of
           None \<Rightarrow> None
         | Some path \<Rightarrow> if c = NUL then Some (Some (path, tl fd)) else read_path path (k + 1) (tl fd)))"
  by auto
termination by (relation "measure (\<lambda>(_, k, _). 100 - k)") auto

declare read_path.simps [simp del]

lemma read_path_shorter: "read_path path k fd = Some (Some (path', fd')) \<Longrightarrow> length fd' < length fd"
proof (induction path k fd rule: read_path.induct)
  case (1 path k fd)
  show ?case
  proof (cases "k > 99")
    case True
    thus ?thesis using 1(2) by (simp add: read_path.simps[of path k fd])
  next
    case False
    let ?c = "case fd of [] \<Rightarrow> char_of (255 :: nat) | c # _ \<Rightarrow> c"
    have r: "read_path path k fd = (case wr path k ?c of None \<Rightarrow> None
       | Some path \<Rightarrow> if ?c = NUL then Some (Some (path, tl fd)) else read_path path (k + 1) (tl fd))"
      using False by (subst read_path.simps) (simp only: if_False Let_def)
    obtain p where p: "wr path k ?c = Some p" using 1(2) unfolding r by (auto split: option.splits)
    have e: "fd \<noteq> []" if "?c = NUL" using that by (cases fd) (auto simp: uchar_0[symmetric])
    show ?thesis
    proof (cases "?c = NUL")
      case True
      have "read_path path k fd = Some (Some (p, tl fd))" unfolding r p using True by simp
      thus ?thesis using 1(2) e[OF True] by (cases fd) auto
    next
      case n: False
      have "read_path p (k + 1) (tl fd) = Some (Some (path', fd'))" using 1(2) unfolding r p using n by simp
      from 1(1)[OF False refl p n this] show ?thesis by (cases fd) auto
    qed
  qed
qed

lemma load_file_shorter: "ytdl_sig_actions_load_file js_malloc js a fd = Some (a', fd', r) \<Longrightarrow> length fd' \<le> length fd"
  by (auto simp: ytdl_sig_actions_load_file_def Let_def split: if_splits option.splits)

text \<open>The player at the position of the file, put into the map; the rest of the file.\<close>

definition load_player :: "dl_env \<Rightarrow> ytdl_dl_ctx \<Rightarrow> string \<Rightarrow> string \<Rightarrow> (ytdl_dl_ctx \<times> string) option" where
  "load_player env ctx path fd =
     (if \<not> en_mem env PlayerAlloc then None
      else do { path \<leftarrow> path_copy env path;
                (a, fd, _) \<leftarrow> ytdl_sig_actions_load_file (en_js_malloc env) (en_js env)
                  (fst (ytdl_sig_actions_init (en_runtime env) (en_context env))) fd;
                (ctx, _) \<leftarrow> put_player env ctx \<lparr>pl_player_path = path, pl_sig_actions = a\<rparr>;
                Some (ctx, fd) })"

lemma load_player_shorter: "load_player env ctx path fd = Some (ctx', fd') \<Longrightarrow> length fd' \<le> length fd"
  by (auto simp: load_player_def bind_eq_Some_conv split: if_splits dest: load_file_shorter)

function load_players :: "dl_env \<Rightarrow> ytdl_dl_ctx \<Rightarrow> string \<Rightarrow> nat \<Rightarrow> string \<Rightarrow> (ytdl_dl_ctx \<times> int) option" where
  "load_players env ctx path k fd =
     (case read_path path k fd of
        None \<Rightarrow> None
      | Some None \<Rightarrow> Some (ctx, -1)
      | Some (Some (path, fd)) \<Rightarrow>
          (case load_player env ctx path fd of
             None \<Rightarrow> None
           | Some (ctx, fd) \<Rightarrow>
               (case fd of
                  [] \<Rightarrow> Some (ctx, 0)
                | c # fd \<Rightarrow> load_players env ctx (path[0 := c]) 1 fd)))"
  by auto
termination
  by (relation "measure (\<lambda>(_, _, _, _, fd). length fd)") (fastforce dest: read_path_shorter load_player_shorter)+

declare load_players.simps [simp del]

definition ytdl_dl_player_cache_load_file :: "dl_env \<Rightarrow> ytdl_dl_ctx \<Rightarrow> string \<Rightarrow> (ytdl_dl_ctx \<times> int) option" where
  "ytdl_dl_player_cache_load_file env ctx fd = load_players env ctx (replicate 100 NUL) 0 fd"

section \<open>What lies behind a text does not matter\<close>

text \<open>
  The player script is collected in a buffer that keeps the bytes of the one before. The reads of
  the extraction that are defined on the script alone see nothing of them.
\<close>

lemma rd_more: "rd m i = Some x \<Longrightarrow> rd (m @ z) i = Some x"
  by (auto simp: rd_def nth_append split: if_splits)

lemma slice_more: "slice m p n = Some x \<Longrightarrow> slice (m @ z) p n = Some x"
  by (auto simp: slice_def split: if_splits)

lemma strncmp_at_more: "strncmp_at m p s n = Some r \<Longrightarrow> strncmp_at (m @ z) p s n = Some r"
  by (induction m p s n rule: strncmp_at.induct) (auto simp: rd_more Let_def split: option.splits if_splits)

lemma strnstr_more: "strnstr m p f n = Some r \<Longrightarrow> strnstr (m @ z) p f n = Some r"
proof -
  have "strnstr_loop m p c g n = Some r \<Longrightarrow> strnstr_loop (m @ z) p c g n = Some r" for c g
    by (induction m p c g n rule: strnstr_loop.induct) (auto simp: rd_more strncmp_at_more split: option.splits if_splits)
  thus "strnstr m p f n = Some r \<Longrightarrow> strnstr (m @ z) p f n = Some r" by (cases f) (auto simp: strnstr_def)
qed

lemma cstr_more: "NUL \<in> set m \<Longrightarrow> cstr (take n (m @ z)) = cstr (take n m)"
  by (cases "n \<le> length m") (auto simp: cstr_def takeWhile_append1)

lemma fmt_prec_more: "fmt_prec n (drop k m) = Some x \<Longrightarrow> fmt_prec n (drop k (m @ z)) = Some x"
  using cstr_more[of "drop k m" n "drop (k - length m) z"] by (auto simp: fmt_prec_def split: if_splits)

definition agrees :: "'a option \<Rightarrow> 'a option \<Rightarrow> bool" where
  "agrees a b \<longleftrightarrow> (\<forall>x. a = Some x \<longrightarrow> b = Some x)"

lemma agrees_refl: "agrees a a"
  by (simp add: agrees_def)

lemma agrees_case: "agrees a b \<Longrightarrow> (\<And>y. agrees (f y) (g y)) \<Longrightarrow>
    agrees (case r of None \<Rightarrow> a | Some y \<Rightarrow> f y) (case r of None \<Rightarrow> b | Some y \<Rightarrow> g y)"
  by (cases r) auto

lemma agrees_read: "agrees r r' \<Longrightarrow> (\<And>y. agrees (f y) (g y)) \<Longrightarrow>
    agrees (case r of None \<Rightarrow> None | Some y \<Rightarrow> f y) (case r' of None \<Rightarrow> None | Some y \<Rightarrow> g y)"
  by (auto simp: agrees_def split: option.splits)

lemma agrees_bind: "agrees r r' \<Longrightarrow> (\<And>y. agrees (f y) (g y)) \<Longrightarrow> agrees (Option.bind r f) (Option.bind r' g)"
  by (auto simp: agrees_def bind_eq_Some_conv)

lemma agrees_map: "agrees r r' \<Longrightarrow> agrees (map_option h r) (map_option h r')"
  by (auto simp: agrees_def)

lemma agrees_if: "agrees a b \<Longrightarrow> agrees c d \<Longrightarrow> agrees (if P then a else c) (if P then b else d)"
  by simp

lemma agrees_split: "(\<And>x y. agrees (f x y) (g x y)) \<Longrightarrow> agrees (case p of (x, y) \<Rightarrow> f x y) (case p of (x, y) \<Rightarrow> g x y)"
  by (cases p) auto

lemmas agrees_intros = agrees_refl agrees_case agrees_read agrees_bind agrees_map agrees_if agrees_split

lemma agrees_reads:
  "agrees (slice m p n) (slice (m @ z) p n)" "agrees (strnstr m p f n) (strnstr (m @ z) p f n)"
  "agrees (fmt_prec n (drop k m)) (fmt_prec n (drop k (m @ z)))"
  unfolding agrees_def by (blast intro: slice_more strnstr_more fmt_prec_more)+

lemma agrees_captures:
  "agrees (copy_capture malloc m c i) (copy_capture malloc (m @ z) c i)"
  "agrees (n_function m n) (n_function (m @ z) n)"
  "agrees (js_function malloc m s e) (js_function malloc (m @ z) s e)"
  unfolding copy_capture_def n_function_def js_function_def Let_def
  by (intro agrees_intros agrees_reads)+

lemma regex_exec_more: "n \<le> length m \<Longrightarrow> ytdl__regex_exec a re (m @ z) n i = ytdl__regex_exec a re m n i"
  by (simp add: ytdl__regex_exec_def)

lemma extract_more:
  assumes "n \<le> length m" "ytdl_sig_actions_extract malloc al js re1 re2 a m n = Some r"
  shows "ytdl_sig_actions_extract malloc al js re1 re2 a (m @ z) n = Some r"
proof -
  have "agrees (match_player malloc al re1 re2 m n) (match_player malloc al re1 re2 (m @ z) n)"
    unfolding match_player_def regex_exec_more[OF assms(1)] Let_def
    by (intro agrees_intros agrees_captures)
  hence "agrees (ytdl_sig_actions_extract malloc al js re1 re2 a m n) (ytdl_sig_actions_extract malloc al js re1 re2 a (m @ z) n)"
    unfolding ytdl_sig_actions_extract_def
    by (intro agrees_intros agrees_captures)
  thus ?thesis using assms(2) by (simp add: agrees_def)
qed

section \<open>Bodies collect what is fed\<close>

definition grows :: "realloc \<Rightarrow> bool" where
  "grows realloc \<longleftrightarrow> realloc_ok realloc \<and> (\<forall>old n. realloc old n \<noteq> None)"

lemma buf_content_length: "buf_ok buf \<Longrightarrow> length (buf_content buf) = unat (b_len buf)"
  by (auto simp: buf_ok_def buf_content_def word_le_nat_alt split: option.splits)

lemma append_body_in:
  assumes "buf_ok buf" "b_base buf = Some m" "unat (b_len buf) + length d < 2 ^ 64" "b_len buf + of_nat (length d) \<le> b_size buf"
  shows "\<exists>buf'. (do { buf \<leftarrow> buf_write buf (unat (b_len buf)) d (length d); Some (buf\<lparr>b_len := b_len buf + of_nat (length d)\<rparr>) }) = Some buf' \<and>
    buf_ok buf' \<and> b_base buf' \<noteq> None \<and> b_size buf' = b_size buf \<and> buf_content buf' = buf_content buf @ d"
proof -
  have l: "length m = unat (b_size buf)" using assms(1,2) by (simp add: buf_ok_def)
  have n: "unat (b_len buf + of_nat (length d)) = unat (b_len buf) + length d"
    using assms(3) by (simp add: unat_word_ariths unat_of_nat)
  have le: "unat (b_len buf) + length d \<le> length m" using assms(4) n l by (simp add: word_le_nat_alt)
  have "blit m (unat (b_len buf)) d (length d) = Some (take (unat (b_len buf)) m @ take (length d) d @ drop (unat (b_len buf) + length d) m)"
    using le by (intro blit_in) auto
  thus ?thesis using assms(1,2,4) l n le by (auto simp: buf_write_def buf_ok_def buf_content_def)
qed

lemma append_body_ok:
  assumes "grows realloc" "buf_ok buf" "b_base buf \<noteq> None" "length (buf_content buf) + length d < 2 ^ 64"
  shows "\<exists>buf'. append_body realloc buf d = Some buf' \<and> buf_ok buf' \<and> b_base buf' \<noteq> None \<and>
    b_size buf' = max (b_size buf) (b_len buf + of_nat (length d)) \<and> buf_content buf' = buf_content buf @ d"
proof -
  have len: "unat (b_len buf) + length d < 2 ^ 64" using assms(2,4) by (simp add: buf_content_length)
  have mono: "b_len buf \<le> b_len buf + of_nat (length d)"
    using len by (simp add: word_le_nat_alt unat_word_ariths unat_of_nat)
  show ?thesis
  proof (cases "b_size buf < b_len buf + of_nat (length d)")
    case True
    let ?b = "ytdl_buf_realloc realloc buf (b_len buf + of_nat (length d))"
    have r: "realloc_ok realloc" "b_base ?b \<noteq> None" using assms(1) by (auto simp: grows_def ytdl_buf_realloc_def)
    note k = buf_realloc_ok[OF r(1) assms(2) mono r(2)]
    have f: "b_len ?b = b_len buf" "b_size ?b = b_len buf + of_nat (length d)" by (simp_all add: ytdl_buf_realloc_def)
    obtain m where "b_base ?b = Some m" using r(2) by auto
    from append_body_in[OF k(1) this, of d] len f obtain buf' where
      "(do { b \<leftarrow> buf_write ?b (unat (b_len ?b)) d (length d); Some (b\<lparr>b_len := b_len b + of_nat (length d)\<rparr>) }) = Some buf'"
      "buf_ok buf'" "b_base buf' \<noteq> None" "b_size buf' = b_size ?b" "buf_content buf' = buf_content ?b @ d" by auto
    thus ?thesis using True k(2) f by (intro exI[of _ buf']) (auto simp: append_body_def Let_def max_def)
  next
    case False
    obtain m where "b_base buf = Some m" using assms(3) by auto
    from append_body_in[OF assms(2) this len] False show ?thesis by (auto simp: append_body_def Let_def max_def)
  qed
qed

text \<open>A response buffer, which starts with one byte, is exactly as long as what it holds.\<close>

definition tight :: "ytdl_buf \<Rightarrow> bool" where
  "tight buf \<longleftrightarrow> unat (b_size buf) = max 1 (unat (b_len buf))"

lemma append_body_tight:
  assumes "append_body realloc buf d = Some buf'" "tight buf" "unat (b_len buf) + length d < 2 ^ 64"
  shows "tight buf'"
proof -
  have n: "unat (b_len buf + of_nat (length d)) = unat (b_len buf) + length d"
    using assms(3) by (simp add: unat_word_ariths unat_of_nat)
  have s: "b_len buf' = b_len buf + of_nat (length d) \<and> b_size buf' = (if b_size buf < b_len buf + of_nat (length d) then b_len buf + of_nat (length d) else b_size buf)"
    using assms(1) by (auto simp: append_body_def Let_def bind_eq_Some_conv buf_write_def ytdl_buf_realloc_def split: option.splits if_splits)
  show ?thesis using assms(2) n unfolding tight_def s[THEN conjunct1] s[THEN conjunct2] by (auto simp: word_less_nat_alt max_def)
qed

text \<open>Both buffers of a context are byte sinks; the second is that of a response.\<close>

interpretation body: byte_sink
  "\<lambda>buf d. map_option (\<lambda>b. (b, 0)) (append_body realloc buf d)" buf_content
  "\<lambda>buf. grows realloc \<and> buf_ok buf \<and> b_base buf \<noteq> None" for realloc
  using append_body_ok[of realloc] by unfold_locales fastforce

interpretation response: byte_sink
  "\<lambda>buf d. map_option (\<lambda>b. (b, 0)) (append_body realloc buf d)" buf_content
  "\<lambda>buf. grows realloc \<and> buf_ok buf \<and> b_base buf \<noteq> None \<and> tight buf" for realloc
  using append_body_ok[of realloc] append_body_tight[of realloc] buf_content_length by unfold_locales fastforce

text \<open>The chunks of a message, appended one after the other.\<close>

fun append_all :: "realloc \<Rightarrow> ytdl_buf \<Rightarrow> string list \<Rightarrow> ytdl_buf option" where
  "append_all realloc buf [] = Some buf"
| "append_all realloc buf (d # ds) = do { buf \<leftarrow> append_body realloc buf d; append_all realloc buf ds }"

lemma append_all_feed:
  "feed (\<lambda>buf d. map_option (\<lambda>b. (b, 0)) (append_body realloc buf d)) buf ds = map_option (\<lambda>b. (b, 0)) (append_all realloc buf ds)"
  by (induction ds arbitrary: buf) (auto split: option.splits bind_splits)

lemma append_all_content:
  assumes "grows realloc" "buf_ok buf" "b_base buf \<noteq> None" "length (buf_content buf) + length (concat ds) < 2 ^ 64"
  shows "\<exists>buf'. append_all realloc buf ds = Some buf' \<and> buf_ok buf' \<and> b_base buf' \<noteq> None \<and> buf_content buf' = buf_content buf @ concat ds"
proof -
  from body.feed_content[of realloc buf ds] assms obtain s' r k where
    f: "map_option (\<lambda>b. (b, 0)) (append_all realloc buf ds) = Some (s', r)" "buf_ok s'" "b_base s' \<noteq> None"
       "buf_content s' = buf_content buf @ concat (take k ds)" "r = (0 :: int) \<longrightarrow> k = length ds"
    unfolding append_all_feed by blast
  thus ?thesis by (intro exI[of _ s']) auto
qed

lemma append_all_response:
  assumes "grows realloc" "buf_ok buf" "b_base buf \<noteq> None" "tight buf" "length (buf_content buf) + length (concat ds) < 2 ^ 64"
  shows "\<exists>buf'. append_all realloc buf ds = Some buf' \<and> buf_ok buf' \<and> tight buf' \<and> buf_content buf' = buf_content buf @ concat ds \<and>
    (buf_content buf @ concat ds \<noteq> [] \<longrightarrow> b_base buf' = Some (buf_content buf'))"
proof -
  from response.feed_content[of realloc buf ds] assms obtain s' r k where
    f: "map_option (\<lambda>b. (b, 0)) (append_all realloc buf ds) = Some (s', r)" "buf_ok s'" "b_base s' \<noteq> None" "tight s'"
       "buf_content s' = buf_content buf @ concat (take k ds)" "r = (0 :: int) \<longrightarrow> k = length ds"
    unfolding append_all_feed by blast
  have c: "buf_content s' = buf_content buf @ concat ds" using f by auto
  have "b_base s' = Some (buf_content s')" if "buf_content s' \<noteq> []"
  proof -
    obtain m where m: "b_base s' = Some m" using f(3) by auto
    have "0 < unat (b_len s')" using that buf_content_length[OF f(2)] by (metis length_greater_0_conv)
    hence "length m = unat (b_len s')" using f(2,4) m by (simp add: buf_ok_def tight_def)
    thus ?thesis using m by (simp add: buf_content_def)
  qed
  thus ?thesis using f c by (intro exI[of _ s']) auto
qed

section \<open>Serving the queue\<close>

text \<open>What happens to a context: a call, a piece of a body, the end of a message, a writable socket.\<close>

datatype dl_op = GetInfo string nat | Body string | MessageDone | Writable int

fun dl_step :: "dl_env \<Rightarrow> ytdl_dl_ctx \<Rightarrow> dl_op \<Rightarrow> ytdl_dl_ctx option" where
  "dl_step env ctx (GetInfo ident cb) = map_option fst (ytdl_dl_get_info env ctx ident cb)"
| "dl_step env ctx (Body d) =
     (case dl_on_body ctx of WatchBody \<Rightarrow> ytdl__watch_body_cb env ctx d | PlayerBody \<Rightarrow> yt__player_body_cb env ctx d)"
| "dl_step env ctx MessageDone =
     (case dl_on_message_complete ctx of
        WatchComplete \<Rightarrow> ytdl__watch_html_complete env ctx | PlayerComplete \<Rightarrow> ytdl__player_js_complete env ctx)"
| "dl_step env ctx (Writable e) = map_option (\<lambda>c. ctx\<lparr>dl_http := c\<rparr>) (http_step (dl_http ctx) (Poll None (Some e)))"

fun dl_run :: "dl_env \<Rightarrow> ytdl_dl_ctx \<Rightarrow> dl_op list \<Rightarrow> ytdl_dl_ctx option" where
  "dl_run env ctx [] = Some ctx"
| "dl_run env ctx (x # xs) = do { ctx \<leftarrow> dl_step env ctx x; dl_run env ctx xs }"

lemma dl_run_append: "dl_run env ctx (xs @ ys) = do { ctx \<leftarrow> dl_run env ctx xs; dl_run env ctx ys }"
  by (induction xs arbitrary: ctx) (auto split: bind_splits)

lemma dl_run_then: "dl_run env ctx xs = Some ctx' \<Longrightarrow> dl_run env ctx' ys = r \<Longrightarrow> dl_run env ctx (xs @ ys) = r"
  by (simp add: dl_run_append)

text \<open>The status bits.\<close>

lemma idle_simps [simp]:
  "(s AND YTDL_DL_IS_IDLE = 0) = (\<not> bit s 2)"
  "bit (s XOR YTDL_DL_IS_IDLE) 2 = (\<not> bit s 2)" "bit (s OR YTDL_DL_IS_IDLE) 2"
proof -
  have p: "YTDL_DL_IS_IDLE = 2 ^ 2" by (simp add: YTDL_DL_IS_IDLE_def)
  show "(s AND YTDL_DL_IS_IDLE = 0) = (\<not> bit s 2)" unfolding p by (rule and_exp_eq_0_iff_not_bit)
  have b: "bit YTDL_DL_IS_IDLE 2" unfolding p by (simp only: bit_exp_iff) simp
  show "bit (s XOR YTDL_DL_IS_IDLE) 2 = (\<not> bit s 2)" "bit (s OR YTDL_DL_IS_IDLE) 2" using b by (simp_all add: bit_simps)
qed

text \<open>Allocations succeed, and the caller's callbacks leave the context alone.\<close>

definition env_ok :: "dl_env \<Rightarrow> bool" where
  "env_ok env \<longleftrightarrow> malloc_ok (en_malloc env) \<and> (\<forall>n. en_malloc env n \<noteq> None) \<and> grows (en_realloc env) \<and>
     (\<forall>a. en_mem env a) \<and> en_video env \<noteq> None \<and> (\<forall>cb ctx. en_on_complete env cb ctx = Some ctx)"

lemma env_okD:
  assumes "env_ok env"
  shows "malloc_ok (en_malloc env)" "\<forall>n. en_malloc env n \<noteq> None" "grows (en_realloc env)" "en_mem env a"
    "\<exists>v. en_video env = Some v" "en_on_complete env cb ctx = Some ctx"
  using assms by (auto simp: env_ok_def)

text \<open>The players a context has, by path.\<close>

definition knows :: "(string \<rightharpoonup> ytdl_sig_actions) \<Rightarrow> player_map \<Rightarrow> bool" where
  "knows known m \<longleftrightarrow> string_map m \<and> (\<forall>k. map_option pl_sig_actions (hm_map m k) = known (cstr k))"

definition dl_common :: "(string \<rightharpoonup> ytdl_sig_actions) \<Rightarrow> nat \<Rightarrow> ytdl_dl_ctx \<Rightarrow> bool" where
  "dl_common known n ctx \<longleftrightarrow> knows known (dl_player_map ctx) \<and> unat (hb_size (dl_player_map ctx)) + n \<le> hb_size_max \<and>
     buf_ok (dl_player_js ctx) \<and> b_base (dl_player_js ctx) \<noteq> None \<and> b_len (dl_player_js ctx) = 0 \<and> q_size (dl_queue ctx) = 1"

definition idle_ctx :: "(string \<rightharpoonup> ytdl_sig_actions) \<Rightarrow> nat \<Rightarrow> ytdl_dl_ctx \<Rightarrow> bool" where
  "idle_ctx known n ctx \<longleftrightarrow> dl_common known n ctx \<and> bit (dl_status ctx) 2 \<and> q_len (dl_queue ctx) = 0 \<and>
     (\<exists>p. q_videos (dl_queue ctx) = Live [p]) \<and> queued (dl_http ctx) []"

definition busy_ctx :: "(string \<rightharpoonup> ytdl_sig_actions) \<Rightarrow> nat \<Rightarrow> ytdl_dl_video \<Rightarrow> ytdl_dl_ctx \<Rightarrow> bool" where
  "busy_ctx known n vid ctx \<longleftrightarrow> dl_common known n ctx \<and> \<not> bit (dl_status ctx) 2 \<and> q_len (dl_queue ctx) = 1 \<and>
     q_videos (dl_queue ctx) = Live [Live vid]"

lemma video_simps [simp]:
  "q_videos (dl_queue ctx) = Live (Live vid # vs) \<Longrightarrow> video_0 ctx = Some vid"
  "q_videos (dl_queue ctx) = Live (p # vs) \<Longrightarrow> put_video 0 q ctx = Some (set_videos (Live (q # vs)) ctx)"
  by (simp_all add: video_0_def put_video_def use_def)

lemma set_videos_simps [simp]:
  "q_videos (dl_queue (set_videos vs ctx)) = vs" "q_len (dl_queue (set_videos vs ctx)) = q_len (dl_queue ctx)"
  "q_size (dl_queue (set_videos vs ctx)) = q_size (dl_queue ctx)" "dl_http (set_videos vs ctx) = dl_http ctx"
  "dl_on_body (set_videos vs ctx) = dl_on_body ctx" "dl_on_message_complete (set_videos vs ctx) = dl_on_message_complete ctx"
  "dl_player_js (set_videos vs ctx) = dl_player_js ctx" "dl_player_map (set_videos vs ctx) = dl_player_map ctx"
  "dl_status (set_videos vs ctx) = dl_status ctx" "dl_log (set_videos vs ctx) = dl_log ctx"
  "set_videos vs (set_videos ws ctx) = set_videos vs ctx"
  by (simp_all add: set_videos_def)

lemma set_len_simps [simp]:
  "q_videos (dl_queue (set_len n ctx)) = q_videos (dl_queue ctx)" "q_len (dl_queue (set_len n ctx)) = n"
  "q_size (dl_queue (set_len n ctx)) = q_size (dl_queue ctx)" "dl_http (set_len n ctx) = dl_http ctx"
  "dl_on_body (set_len n ctx) = dl_on_body ctx" "dl_on_message_complete (set_len n ctx) = dl_on_message_complete ctx"
  "dl_player_js (set_len n ctx) = dl_player_js ctx" "dl_player_map (set_len n ctx) = dl_player_map ctx"
  "dl_status (set_len n ctx) = dl_status ctx" "dl_log (set_len n ctx) = dl_log ctx"
  by (simp_all add: set_len_def)

lemma note_dl_simps [simp]:
  "dl_queue (note_dl e ctx) = dl_queue ctx" "dl_http (note_dl e ctx) = dl_http ctx" "dl_player_js (note_dl e ctx) = dl_player_js ctx"
  "dl_player_map (note_dl e ctx) = dl_player_map ctx" "dl_status (note_dl e ctx) = dl_status ctx" "dl_log (note_dl e ctx) = dl_log ctx @ [e]"
  by (simp_all add: note_dl_def)

lemma dl_common_simps [simp]:
  "dl_common known n (set_videos vs ctx) = dl_common known n ctx" "dl_common known n (set_len l ctx) = dl_common known n ctx"
  "dl_common known n (note_dl e ctx) = dl_common known n ctx" "dl_common known n (ctx\<lparr>dl_http := c\<rparr>) = dl_common known n ctx"
  "dl_common known n (ctx\<lparr>dl_status := s\<rparr>) = dl_common known n ctx"
  "dl_common known n (ctx\<lparr>dl_on_body := b, dl_on_message_complete := f\<rparr>) = dl_common known n ctx"
  by (simp_all add: dl_common_def note_dl_def)

text \<open>A request is queued, and leaves when the socket is writable.\<close>

lemma holds_text_content: "holds_text buf s \<Longrightarrow> buf_content buf = s"
  by (auto simp: holds_text_def buf_content_def cstr_def) (metis append_eq_conv_conj takeWhile_dropWhile_id)

lemma send_queued:
  "queued c js \<Longrightarrow> send True uv c buf = Some (c\<lparr>h_queue := Live (map Live (js @ [\<lparr>job_base = buf_content buf, job_cb = 0\<rparr>]))\<rparr>)"
  by (simp add: send_def queued_def ytdl_http_client_write_def)

lemma writable_sends:
  assumes "queued c [j]" "job_base j \<noteq> []" "0 \<le> e"
  shows "http_step c (Poll None (Some e)) =
    Some (c\<lparr>h_queue := Live [], h_log := h_log c @ [SslWrite (job_base j), Done (job_cb j) (YTDL_NET_E_OK, e)]\<rparr>)"
  using poll_step[OF assms(1), of "Some e" None] assms by (auto simp: after_write_def no_empty_def)

lemma crlf_lines_nonempty: "crlf_lines s = request_lines t h ls \<Longrightarrow> s \<noteq> []"
  by (auto simp: request_lines_def)

definition watch_lines :: "string \<Rightarrow> string list" where
  "watch_lines ident = request_lines (''/watch?v='' @ cstr ident @ ''&bpctr=9999999999&has_verified=1'') ''www.youtube.com'' []"

definition id_ok :: "string \<Rightarrow> bool" where
  "id_ok ident \<longleftrightarrow> length ident = YTDL_ID_SIZE \<and> NUL \<in> set ident \<and> no_ctl (cstr ident)"

lemma id_okD: assumes "id_ok ident" shows "slice ident 0 YTDL_ID_SIZE = Some ident" "strlen ident = Some (length (cstr ident))"
    "no_ctl (cstr ident)" "length (cstr ident) \<le> YTDL_ID_LEN"
proof -
  show "slice ident 0 YTDL_ID_SIZE = Some ident" "strlen ident = Some (length (cstr ident))" "no_ctl (cstr ident)"
    using assms by (auto simp: id_ok_def slice_def strlen_def)
  have "length (cstr ident) < length ident"
  proof -
    have "dropWhile (\<lambda>c. c \<noteq> NUL) ident \<noteq> []" using assms by (auto simp: id_ok_def dropWhile_eq_Nil_conv)
    moreover have "length ident = length (cstr ident) + length (dropWhile (\<lambda>c. c \<noteq> NUL) ident)"
      unfolding cstr_def length_append[symmetric] takeWhile_dropWhile_id ..
    ultimately show ?thesis by simp
  qed
  thus "length (cstr ident) \<le> YTDL_ID_LEN" using assms by (simp add: id_ok_def YTDL_ID_SIZE_def YTDL_ID_LEN_def)
qed

text \<open>An idle context with one video wakes: the page is requested.\<close>

lemma wake_requests:
  assumes "env_ok env" "id_ok (v_id vid)" "bit (dl_status ctx) 2" "q_len (dl_queue ctx) \<noteq> 0"
    and "q_videos (dl_queue ctx) = Live (Live vid # vs)" "queued (dl_http ctx) []"
  shows "\<exists>s. ytdl__dl_wake env ctx = Some (ctx\<lparr>dl_on_body := WatchBody, dl_on_message_complete := WatchComplete,
      dl_http := (dl_http ctx)\<lparr>h_queue := Live [Live \<lparr>job_base = s, job_cb = 0\<rparr>]\<rparr>,
      dl_status := dl_status ctx XOR YTDL_DL_IS_IDLE\<rparr>) \<and> crlf_lines s = watch_lines (v_id vid)"
proof -
  note e = env_okD[OF assms(1)]
  obtain buf s where b: "ytdl_net_request_watch_html (en_malloc env) request_0 (v_id vid) = Some buf" "holds_text buf s"
    "crlf_lines s = watch_lines (v_id vid)"
    using watch_html_text[OF e(1,2) id_okD(3,4)[OF assms(2)], of request_0] by (auto simp: watch_lines_def)
  let ?c = "ctx\<lparr>dl_on_body := WatchBody, dl_on_message_complete := WatchComplete\<rparr>"
  have v: "video_0 ?c = Some vid" using assms(5) by (simp add: video_0_def use_def)
  have s: "send (en_mem env WriteAlloc) (en_uv_write env) (dl_http ?c) buf =
      Some ((dl_http ctx)\<lparr>h_queue := Live [Live \<lparr>job_base = s, job_cb = 0\<rparr>]\<rparr>)"
    using send_queued[OF assms(6), of "en_uv_write env" buf] e(4)[of WriteAlloc] holds_text_content[OF b(2)] by simp
  show ?thesis unfolding ytdl__dl_wake_def using assms(3,4) v b(1,3) s id_okD(2)[OF assms(2)]
    by (intro exI[of _ s]) (simp add: dl_send_def Let_def)
qed

lemma get_info_starts:
  assumes "env_ok env" "idle_ctx known n ctx" "id_ok ident"
  shows "\<exists>ctx' vid s. ytdl_dl_get_info env ctx ident cb = Some (ctx', 0) \<and> busy_ctx known n vid ctx' \<and>
    v_id vid = ident \<and> v_info vid = ytdl_info_ctx_init \<and> v_on_complete vid = cb \<and>
    buf_ok (v_response vid) \<and> b_base (v_response vid) \<noteq> None \<and> tight (v_response vid) \<and> buf_content (v_response vid) = [] \<and>
    dl_on_body ctx' = WatchBody \<and> dl_on_message_complete ctx' = WatchComplete \<and> dl_log ctx' = dl_log ctx \<and>
    dl_http ctx' = (dl_http ctx)\<lparr>h_queue := Live [Live \<lparr>job_base = s, job_cb = 0\<rparr>]\<rparr> \<and> crlf_lines s = watch_lines ident"
proof -
  note e = env_okD[OF assms(1)]
  obtain v0 where v0: "en_video env = Some v0" using e(5) by blast
  obtain p where p: "q_videos (dl_queue ctx) = Live [p]" using assms(2) by (auto simp: idle_ctx_def)
  let ?r = "ytdl_buf_alloc (en_malloc env) (v_response v0) 1"
  have r: "b_base ?r \<noteq> None" "tight ?r" using e(2) by (auto simp: ytdl_buf_alloc_def tight_def)
  note r = r buf_alloc_ok[OF e(1), of "v_response v0" 1]
  define vid where "vid = v0\<lparr>v_id := ident, v_response := ?r, v_info := ytdl_info_ctx_init, v_on_complete := cb\<rparr>"
  let ?c = "set_videos (Live [Live vid]) (set_len 1 ctx)"
  have q: "q_size (dl_queue ctx) = 1" "q_len (dl_queue ctx) = 0" using assms(2) by (simp_all add: idle_ctx_def dl_common_def)
  have a: "id_ok (v_id vid)" "bit (dl_status ?c) 2" "q_len (dl_queue ?c) \<noteq> 0" "q_videos (dl_queue ?c) = Live [Live vid]" "queued (dl_http ?c) []"
    using assms(2,3) by (simp_all add: vid_def idle_ctx_def)
  from wake_requests[OF assms(1) a] obtain s where s: "ytdl__dl_wake env ?c = Some (?c\<lparr>dl_on_body := WatchBody, dl_on_message_complete := WatchComplete,
      dl_http := (dl_http ?c)\<lparr>h_queue := Live [Live \<lparr>job_base = s, job_cb = 0\<rparr>]\<rparr>,
      dl_status := dl_status ?c XOR YTDL_DL_IS_IDLE\<rparr>)" "crlf_lines s = watch_lines (v_id vid)" by blast
  let ?d = "?c\<lparr>dl_on_body := WatchBody, dl_on_message_complete := WatchComplete,
      dl_http := (dl_http ?c)\<lparr>h_queue := Live [Live \<lparr>job_base = s, job_cb = 0\<rparr>]\<rparr>,
      dl_status := dl_status ?c XOR YTDL_DL_IS_IDLE\<rparr>"
  have vu: "v0\<lparr>v_id := ident, v_response := ?r\<rparr>\<lparr>v_info := ytdl_info_ctx_init, v_on_complete := cb\<rparr> = vid" by (simp add: vid_def)
  have g: "ytdl_dl_get_info env ctx ident cb = Some (?d, 0)"
    unfolding ytdl_dl_get_info_def using v0 p q id_okD(1)[OF assms(3)] r(1) s(1)
    by (simp add: Let_def vu)
  have "busy_ctx known n vid ?d" using assms(2) q by (simp add: busy_ctx_def idle_ctx_def)
  thus ?thesis using g s(2) r by (intro exI[of _ ?d] exI[of _ vid] exI[of _ s]) (simp add: vid_def)
qed

lemma set_videos_same: "q_videos (dl_queue ctx) = vs \<Longrightarrow> set_videos vs ctx = ctx"
  by (cases ctx; cases "dl_queue ctx") (auto simp: set_videos_def)

lemma watch_bodies:
  assumes "dl_on_body ctx = WatchBody" "q_videos (dl_queue ctx) = Live [Live vid]"
  shows "dl_run env ctx (map Body ds) =
    map_option (\<lambda>buf. set_videos (Live [Live (vid\<lparr>v_response := buf\<rparr>)]) ctx) (append_all (en_realloc env) (v_response vid) ds)"
  using assms
proof (induction ds arbitrary: ctx vid)
  case Nil
  thus ?case by (simp add: set_videos_same)
next
  case (Cons d ds)
  show ?case
  proof (cases "append_body (en_realloc env) (v_response vid) d")
    case None
    thus ?thesis using Cons.prems by (simp add: ytdl__watch_body_cb_def)
  next
    case (Some buf)
    let ?v = "vid\<lparr>v_response := buf\<rparr>"
    have "dl_run env (set_videos (Live [Live ?v]) ctx) (map Body ds) =
      map_option (\<lambda>buf. set_videos (Live [Live (?v\<lparr>v_response := buf\<rparr>)]) (set_videos (Live [Live ?v]) ctx))
        (append_all (en_realloc env) (v_response ?v) ds)"
      by (rule Cons.IH) (simp_all add: Cons.prems)
    thus ?thesis using Some Cons.prems by (simp add: ytdl__watch_body_cb_def)
  qed
qed

lemma player_bodies:
  "dl_on_body ctx = PlayerBody \<Longrightarrow> dl_run env ctx (map Body ds) =
    map_option (\<lambda>buf. ctx\<lparr>dl_player_js := buf\<rparr>) (append_all (en_realloc env) (dl_player_js ctx) ds)"
proof (induction ds arbitrary: ctx)
  case (Cons d ds)
  show ?case
  proof (cases "append_body (en_realloc env) (dl_player_js ctx) d")
    case (Some buf)
    thus ?thesis using Cons.IH[of "ctx\<lparr>dl_player_js := buf\<rparr>"] Cons.prems by (simp add: yt__player_body_cb_def)
  qed (use Cons.prems in \<open>simp add: yt__player_body_cb_def\<close>)
qed simp

text \<open>What has no list of formats yet can be released.\<close>

lemma pr_keys_formats: "i_formats (pr_keys info kvs) = i_formats info"
  by (induction info kvs rule: pr_keys.induct) (auto simp: Let_def)

definition keeps :: "(ytdl_info_ctx \<Rightarrow> 'a) \<Rightarrow> 'a \<Rightarrow> (ytdl_info_ctx \<times> int) option \<Rightarrow> bool" where
  "keeps g x r \<longleftrightarrow> (\<forall>info k. r = Some (info, k) \<longrightarrow> g info = x)"

lemma keeps_intros:
  "g info = x \<Longrightarrow> keeps g x (Some (info, k))"
  "(\<And>y. keeps g x (f y)) \<Longrightarrow> keeps g x (Option.bind m f)"
  "keeps g x a \<Longrightarrow> (\<And>y. keeps g x (h y)) \<Longrightarrow> keeps g x (case z of None \<Rightarrow> a | Some y \<Rightarrow> h y)"
  "keeps g x a \<Longrightarrow> keeps g x b \<Longrightarrow> keeps g x (if P then a else b)"
  by (auto simp: keeps_def bind_eq_Some_conv split: option.splits)

lemma extract_keeps:
  assumes "ytdl_info_extract_watch_html rj info page n = Some (info', r)"
  shows "i_formats info' = i_formats info" "i_playability_status info' = i_playability_status info"
    "i_is_pr_populated info' = i_is_pr_populated info"
proof -
  let ?g = "\<lambda>i. (i_formats i, i_playability_status i, i_is_pr_populated i)"
  have "keeps ?g (?g info) (ytdl_info_extract_watch_html rj info page n)"
    unfolding ytdl_info_extract_watch_html_def bind.bind_lunit Let_def by (intro keeps_intros) simp_all
  thus "i_formats info' = i_formats info" "i_playability_status info' = i_playability_status info"
    "i_is_pr_populated info' = i_is_pr_populated info" using assms by (auto simp: keeps_def)
qed

lemma playability_formats:
  assumes "ytdl_info_get_playability_status info = (info', st)"
  shows "i_formats info' = i_formats info"
  using assms by (auto simp: ytdl_info_get_playability_status_def ytdl__populate_pr_dat_def Let_def pr_keys_formats split: option.splits if_splits json.splits)

lemma formats_free: "i_formats info = None \<Longrightarrow> \<exists>freed. ytdl_info_ctx_free (ytdl_info_set_sig_actions info a) = Some freed"
  by (auto simp: ytdl_info_ctx_free_def ytdl_info_set_sig_actions_def)

text \<open>The video is handed over once and released; the context is idle again.\<close>

lemma finalize_idle:
  assumes "env_ok env" "busy_ctx known n vid ctx" "queued (dl_http ctx) []" "i_formats (v_info vid) = None"
  shows "\<exists>ctx' freed. ytdl__dl_finalize env ctx player = Some ctx' \<and> idle_ctx known n ctx' \<and> dl_http ctx' = dl_http ctx \<and>
    dl_log ctx' = dl_log ctx @ [Complete (v_on_complete vid)
      (vid\<lparr>v_info := ytdl_info_set_sig_actions (v_info vid) (pl_sig_actions player)\<rparr>), FreeVideo freed]"
proof -
  obtain freed where f: "ytdl_info_ctx_free (ytdl_info_set_sig_actions (v_info vid) (pl_sig_actions player)) = Some freed"
    using formats_free[OF assms(4)] by blast
  note b = assms(2)[unfolded busy_ctx_def]
  show ?thesis unfolding ytdl__dl_finalize_def using assms(1,3) b f
    by (simp add: Let_def env_okD(6) idle_ctx_def use_def)
qed

text \<open>
  What the code does with a longer queue, which no run of the program has (the array never grows): the
  videos behind the first move up in order, and the page of the next is requested.
\<close>

lemma shift_videos_up:
  "shift_videos (as @ p # ps @ zs) (length as) (length ps) = Some (as @ ps @ last (p # ps) # zs)"
proof (induction ps arbitrary: as p)
  case (Cons q ps)
  have "shift_videos (as @ p # (q # ps) @ zs) (length as) (length (q # ps)) = shift_videos ((as @ [q]) @ q # ps @ zs) (length (as @ [q])) (length ps)"
    by (simp add: nth_append list_update_append)
  then show ?case using Cons.IH[of "as @ [q]" q] by simp
qed simp

lemma finalize_next:
  assumes "env_ok env" "q_videos (dl_queue ctx) = Live (Live vid # (Live next # ps) @ zs)"
    and "q_len (dl_queue ctx) = of_nat (length ps + 2)" "length ps + 2 < 2 ^ 64" "queued (dl_http ctx) []"
    and "i_formats (v_info vid) = None" "id_ok (v_id next)"
  shows "\<exists>ctx' freed s. ytdl__dl_finalize env ctx player = Some ctx' \<and>
    q_videos (dl_queue ctx') = Live ((Live next # ps) @ last (Live next # ps) # zs) \<and> q_len (dl_queue ctx') = of_nat (length ps + 1) \<and>
    dl_log ctx' = dl_log ctx @ [Complete (v_on_complete vid)
      (vid\<lparr>v_info := ytdl_info_set_sig_actions (v_info vid) (pl_sig_actions player)\<rparr>), FreeVideo freed] \<and>
    dl_http ctx' = (dl_http ctx)\<lparr>h_queue := Live [Live \<lparr>job_base = s, job_cb = 0\<rparr>]\<rparr> \<and> crlf_lines s = watch_lines (v_id next)"
proof -
  let ?vid = "vid\<lparr>v_info := ytdl_info_set_sig_actions (v_info vid) (pl_sig_actions player)\<rparr>"
  obtain freed where f: "ytdl_info_ctx_free (ytdl_info_set_sig_actions (v_info vid) (pl_sig_actions player)) = Some freed"
    using formats_free[OF assms(6)] by blast
  have l: "q_len (dl_queue ctx) - 1 = of_nat (length ps + 1)" using assms(3) by simp
  have u: "unat (of_nat (length ps + 1) :: u64) = length (Live next # ps)" using assms(4) by (simp only: unat_of_nat) simp
  have nz: "(of_nat (length ps + 1) :: u64) \<noteq> 0" using u by (metis length_0_conv list.distinct(1) unat_0)
  let ?vs = "(Live next # ps) @ last (Live next # ps) # zs"
  let ?c = "note_dl (FreeVideo freed) (note_dl (Complete (v_on_complete vid) ?vid) ctx)"
  let ?d = "set_len (of_nat (length ps + 1)) ((set_videos (Live ?vs) ?c)\<lparr>dl_status := dl_status ?c OR YTDL_DL_IS_IDLE\<rparr>)"
  have sh: "shift_videos (Freed # (Live next # ps) @ zs) 0 (length (Live next # ps)) = Some ?vs"
    using shift_videos_up[of "[]" Freed "Live next # ps" zs] by simp
  have a: "bit (dl_status ?d) 2" "q_len (dl_queue ?d) \<noteq> 0" "q_videos (dl_queue ?d) = Live (Live next # (ps @ last (Live next # ps) # zs))" "queued (dl_http ?d) []"
    using assms(5) nz by (simp_all del: of_nat_add)
  from wake_requests[OF assms(1,7) a] obtain s where s: "ytdl__dl_wake env ?d = Some (?d\<lparr>dl_on_body := WatchBody, dl_on_message_complete := WatchComplete,
      dl_http := (dl_http ?d)\<lparr>h_queue := Live [Live \<lparr>job_base = s, job_cb = 0\<rparr>]\<rparr>,
      dl_status := dl_status ?d XOR YTDL_DL_IS_IDLE\<rparr>)" "crlf_lines s = watch_lines (v_id next)" by blast
  have "ytdl__dl_finalize env ctx player = ytdl__dl_wake env ?d"
    unfolding ytdl__dl_finalize_def using assms(2) f l u nz sh
    by (simp add: Let_def env_okD(6)[OF assms(1)] use_def word_gt_0 video_0_def put_video_def set_videos_def note_dl_def set_len_def del: of_nat_add last.simps)
  with s(1) have "ytdl__dl_finalize env ctx player = Some (?d\<lparr>dl_on_body := WatchBody, dl_on_message_complete := WatchComplete,
      dl_http := (dl_http ?d)\<lparr>h_queue := Live [Live \<lparr>job_base = s, job_cb = 0\<rparr>]\<rparr>, dl_status := dl_status ?d XOR YTDL_DL_IS_IDLE\<rparr>)" by (simp only:)
  then show ?thesis using s(2) by (auto simp del: of_nat_add last.simps)
qed

text \<open>A player that is put into the map is known from then on.\<close>

lemma put_player_knows:
  assumes "env_ok env" "knows known (dl_player_map ctx)" "unat (hb_size (dl_player_map ctx)) \<le> hb_size_max"
    and "known path = None" "cstr path = path"
  shows "\<exists>m. put_player env ctx \<lparr>pl_player_path = Some path, pl_sig_actions = a\<rparr> = Some (ctx\<lparr>dl_player_map := m\<rparr>, 0) \<and>
    knows (known(path \<mapsto> a)) m \<and> unat (hb_size m) \<le> unat (hb_size (dl_player_map ctx)) + 1"
proof -
  let ?m = "dl_player_map ctx" and ?p = "\<lparr>pl_player_path = Some path, pl_sig_actions = a\<rparr>"
  have sm: "string_map ?m" using assms(2) by (simp add: knows_def)
  have inv: "hm_inv ?m" "hb_key_dup ?m = None" "hb_compare ?m = strcmp" using sm by (auto simp: string_map_def)
  have dup: "dup_ok ?m" using inv(2) by (auto simp: dup_ok_def)
  have nk: "hm_map ?m path = None" using assms(2,4,5) by (metis knows_def map_option_is_None)
  obtain r m where p: "hashmap_base_put True ?m (Some path) (Some ?p) = Some (r, m)" "hm_inv m" "same_config ?m m" "roomy m"
    "r = 0 \<and> hm_map m = hm_update ?m path (Some ?p) \<and> hb_size m = hb_size ?m + 1"
    using put_refines[OF string_map_contract[OF sm] inv(1) dup assms(3), of True path ?p] nk inv(2) by (auto simp: put_ok_def split: if_splits)
  have "string_map m" using p(2-4) sm by (simp add: string_map_def same_config_def)
  moreover have "map_option pl_sig_actions (hm_map m k) = (known(path \<mapsto> a)) (cstr k)" for k
    using p(5) inv(3) assms(2,5) by (auto simp: hm_update_def strcmp_0 knows_def)
  moreover have "unat (hb_size m) \<le> unat (hb_size ?m) + 1"
    using p(5) by (simp add: unat_word_ariths)
  ultimately show ?thesis using p(1,5) env_okD(4)[OF assms(1), of MapAlloc]
    by (intro exI[of _ m]) (simp add: put_player_def knows_def)
qed

text \<open>
  A visit: the identifier and the callback of the caller, the pieces in which the page and the
  player arrive, what is read in them, and the answer of the session to the writes.
\<close>

record dl_visit =
  vs_id :: string
  vs_cb :: nat
  vs_page :: "string list"
  vs_js :: "string list"
  vs_info :: ytdl_info_ctx
  vs_acts :: ytdl_sig_actions
  vs_err :: int

definition player_path :: "dl_visit \<Rightarrow> string" where
  "player_path v = cstr (i_player_url (vs_info v))"

text \<open>The page is playable and names a player; the player has the actions.\<close>

definition page_ok :: "dl_env \<Rightarrow> dl_visit \<Rightarrow> bool" where
  "page_ok env v \<longleftrightarrow> concat (vs_page v) \<noteq> [] \<and> length (concat (vs_page v)) < 2 ^ 64 \<and>
     (\<exists>i. ytdl_info_extract_watch_html (en_yyjson_read env) ytdl_info_ctx_init (concat (vs_page v)) (length (concat (vs_page v))) = Some (i, 0) \<and>
        ytdl_info_get_playability_status i = (vs_info v, YTDL_PLAYABILITY_OK)) \<and>
     NUL \<in> set (i_player_url (vs_info v)) \<and> no_ctl (player_path v) \<and> length (player_path v) \<le> 150"

definition player_ok :: "dl_env \<Rightarrow> dl_visit \<Rightarrow> bool" where
  "player_ok env v \<longleftrightarrow> length (concat (vs_js v)) < 2 ^ 64 \<and>
     ytdl_sig_actions_extract (en_malloc env) (en_captures env) (en_js env) (en_obj_regexp env) (en_func_regexp env)
       (fst (ytdl_sig_actions_init (en_runtime env) (en_context env))) (concat (vs_js v)) (length (concat (vs_js v))) = Some (vs_acts v, 0)"

lemma dl_common_mono: "dl_common known n ctx \<Longrightarrow> m \<le> n \<Longrightarrow> dl_common known m ctx"
  by (simp add: dl_common_def)

lemma idle_ctx_mono: "idle_ctx known n ctx \<Longrightarrow> m \<le> n \<Longrightarrow> idle_ctx known m ctx"
  by (auto simp: idle_ctx_def dl_common_mono)

lemma known_player:
  assumes "dl_common known n ctx"
  shows "\<exists>p. hashmap_base_get (dl_player_map ctx) (Some url) = Some p \<and> map_option pl_sig_actions p = known (cstr url)"
proof -
  have sm: "string_map (dl_player_map ctx)" using assms by (simp add: dl_common_def knows_def)
  have "hm_inv (dl_player_map ctx)" using sm by (simp add: string_map_def)
  from get_refines[OF string_map_contract[OF sm] this, of url] show ?thesis using assms by (auto simp: dl_common_def knows_def)
qed

text \<open>The state a page leaves behind when it is complete.\<close>

definition page_arrived :: "dl_env \<Rightarrow> dl_visit \<Rightarrow> ytdl_dl_video \<Rightarrow> bool" where
  "page_arrived env v vid \<longleftrightarrow> v_id vid = vs_id v \<and> v_info vid = ytdl_info_ctx_init \<and> v_on_complete vid = vs_cb v \<and>
     b_base (v_response vid) = Some (concat (vs_page v)) \<and> unat (b_len (v_response vid)) = length (concat (vs_page v))"

lemma watch_complete_known:
  assumes "env_ok env" "busy_ctx known n vid ctx" "queued (dl_http ctx) []" "page_arrived env v vid" "page_ok env v"
    and "known (player_path v) = Some a"
  shows "\<exists>ctx' freed vid'. ytdl__watch_html_complete env ctx = Some ctx' \<and> idle_ctx known n ctx' \<and> dl_http ctx' = dl_http ctx \<and>
    dl_log ctx' = dl_log ctx @ [Complete (vs_cb v) vid', FreeVideo freed] \<and>
    v_id vid' = vs_id v \<and> v_info vid' = ytdl_info_set_sig_actions (vs_info v) a"
proof -
  obtain i where i: "ytdl_info_extract_watch_html (en_yyjson_read env) ytdl_info_ctx_init (concat (vs_page v)) (length (concat (vs_page v))) = Some (i, 0)"
    "ytdl_info_get_playability_status i = (vs_info v, YTDL_PLAYABILITY_OK)" "NUL \<in> set (i_player_url (vs_info v))"
    using assms(5) by (auto simp: page_ok_def)
  have fs: "i_formats (vs_info v) = None"
    using extract_keeps(1)[OF i(1)] playability_formats[OF i(2)] by (simp add: ytdl_info_ctx_init_def)
  note b = assms(2)[unfolded busy_ctx_def] and p = assms(4)[unfolded page_arrived_def]
  let ?v = "vid\<lparr>v_info := vs_info v\<rparr>" let ?c = "set_videos (Live [Live ?v]) ctx"
  obtain pl where pl: "hashmap_base_get (dl_player_map ctx) (Some (i_player_url (vs_info v))) = Some (Some pl)" "pl_sig_actions pl = a"
    using known_player[of known n ctx "i_player_url (vs_info v)"] b assms(6) by (auto simp: player_path_def)
  have bc: "busy_ctx known n ?v ?c" using b by (simp add: busy_ctx_def)
  have "queued (dl_http ?c) []" "i_formats (v_info ?v) = None" using assms(3) fs by simp_all
  from finalize_idle[OF assms(1) bc this, of pl] obtain ctx' freed where f: "ytdl__dl_finalize env ?c pl = Some ctx'"
    "idle_ctx known n ctx'" "dl_http ctx' = dl_http ctx"
    "dl_log ctx' = dl_log ctx @ [Complete (vs_cb v) (?v\<lparr>v_info := ytdl_info_set_sig_actions (vs_info v) a\<rparr>), FreeVideo freed]"
    using p pl(2) by auto
  have "ytdl__watch_html_complete env ctx = Some ctx'"
    unfolding ytdl__watch_html_complete_def using b p i f(1) pl(1) by (simp add: Let_def strlen_def)
  thus ?thesis using f(2-4) p by (intro exI[of _ ctx'] exI[of _ freed] exI[of _ "?v\<lparr>v_info := ytdl_info_set_sig_actions (vs_info v) a\<rparr>"]) simp
qed

lemma watch_complete_unknown:
  assumes "env_ok env" "busy_ctx known n vid ctx" "queued (dl_http ctx) []" "page_arrived env v vid" "page_ok env v"
    and "known (player_path v) = None"
  shows "\<exists>ctx' s. ytdl__watch_html_complete env ctx = Some ctx' \<and> busy_ctx known n (vid\<lparr>v_info := vs_info v\<rparr>) ctx' \<and>
    dl_http ctx' = (dl_http ctx)\<lparr>h_queue := Live [Live \<lparr>job_base = s, job_cb = 0\<rparr>]\<rparr> \<and>
    crlf_lines s = request_lines (player_path v) ''www.youtube.com'' [] \<and>
    dl_on_body ctx' = PlayerBody \<and> dl_on_message_complete ctx' = PlayerComplete \<and> dl_log ctx' = dl_log ctx"
proof -
  obtain i where i: "ytdl_info_extract_watch_html (en_yyjson_read env) ytdl_info_ctx_init (concat (vs_page v)) (length (concat (vs_page v))) = Some (i, 0)"
    "ytdl_info_get_playability_status i = (vs_info v, YTDL_PLAYABILITY_OK)" "NUL \<in> set (i_player_url (vs_info v))"
    using assms(5) by (auto simp: page_ok_def)
  note b = assms(2)[unfolded busy_ctx_def] and p = assms(4)[unfolded page_arrived_def] and e = env_okD[OF assms(1)]
  let ?v = "vid\<lparr>v_info := vs_info v\<rparr>" let ?c = "(set_videos (Live [Live ?v]) ctx)\<lparr>dl_on_body := PlayerBody, dl_on_message_complete := PlayerComplete\<rparr>"
  have pl: "hashmap_base_get (dl_player_map ctx) (Some (i_player_url (vs_info v))) = Some None"
    using known_player[of known n ctx "i_player_url (vs_info v)"] b assms(6) by (auto simp: player_path_def)
  have c: "no_ctl (cstr (i_player_url (vs_info v)))" "length (cstr (i_player_url (vs_info v))) \<le> 150"
    using assms(5) by (simp_all add: page_ok_def player_path_def)
  obtain buf s where r: "ytdl_net_request_player_js (en_malloc env) request_0 (i_player_url (vs_info v)) = Some buf" "holds_text buf s"
    "crlf_lines s = request_lines (player_path v) ''www.youtube.com'' []"
    using player_js_text[OF e(1,2) c, of request_0] by (auto simp: player_path_def)
  let ?d = "?c\<lparr>dl_http := (dl_http ctx)\<lparr>h_queue := Live [Live \<lparr>job_base = s, job_cb = 0\<rparr>]\<rparr>\<rparr>"
  have s: "dl_send env ?c buf = Some ?d"
    using send_queued[OF assms(3), of "en_uv_write env" buf] e(4)[of WriteAlloc] holds_text_content[OF r(2)] by (simp add: dl_send_def)
  have "ytdl__watch_html_complete env ctx = Some ?d"
    unfolding ytdl__watch_html_complete_def using b p i pl r(1) s by (simp add: Let_def strlen_def)
  moreover have "busy_ctx known n ?v ?d" using b by (simp add: busy_ctx_def)
  ultimately show ?thesis using r(3) by (intro exI[of _ ?d] exI[of _ s]) simp
qed

lemma player_complete:
  assumes "env_ok env" "dl_common known (Suc n) (ctx\<lparr>dl_player_js := js0\<rparr>)" "\<not> bit (dl_status ctx) 2" "q_len (dl_queue ctx) = 1"
    and "q_videos (dl_queue ctx) = Live [Live vid]" "queued (dl_http ctx) []" "v_info vid = vs_info v" "page_ok env v" "player_ok env v"
    and "known (player_path v) = None" "buf_ok (dl_player_js ctx)" "b_base (dl_player_js ctx) = Some (concat (vs_js v) @ z)"
    and "unat (b_len (dl_player_js ctx)) = length (concat (vs_js v))"
  shows "\<exists>ctx' freed. ytdl__player_js_complete env ctx = Some ctx' \<and> idle_ctx (known(player_path v \<mapsto> vs_acts v)) n ctx' \<and>
    dl_http ctx' = dl_http ctx \<and> dl_log ctx' = dl_log ctx @ [Complete (v_on_complete vid)
      (vid\<lparr>v_info := ytdl_info_set_sig_actions (vs_info v) (vs_acts v)\<rparr>), FreeVideo freed]"
proof -
  obtain i where i: "ytdl_info_extract_watch_html (en_yyjson_read env) ytdl_info_ctx_init (concat (vs_page v)) (length (concat (vs_page v))) = Some (i, 0)"
    "ytdl_info_get_playability_status i = (vs_info v, YTDL_PLAYABILITY_OK)" "NUL \<in> set (i_player_url (vs_info v))"
    using assms(8) by (auto simp: page_ok_def)
  have fs: "i_formats (vs_info v) = None"
    using extract_keeps(1)[OF i(1)] playability_formats[OF i(2)] by (simp add: ytdl_info_ctx_init_def)
  note e = env_okD[OF assms(1)]
  let ?js = "dl_player_js ctx" let ?pl = "\<lparr>pl_player_path = Some (player_path v), pl_sig_actions = vs_acts v\<rparr>"
  have cm: "knows known (dl_player_map ctx)" "unat (hb_size (dl_player_map ctx)) + Suc n \<le> hb_size_max" "q_size (dl_queue ctx) = 1"
    using assms(2) by (simp_all add: dl_common_def)
  have le: "unat (hb_size (dl_player_map ctx)) \<le> hb_size_max" using cm(2) by simp
  have cp: "cstr (player_path v) = player_path v" by (simp add: player_path_def)
  obtain m where m: "put_player env ctx ?pl = Some (ctx\<lparr>dl_player_map := m\<rparr>, 0)"
    "knows (known(player_path v \<mapsto> vs_acts v)) m" "unat (hb_size m) \<le> unat (hb_size (dl_player_map ctx)) + 1"
    using put_player_knows[OF assms(1) cm(1) le assms(10) cp, of "vs_acts v"] by blast
  let ?c = "ctx\<lparr>dl_player_map := m, dl_player_js := ?js\<lparr>b_len := 0\<rparr>\<rparr>"
  have "buf_ok (?js\<lparr>b_len := 0\<rparr>)" using assms(11,12) by (simp add: buf_ok_def)
  hence bc: "busy_ctx (known(player_path v \<mapsto> vs_acts v)) n vid ?c"
    using assms(3-5,12) m(2,3) cm(2,3) by (simp add: busy_ctx_def dl_common_def)
  have "queued (dl_http ?c) []" "i_formats (v_info vid) = None" using assms(6,7) fs by simp_all
  from finalize_idle[OF assms(1) bc this, of ?pl] obtain ctx' freed where f: "ytdl__dl_finalize env ?c ?pl = Some ctx'"
    "idle_ctx (known(player_path v \<mapsto> vs_acts v)) n ctx'" "dl_http ctx' = dl_http ctx"
    "dl_log ctx' = dl_log ctx @ [Complete (v_on_complete vid) (vid\<lparr>v_info := ytdl_info_set_sig_actions (vs_info v) (vs_acts v)\<rparr>), FreeVideo freed]"
    using assms(7) by auto
  have ex: "ytdl_sig_actions_extract (en_malloc env) (en_captures env) (en_js env) (en_obj_regexp env) (en_func_regexp env)
       (fst (ytdl_sig_actions_init (en_runtime env) (en_context env))) (concat (vs_js v) @ z) (length (concat (vs_js v))) = Some (vs_acts v, 0)"
    by (rule extract_more) (use assms(9) in \<open>simp_all add: player_ok_def\<close>)
  have "ytdl__player_js_complete env ctx = Some ctx'"
    unfolding ytdl__player_js_complete_def using assms(5,7,12,13) i(3) e(4) ex m(1) f(1)
    by (simp add: Let_def strlen_def path_copy_def player_path_def)
  thus ?thesis using f(2-4) by blast
qed

definition visit_ok :: "dl_env \<Rightarrow> (string \<rightharpoonup> ytdl_sig_actions) \<Rightarrow> dl_visit \<Rightarrow> bool" where
  "visit_ok env known v \<longleftrightarrow> id_ok (vs_id v) \<and> 0 \<le> vs_err v \<and> page_ok env v \<and> (known (player_path v) = None \<longrightarrow> player_ok env v)"

text \<open>
  What a visit is on the level of the contract: the actions of its player are those known for the
  path, or else those of the script, which are known from then on; the page is requested, and the
  script unless its path is known.
\<close>

definition visit_acts :: "(string \<rightharpoonup> ytdl_sig_actions) \<Rightarrow> dl_visit \<Rightarrow> ytdl_sig_actions" where
  "visit_acts known v = (case known (player_path v) of Some a \<Rightarrow> a | None \<Rightarrow> vs_acts v)"

definition learn :: "(string \<rightharpoonup> ytdl_sig_actions) \<Rightarrow> dl_visit \<Rightarrow> (string \<rightharpoonup> ytdl_sig_actions)" where
  "learn known v = known(player_path v \<mapsto> visit_acts known v)"

definition visit_lines :: "(string \<rightharpoonup> ytdl_sig_actions) \<Rightarrow> dl_visit \<Rightarrow> string list list" where
  "visit_lines known v = watch_lines (vs_id v) #
     (if known (player_path v) = None then [request_lines (player_path v) ''www.youtube.com'' []] else [])"

definition visit_result :: "(string \<rightharpoonup> ytdl_sig_actions) \<Rightarrow> dl_visit \<Rightarrow> nat \<times> string \<times> ytdl_info_ctx" where
  "visit_result known v = (vs_cb v, vs_id v, ytdl_info_set_sig_actions (vs_info v) (visit_acts known v))"

definition visit_ops :: "(string \<rightharpoonup> ytdl_sig_actions) \<Rightarrow> dl_visit \<Rightarrow> dl_op list" where
  "visit_ops known v = [GetInfo (vs_id v) (vs_cb v), Writable (vs_err v)] @ map Body (vs_page v) @ [MessageDone] @
     (if known (player_path v) = None then [Writable (vs_err v)] @ map Body (vs_js v) @ [MessageDone] else [])"

fun visits :: "((string \<rightharpoonup> ytdl_sig_actions) \<Rightarrow> dl_visit \<Rightarrow> 'a list) \<Rightarrow> (string \<rightharpoonup> ytdl_sig_actions) \<Rightarrow> dl_visit list \<Rightarrow> 'a list" where
  "visits f known [] = []"
| "visits f known (v # vs) = f known v @ visits f (learn known v) vs"

fun visits_ok :: "dl_env \<Rightarrow> (string \<rightharpoonup> ytdl_sig_actions) \<Rightarrow> dl_visit list \<Rightarrow> bool" where
  "visits_ok env known [] \<longleftrightarrow> True"
| "visits_ok env known (v # vs) \<longleftrightarrow> visit_ok env known v \<and> visits_ok env (learn known v) vs"

definition handed_over :: "dl_event list \<Rightarrow> (nat \<times> string \<times> ytdl_info_ctx) list" where
  "handed_over es = concat (map (\<lambda>e. case e of Complete cb vid \<Rightarrow> [(cb, v_id vid, v_info vid)] | _ \<Rightarrow> []) es)"

lemma handed_over_simps [simp]:
  "handed_over (es @ fs) = handed_over es @ handed_over fs" "handed_over (Complete cb vid # es) = (cb, v_id vid, v_info vid) # handed_over es"
  "handed_over (FreeVideo r # es) = handed_over es" "handed_over [] = []"
  by (simp_all add: handed_over_def)

lemma writable_step:
  assumes "dl_http ctx = c\<lparr>h_queue := Live [Live \<lparr>job_base = s, job_cb = 0\<rparr>]\<rparr>" "queued c []" "s \<noteq> []" "0 \<le> e"
  shows "\<exists>c'. dl_step env ctx (Writable e) = Some (ctx\<lparr>dl_http := c'\<rparr>) \<and> queued c' [] \<and> ssl_writes (h_log c') = ssl_writes (h_log c) @ [s]"
proof -
  have q: "queued (dl_http ctx) [\<lparr>job_base = s, job_cb = 0\<rparr>]" using assms(1,2) by (simp add: queued_def)
  show ?thesis using writable_sends[OF q _ assms(4)] assms(1-3) by (auto simp: queued_def)
qed

lemma busy_ctx_http [simp]: "busy_ctx known n vid (ctx\<lparr>dl_http := c\<rparr>) = busy_ctx known n vid ctx"
  by (simp add: busy_ctx_def)

text \<open>The page arrives.\<close>

lemma visit_page:
  assumes "env_ok env" "idle_ctx known n ctx" "visit_ok env known v"
  shows "\<exists>ctx' vid s. dl_run env ctx ([GetInfo (vs_id v) (vs_cb v), Writable (vs_err v)] @ map Body (vs_page v)) = Some ctx' \<and>
    busy_ctx known n vid ctx' \<and> page_arrived env v vid \<and> queued (dl_http ctx') [] \<and> dl_on_message_complete ctx' = WatchComplete \<and>
    ssl_writes (h_log (dl_http ctx')) = ssl_writes (h_log (dl_http ctx)) @ [s] \<and> crlf_lines s = watch_lines (vs_id v) \<and> dl_log ctx' = dl_log ctx"
proof -
  have v: "id_ok (vs_id v)" "0 \<le> vs_err v" "page_ok env v" using assms(3) by (simp_all add: visit_ok_def)
  obtain c1 vid s where c1: "ytdl_dl_get_info env ctx (vs_id v) (vs_cb v) = Some (c1, 0)" "busy_ctx known n vid c1"
    "v_id vid = vs_id v" "v_info vid = ytdl_info_ctx_init" "v_on_complete vid = vs_cb v"
    "buf_ok (v_response vid)" "b_base (v_response vid) \<noteq> None" "tight (v_response vid)" "buf_content (v_response vid) = []"
    "dl_on_body c1 = WatchBody" "dl_on_message_complete c1 = WatchComplete" "dl_log c1 = dl_log ctx"
    "dl_http c1 = (dl_http ctx)\<lparr>h_queue := Live [Live \<lparr>job_base = s, job_cb = 0\<rparr>]\<rparr>" "crlf_lines s = watch_lines (vs_id v)"
    using get_info_starts[OF assms(1,2) v(1), of "vs_cb v"] by blast
  have q: "queued (dl_http ctx) []" using assms(2) by (simp add: idle_ctx_def)
  have "s \<noteq> []" using c1(14) crlf_lines_nonempty unfolding watch_lines_def by blast
  from writable_step[OF c1(13) q this v(2)] obtain c' where c': "dl_step env c1 (Writable (vs_err v)) = Some (c1\<lparr>dl_http := c'\<rparr>)"
    "queued c' []" "ssl_writes (h_log c') = ssl_writes (h_log (dl_http ctx)) @ [s]" by blast
  let ?c2 = "c1\<lparr>dl_http := c'\<rparr>"
  have pg: "concat (vs_page v) \<noteq> []" "length (buf_content (v_response vid)) + length (concat (vs_page v)) < 2 ^ 64"
    using v(3) c1(9) by (simp_all add: page_ok_def)
  from append_all_response[OF env_okD(3)[OF assms(1)] c1(6-8) pg(2)] obtain buf where
    buf: "append_all (en_realloc env) (v_response vid) (vs_page v) = Some buf" "buf_ok buf"
      "buf_content buf = concat (vs_page v)" "b_base buf = Some (concat (vs_page v))" using c1(9) pg(1) by auto
  have qv: "q_videos (dl_queue ?c2) = Live [Live vid]" using c1(2) by (simp add: busy_ctx_def)
  let ?v = "vid\<lparr>v_response := buf\<rparr>" let ?c3 = "set_videos (Live [Live ?v]) ?c2"
  have w: "dl_run env ?c2 (map Body (vs_page v)) = Some ?c3"
    using watch_bodies[of ?c2 vid env "vs_page v"] c1(10) qv buf(1) by simp
  have r: "dl_run env ctx ([GetInfo (vs_id v) (vs_cb v), Writable (vs_err v)] @ map Body (vs_page v)) = Some ?c3"
    by (rule dl_run_then[OF _ w]) (use c1(1) c'(1) in simp)
  have "busy_ctx known n ?v ?c3" using c1(2) by (simp add: busy_ctx_def)
  moreover have "page_arrived env v ?v" using c1(3-5) buf(3,4) buf_content_length[OF buf(2)] by (simp add: page_arrived_def)
  ultimately show ?thesis using r c'(2,3) c1(11,12,14) by (intro exI[of _ ?c3] exI[of _ ?v] exI[of _ s]) simp
qed

lemma visit_known:
  assumes "env_ok env" "idle_ctx known n ctx" "visit_ok env known v" "known (player_path v) = Some a"
  shows "\<exists>ctx'. dl_run env ctx (visit_ops known v) = Some ctx' \<and> idle_ctx (learn known v) n ctx' \<and>
    map crlf_lines (ssl_writes (h_log (dl_http ctx'))) = map crlf_lines (ssl_writes (h_log (dl_http ctx))) @ visit_lines known v \<and>
    handed_over (dl_log ctx') = handed_over (dl_log ctx) @ [visit_result known v]"
proof -
  obtain c vid s where c: "dl_run env ctx ([GetInfo (vs_id v) (vs_cb v), Writable (vs_err v)] @ map Body (vs_page v)) = Some c"
    "busy_ctx known n vid c" "page_arrived env v vid" "queued (dl_http c) []" "dl_on_message_complete c = WatchComplete"
    "ssl_writes (h_log (dl_http c)) = ssl_writes (h_log (dl_http ctx)) @ [s]" "crlf_lines s = watch_lines (vs_id v)" "dl_log c = dl_log ctx"
    using visit_page[OF assms(1-3)] by blast
  have pg: "page_ok env v" using assms(3) by (simp add: visit_ok_def)
  obtain ctx' freed vid' where f: "ytdl__watch_html_complete env c = Some ctx'" "idle_ctx known n ctx'" "dl_http ctx' = dl_http c"
    "dl_log ctx' = dl_log c @ [Complete (vs_cb v) vid', FreeVideo freed]" "v_id vid' = vs_id v"
    "v_info vid' = ytdl_info_set_sig_actions (vs_info v) a"
    using watch_complete_known[OF assms(1) c(2,4,3) pg assms(4)] by blast
  have "dl_run env ctx (([GetInfo (vs_id v) (vs_cb v), Writable (vs_err v)] @ map Body (vs_page v)) @ [MessageDone]) = Some ctx'"
    by (rule dl_run_then[OF c(1)]) (simp add: c(5) f(1))
  moreover have "learn known v = known" using assms(4) by (auto simp: learn_def visit_acts_def)
  ultimately show ?thesis using assms(4) f c(6-8)
    by (intro exI[of _ ctx']) (simp add: visit_ops_def visit_lines_def visit_result_def visit_acts_def)
qed

lemma visit_unknown:
  assumes "env_ok env" "idle_ctx known (Suc n) ctx" "visit_ok env known v" "known (player_path v) = None"
  shows "\<exists>ctx'. dl_run env ctx (visit_ops known v) = Some ctx' \<and> idle_ctx (learn known v) n ctx' \<and>
    map crlf_lines (ssl_writes (h_log (dl_http ctx'))) = map crlf_lines (ssl_writes (h_log (dl_http ctx))) @ visit_lines known v \<and>
    handed_over (dl_log ctx') = handed_over (dl_log ctx) @ [visit_result known v]"
proof -
  obtain c vid s where c: "dl_run env ctx ([GetInfo (vs_id v) (vs_cb v), Writable (vs_err v)] @ map Body (vs_page v)) = Some c"
    "busy_ctx known (Suc n) vid c" "page_arrived env v vid" "queued (dl_http c) []" "dl_on_message_complete c = WatchComplete"
    "ssl_writes (h_log (dl_http c)) = ssl_writes (h_log (dl_http ctx)) @ [s]" "crlf_lines s = watch_lines (vs_id v)" "dl_log c = dl_log ctx"
    using visit_page[OF assms(1-3)] by blast
  have pg: "page_ok env v" "player_ok env v" "0 \<le> vs_err v" using assms(3,4) by (simp_all add: visit_ok_def)
  obtain d t where d: "ytdl__watch_html_complete env c = Some d" "busy_ctx known (Suc n) (vid\<lparr>v_info := vs_info v\<rparr>) d"
    "dl_http d = (dl_http c)\<lparr>h_queue := Live [Live \<lparr>job_base = t, job_cb = 0\<rparr>]\<rparr>"
    "crlf_lines t = request_lines (player_path v) ''www.youtube.com'' []" "dl_on_body d = PlayerBody"
    "dl_on_message_complete d = PlayerComplete" "dl_log d = dl_log c"
    using watch_complete_unknown[OF assms(1) c(2,4,3) pg(1) assms(4)] by blast
  have "t \<noteq> []" using d(4) crlf_lines_nonempty by blast
  from writable_step[OF d(3) c(4) this pg(3)] obtain c' where c': "dl_step env d (Writable (vs_err v)) = Some (d\<lparr>dl_http := c'\<rparr>)"
    "queued c' []" "ssl_writes (h_log c') = ssl_writes (h_log (dl_http c)) @ [t]" by blast
  let ?d = "d\<lparr>dl_http := c'\<rparr>"
  have js: "buf_ok (dl_player_js d)" "b_base (dl_player_js d) \<noteq> None" "b_len (dl_player_js d) = 0"
    using d(2) by (simp_all add: busy_ctx_def dl_common_def)
  have e: "buf_content (dl_player_js d) = []" using js(3) by (auto simp: buf_content_def split: option.splits)
  have "length (buf_content (dl_player_js d)) + length (concat (vs_js v)) < 2 ^ 64" using e pg(2) by (simp add: player_ok_def)
  from append_all_content[OF env_okD(3)[OF assms(1)] js(1,2) this] obtain buf where
    buf: "append_all (en_realloc env) (dl_player_js d) (vs_js v) = Some buf" "buf_ok buf" "b_base buf \<noteq> None"
      "buf_content buf = concat (vs_js v)" using e by auto
  let ?g = "?d\<lparr>dl_player_js := buf\<rparr>"
  have w: "dl_run env ?d (map Body (vs_js v)) = Some ?g" using player_bodies[of ?d env "vs_js v"] d(5) buf(1) by simp
  obtain m where m: "b_base buf = Some m" using buf(3) by blast
  have bl: "unat (b_len buf) = length (concat (vs_js v))" using buf_content_length[OF buf(2)] buf(4) by simp
  have tm: "concat (vs_js v) = take (unat (b_len buf)) m" using buf(4) m by (simp add: buf_content_def)
  have base: "b_base buf = Some (concat (vs_js v) @ drop (unat (b_len buf)) m)" unfolding tm append_take_drop_id by (rule m)
  note b = d(2)[unfolded busy_ctx_def]
  have "dl_common known (Suc n) (?g\<lparr>dl_player_js := dl_player_js d\<rparr>)" using b by (simp add: dl_common_def)
  note pc = player_complete[OF assms(1) this _ _ _ _ _ pg(1,2) assms(4), of "vid\<lparr>v_info := vs_info v\<rparr>"]
  obtain ctx' freed where f: "ytdl__player_js_complete env ?g = Some ctx'" "idle_ctx (known(player_path v \<mapsto> vs_acts v)) n ctx'"
    "dl_http ctx' = c'" "dl_log ctx' = dl_log d @ [Complete (v_on_complete vid)
      (vid\<lparr>v_info := ytdl_info_set_sig_actions (vs_info v) (vs_acts v)\<rparr>), FreeVideo freed]"
    using pc b c'(2) buf(2) base bl by auto
  have "dl_run env ctx (([GetInfo (vs_id v) (vs_cb v), Writable (vs_err v)] @ map Body (vs_page v)) @
      [MessageDone, Writable (vs_err v)] @ map Body (vs_js v) @ [MessageDone]) = Some ctx'"
    by (rule dl_run_then[OF c(1)], rule dl_run_then, use c(5) d(1) c'(1) in simp, rule dl_run_then[OF w]) (use d(6) f(1) in simp)
  moreover have "v_id vid = vs_id v" "v_on_complete vid = vs_cb v" using c(3) by (simp_all add: page_arrived_def)
  ultimately show ?thesis using assms(4) f(2-4) c(6-8) c'(3) d(4,7)
    by (intro exI[of _ ctx']) (simp add: visit_ops_def visit_lines_def visit_result_def visit_acts_def learn_def)
qed

lemma visits_run:
  assumes "env_ok env" "idle_ctx known (length vs) ctx" "visits_ok env known vs"
  shows "\<exists>ctx' known'. dl_run env ctx (visits visit_ops known vs) = Some ctx' \<and> idle_ctx known' 0 ctx' \<and>
    map crlf_lines (ssl_writes (h_log (dl_http ctx'))) = map crlf_lines (ssl_writes (h_log (dl_http ctx))) @ visits visit_lines known vs \<and>
    handed_over (dl_log ctx') = handed_over (dl_log ctx) @ visits (\<lambda>k v. [visit_result k v]) known vs"
  using assms(2,3)
proof (induction vs arbitrary: known ctx)
  case (Cons v vs)
  have i: "idle_ctx known (Suc (length vs)) ctx" "visit_ok env known v" "visits_ok env (learn known v) vs" using Cons.prems by simp_all
  have "\<exists>ctx'. dl_run env ctx (visit_ops known v) = Some ctx' \<and> idle_ctx (learn known v) (length vs) ctx' \<and>
    map crlf_lines (ssl_writes (h_log (dl_http ctx'))) = map crlf_lines (ssl_writes (h_log (dl_http ctx))) @ visit_lines known v \<and>
    handed_over (dl_log ctx') = handed_over (dl_log ctx) @ [visit_result known v]"
  proof (cases "known (player_path v)")
    case None
    thus ?thesis using visit_unknown[OF assms(1) i(1,2)] by blast
  next
    case (Some a)
    from visit_known[OF assms(1) idle_ctx_mono[OF i(1)] i(2) Some, of "length vs"] show ?thesis by simp
  qed
  then obtain c where c: "dl_run env ctx (visit_ops known v) = Some c" "idle_ctx (learn known v) (length vs) c"
    "map crlf_lines (ssl_writes (h_log (dl_http c))) = map crlf_lines (ssl_writes (h_log (dl_http ctx))) @ visit_lines known v"
    "handed_over (dl_log c) = handed_over (dl_log ctx) @ [visit_result known v]" by blast
  from Cons.IH[OF c(2) i(3)] obtain ctx' known' where "dl_run env c (visits visit_ops (learn known v) vs) = Some ctx'" "idle_ctx known' 0 ctx'"
    "map crlf_lines (ssl_writes (h_log (dl_http ctx'))) = map crlf_lines (ssl_writes (h_log (dl_http c))) @ visits visit_lines (learn known v) vs"
    "handed_over (dl_log ctx') = handed_over (dl_log c) @ visits (\<lambda>k v. [visit_result k v]) (learn known v) vs" by blast
  thus ?case using c by (intro exI[of _ ctx'] exI[of _ known']) (simp add: dl_run_append)
qed auto

section \<open>A player and a page\<close>

definition demo_regex :: "nat option list \<Rightarrow> regex" where
  "demo_regex cs = \<lparr>re_flags = 0, re_capture_count = length cs div 2, re_exec = (\<lambda>_ _. (1, cs))\<rparr>"

definition demo_engine :: js_engine where
  "demo_engine = \<lparr>JS_Eval = (\<lambda>_. JS_VALUE 1), JS_WriteObject = (\<lambda>_. Some ''bc''), JS_ReadObject = (\<lambda>_. JS_VALUE 2),
     JS_EvalFunction = (\<lambda>_. JS_VALUE 3), JS_IsFunction = (\<lambda>_. True)\<rparr>"

text \<open>A player: the helper object, the deciphering function, and the function of the parameter \<open>n\<close>.\<close>

definition demo_helpers :: string where "demo_helpers = ''jO:function(a,b){a.splice(0,b)},'' @ LF # ''hp:function(a){a.reverse()}''"
definition demo_calls :: string where "demo_calls = '';Mt.jO(a,3);Mt.hp(a,49);''"

definition demo_player :: string where
  "demo_player = demo_helpers @ demo_calls @ VAR_MARK @ ''f(x);f='' @ ''function(a){return a'' @ JOIN_MARK"

definition demo_caps :: "nat \<Rightarrow> nat \<Rightarrow> nat option list" where
  "demo_caps s e = [Some 0, Some e, Some s, Some e, Some s, Some e]"

definition demo_json :: json where "demo_json = JObj [(''playabilityStatus'', JObj [(''status'', JStr ''OK'')])]"

definition demo_env :: dl_env where
  "demo_env = \<lparr>en_malloc = (\<lambda>n. Some (replicate n NUL)),
     en_realloc = (\<lambda>old n. Some (take n (case old of None \<Rightarrow> [] | Some m \<Rightarrow> m) @ replicate (n - length (case old of None \<Rightarrow> [] | Some m \<Rightarrow> m)) NUL)),
     en_mem = (\<lambda>_. True), en_video = Some \<lparr>v_id = [], v_info = ytdl_info_ctx_init, v_response = request_0, v_on_complete = 0\<rparr>,
     en_uv_write = 0, en_yyjson_read = (\<lambda>_. Some demo_json),
     en_js = demo_engine, en_js_malloc = (\<lambda>n. Some (replicate n NUL)), en_runtime = True, en_context = True, en_captures = (\<lambda>_. True),
     en_obj_regexp = demo_regex (demo_caps 0 (length demo_helpers)),
     en_func_regexp = demo_regex (demo_caps (length demo_helpers) (length demo_helpers + length demo_calls)),
     en_on_complete = (\<lambda>_. Some)\<rparr>"

lemma demo_finds:
  "find_sub VAR_MARK demo_player = Some 84" "find_sub ''('' (drop 99 demo_player) = Some 1" "take 1 (drop 99 demo_player) = ''f''"
  "find_sub ''f='' demo_player = Some 104" "find_sub JOIN_MARK (drop 106 demo_player) = Some 20" "length demo_player = 136" "NUL \<notin> set demo_player"
  by code_simp+

lemma demo_n_function: "n_function demo_player 136 = Some (Some (106, 136))"
proof -
  have c: "cstr (drop n demo_player) = drop n demo_player" for n using demo_finds(7) by (intro cstr_id) (auto dest: in_set_dropD)
  have s: "strnstr demo_player p f (136 - p) = Some (map_option ((+) p) (find_sub f (drop p demo_player)))"
    if "NUL \<notin> set f" "f \<noteq> []" "p \<le> 136" for p f
    using strnstr_spec[OF that(1,2), of p "136 - p" demo_player] that(3) c[of p] demo_finds(6) by simp
  have v: "strnstr demo_player 0 VAR_MARK 136 = Some (Some 84)" using s[of VAR_MARK 0] demo_finds(1) by (simp add: VAR_MARK_def)
  have o: "strnstr demo_player 99 ''('' (136 - 99) = Some (Some 100)" using s[of "''(''" 99] demo_finds(2) by simp
  have f: "strnstr demo_player 0 ''f='' 136 = Some (Some 104)" using s[of "''f=''" 0] demo_finds(4) by simp
  have j: "strnstr demo_player 106 JOIN_MARK (136 - 106) = Some (Some 126)" using s[of JOIN_MARK 106] demo_finds(5) by (simp add: JOIN_MARK_def)
  have n: "fmt_prec 1 (drop 99 demo_player) = Some ''f''"
    using fmt_prec_plain[of 1 "drop 99 demo_player"] demo_finds(3,6) by simp
  obtain p where p: "snprintf (replicate 10 NUL) 10 ''f='' = Some p" "cstr p = ''f=''" using snprintf_fits[of "''f=''" 10 "replicate 10 NUL"] by auto
  show ?thesis unfolding n_function_def v option.case Let_def using o n p f j by simp
qed

lemma demo_js_function: "\<exists>t. js_function (\<lambda>n. Some (replicate n NUL)) demo_player 106 136 = Some t"
  using js_function_text[of "\<lambda>n. Some (replicate n NUL)" 106 136 demo_player] demo_finds(6,7)
  by (auto simp: malloc_ok_def dest: in_set_takeD in_set_dropD)

lemma demo_match: "match_player (\<lambda>n. Some (replicate n NUL)) (\<lambda>_. True) (demo_regex (demo_caps 0 (length demo_helpers)))
    (demo_regex (demo_caps (length demo_helpers) (length demo_helpers + length demo_calls))) demo_player 136 = Some (Some (demo_helpers, demo_calls))"
  by code_simp

lemma demo_scan: "\<exists>a. scan_actions demo_calls demo_helpers (fst (ytdl_sig_actions_init True True)) = Some (True, a)"
proof -
  have "map_option fst (scan_actions demo_calls demo_helpers (fst (ytdl_sig_actions_init True True))) = Some True" by code_simp
  thus ?thesis by (cases "scan_actions demo_calls demo_helpers (fst (ytdl_sig_actions_init True True))") auto
qed

lemma demo_extract: "\<exists>a. ytdl_sig_actions_extract (\<lambda>n. Some (replicate n NUL)) (\<lambda>_. True) demo_engine (demo_regex (demo_caps 0 (length demo_helpers)))
    (demo_regex (demo_caps (length demo_helpers) (length demo_helpers + length demo_calls)))
    (fst (ytdl_sig_actions_init True True)) demo_player (length demo_player) = Some (a, 0)"
proof -
  obtain a where a: "scan_actions demo_calls demo_helpers (fst (ytdl_sig_actions_init True True)) = Some (True, a)" using demo_scan by blast
  obtain t where t: "js_function (\<lambda>n. Some (replicate n NUL)) demo_player 106 136 = Some t" using demo_js_function by blast
  have b: "sa_bytecode (fst (ytdl_sig_actions_init True True)) = None" by (simp add: ytdl_sig_actions_init_def Let_def)
  show ?thesis unfolding ytdl_sig_actions_extract_def demo_finds(6) using b demo_match a demo_n_function t
    by (simp add: compile_n_def demo_engine_def Let_def)
qed

lemma demo_page_read:
  "map_option (\<lambda>(i, r). (r, snd (ytdl_info_get_playability_status i), cstr (i_player_url (fst (ytdl_info_get_playability_status i))),
      list_ex (\<lambda>c. c = NUL) (i_player_url (fst (ytdl_info_get_playability_status i)))))
     (ytdl_info_extract_watch_html (\<lambda>_. Some demo_json) ytdl_info_ctx_init demo_page (length demo_page)) = Some (0, YTDL_PLAYABILITY_OK, ''/p.js'', True)"
  by code_simp

definition demo_visit :: "string \<Rightarrow> nat \<Rightarrow> ytdl_info_ctx \<Rightarrow> ytdl_sig_actions \<Rightarrow> dl_visit" where
  "demo_visit ident cb info a = \<lparr>vs_id = ident @ [NUL], vs_cb = cb, vs_page = [take 40 demo_page, drop 40 demo_page],
     vs_js = [take 10 demo_player, drop 10 demo_player], vs_info = info, vs_acts = a, vs_err = 0\<rparr>"

lemma demo_env_ok: "env_ok demo_env"
  by (auto simp: env_ok_def demo_env_def malloc_ok_def grows_def realloc_ok_def split: option.splits)

lemma demo_sizes: "length demo_page < 200" "demo_page \<noteq> []" "length demo_player < 200"
  by code_simp+

lemma demo_visits:
  "\<exists>info a. player_path (demo_visit x cb info a) = ''/p.js'' \<and> (\<forall>ident cb. length ident = 11 \<and> no_ctl ident \<longrightarrow>
     id_ok (vs_id (demo_visit ident cb info a)) \<and> page_ok demo_env (demo_visit ident cb info a) \<and> player_ok demo_env (demo_visit ident cb info a))"
proof -
  obtain i where i: "ytdl_info_extract_watch_html (\<lambda>_. Some demo_json) ytdl_info_ctx_init demo_page (length demo_page) = Some (i, 0)"
    "snd (ytdl_info_get_playability_status i) = YTDL_PLAYABILITY_OK" "cstr (i_player_url (fst (ytdl_info_get_playability_status i))) = ''/p.js''"
    "NUL \<in> set (i_player_url (fst (ytdl_info_get_playability_status i)))"
    using demo_page_read by (auto simp: list_ex_iff)
  obtain a where a: "ytdl_sig_actions_extract (\<lambda>n. Some (replicate n NUL)) (\<lambda>_. True) demo_engine (demo_regex (demo_caps 0 (length demo_helpers)))
    (demo_regex (demo_caps (length demo_helpers) (length demo_helpers + length demo_calls)))
    (fst (ytdl_sig_actions_init True True)) demo_player (length demo_player) = Some (a, 0)" using demo_extract by blast
  let ?info = "fst (ytdl_info_get_playability_status i)"
  have c: "concat (vs_page (demo_visit ident cb ?info a)) = demo_page" "concat (vs_js (demo_visit ident cb ?info a)) = demo_player" for ident cb
    unfolding demo_visit_def by (simp_all only: dl_visit.simps concat.simps append_Nil2 append_take_drop_id)
  have p: "player_path (demo_visit ident cb ?info a) = ''/p.js''" for ident cb using i(3) by (simp add: player_path_def demo_visit_def)
  have st: "ytdl_info_get_playability_status i = (?info, YTDL_PLAYABILITY_OK)" using i(2) by (cases "ytdl_info_get_playability_status i") simp
  have pg: "page_ok demo_env (demo_visit ident cb ?info a)" for ident cb
    unfolding page_ok_def c p using i(1,4) st demo_sizes by (auto simp: demo_env_def demo_visit_def uchar_def)
  have pl: "player_ok demo_env (demo_visit ident cb ?info a)" for ident cb
    unfolding player_ok_def c using a demo_sizes by (auto simp: demo_env_def demo_visit_def)
  have "id_ok (vs_id (demo_visit ident cb ?info a))" if "length ident = 11" "no_ctl ident" for ident cb
    using that no_ctlD(1)[OF that(2)] by (simp add: demo_visit_def id_ok_def YTDL_ID_SIZE_def cstr_append)
  thus ?thesis using p pg pl by blast
qed

section \<open>Properties\<close>

text \<open>A fresh context is connected: it is idle, and knows no player.\<close>

lemma connected_idle:
  assumes "env_ok env" "ytdl_dl_ctx_init env 0 ctx0 = (ctx1, r)" "queued c []" "n \<le> hb_size_max"
  shows "r = 0 \<and> (\<exists>ctx. ytdl__connected_cb env (ctx1\<lparr>dl_http := c\<rparr>) = Some ctx \<and> idle_ctx Map.empty n ctx \<and>
    dl_http ctx = c \<and> dl_log ctx = dl_log ctx0)"
proof -
  note e = env_okD[OF assms(1)]
  let ?js = "ytdl_buf_alloc (en_malloc env) (dl_player_js ctx0) 1"
  have b: "b_base ?js \<noteq> None" "b_len ?js = 0" using e(2) by (auto simp: ytdl_buf_alloc_def)
  note bo = buf_alloc_ok(1)[OF e(1), of "dl_player_js ctx0" 1]
  obtain h where h: "ytdl_http_client_init 0 (dl_http ctx0) = (h, 1)"
    by (simp add: ytdl_http_client_init_def ytdl_tcp_client_init_def)
  let ?m = "hashmap_base_init hashmap_hash_string strcmp :: player_map"
  have c1: "r = 0 \<and> dl_player_js ctx1 = ?js \<and> dl_queue ctx1 = \<lparr>q_videos = Live [Null], q_len = 0, q_size = 1\<rparr> \<and>
      dl_player_map ctx1 = ?m \<and> dl_status ctx1 = 0 \<and> dl_log ctx1 = dl_log ctx0"
    using assms(2) b h e(4)[of QueueAlloc] by (auto simp: ytdl_dl_ctx_init_def Let_def)
  have "string_map ?m" using hm_inv_init by (auto simp: string_map_def slots_def hashmap_base_init_def)
  moreover have "hm_map ?m k = None" for k by (simp add: hashmap_base_init_def hm_map_def lookup_def)
  moreover have "unat (hb_size ?m) = 0" by (simp add: hashmap_base_init_def)
  ultimately have "dl_common Map.empty n ctx1" using c1 b bo assms(4) by (simp add: dl_common_def knows_def)
  moreover have "bit (0 OR (YTDL_DL_IS_CONNECTED OR YTDL_DL_IS_IDLE) :: u32) 2"
    using idle_simps(3)[of YTDL_DL_IS_CONNECTED] by simp
  ultimately have i: "idle_ctx Map.empty n (ctx1\<lparr>dl_http := c, dl_status := dl_status ctx1 OR (YTDL_DL_IS_CONNECTED OR YTDL_DL_IS_IDLE)\<rparr>)"
    using c1 assms(3) by (simp add: idle_ctx_def dl_common_def)
  show ?thesis unfolding ytdl__connected_cb_def ytdl__dl_wake_def using c1 i
    by (intro conjI exI[of _ "ctx1\<lparr>dl_http := c, dl_status := dl_status ctx1 OR (YTDL_DL_IS_CONNECTED OR YTDL_DL_IS_IDLE)\<rparr>"]) simp_all
qed

text \<open>
  C1. Videos asked for one at a time on a fresh, connected context: each is asked for when the one
  before has been handed over, so the queue is empty then and never holds more than one. (Its array has
  one entry and never grows: one more video is written behind it, \<open>second_video_overflows\<close>.) Each is
  answered by a page that names a player and by the script of that player, in pieces of any size; no
  allocation fails and the callbacks leave the context alone. Then the context asks for
  each page in turn and for the script of each player once, the first time a page names it; every
  video is handed to its callback exactly once, in order, with what its page says and the actions
  of its player; no step leaves its memory, and the context is idle again with an empty queue.
\<close>

theorem queue_served:
  assumes "env_ok env" "ytdl_dl_ctx_init env 0 ctx0 = (ctx1, r)" "queued c []"
    and "visits_ok env Map.empty vs" "length vs \<le> hb_size_max"
  shows "r = 0 \<and> (\<exists>ctx ctx' known. ytdl__connected_cb env (ctx1\<lparr>dl_http := c\<rparr>) = Some ctx \<and>
    dl_run env ctx (visits visit_ops Map.empty vs) = Some ctx' \<and> idle_ctx known 0 ctx' \<and>
    map crlf_lines (ssl_writes (h_log (dl_http ctx'))) = map crlf_lines (ssl_writes (h_log c)) @ visits visit_lines Map.empty vs \<and>
    handed_over (dl_log ctx') = handed_over (dl_log ctx0) @ visits (\<lambda>k v. [visit_result k v]) Map.empty vs)"
proof -
  obtain ctx where ctx: "r = 0" "ytdl__connected_cb env (ctx1\<lparr>dl_http := c\<rparr>) = Some ctx" "idle_ctx Map.empty (length vs) ctx"
    "dl_http ctx = c" "dl_log ctx = dl_log ctx0" using connected_idle[OF assms(1-3,5)] by blast
  from visits_run[OF assms(1) ctx(3) assms(4)] ctx show ?thesis by (auto simp del: map_map)
qed

lemma queue_served_witness:
  "\<exists>ctx0 ctx1 c info a ctx ctx' known. ytdl_dl_ctx_init demo_env 0 ctx0 = (ctx1, 0) \<and>
     ytdl__connected_cb demo_env (ctx1\<lparr>dl_http := c\<rparr>) = Some ctx \<and>
     dl_run demo_env ctx (visits visit_ops Map.empty [demo_visit ''aaaaaaaaaaa'' 1 info a, demo_visit ''bbbbbbbbbbb'' 2 info a]) = Some ctx' \<and>
     idle_ctx known 0 ctx' \<and> length (ssl_writes (h_log (dl_http ctx'))) = 3 \<and>
     map fst (handed_over (dl_log ctx')) = [1, 2]"
proof -
  obtain info a where v: "player_path (demo_visit [] 0 info a) = ''/p.js''" "\<forall>ident cb. length ident = 11 \<and> no_ctl ident \<longrightarrow>
     id_ok (vs_id (demo_visit ident cb info a)) \<and> page_ok demo_env (demo_visit ident cb info a) \<and> player_ok demo_env (demo_visit ident cb info a)"
    using demo_visits by blast
  let ?a = "demo_visit ''aaaaaaaaaaa'' 1 info a" and ?b = "demo_visit ''bbbbbbbbbbb'' 2 info a"
  have p: "player_path ?a = ''/p.js''" "player_path ?b = ''/p.js''" using v(1) by (simp_all add: player_path_def demo_visit_def)
  have ok: "visit_ok demo_env k ?a" "visit_ok demo_env k ?b" for k
    using v(2) by (auto simp: visit_ok_def uchar_def) (simp_all add: demo_visit_def)
  have vs: "visits_ok demo_env Map.empty [?a, ?b]" using ok by simp
  have l: "length [?a, ?b] \<le> hb_size_max" by (simp add: hb_size_max_def)
  let ?c = "demo_client" and ?ctx0 = "undefined\<lparr>dl_log := []\<rparr> :: ytdl_dl_ctx"
  have q: "queued ?c []" "h_log ?c = []" by (simp_all add: demo_client_def queued_def)
  obtain ctx1 r where i: "ytdl_dl_ctx_init demo_env 0 ?ctx0 = (ctx1, r)" by (cases "ytdl_dl_ctx_init demo_env 0 ?ctx0")
  from queue_served[OF demo_env_ok i q(1) vs l] obtain ctx ctx' known where R: "r = 0"
    "ytdl__connected_cb demo_env (ctx1\<lparr>dl_http := ?c\<rparr>) = Some ctx" "dl_run demo_env ctx (visits visit_ops Map.empty [?a, ?b]) = Some ctx'"
    "idle_ctx known 0 ctx'" "map crlf_lines (ssl_writes (h_log (dl_http ctx'))) = visits visit_lines Map.empty [?a, ?b]"
    "handed_over (dl_log ctx') = visits (\<lambda>k v. [visit_result k v]) Map.empty [?a, ?b]" using q(2) by (auto simp del: map_map)
  have "length (ssl_writes (h_log (dl_http ctx'))) = length (visits visit_lines Map.empty [?a, ?b])" using R(5) by (metis length_map)
  also have "\<dots> = 3" using p by (simp add: visit_lines_def learn_def)
  finally have "length (ssl_writes (h_log (dl_http ctx'))) = 3" .
  moreover have "map fst (handed_over (dl_log ctx')) = [1, 2]" unfolding R(6) by (simp add: visit_result_def demo_visit_def)
  ultimately show ?thesis using i[unfolded R(1)] R(2-4)
    by (intro exI[of _ ?ctx0] exI[of _ ctx1] exI[of _ ?c] exI[of _ info] exI[of _ a] exI[of _ ctx] exI[of _ ctx'] exI[of _ known] conjI)
qed

text \<open>
  The growth of the queue multiplies its size 1 by 1.5, which is 1: a video that is asked for while
  another is being served is written behind the array.
\<close>

lemma second_video_overflows:
  assumes "env_ok env" "busy_ctx known n vid ctx"
  shows "ytdl_dl_get_info env ctx ident cb = None"
proof -
  have q: "q_size (dl_queue ctx) = 1" "q_len (dl_queue ctx) = 1" "q_videos (dl_queue ctx) = Live [Live vid]"
    using assms(2) by (simp_all add: busy_ctx_def dl_common_def)
  have "grow_queue env (dl_queue ctx) = Some (dl_queue ctx)"
    using q env_okD(4)[OF assms(1), of QueueAlloc] by (cases "dl_queue ctx") (simp add: grow_queue_def Let_def)
  thus ?thesis using q by (auto simp: ytdl_dl_get_info_def Let_def put_video_def use_def bind_eq_None_conv)
qed

text \<open>A page that cannot be read leaves the video in the queue: the context never becomes idle again.\<close>

lemma unreadable_page_blocks:
  assumes "busy_ctx known n vid ctx" "b_base (v_response vid) = Some page" "x \<noteq> 0"
    and "ytdl_info_extract_watch_html (en_yyjson_read env) (v_info vid) page (unat (b_len (v_response vid))) = Some (info, x)"
  shows "\<exists>ctx'. ytdl__watch_html_complete env ctx = Some ctx' \<and> busy_ctx known n (vid\<lparr>v_info := info\<rparr>) ctx' \<and>
    dl_http ctx' = dl_http ctx \<and> dl_log ctx' = dl_log ctx @ [Print (WatchExtractError x)]"
  using assms by (auto simp: ytdl__watch_html_complete_def busy_ctx_def)

section \<open>The cache file\<close>

text \<open>What the file holds of the actions of a player.\<close>

definition actions_file :: "ytdl_sig_actions \<Rightarrow> string" where
  "actions_file a = fst (the (ytdl_sig_actions_save_file a []))"

lemma save_actions_file:
  assumes "ytdl_sig_actions_save_file a fd = Some (fd @ f, r)"
  shows "ytdl_sig_actions_save_file a fd' = Some (fd' @ actions_file a, 0)" "f = actions_file a"
  using assms by (auto simp: ytdl_sig_actions_save_file_def actions_file_def bind_eq_Some_conv)

text \<open>A player that can be cached, and what the loaded one has in common with it.\<close>

definition cacheable :: "malloc \<Rightarrow> ytdl_dl_player \<Rightarrow> bool" where
  "cacheable js_malloc p \<longleftrightarrow> (\<exists>s b. pl_player_path p = Some s \<and> s \<noteq> [] \<and> length s \<le> 99 \<and> NUL \<notin> set s \<and>
     ints_ok (pl_sig_actions p) \<and> sa_bytecode (pl_sig_actions p) = Some b \<and> length b = unat (sa_bc_len (pl_sig_actions p)) \<and>
     js_malloc (length b) \<noteq> None)"

definition same_player :: "js_engine \<Rightarrow> ytdl_dl_player \<Rightarrow> ytdl_dl_player \<Rightarrow> bool" where
  "same_player js p q \<longleftrightarrow> (let a = pl_sig_actions p; a' = pl_sig_actions q in
     pl_player_path q = pl_player_path p \<and> sa_actions a' = sa_actions a \<and> sa_actions_arg a' = sa_actions_arg a \<and>
     sa_actions_size a' = sa_actions_size a \<and> sa_bc_len a' = sa_bc_len a \<and> sa_bytecode a' = sa_bytecode a \<and>
     sa_script a' = JS_ReadObject js (the (sa_bytecode a)))"

definition path_of :: "ytdl_dl_player \<Rightarrow> string" where
  "path_of p = the (pl_player_path p)"

lemma cacheableD:
  assumes "cacheable js_malloc p"
  shows "pl_player_path p = Some (path_of p)" "path_of p \<noteq> []" "length (path_of p) \<le> 99" "NUL \<notin> set (path_of p)"
  using assms by (auto simp: cacheable_def path_of_def)

lemma fresh_actions: "arrays_ok (fst (ytdl_sig_actions_init x y))" "sa_bytecode (fst (ytdl_sig_actions_init x y)) = None"
  by (auto simp: ytdl_sig_actions_init_def arrays_ok_def Let_def)

lemma load_saved:
  assumes "malloc_ok js_malloc" "cacheable js_malloc p"
  shows "ytdl_sig_actions_save_file (pl_sig_actions p) fd = Some (fd @ actions_file (pl_sig_actions p), 0)"
    and "\<exists>a' r. ytdl_sig_actions_load_file js_malloc js (fst (ytdl_sig_actions_init x y)) (actions_file (pl_sig_actions p) @ rest) = Some (a', rest, r) \<and>
      same_player js p \<lparr>pl_player_path = Some (path_of p), pl_sig_actions = a'\<rparr>"
proof -
  obtain b where b: "ints_ok (pl_sig_actions p)" "sa_bytecode (pl_sig_actions p) = Some b"
    "length b = unat (sa_bc_len (pl_sig_actions p))" "js_malloc (length b) \<noteq> None" using assms(2) by (auto simp: cacheable_def)
  from save_load[OF b(1-3) fresh_actions assms(1) b(4), of fd js x y rest] obtain f a' r where f:
    "ytdl_sig_actions_save_file (pl_sig_actions p) fd = Some (fd @ f, 0)"
    "ytdl_sig_actions_load_file js_malloc js (fst (ytdl_sig_actions_init x y)) (f @ rest) = Some (a', rest, r)"
    "sa_actions a' = sa_actions (pl_sig_actions p)" "sa_actions_arg a' = sa_actions_arg (pl_sig_actions p)"
    "sa_actions_size a' = sa_actions_size (pl_sig_actions p)" "sa_bc_len a' = sa_bc_len (pl_sig_actions p)"
    "sa_bytecode a' = Some b" "sa_script a' = JS_ReadObject js b" by blast
  note s = save_actions_file[OF f(1)]
  show "ytdl_sig_actions_save_file (pl_sig_actions p) fd = Some (fd @ actions_file (pl_sig_actions p), 0)" by (rule s(1))
  show "\<exists>a' r. ytdl_sig_actions_load_file js_malloc js (fst (ytdl_sig_actions_init x y)) (actions_file (pl_sig_actions p) @ rest) = Some (a', rest, r) \<and>
      same_player js p \<lparr>pl_player_path = Some (path_of p), pl_sig_actions = a'\<rparr>"
    using f(2-8) b(2) cacheableD(1)[OF assms(2)] unfolding s(2) by (intro exI[of _ a'] exI[of _ r]) (simp add: same_player_def Let_def)
qed

text \<open>The file: for each player its path, a NUL, and its actions.\<close>

definition player_file :: "ytdl_dl_player \<Rightarrow> string" where
  "player_file p = path_of p @ [NUL] @ actions_file (pl_sig_actions p)"

lemma save_players_file:
  "malloc_ok js_malloc \<Longrightarrow> \<forall>p \<in> set ps. cacheable js_malloc p \<Longrightarrow> save_players fd ps = Some (fd @ concat (map player_file ps))"
proof (induction ps arbitrary: fd)
  case (Cons p ps)
  have c: "cacheable js_malloc p" using Cons.prems(2) by simp
  have "save_player fd p = Some (fd @ player_file p)"
    using load_saved(1)[OF Cons.prems(1) c, of "fd @ path_of p @ [NUL]"] cacheableD(1)[OF c] by (simp add: save_player_def player_file_def)
  thus ?case using Cons.IH[OF Cons.prems(1), of "fd @ player_file p"] Cons.prems(2) by simp
qed simp

text \<open>Reading a path of which the first \<open>k\<close> characters are in the array already.\<close>

lemma read_path_text:
  assumes "length path = 100" "take k path = take k s" "k \<le> length s" "length s \<le> 99" "NUL \<notin> set s"
  shows "\<exists>path'. read_path path k (drop k s @ NUL # rest) = Some (Some (path', rest)) \<and> length path' = 100 \<and>
    cstr path' = s \<and> NUL \<in> set path'"
  using assms(1-3)
proof (induction "length s - k" arbitrary: path k)
  case 0
  hence k: "k = length s" by simp
  have "path[k := NUL] = take k path @ NUL # drop (Suc k) path" using 0 assms(4) k by (simp add: upd_conv_take_nth_drop)
  hence p: "path[k := NUL] = s @ NUL # drop (Suc k) path" using 0 k by simp
  have "read_path path k (drop k s @ NUL # rest) = Some (Some (path[k := NUL], rest))"
    using 0 k assms(4) by (subst read_path.simps) simp
  thus ?case unfolding p using 0(2) k assms(4,5) by (simp add: cstr_append)
next
  case (Suc n)
  have k: "k < length s" using Suc.hyps(2) by simp
  have d: "drop k s = s ! k # drop (Suc k) s" using k by (simp add: Cons_nth_drop_Suc)
  have nn: "s ! k \<noteq> NUL" using assms(5) k nth_mem by metis
  have "take (Suc k) (path[k := s ! k]) = take (Suc k) s"
    using Suc.prems k assms(4) by (simp add: take_Suc_conv_app_nth)
  note tk = this
  have "n = length s - Suc k" "length (path[k := s ! k]) = 100" "Suc k \<le> length s" using Suc.hyps(2) Suc.prems k by simp_all
  from Suc.hyps(1)[OF this(1,2) tk this(3)] obtain path' where p: "read_path (path[k := s ! k]) (Suc k) (drop (Suc k) s @ NUL # rest) = Some (Some (path', rest))"
    "length path' = 100" "cstr path' = s" "NUL \<in> set path'" by blast
  have "read_path path k (drop k s @ NUL # rest) = read_path (path[k := s ! k]) (Suc k) (drop (Suc k) s @ NUL # rest)"
    using k assms(4) Suc.prems(1) nn unfolding d by (subst read_path.simps) simp
  thus ?case using p by auto
qed

text \<open>The players of a map by path.\<close>

definition holds_players :: "(string \<rightharpoonup> ytdl_dl_player) \<Rightarrow> nat \<Rightarrow> ytdl_dl_ctx \<Rightarrow> bool" where
  "holds_players M n ctx \<longleftrightarrow> string_map (dl_player_map ctx) \<and> (\<forall>k. hm_map (dl_player_map ctx) k = M (cstr k)) \<and>
     unat (hb_size (dl_player_map ctx)) + n \<le> hb_size_max"

lemma put_player_holds:
  assumes "en_mem env MapAlloc" "holds_players M (Suc n) ctx" "cstr s = s" "M s = None" "pl_player_path p = Some s"
  shows "\<exists>m. put_player env ctx p = Some (ctx\<lparr>dl_player_map := m\<rparr>, 0) \<and> holds_players (M(s \<mapsto> p)) n (ctx\<lparr>dl_player_map := m\<rparr>)"
proof -
  let ?m = "dl_player_map ctx"
  have sm: "string_map ?m" and sz: "unat (hb_size ?m) + Suc n \<le> hb_size_max" using assms(2) by (simp_all add: holds_players_def)
  have inv: "hm_inv ?m" "hb_key_dup ?m = None" "hb_compare ?m = strcmp" using sm by (auto simp: string_map_def)
  have dup: "dup_ok ?m" using inv(2) by (auto simp: dup_ok_def)
  have nk: "hm_map ?m s = None" using assms(2-4) by (simp add: holds_players_def)
  have le: "unat (hb_size ?m) \<le> hb_size_max" using sz by simp
  obtain r m where p: "hashmap_base_put True ?m (Some s) (Some p) = Some (r, m)" "hm_inv m" "same_config ?m m" "roomy m"
    "r = 0 \<and> hm_map m = hm_update ?m s (Some p) \<and> hb_size m = hb_size ?m + 1"
    using put_refines[OF string_map_contract[OF sm] inv(1) dup le, of True s p] nk inv(2) by (auto simp: put_ok_def split: if_splits)
  have "string_map m" using p(2-4) sm by (simp add: string_map_def same_config_def)
  moreover have "hm_map m k = (M(s \<mapsto> p)) (cstr k)" for k
    using p(5) inv(3) assms(2,3) by (auto simp: hm_update_def strcmp_0 holds_players_def)
  moreover have "unat (hb_size m) \<le> unat (hb_size ?m) + 1" using p(5) by (simp add: unat_word_ariths)
  ultimately show ?thesis using p(1,5) sz assms(1,5) by (intro exI[of _ m]) (simp add: put_player_def holds_players_def)
qed

lemma load_player_saved:
  assumes "\<forall>a. en_mem env a" "malloc_ok (en_js_malloc env)" "cacheable (en_js_malloc env) p" "holds_players M (Suc n) ctx"
    and "M (path_of p) = None" "cstr path = path_of p" "NUL \<in> set path"
  shows "\<exists>q m. load_player env ctx path (actions_file (pl_sig_actions p) @ rest) = Some (ctx\<lparr>dl_player_map := m\<rparr>, rest) \<and>
    same_player (en_js env) p q \<and> pl_player_path q = Some (path_of p) \<and> holds_players (M(path_of p \<mapsto> q)) n (ctx\<lparr>dl_player_map := m\<rparr>)"
proof -
  obtain a' r where a: "ytdl_sig_actions_load_file (en_js_malloc env) (en_js env)
      (fst (ytdl_sig_actions_init (en_runtime env) (en_context env))) (actions_file (pl_sig_actions p) @ rest) = Some (a', rest, r)"
    "same_player (en_js env) p \<lparr>pl_player_path = Some (path_of p), pl_sig_actions = a'\<rparr>"
    using load_saved(2)[OF assms(2,3)] by blast
  let ?q = "\<lparr>pl_player_path = Some (path_of p), pl_sig_actions = a'\<rparr>"
  have c: "cstr (path_of p) = path_of p" using cacheableD(4)[OF assms(3)] by (rule cstr_id)
  obtain m where m: "put_player env ctx ?q = Some (ctx\<lparr>dl_player_map := m\<rparr>, 0)" "holds_players (M(path_of p \<mapsto> ?q)) n (ctx\<lparr>dl_player_map := m\<rparr>)"
    using put_player_holds[OF _ assms(4) c assms(5), of env ?q] assms(1) by auto
  have "path_copy env path = Some (Some (path_of p))" using assms(1,6,7) by (simp add: path_copy_def strlen_def)
  hence "load_player env ctx path (actions_file (pl_sig_actions p) @ rest) = Some (ctx\<lparr>dl_player_map := m\<rparr>, rest)"
    using assms(1) a(1) m(1) by (simp add: load_player_def)
  thus ?thesis using a(2) m(2) by (intro exI[of _ ?q] exI[of _ m]) simp
qed

lemma path_of_eq: "pl_player_path q = Some s \<Longrightarrow> path_of q = s"
  by (simp add: path_of_def)

lemma same_paths: "list_all2 (\<lambda>p q. P p q \<and> pl_player_path q = Some (path_of p)) ps qs \<Longrightarrow> map path_of qs = map path_of ps"
  by (induction rule: list_all2_induct) (auto simp: path_of_eq)

lemma add_upd: "N s = None \<Longrightarrow> M(s \<mapsto> q) ++ N = M ++ N(s \<mapsto> q)"
  by (auto simp: fun_eq_iff map_add_def split: option.splits)

lemma load_players_file:
  assumes "\<forall>a. en_mem env a" "malloc_ok (en_js_malloc env)" "\<forall>p \<in> set (p # ps). cacheable (en_js_malloc env) p"
    and "distinct (map path_of (p # ps))" "\<forall>p \<in> set (p # ps). M (path_of p) = None" "holds_players M (length (p # ps)) ctx"
    and "length path = 100" "take k path = take k (path_of p)" "k \<le> length (path_of p)"
  shows "\<exists>ctx' qs. load_players env ctx path k (drop k (path_of p) @ [NUL] @ actions_file (pl_sig_actions p) @ concat (map player_file ps)) = Some (ctx', 0) \<and>
    list_all2 (\<lambda>p q. same_player (en_js env) p q \<and> pl_player_path q = Some (path_of p)) (p # ps) qs \<and>
    holds_players (M ++ map_of (map (\<lambda>q. (path_of q, q)) qs)) 0 ctx'"
  using assms(3-9)
proof (induction ps arbitrary: p M ctx path k)
  case Nil
  have c: "cacheable (en_js_malloc env) p" using Nil.prems(1) by simp
  note cD = cacheableD[OF c]
  obtain path' where rp: "read_path path k (drop k (path_of p) @ NUL # actions_file (pl_sig_actions p)) = Some (Some (path', actions_file (pl_sig_actions p)))"
    "cstr path' = path_of p" "NUL \<in> set path'" using read_path_text[OF Nil.prems(5-7) cD(3,4)] by blast
  have "holds_players M (Suc 0) ctx" "M (path_of p) = None" using Nil.prems by simp_all
  from load_player_saved[OF assms(1,2) c this rp(2,3), of "[]"] obtain q m where
    l: "load_player env ctx path' (actions_file (pl_sig_actions p)) = Some (ctx\<lparr>dl_player_map := m\<rparr>, [])"
    "same_player (en_js env) p q" "pl_player_path q = Some (path_of p)" "holds_players (M(path_of p \<mapsto> q)) 0 (ctx\<lparr>dl_player_map := m\<rparr>)" by auto
  have "path_of q = path_of p" using l(3) by (simp add: path_of_def)
  moreover have "M ++ map_of (map (\<lambda>q. (path_of q, q)) [q]) = M(path_of p \<mapsto> q)"
    using \<open>path_of q = path_of p\<close> by (auto simp: map_add_def fun_eq_iff)
  hence "holds_players (M ++ map_of (map (\<lambda>q. (path_of q, q)) [q])) 0 (ctx\<lparr>dl_player_map := m\<rparr>)" using l(4) by (simp only:)
  moreover have "load_players env ctx path k (drop k (path_of p) @ [NUL] @ actions_file (pl_sig_actions p) @ concat (map player_file [])) =
      Some (ctx\<lparr>dl_player_map := m\<rparr>, 0)" using rp l(1) by (simp add: load_players.simps[of env ctx path k])
  moreover have "list_all2 (\<lambda>p q. same_player (en_js env) p q \<and> pl_player_path q = Some (path_of p)) [p] [q]" using l(2,3) by simp
  ultimately show ?case by blast
next
  case (Cons p2 ps)
  have c: "cacheable (en_js_malloc env) p" using Cons.prems(1) by simp
  have c2: "cacheable (en_js_malloc env) p2" using Cons.prems(1) by simp
  note cD = cacheableD[OF c]
  let ?rest = "concat (map player_file (p2 # ps))"
  obtain path' where rp: "read_path path k (drop k (path_of p) @ NUL # actions_file (pl_sig_actions p) @ ?rest) =
      Some (Some (path', actions_file (pl_sig_actions p) @ ?rest))"
    "length path' = 100" "cstr path' = path_of p" "NUL \<in> set path'" using read_path_text[OF Cons.prems(5-7) cD(3,4)] by blast
  have h: "holds_players M (Suc (Suc (length ps))) ctx" "M (path_of p) = None" using Cons.prems(3,4) by simp_all
  from load_player_saved[OF assms(1,2) c h rp(3,4), of ?rest] obtain q m where
    l: "load_player env ctx path' (actions_file (pl_sig_actions p) @ ?rest) = Some (ctx\<lparr>dl_player_map := m\<rparr>, ?rest)"
    "same_player (en_js env) p q" "pl_player_path q = Some (path_of p)" "holds_players (M(path_of p \<mapsto> q)) (Suc (length ps)) (ctx\<lparr>dl_player_map := m\<rparr>)" by blast
  have pq: "path_of q = path_of p" using l(3) by (simp add: path_of_def)
  obtain x xs where x: "path_of p2 = x # xs" using cacheableD(2)[OF c2] by (cases "path_of p2") auto
  have r2: "?rest = x # drop 1 (path_of p2) @ [NUL] @ actions_file (pl_sig_actions p2) @ concat (map player_file ps)"
    by (simp add: player_file_def x)
  have "take 1 (path'[0 := x]) = take 1 (path_of p2)" using rp(2) x by (cases path') auto
  note tk = this
  have pr: "\<forall>r \<in> set (p2 # ps). cacheable (en_js_malloc env) r" "distinct (map path_of (p2 # ps))"
    "\<forall>r \<in> set (p2 # ps). (M(path_of p \<mapsto> q)) (path_of r) = None"
    "holds_players (M(path_of p \<mapsto> q)) (length (p2 # ps)) (ctx\<lparr>dl_player_map := m\<rparr>)"
    using Cons.prems(1-3) l(4) by (auto simp: image_iff)
  have "length (path'[0 := x]) = 100" "1 \<le> length (path_of p2)" using rp(2) x by simp_all
  from Cons.IH[OF pr this(1) tk this(2)] obtain ctx' qs where
    i: "load_players env (ctx\<lparr>dl_player_map := m\<rparr>) (path'[0 := x]) 1 (drop 1 (path_of p2) @ [NUL] @ actions_file (pl_sig_actions p2) @ concat (map player_file ps)) = Some (ctx', 0)"
    "list_all2 (\<lambda>p q. same_player (en_js env) p q \<and> pl_player_path q = Some (path_of p)) (p2 # ps) qs"
    "holds_players (M(path_of p \<mapsto> q) ++ map_of (map (\<lambda>q. (path_of q, q)) qs)) 0 ctx'"
    by blast
  have "load_players env ctx path k (drop k (path_of p) @ [NUL] @ actions_file (pl_sig_actions p) @ ?rest) = Some (ctx', 0)"
    using rp(1) l(1) i(1) unfolding r2 by (simp add: load_players.simps[of env ctx path k])
  moreover have eq: "M(path_of p \<mapsto> q) ++ map_of (map (\<lambda>q. (path_of q, q)) qs) = M ++ map_of (map (\<lambda>q. (path_of q, q)) (q # qs))"
  proof -
    have "map path_of qs = map path_of (p2 # ps)" by (rule same_paths[OF i(2)])
    hence "path_of p \<notin> set (map path_of qs)" using Cons.prems(2) by simp
    hence "map_of (map (\<lambda>q. (path_of q, q)) qs) (path_of p) = None" by (auto simp: map_of_eq_None_iff)
    thus ?thesis using pq add_upd by simp
  qed
  moreover have "list_all2 (\<lambda>p q. same_player (en_js env) p q \<and> pl_player_path q = Some (path_of p)) (p # p2 # ps) (q # qs)"
    using i(2) l(2,3) by simp
  moreover have "holds_players (M ++ map_of (map (\<lambda>q. (path_of q, q)) (q # qs))) 0 ctx'" using i(3) unfolding eq .
  ultimately show ?case by blast
qed

lemma distinct_entries:
  "uniq strcmp T \<Longrightarrow> distinct (map (\<lambda>e. cstr (the (e_key e))) (filter (\<lambda>e. e_key e \<noteq> None) T))"
proof (induction T)
  case (Cons e T)
  have "cstr k \<notin> (\<lambda>e. cstr (the (e_key e))) ` {x \<in> set T. e_key x \<noteq> None}" if "e_key e = Some k" for k
    using uniq_Cons(2)[OF Cons.prems that] by (fastforce simp: matches_def strcmp_0)
  thus ?case using Cons.IH uniq_Cons(1)[OF Cons.prems] by auto
qed simp

lemma known_cstr: "string_map (m :: (string, 'a) hashmap_base) \<Longrightarrow> cstr k = cstr l \<Longrightarrow> hm_map m k = hm_map m l"
proof -
  assume a: "string_map m" "cstr k = cstr l"
  have c: "hb_compare m = strcmp" using a(1) by (simp add: string_map_def)
  have "matches strcmp k = (matches strcmp l :: (string, 'a) hashmap_entry \<Rightarrow> bool)"
    using a(2) by (auto simp: fun_eq_iff matches_def strcmp_0 split: option.splits)
  thus "hm_map m k = hm_map m l" unfolding hm_map_def lookup_def c by simp
qed

text \<open>The players of a map as the loops see them: every one, once.\<close>

lemma players_of_map:
  assumes "string_map m" "\<forall>k p. hm_map m k = Some p \<longrightarrow> pl_player_path p = Some (cstr k)"
  shows "\<exists>ps. players_of m = Some ps \<and> length ps = unat (hb_size m) \<and> distinct (map path_of ps) \<and>
    (\<forall>p. p \<in> set ps \<longleftrightarrow> (\<exists>k. hm_map m k = Some p))"
proof -
  let ?es = "filter (\<lambda>e. e_key e \<noteq> None) (hb_table m)" let ?ps = "map (the \<circ> e_data) ?es"
  have inv: "hm_inv m" "hb_compare m = strcmp" using assms(1) by (auto simp: string_map_def)
  note hc = string_map_contract[OF assms(1)]
  have es: "set ?es = ents (hb_table m)" by (auto simp: ents_def)
  have e: "\<exists>k d. x = \<lparr>e_key = Some k, e_data = Some d\<rparr> \<and> hm_map m k = Some d" if "x \<in> set ?es" for x
    using that entries_map[OF hc inv(1), of x] es by auto
  have "path_of (the (e_data x)) = cstr (the (e_key x))" if "x \<in> set ?es" for x
    using e[OF that] assms(2) by (auto simp: path_of_def)
  hence "map path_of ?ps = map (\<lambda>e. cstr (the (e_key e))) ?es" by simp
  moreover have "distinct (map (\<lambda>e. cstr (the (e_key e))) ?es)" using hm_invD(3)[OF inv(1)] inv(2) by (intro distinct_entries) simp
  ultimately have d: "distinct (map path_of ?ps)" by (simp only:)
  have "\<exists>k. hm_map m k = Some p" if "p \<in> set ?ps" for p using that e by fastforce
  moreover have "p \<in> set ?ps" if k: "hm_map m k = Some p" for p k
  proof -
    have "\<exists>i < slots m. matches (hb_compare m) k (hb_table m ! i)"
      using hm_map_None[OF hc inv(1), of k] k by auto
    then obtain i where i: "i < slots m" "matches (hb_compare m) k (hb_table m ! i)" by blast
    hence "e_data (hb_table m ! i) = Some p" using hm_map_match(1)[OF inv(1) i hc] k by simp
    moreover have "hb_table m ! i \<in> set ?es"
      using i hm_invD(5)[OF inv(1)] by (auto simp: matches_def split: option.splits)
    ultimately show ?thesis by (metis (no_types, lifting) comp_apply image_eqI list.set_map option.sel)
  qed
  ultimately have s: "p \<in> set ?ps \<longleftrightarrow> (\<exists>k. hm_map m k = Some p)" for p by blast
  have f: "players_of m = Some ?ps"
    unfolding players_of_def by (rule foreach_refines[OF inv(1)]) (simp add: slots_def)
  have "length ?ps = unat (hb_size m)" using hm_invD(6)[OF inv(1)] by (simp add: occupied_def)
  thus ?thesis using f d s by blast
qed

text \<open>An empty cache is saved as an empty file, and that file is refused.\<close>

lemma empty_cache_refused: "ytdl_dl_player_cache_load_file env ctx [] = Some (ctx, -1)"
proof -
  have "length path = 100 \<Longrightarrow> k \<le> 100 \<Longrightarrow> read_path path k [] = Some None" for path k
  proof (induction "100 - k" arbitrary: path k)
    case (Suc n)
    have "\<not> k > 99" using Suc.hyps(2) by simp
    hence "read_path path k [] = read_path (path[k := char_of (255 :: nat)]) (Suc k) []"
      using Suc.prems by (subst read_path.simps) (simp add: uchar_0[symmetric])
    thus ?case using Suc.hyps(1)[of "Suc k"] Suc.hyps(2) Suc.prems by simp
  qed (subst read_path.simps, simp)
  thus ?thesis by (simp add: ytdl_dl_player_cache_load_file_def load_players.simps)
qed

lemma player_cache_nonempty:
  assumes "string_map (dl_player_map ctx)" "hb_size (dl_player_map ctx) \<noteq> 0" "unat (hb_size (dl_player_map ctx)) \<le> hb_size_max"
    and "\<forall>k p. hm_map (dl_player_map ctx) k = Some p \<longrightarrow> cacheable (en_js_malloc env) p \<and> pl_player_path p = Some (cstr k)"
    and "\<forall>a. en_mem env a" "malloc_ok (en_js_malloc env)"
    and "dl_player_map fresh = hashmap_base_init hashmap_hash_string strcmp"
  shows "\<exists>bytes ctx'. ytdl_dl_player_cache_save_file ctx [] = Some bytes \<and>
    ytdl_dl_player_cache_load_file env fresh bytes = Some (ctx', 0) \<and>
    (\<forall>k. rel_option (same_player (en_js env)) (hm_map (dl_player_map ctx) k) (hm_map (dl_player_map ctx') k))"
proof -
  have pp: "\<forall>k p. hm_map (dl_player_map ctx) k = Some p \<longrightarrow> pl_player_path p = Some (cstr k)" using assms(4) by blast
  obtain ps where ps: "players_of (dl_player_map ctx) = Some ps" "length ps = unat (hb_size (dl_player_map ctx))" "distinct (map path_of ps)"
    "\<And>p. p \<in> set ps \<longleftrightarrow> (\<exists>k. hm_map (dl_player_map ctx) k = Some p)" using players_of_map[OF assms(1) pp] by blast
  have "ps \<noteq> []" using ps(2) assms(2) by (auto simp: unat_eq_zero)
  then obtain p ps' where p: "ps = p # ps'" by (cases ps) auto
  have c: "\<forall>p \<in> set (p # ps'). cacheable (en_js_malloc env) p" using ps(4) assms(4) p by blast
  have s: "ytdl_dl_player_cache_save_file ctx [] = Some (concat (map player_file ps))"
    using ps(1) save_players_file[OF assms(6), of ps "[]"] c p by (simp add: ytdl_dl_player_cache_save_file_def)
  let ?i = "hashmap_base_init hashmap_hash_string strcmp :: player_map"
  have "string_map ?i" using hm_inv_init by (auto simp: string_map_def slots_def hashmap_base_init_def)
  moreover have "hm_map ?i k = None" for k by (simp add: hashmap_base_init_def hm_map_def lookup_def)
  moreover have "unat (hb_size ?i) = 0" by (simp add: hashmap_base_init_def)
  ultimately have h: "holds_players Map.empty (length (p # ps')) fresh" using assms(3,7) ps(2) p by (simp add: holds_players_def)
  from load_players_file[OF assms(5,6) c _ _ h, of "replicate 100 NUL" 0] obtain ctx' qs where
    l: "load_players env fresh (replicate 100 NUL) 0 (concat (map player_file ps)) = Some (ctx', 0)"
    "list_all2 (\<lambda>p q. same_player (en_js env) p q \<and> pl_player_path q = Some (path_of p)) (p # ps') qs"
    "holds_players (Map.empty ++ map_of (map (\<lambda>q. (path_of q, q)) qs)) 0 ctx'"
    using ps(3) p by (auto simp: player_file_def)
  have m: "hm_map (dl_player_map ctx') k = map_of (map (\<lambda>q. (path_of q, q)) qs) (cstr k)" for k using l(3) by (simp add: holds_players_def)
  have paths: "map path_of qs = map path_of ps" using same_paths[OF l(2)] p by simp
  have "rel_option (same_player (en_js env)) (hm_map (dl_player_map ctx) k) (hm_map (dl_player_map ctx') k)" for k
  proof (cases "hm_map (dl_player_map ctx) k")
    case None
    have "cstr k \<notin> set (map path_of ps)"
    proof
      assume "cstr k \<in> set (map path_of ps)"
      then obtain r l where r: "hm_map (dl_player_map ctx) l = Some r" "path_of r = cstr k" using ps(4) by fastforce
      hence "cstr l = cstr k" using pp by (auto simp: path_of_def)
      hence "hm_map (dl_player_map ctx) l = hm_map (dl_player_map ctx) k"
        using known_cstr[OF assms(1)] by metis
      thus False using None r(1) by simp
    qed
    hence "map_of (map (\<lambda>q. (path_of q, q)) qs) (cstr k) = None" unfolding paths[symmetric] by (auto simp: map_of_eq_None_iff)
    thus ?thesis using None m[of k] by simp
  next
    case (Some r)
    then obtain i where i: "i < length ps" "ps ! i = r" using ps(4) by (metis in_set_conv_nth)
    have q: "same_player (en_js env) r (qs ! i)" "pl_player_path (qs ! i) = Some (path_of r)" "i < length qs"
      using l(2) i p by (auto simp: list_all2_conv_all_nth)
    have "path_of (qs ! i) = cstr k" using q(2) Some pp by (auto simp: path_of_def)
    moreover have "(path_of (qs ! i), qs ! i) \<in> set (map (\<lambda>q. (path_of q, q)) qs)" using q(3) by auto
    moreover have "distinct (map fst (map (\<lambda>q. (path_of q, q)) qs))" using ps(3) paths by (simp add: o_def)
    ultimately have "map_of (map (\<lambda>q. (path_of q, q)) qs) (cstr k) = Some (qs ! i)" by (metis map_of_is_SomeI)
    thus ?thesis using Some m[of k] q(1) by simp
  qed
  thus ?thesis using s l(1) by (auto simp: ytdl_dl_player_cache_load_file_def)
qed

text \<open>
  C18. The players of a context, saved to a file and loaded into a fresh one, are there again under
  the same paths, with the same actions and the same compiled function, and the loop over the file
  ends with 0 after the last player. This needs that each path has 1 to 99 characters (a longer one
  is saved but not read back), that each player has its compiled function, and that no allocation
  fails. A context with no players is saved as an empty file, and loading that answers -1, as does
  any failure.
\<close>

theorem player_cache_roundtrip:
  assumes "string_map (dl_player_map ctx)" "unat (hb_size (dl_player_map ctx)) \<le> hb_size_max"
    and "\<forall>k p. hm_map (dl_player_map ctx) k = Some p \<longrightarrow> cacheable (en_js_malloc env) p \<and> pl_player_path p = Some (cstr k)"
    and "\<forall>a. en_mem env a" "malloc_ok (en_js_malloc env)"
    and "dl_player_map fresh = hashmap_base_init hashmap_hash_string strcmp"
  shows "\<exists>bytes ctx'. ytdl_dl_player_cache_save_file ctx [] = Some bytes \<and>
    ytdl_dl_player_cache_load_file env fresh bytes = Some (ctx', if hb_size (dl_player_map ctx) = 0 then -1 else 0) \<and>
    (\<forall>k. rel_option (same_player (en_js env)) (hm_map (dl_player_map ctx) k) (hm_map (dl_player_map ctx') k))"
proof (cases "hb_size (dl_player_map ctx) = 0")
  case True
  have "\<forall>k p. hm_map (dl_player_map ctx) k = Some p \<longrightarrow> pl_player_path p = Some (cstr k)" using assms(3) by blast
  from players_of_map[OF assms(1) this] True have ps: "players_of (dl_player_map ctx) = Some []"
    and n: "\<not> (\<exists>k p. hm_map (dl_player_map ctx) k = Some p)" by auto
  have "ytdl_dl_player_cache_save_file ctx [] = Some []" using ps by (simp add: ytdl_dl_player_cache_save_file_def)
  moreover have "hm_map (dl_player_map ctx) k = None" for k using n by (cases "hm_map (dl_player_map ctx) k") blast+
  moreover have "hm_map (dl_player_map fresh) k = None" for k by (simp add: assms(6) hashmap_base_init_def hm_map_def lookup_def)
  ultimately show ?thesis using True empty_cache_refused by simp
qed (use player_cache_nonempty[OF assms(1) _ assms(2-6)] in auto)

lemma player_cache_roundtrip_witness:
  "\<exists>ctx bytes ctx' q. hm_map (dl_player_map ctx) ''/p.js'' \<noteq> None \<and> ytdl_dl_player_cache_save_file ctx [] = Some bytes \<and>
     ytdl_dl_player_cache_load_file demo_env (ctx\<lparr>dl_player_map := hashmap_base_init hashmap_hash_string strcmp\<rparr>) bytes = Some (ctx', 0) \<and>
     hm_map (dl_player_map ctx') ''/p.js'' = Some q \<and> sa_bytecode (pl_sig_actions q) = Some ''x''"
proof -
  let ?i = "hashmap_base_init hashmap_hash_string strcmp :: player_map"
  let ?a = "(fst (ytdl_sig_actions_init True True))\<lparr>sa_bytecode := Some ''x'', sa_bc_len := 1\<rparr>"
  let ?p = "\<lparr>pl_player_path = Some ''/p.js'', pl_sig_actions = ?a\<rparr>" and ?c = "undefined\<lparr>dl_player_map := ?i\<rparr> :: ytdl_dl_ctx"
  have a: "ints_ok ?a" by code_simp
  have env: "\<forall>a. en_mem demo_env a" "malloc_ok (en_js_malloc demo_env)" "en_js_malloc demo_env n \<noteq> None" for n
    by (auto simp: demo_env_def malloc_ok_def)
  have ca: "cacheable (en_js_malloc demo_env) ?p" using a env(3) by (auto simp: cacheable_def)
  have "string_map ?i" using hm_inv_init by (auto simp: string_map_def slots_def hashmap_base_init_def)
  moreover have "hm_map ?i k = None" for k by (simp add: hashmap_base_init_def hm_map_def lookup_def)
  moreover have "unat (hb_size ?i) = 0" by (simp add: hashmap_base_init_def)
  ultimately have "holds_players Map.empty (Suc 0) ?c" by (simp add: holds_players_def hb_size_max_def)
  from put_player_holds[OF _ this, of demo_env "''/p.js''" ?p] obtain m where
    m: "holds_players [''/p.js'' \<mapsto> ?p] 0 (?c\<lparr>dl_player_map := m\<rparr>)" using env(1) by (auto simp: cstr_def)
  let ?d = "?c\<lparr>dl_player_map := m\<rparr>"
  have d: "string_map (dl_player_map ?d)" "unat (hb_size (dl_player_map ?d)) \<le> hb_size_max"
    "hm_map (dl_player_map ?d) k = [''/p.js'' \<mapsto> ?p] (cstr k)" for k using m by (simp_all add: holds_players_def)
  have "hb_size (dl_player_map ?d) \<noteq> 0"
  proof
    assume z: "hb_size (dl_player_map ?d) = 0"
    have "\<forall>k p. hm_map (dl_player_map ?d) k = Some p \<longrightarrow> pl_player_path p = Some (cstr k)" unfolding d(3) by (auto split: if_splits)
    from players_of_map[OF d(1) this] obtain ps where "length ps = unat (hb_size (dl_player_map ?d))"
      "\<forall>p. p \<in> set ps \<longleftrightarrow> (\<exists>k. hm_map (dl_player_map ?d) k = Some p)" by blast
    hence "\<not> (\<exists>k. hm_map (dl_player_map ?d) k = Some ?p)" using z by auto
    moreover have "hm_map (dl_player_map ?d) ''/p.js'' = Some ?p" using d(3)[of "''/p.js''"] by (simp add: cstr_def)
    ultimately show False by blast
  qed
  moreover have "\<forall>k p. hm_map (dl_player_map ?d) k = Some p \<longrightarrow> cacheable (en_js_malloc demo_env) p \<and> pl_player_path p = Some (cstr k)"
    using d(3) ca by (auto split: if_splits)
  ultimately obtain bytes ctx' where f: "ytdl_dl_player_cache_save_file ?d [] = Some bytes"
    "ytdl_dl_player_cache_load_file demo_env (?d\<lparr>dl_player_map := ?i\<rparr>) bytes = Some (ctx', 0)"
    "\<And>k. rel_option (same_player (en_js demo_env)) (hm_map (dl_player_map ?d) k) (hm_map (dl_player_map ctx') k)"
    using player_cache_roundtrip[OF d(1,2) _ env(1,2), of "?d\<lparr>dl_player_map := ?i\<rparr>"] by auto
  have "hm_map (dl_player_map ?d) ''/p.js'' = Some ?p" using d(3)[of "''/p.js''"] by (simp add: cstr_def)
  with f(3)[of "''/p.js''"] obtain q where "hm_map (dl_player_map ctx') ''/p.js'' = Some q" "same_player (en_js demo_env) ?p q"
    by (cases "hm_map (dl_player_map ctx') ''/p.js''") auto
  thus ?thesis using f(1,2) \<open>hm_map (dl_player_map ?d) ''/p.js'' = Some ?p\<close>
    by (intro exI[of _ ?d] exI[of _ bytes] exI[of _ ctx'] exI[of _ q]) (simp add: same_player_def Let_def)
qed

text \<open>A path of 100 characters, which the player URL of a page may have, is refused as well.\<close>

lemma long_path_refused:
  assumes "length path = 100" "NUL \<notin> set s" "length s = 100"
  shows "read_path path 0 (s @ NUL # rest) = Some None"
proof -
  have "length path = 100 \<Longrightarrow> k \<le> 100 \<Longrightarrow> read_path path k (drop k s @ NUL # rest) = Some None" for path k
  proof (induction "100 - k" arbitrary: path k)
    case (Suc n)
    have k: "k < length s" using Suc.hyps(2) assms(3) by simp
    have d: "drop k s = s ! k # drop (Suc k) s" using k by (simp add: Cons_nth_drop_Suc)
    have "s ! k \<noteq> NUL" using assms(2) k nth_mem by metis
    hence "read_path path k (drop k s @ NUL # rest) = read_path (path[k := s ! k]) (Suc k) (drop (Suc k) s @ NUL # rest)"
      using k assms(3) Suc.prems unfolding d by (subst read_path.simps) simp
    thus ?case using Suc.hyps(1)[of "Suc k"] Suc.hyps(2) Suc.prems by simp
  qed (subst read_path.simps, simp)
  from this[of path 0] show ?thesis using assms(1) by simp
qed

end
