(* ===== verification/Media.thy ===== *)
theory Media
  imports Dl
begin

text \<open>
  The media download of \<open>src/dl.c\<close>: a stream URL is requested in ranges, one after the other over
  one connection, and a redirect to another host is followed.

  The parser's callbacks are steps on a context; the callbacks of the caller are parameters, a
  missing one is \<open>NULL\<close>. The HTTP client and the writing of a request are those of \<open>Http\<close> and \<open>Dl\<close>.
\<close>

section \<open>State\<close>

definition YTDL_DL_CHUNK_SIZE :: nat where "YTDL_DL_CHUNK_SIZE = 1024 * 128"

datatype media_complete_cb = ChunkComplete | FinalComplete

datatype media_event = Data string | ChunkDone | MediaDone | MediaClosed nat

record ytdl_dl_media_ctx =
  md_http :: ytdl_http_client
  md_url :: http_parser_url
  md_format_url :: "string ptr"
  md_content_length :: int
  md_on_close :: "nat option"
  md_pause_between_chunks :: bool
  md_is_chunked :: bool
  md_want_redirect :: bool
  md_redirect_was_location :: bool
  md_last_chunk_end :: u64
  md_on_message_complete :: media_complete_cb
  md_on_header_field :: bool
  md_on_header_value :: bool
  md_stopping :: bool
  md_log :: "media_event list"

text \<open>The environment of a step; \<open>UrlAlloc\<close> is the copy of the redirected URL, \<open>HostAlloc\<close> the host name.\<close>

datatype media_alloc = MediaWriteAlloc | UrlAlloc | HostAlloc | MediaIdleAlloc

record media_env =
  me_malloc :: malloc
  me_mem :: "media_alloc \<Rightarrow> bool"
  me_uv_write :: int
  me_uv_tcp_init :: int
  me_inet_pton :: "string \<Rightarrow> int \<Rightarrow> int"
  me_ip_addr :: int
  me_tcp_connect :: int
  me_strdup :: "nat \<Rightarrow> bool"
  me_js_call :: "jsval \<Rightarrow> string \<Rightarrow> js_result"
  me_on_data :: "(ytdl_dl_media_ctx \<Rightarrow> string \<Rightarrow> ytdl_dl_media_ctx option) option"
  me_on_complete :: "(ytdl_dl_media_ctx \<Rightarrow> ytdl_dl_media_ctx option) option"
  me_on_chunk_complete :: "(ytdl_dl_media_ctx \<Rightarrow> ytdl_dl_media_ctx option) option"

definition note_media :: "media_event \<Rightarrow> ytdl_dl_media_ctx \<Rightarrow> ytdl_dl_media_ctx" where
  "note_media e ctx = ctx\<lparr>md_log := md_log ctx @ [e]\<rparr>"

section \<open>Requests\<close>

definition chunk_request :: "media_env \<Rightarrow> ytdl_dl_media_ctx \<Rightarrow> u64 \<Rightarrow> u64 \<Rightarrow> ytdl_buf option" where
  "chunk_request env ctx start_idx end_idx =
     do { u \<leftarrow> use (md_format_url ctx);
          ytdl_net_request_media_chunk (me_malloc env) request_0 (url_part u (md_url ctx) UF_PATH)
            (url_part u (md_url ctx) UF_QUERY) (url_part u (md_url ctx) UF_HOST) start_idx end_idx }"

definition media_send :: "media_env \<Rightarrow> ytdl_dl_media_ctx \<Rightarrow> ytdl_buf \<Rightarrow> ytdl_dl_media_ctx option" where
  "media_send env ctx buf =
     do { c \<leftarrow> send (me_mem env MediaWriteAlloc) (me_uv_write env) (md_http ctx) buf; Some (ctx\<lparr>md_http := c\<rparr>) }"

text \<open>The sum and the comparison are those of \<open>size_t\<close>.\<close>

definition ytdl_dl_media_ctx_next_chunk :: "media_env \<Rightarrow> ytdl_dl_media_ctx \<Rightarrow> ytdl_dl_media_ctx option" where
  "ytdl_dl_media_ctx_next_chunk env ctx =
     (let end_idx = md_last_chunk_end ctx + of_nat YTDL_DL_CHUNK_SIZE in
      if end_idx \<ge> of_int (md_content_length ctx)
      then let ctx = ctx\<lparr>md_on_message_complete := FinalComplete\<rparr> in
        do { buf \<leftarrow> chunk_request env ctx (md_last_chunk_end ctx + 1) 0; media_send env ctx buf }
      else
        do { buf \<leftarrow> chunk_request env ctx (md_last_chunk_end ctx + 1) end_idx;
             media_send env (ctx\<lparr>md_last_chunk_end := end_idx\<rparr>) buf })"

text \<open>This comparison is that of \<open>long long\<close>.\<close>

definition ytdl__media_connected_cb :: "media_env \<Rightarrow> ytdl_dl_media_ctx \<Rightarrow> ytdl_dl_media_ctx option" where
  "ytdl__media_connected_cb env ctx =
     (if md_is_chunked ctx
      then (if int YTDL_DL_CHUNK_SIZE \<ge> md_content_length ctx
            then let ctx = ctx\<lparr>md_on_message_complete := FinalComplete\<rparr> in
              do { buf \<leftarrow> chunk_request env ctx 0 0; media_send env ctx buf }
            else
              do { buf \<leftarrow> chunk_request env ctx 0 (of_nat YTDL_DL_CHUNK_SIZE);
                   media_send env (ctx\<lparr>md_last_chunk_end := of_nat YTDL_DL_CHUNK_SIZE\<rparr>) buf })
      else
        do { u \<leftarrow> use (md_format_url ctx);
             buf \<leftarrow> ytdl_net_request_media (me_malloc env) request_0 (url_part u (md_url ctx) UF_PATH)
               (url_part u (md_url ctx) UF_QUERY) (url_part u (md_url ctx) UF_HOST);
             media_send env ctx buf })"

section \<open>Responses\<close>

definition ytdl__media_echo_cb :: "media_env \<Rightarrow> ytdl_dl_media_ctx \<Rightarrow> string \<Rightarrow> ytdl_dl_media_ctx option" where
  "ytdl__media_echo_cb env ctx bytes =
     (case me_on_data env of None \<Rightarrow> Some ctx | Some f \<Rightarrow> f (note_media (Data bytes) ctx) bytes)"

definition ytdl__media_chunk_final_complete_cb :: "media_env \<Rightarrow> ytdl_dl_media_ctx \<Rightarrow> ytdl_dl_media_ctx option" where
  "ytdl__media_chunk_final_complete_cb env ctx =
     (case me_on_complete env of None \<Rightarrow> Some ctx | Some f \<Rightarrow> f (note_media MediaDone ctx))"

definition ytdl__media_chunk_complete_cb :: "media_env \<Rightarrow> ytdl_dl_media_ctx \<Rightarrow> ytdl_dl_media_ctx option" where
  "ytdl__media_chunk_complete_cb env ctx =
     (if md_is_chunked ctx
      then do { ctx \<leftarrow> (case me_on_chunk_complete env of None \<Rightarrow> Some ctx | Some f \<Rightarrow> f (note_media ChunkDone ctx));
                if md_pause_between_chunks ctx then Some ctx else ytdl_dl_media_ctx_next_chunk env ctx }
      else (case me_on_complete env of None \<Rightarrow> Some ctx | Some f \<Rightarrow> f (note_media MediaDone ctx)))"

text \<open>\<open>strncasecmp\<close>: the letters are compared in lower case, up to a NUL or \<open>n\<close> characters.\<close>

fun strncasecmp :: "string \<Rightarrow> string \<Rightarrow> nat \<Rightarrow> int" where
  "strncasecmp s t 0 = 0"
| "strncasecmp s t (Suc n) =
     (let c = (case s of [] \<Rightarrow> NUL | c # _ \<Rightarrow> c); d = (case t of [] \<Rightarrow> NUL | d # _ \<Rightarrow> d);
          x = tolower (int (uchar c)) - tolower (int (uchar d))
      in if x \<noteq> 0 then x else if c = NUL then 0 else strncasecmp (tl s) (tl t) n)"

definition ytdl__media_header_value_cb :: "media_env \<Rightarrow> ytdl_dl_media_ctx \<Rightarrow> string \<Rightarrow> ytdl_dl_media_ctx option" where
  "ytdl__media_header_value_cb env ctx bytes =
     (if md_redirect_was_location ctx
      then do { _ \<leftarrow> release (md_format_url ctx);
                if \<not> me_mem env UrlAlloc then None
                else do { c \<leftarrow> ytdl_http_client_shutdown (md_http ctx);
                  Some (ctx\<lparr>md_format_url := Live (bytes @ [NUL]), md_on_header_field := False, md_on_header_value := False,
                    md_want_redirect := False, md_redirect_was_location := False, md_http := c\<rparr>) } }
      else Some ctx)"

definition ytdl__media_header_field_cb :: "ytdl_dl_media_ctx \<Rightarrow> string \<Rightarrow> ytdl_dl_media_ctx" where
  "ytdl__media_header_field_cb ctx bytes =
     (if md_want_redirect ctx \<and> strncasecmp bytes ''location'' (length bytes) = 0
      then ctx\<lparr>md_redirect_was_location := True, md_on_header_value := True\<rparr>
      else ctx)"

definition ytdl__media_status_cb :: "ytdl_dl_media_ctx \<Rightarrow> int \<Rightarrow> ytdl_dl_media_ctx \<times> int" where
  "ytdl__media_status_cb ctx status_code =
     (if status_code = 301 \<or> status_code = 302
      then (ctx\<lparr>md_want_redirect := True, md_on_header_field := True\<rparr>, 0)
      else if status_code \<noteq> 200 then (ctx, 1)
      else (ctx, 0))"

definition ytdl__mediah_status_cb :: "ytdl_net_status \<Rightarrow> dl_message list" where
  "ytdl__mediah_status_cb status = [HttpError status]"

section \<open>Connecting and closing\<close>

definition ytdl_dl_media_ctx_connect :: "media_env \<Rightarrow> ytdl_dl_media_ctx \<Rightarrow> (ytdl_dl_media_ctx \<times> int) option" where
  "ytdl_dl_media_ctx_connect env ctx =
     (if \<not> me_mem env HostAlloc then None
      else let f = field_data (md_url ctx) UF_HOST in
        do { u \<leftarrow> use (md_format_url ctx);
             host \<leftarrow> slice u (unat (off f)) (unat (len f));
             (c, r) \<leftarrow> ytdl_http_client_connect quiet True (me_inet_pton env) (me_ip_addr env) (me_tcp_connect env)
               (md_http ctx) True (cstr (host @ [NUL]));
             Some (ctx\<lparr>md_http := c\<rparr>, r) })"

text \<open>The handlers both the initialisation and a redirect install; a client starts with none.\<close>

definition media_handlers :: "ytdl_http_client \<Rightarrow> ytdl_dl_media_ctx \<Rightarrow> ytdl_dl_media_ctx" where
  "media_handlers c ctx =
     ctx\<lparr>md_http := c\<lparr>h_keep_alive := True\<rparr>, md_on_message_complete := ChunkComplete, md_on_header_field := False, md_on_header_value := False\<rparr>"

definition ytdl__media_close_redirect_cb :: "media_env \<Rightarrow> ytdl_dl_media_ctx \<Rightarrow> ytdl_dl_media_ctx option" where
  "ytdl__media_close_redirect_cb env ctx =
     (let ctx = ctx\<lparr>md_url := http_parser_url_init\<rparr>; (c, r) = ytdl_http_client_init (me_uv_tcp_init env) (md_http ctx) in
      if r = 0 then Some (ctx\<lparr>md_http := c\<rparr>)
      else let ctx = media_handlers c ctx in
        do { u \<leftarrow> use (md_format_url ctx);
             l \<leftarrow> strlen u;
             (bad, url) \<leftarrow> http_parser_parse_url u l False (md_url ctx);
             let ctx = ctx\<lparr>md_url := url\<rparr>;
             if bad \<noteq> 0 then Some ctx else map_option fst (ytdl_dl_media_ctx_connect env ctx) })"

definition ytdl_dl_media_ctx_init ::
    "media_env \<Rightarrow> ytdl_dl_media_ctx \<Rightarrow> ytdl_info_format \<Rightarrow> ytdl_info_ctx \<Rightarrow> (ytdl_dl_media_ctx \<times> ytdl_info_format \<times> int) option" where
  "ytdl_dl_media_ctx_init env ctx format info =
     (let (c, r) = ytdl_http_client_init (me_uv_tcp_init env) (md_http ctx) in
      if r = 0 then Some (ctx\<lparr>md_http := c\<rparr>, format, 1)
      else
        let ctx = (media_handlers c ctx)\<lparr>
              md_is_chunked := \<not> has_flag format YTDL_INFO_FORMAT_HAS_AUD \<or> \<not> has_flag format YTDL_INFO_FORMAT_HAS_VID,
              md_pause_between_chunks := False, md_url := http_parser_url_init\<rparr> in
        do { (format, url) \<leftarrow> ytdl_info_get_format_url2 (me_strdup env) (me_js_call env) info format;
             url \<leftarrow> url;
             u \<leftarrow> strdup (me_strdup env) url;
             let ctx = ctx\<lparr>md_format_url := Live u, md_content_length := f_content_length format\<rparr>;
             l \<leftarrow> strlen u;
             (bad, url) \<leftarrow> http_parser_parse_url u l False (md_url ctx);
             Some (ctx\<lparr>md_url := url\<rparr>, format, if bad \<noteq> 0 then -1 else 0) })"

definition ytdl__media_close_cb :: "ytdl_dl_media_ctx \<Rightarrow> ytdl_dl_media_ctx option" where
  "ytdl__media_close_cb ctx = map_option (\<lambda>cb. note_media (MediaClosed cb) ctx) (md_on_close ctx)"

definition ytdl__dl_media_shutdown :: "ytdl_dl_media_ctx \<Rightarrow> ytdl_dl_media_ctx option" where
  "ytdl__dl_media_shutdown ctx =
     do { c \<leftarrow> ytdl_http_client_shutdown (md_http ctx);
          u \<leftarrow> release (md_format_url ctx);
          Some (ctx\<lparr>md_stopping := False, md_http := c, md_format_url := u\<rparr>) }"

definition ytdl_dl_media_shutdown :: "media_env \<Rightarrow> ytdl_dl_media_ctx \<Rightarrow> nat option \<Rightarrow> ytdl_dl_media_ctx option" where
  "ytdl_dl_media_shutdown env ctx on_close =
     (if me_mem env MediaIdleAlloc then Some (ctx\<lparr>md_on_close := on_close, md_stopping := True\<rparr>) else None)"

section \<open>Running\<close>

text \<open>What the parser and the socket report; \<open>MSent\<close> is a writable socket with the answer of the session.\<close>

datatype media_op = MStatus int | MField string | MValue string | MBody string | MDone | MSent int

fun media_step :: "media_env \<Rightarrow> ytdl_dl_media_ctx \<Rightarrow> media_op \<Rightarrow> ytdl_dl_media_ctx option" where
  "media_step env ctx (MStatus c) = Some (fst (ytdl__media_status_cb ctx c))"
| "media_step env ctx (MField f) = Some (if md_on_header_field ctx then ytdl__media_header_field_cb ctx f else ctx)"
| "media_step env ctx (MValue v) = (if md_on_header_value ctx then ytdl__media_header_value_cb env ctx v else Some ctx)"
| "media_step env ctx (MBody d) = ytdl__media_echo_cb env ctx d"
| "media_step env ctx MDone =
     (case md_on_message_complete ctx of
        ChunkComplete \<Rightarrow> ytdl__media_chunk_complete_cb env ctx
      | FinalComplete \<Rightarrow> ytdl__media_chunk_final_complete_cb env ctx)"
| "media_step env ctx (MSent e) = map_option (\<lambda>c. ctx\<lparr>md_http := c\<rparr>) (http_step (md_http ctx) (Poll None (Some e)))"

fun media_run :: "media_env \<Rightarrow> ytdl_dl_media_ctx \<Rightarrow> media_op list \<Rightarrow> ytdl_dl_media_ctx option" where
  "media_run env ctx [] = Some ctx"
| "media_run env ctx (x # xs) = do { ctx \<leftarrow> media_step env ctx x; media_run env ctx xs }"

section \<open>The ranges of a download\<close>

text \<open>
  The first and last byte of each request, a last byte 0 standing for the end of the stream: the
  first request reaches one byte further than the others.
\<close>

function later_ranges :: "nat \<Rightarrow> nat \<Rightarrow> (nat \<times> nat) list" where
  "later_ranges l n =
     (if l + YTDL_DL_CHUNK_SIZE \<ge> n then [(l + 1, 0)]
      else (l + 1, l + YTDL_DL_CHUNK_SIZE) # later_ranges (l + YTDL_DL_CHUNK_SIZE) n)"
  by auto
termination by (relation "measure (\<lambda>(l, n). n - l)") (auto simp: YTDL_DL_CHUNK_SIZE_def)

declare later_ranges.simps [simp del]

definition media_ranges :: "nat \<Rightarrow> (nat \<times> nat) list" where
  "media_ranges n =
     (if YTDL_DL_CHUNK_SIZE \<ge> n then [(0, 0)] else (0, YTDL_DL_CHUNK_SIZE) # later_ranges YTDL_DL_CHUNK_SIZE n)"

definition range_bytes :: "nat \<Rightarrow> nat \<times> nat \<Rightarrow> nat list" where
  "range_bytes n r = (if snd r = 0 then [fst r..<n] else [fst r..<snd r + 1])"

lemma range_bytes_simp: "range_bytes n (a, b) = (if b = 0 then [a..<n] else [a..<b + 1])"
  by (simp add: range_bytes_def)

lemma range_empty: "([] = [a..<b]) = (b \<le> a)"
  by (cases "a < b") (simp_all add: upt_conv_Cons)

lemma chunk_pos [simp]: "0 < YTDL_DL_CHUNK_SIZE" "Suc 0 \<le> YTDL_DL_CHUNK_SIZE" "YTDL_DL_CHUNK_SIZE \<noteq> 0"
  by (simp_all add: YTDL_DL_CHUNK_SIZE_def)

lemma upt_join: "i \<le> j \<Longrightarrow> j \<le> k \<Longrightarrow> [i..<j] @ [j..<k] = [i..<k]"
  using upt_add_eq_append[of i j "k - j"] by simp

lemma later_ranges_tile: "l < n \<Longrightarrow> concat (map (range_bytes n) (later_ranges l n)) = [l + 1..<n]"
proof (induction l n rule: later_ranges.induct)
  case (1 l n)
  let ?C = "YTDL_DL_CHUNK_SIZE"
  show ?case
  proof (cases "l + ?C \<ge> n")
    case True
    thus ?thesis by (subst later_ranges.simps) (simp add: range_bytes_simp)
  next
    case False
    have "concat (map (range_bytes n) (later_ranges l n)) = [l + 1..<l + ?C + 1] @ [l + ?C + 1..<n]"
      using 1 False by (subst later_ranges.simps) (simp add: range_bytes_simp)
    also have "\<dots> = [l + 1..<n]" using upt_join[of "l + 1" "l + ?C + 1" n] False by simp
    finally show ?thesis .
  qed
qed

lemma media_ranges_tile: "concat (map (range_bytes n) (media_ranges n)) = [0..<n]"
proof (cases "YTDL_DL_CHUNK_SIZE \<ge> n")
  case False
  hence "concat (map (range_bytes n) (media_ranges n)) = [0..<YTDL_DL_CHUNK_SIZE + 1] @ [YTDL_DL_CHUNK_SIZE + 1..<n]"
    using later_ranges_tile[of YTDL_DL_CHUNK_SIZE n] by (simp add: media_ranges_def range_bytes_simp)
  also have "\<dots> = [0..<n]" using upt_join[of 0 "YTDL_DL_CHUNK_SIZE + 1" n] False by simp
  finally show ?thesis .
qed (simp add: media_ranges_def range_bytes_simp)

lemma later_ranges_empty:
  "l < n \<Longrightarrow> ([] \<in> range_bytes n ` set (later_ranges l n)) = (n mod YTDL_DL_CHUNK_SIZE = Suc l mod YTDL_DL_CHUNK_SIZE)"
proof (induction l n rule: later_ranges.induct)
  case (1 l n)
  let ?C = "YTDL_DL_CHUNK_SIZE"
  have C: "0 < ?C" by (simp add: YTDL_DL_CHUNK_SIZE_def)
  show ?case
  proof (cases "l + ?C \<ge> n")
    case True
    have e: "([] \<in> range_bytes n ` set (later_ranges l n)) = (n = Suc l)"
      using True 1(2) by (subst later_ranges.simps) (auto simp: range_bytes_simp range_empty)
    have "n = Suc l" if "n mod ?C = Suc l mod ?C"
    proof -
      have "(n - Suc l) mod ?C = 0" using that 1(2) by (simp add: mod_eq_dvd_iff_nat)
      moreover have "n - Suc l < ?C" using True C 1(2) by linarith
      ultimately show ?thesis using 1(2) by simp
    qed
    thus ?thesis using e by auto
  next
    case False
    have "([] \<in> range_bytes n ` set (later_ranges l n)) = ([] \<in> range_bytes n ` set (later_ranges (l + ?C) n))"
      using False C by (subst later_ranges.simps) (auto simp: range_bytes_simp range_empty)
    also have "\<dots> = (n mod ?C = Suc (l + ?C) mod ?C)" using 1 False by simp
    also have "Suc (l + ?C) mod ?C = Suc l mod ?C" using mod_add_self2[of "Suc l" ?C] by simp
    finally show ?thesis .
  qed
qed

lemma media_ranges_empty:
  "0 < n \<Longrightarrow> ([] \<in> range_bytes n ` set (media_ranges n)) = (YTDL_DL_CHUNK_SIZE < n \<and> n mod YTDL_DL_CHUNK_SIZE = 1)"
proof (cases "YTDL_DL_CHUNK_SIZE \<ge> n")
  case False
  hence "([] \<in> range_bytes n ` set (media_ranges n)) = ([] \<in> range_bytes n ` set (later_ranges YTDL_DL_CHUNK_SIZE n))"
    by (auto simp: media_ranges_def range_bytes_simp range_empty)
  also have "\<dots> = (n mod YTDL_DL_CHUNK_SIZE = 1)" using later_ranges_empty[of YTDL_DL_CHUNK_SIZE n] False
    by (simp add: YTDL_DL_CHUNK_SIZE_def)
  finally show ?thesis using False by simp
qed (auto simp: media_ranges_def range_bytes_simp range_empty)

section \<open>The run of a download\<close>

text \<open>The environment grants memory; the callbacks of the caller are there and leave the context alone.\<close>

definition media_env_ok :: "media_env \<Rightarrow> bool" where
  "media_env_ok env \<longleftrightarrow> malloc_ok (me_malloc env) \<and> (\<forall>n. me_malloc env n \<noteq> None) \<and> (\<forall>a. me_mem env a) \<and>
     me_on_data env = Some (\<lambda>ctx _. Some ctx) \<and> me_on_complete env = Some Some \<and> me_on_chunk_complete env = Some Some"

definition chunk_lines :: "string \<Rightarrow> http_parser_url \<Rightarrow> nat \<times> nat \<Rightarrow> string list" where
  "chunk_lines u url r = request_lines (part_chars (url_part u url UF_PATH) @ ''?'' @ part_chars (url_part u url UF_QUERY))
     (part_chars (url_part u url UF_HOST)) [range_line (of_nat (fst r)) (of_nat (snd r))]"

text \<open>A context on the stream \<open>u\<close> of \<open>n\<close> bytes, with an open session and nothing queued but \<open>js\<close>.\<close>

definition downloading :: "string \<Rightarrow> http_parser_url \<Rightarrow> nat \<Rightarrow> ytdl_https_write_job list \<Rightarrow> ytdl_dl_media_ctx \<Rightarrow> bool" where
  "downloading u url n js ctx \<longleftrightarrow> md_format_url ctx = Live u \<and> md_url ctx = url \<and> md_content_length ctx = int n \<and>
     md_is_chunked ctx \<and> \<not> md_pause_between_chunks ctx \<and> queued (md_http ctx) js"

lemma downloading_simps [simp]:
  "downloading u url n js (ctx\<lparr>md_last_chunk_end := l\<rparr>) = downloading u url n js ctx"
  "downloading u url n js (ctx\<lparr>md_on_message_complete := f\<rparr>) = downloading u url n js ctx"
  "downloading u url n js (note_media e ctx) = downloading u url n js ctx"
  by (simp_all add: downloading_def note_media_def)

lemma note_media_simps [simp]:
  "md_http (note_media e ctx) = md_http ctx" "md_last_chunk_end (note_media e ctx) = md_last_chunk_end ctx"
  "md_on_message_complete (note_media e ctx) = md_on_message_complete ctx" "md_log (note_media e ctx) = md_log ctx @ [e]"
  "md_pause_between_chunks (note_media e ctx) = md_pause_between_chunks ctx" "md_is_chunked (note_media e ctx) = md_is_chunked ctx"
  "md_content_length (note_media e ctx) = md_content_length ctx"
  by (simp_all add: note_media_def)

lemma request_chunk:
  assumes "media_env_ok env" "http_parser_parse_url u k False http_parser_url_init = Some (0, url)" "k \<le> length u"
    and "downloading u url n [] ctx"
  shows "\<exists>buf s. chunk_request env ctx (of_nat a) (of_nat b) = Some buf \<and>
    media_send env ctx' buf = map_option (\<lambda>c. ctx'\<lparr>md_http := c\<rparr>) (send True (me_uv_write env) (md_http ctx') buf) \<and>
    buf_content buf = s \<and> crlf_lines s = chunk_lines u url (a, b)"
proof -
  have m: "malloc_ok (me_malloc env)" "\<forall>n. me_malloc env n \<noteq> None" "me_mem env MediaWriteAlloc" using assms(1) by (auto simp: media_env_ok_def)
  note pl = url_part_plain[OF assms(2,3)]
  from media_chunk_lines[OF m(1,2) pl[of UF_PATH] pl[of UF_QUERY] pl[of UF_HOST], of request_0 "of_nat a" "of_nat b"] obtain buf s where
    b: "ytdl_net_request_media_chunk (me_malloc env) request_0 (url_part u url UF_PATH) (url_part u url UF_QUERY) (url_part u url UF_HOST)
       (of_nat a) (of_nat b) = Some buf" "holds_text buf s" "crlf_lines s = chunk_lines u url (a, b)" by (auto simp: chunk_lines_def)
  have "chunk_request env ctx (of_nat a) (of_nat b) = Some buf" using b(1) assms(4) by (simp add: chunk_request_def downloading_def use_def)
  moreover have "media_send env ctx' buf = map_option (\<lambda>c. ctx'\<lparr>md_http := c\<rparr>) (send True (me_uv_write env) (md_http ctx') buf)"
    using m(3) by (cases "send True (me_uv_write env) (md_http ctx') buf") (simp_all add: media_send_def)
  ultimately show ?thesis using b(3) holds_text_content[OF b(2)] by blast
qed

text \<open>A request is on its way: that of the range \<open>r\<close>, and those of \<open>rest\<close> will follow.\<close>

definition requested :: "string \<Rightarrow> http_parser_url \<Rightarrow> nat \<Rightarrow> nat \<times> nat \<Rightarrow> (nat \<times> nat) list \<Rightarrow> ytdl_dl_media_ctx \<Rightarrow> bool" where
  "requested u url n r rest ctx \<longleftrightarrow>
     (\<exists>s. downloading u url n [\<lparr>job_base = s, job_cb = 0\<rparr>] ctx \<and> crlf_lines s = chunk_lines u url r) \<and>
     (if rest = [] then md_on_message_complete ctx = FinalComplete
      else md_on_message_complete ctx = ChunkComplete \<and>
        (\<exists>l < n. md_last_chunk_end ctx = of_nat l \<and> rest = later_ranges l n))"

lemma send_media:
  assumes "downloading u url n [] ctx"
  shows "\<exists>c. send True uv (md_http ctx) buf = Some c \<and>
    downloading u url n [\<lparr>job_base = buf_content buf, job_cb = 0\<rparr>] (ctx\<lparr>md_http := c\<rparr>) \<and> h_log c = h_log (md_http ctx)"
proof -
  have q: "queued (md_http ctx) []" using assms by (simp add: downloading_def)
  show ?thesis using send_queued[OF q, of uv buf] assms by (auto simp: downloading_def queued_def)
qed

lemma later_ranges_nonempty: "later_ranges l n \<noteq> []"
  by (subst later_ranges.simps) simp

lemma next_chunk_requests:
  assumes "media_env_ok env" "http_parser_parse_url u k False http_parser_url_init = Some (0, url)" "k \<le> length u"
    and "downloading u url n [] ctx" "md_on_message_complete ctx = ChunkComplete" "md_last_chunk_end ctx = of_nat l" "l < n" "n < 2 ^ 63"
  shows "\<exists>ctx' r rest. later_ranges l n = r # rest \<and> ytdl_dl_media_ctx_next_chunk env ctx = Some ctx' \<and> requested u url n r rest ctx' \<and>
    h_log (md_http ctx') = h_log (md_http ctx) \<and> md_log ctx' = md_log ctx"
proof -
  let ?C = "YTDL_DL_CHUNK_SIZE"
  have cl: "md_content_length ctx = int n" using assms(4) by (simp add: downloading_def)
  have b: "l + ?C < 2 ^ 64" using assms(7,8) by (simp add: YTDL_DL_CHUNK_SIZE_def)
  have e: "md_last_chunk_end ctx + of_nat ?C = of_nat (l + ?C)" "md_last_chunk_end ctx + 1 = of_nat (l + 1)" using assms(6) by simp_all
  have le: "(of_nat (l + ?C) \<ge> (of_int (int n) :: u64)) = (l + ?C \<ge> n)"
    using b assms(8) unat_of_nat64[of "l + ?C"] unat_of_nat64[of n] by (simp add: word_le_nat_alt)
  show ?thesis
  proof (cases "l + ?C \<ge> n")
    case True
    let ?c = "ctx\<lparr>md_on_message_complete := FinalComplete\<rparr>"
    have d: "downloading u url n [] ?c" using assms(4) by simp
    obtain buf s where r: "chunk_request env ?c (of_nat (l + 1)) (of_nat 0) = Some buf"
      "media_send env ?c buf = map_option (\<lambda>c. ?c\<lparr>md_http := c\<rparr>) (send True (me_uv_write env) (md_http ?c) buf)"
      "buf_content buf = s" "crlf_lines s = chunk_lines u url (l + 1, 0)"
      using request_chunk[OF assms(1-3) d, of "l + 1" 0 ?c] by blast
    obtain c where c: "send True (me_uv_write env) (md_http ?c) buf = Some c" "downloading u url n [\<lparr>job_base = buf_content buf, job_cb = 0\<rparr>] (?c\<lparr>md_http := c\<rparr>)"
      "h_log c = h_log (md_http ?c)" using send_media[OF d] by blast
    have "ytdl_dl_media_ctx_next_chunk env ctx = Some (?c\<lparr>md_http := c\<rparr>)"
    proof -
      have "md_last_chunk_end ?c + 1 = of_nat (l + 1)" using e(2) by simp
      hence "chunk_request env ?c (md_last_chunk_end ?c + 1) 0 = Some buf" using r(1) by (simp add: add.commute)
      thus ?thesis unfolding ytdl_dl_media_ctx_next_chunk_def Let_def e(1) cl le using True r(2) c(1) by simp
    qed
    moreover have "requested u url n (l + 1, 0) [] (?c\<lparr>md_http := c\<rparr>)" using c(2) r(3,4) by (auto simp: requested_def)
    ultimately show ?thesis using c(3) True by (subst later_ranges.simps) auto
  next
    case False
    obtain buf s where r: "chunk_request env ctx (of_nat (l + 1)) (of_nat (l + ?C)) = Some buf"
      "media_send env (ctx\<lparr>md_last_chunk_end := of_nat (l + ?C)\<rparr>) buf =
        map_option (\<lambda>c. ctx\<lparr>md_last_chunk_end := of_nat (l + ?C)\<rparr>\<lparr>md_http := c\<rparr>) (send True (me_uv_write env) (md_http ctx) buf)"
      "buf_content buf = s" "crlf_lines s = chunk_lines u url (l + 1, l + ?C)"
      using request_chunk[OF assms(1-4), of "l + 1" "l + ?C" "ctx\<lparr>md_last_chunk_end := of_nat (l + ?C)\<rparr>"] by auto
    let ?d = "ctx\<lparr>md_last_chunk_end := of_nat (l + ?C)\<rparr>"
    have d: "downloading u url n [] ?d" using assms(4) by simp
    obtain c where c: "send True (me_uv_write env) (md_http ?d) buf = Some c" "downloading u url n [\<lparr>job_base = buf_content buf, job_cb = 0\<rparr>] (?d\<lparr>md_http := c\<rparr>)"
      "h_log c = h_log (md_http ?d)" using send_media[OF d] by blast
    have "ytdl_dl_media_ctx_next_chunk env ctx = Some (?d\<lparr>md_http := c\<rparr>)"
      unfolding ytdl_dl_media_ctx_next_chunk_def Let_def e cl le using False r(1,2) c(1) by simp
    moreover have "requested u url n (l + 1, l + ?C) (later_ranges (l + ?C) n) (?d\<lparr>md_http := c\<rparr>)"
      using c(2) r(3,4) assms(5) False later_ranges_nonempty by (auto simp: requested_def intro!: exI[of _ "l + ?C"])
    ultimately show ?thesis using c(3) False by (subst later_ranges.simps) auto
  qed
qed

lemma connected_requests:
  assumes "media_env_ok env" "http_parser_parse_url u k False http_parser_url_init = Some (0, url)" "k \<le> length u"
    and "downloading u url n [] ctx" "md_on_message_complete ctx = ChunkComplete" "n < 2 ^ 63"
  shows "\<exists>ctx' r rest. media_ranges n = r # rest \<and> ytdl__media_connected_cb env ctx = Some ctx' \<and> requested u url n r rest ctx' \<and>
    h_log (md_http ctx') = h_log (md_http ctx) \<and> md_log ctx' = md_log ctx"
proof -
  let ?C = "YTDL_DL_CHUNK_SIZE"
  have cl: "md_content_length ctx = int n" "md_is_chunked ctx" using assms(4) by (simp_all add: downloading_def)
  define d where "d = (if ?C \<ge> n then ctx\<lparr>md_on_message_complete := FinalComplete\<rparr> else ctx\<lparr>md_last_chunk_end := of_nat ?C\<rparr>)"
  define r where "r = (if ?C \<ge> n then (0, 0) else (0 :: nat, ?C))"
  have dd: "downloading u url n [] d" using assms(4) by (simp add: d_def)
  have hd: "md_http d = md_http ctx" "md_log d = md_log ctx" by (simp_all add: d_def)
  obtain buf s where b: "chunk_request env d (of_nat (fst r)) (of_nat (snd r)) = Some buf"
    "media_send env d buf = map_option (\<lambda>c. d\<lparr>md_http := c\<rparr>) (send True (me_uv_write env) (md_http d) buf)"
    "buf_content buf = s" "crlf_lines s = chunk_lines u url (fst r, snd r)"
    using request_chunk[OF assms(1-3) dd, of "fst r" "snd r" d] by blast
  obtain c where c: "send True (me_uv_write env) (md_http d) buf = Some c" "downloading u url n [\<lparr>job_base = buf_content buf, job_cb = 0\<rparr>] (d\<lparr>md_http := c\<rparr>)"
    "h_log c = h_log (md_http d)" using send_media[OF dd] by blast
  have q: "chunk_request env ctx = chunk_request env d" by (auto simp: fun_eq_iff chunk_request_def d_def)
  have st: "ytdl__media_connected_cb env ctx = Some (d\<lparr>md_http := c\<rparr>)"
    unfolding ytdl__media_connected_cb_def using cl b(1,2) c(1) q by (auto simp: d_def r_def)
  show ?thesis
  proof (cases "?C \<ge> n")
    case True
    have "requested u url n r [] (d\<lparr>md_http := c\<rparr>)" using c(2) b(3,4) True by (auto simp: requested_def d_def)
    thus ?thesis using st c(3) hd True by (auto simp: media_ranges_def r_def)
  next
    case False
    have "requested u url n r (later_ranges ?C n) (d\<lparr>md_http := c\<rparr>)"
      using c(2) b(3,4) False assms(5) later_ranges_nonempty by (auto simp: requested_def d_def intro!: exI[of _ ?C])
    thus ?thesis using st c(3) hd False by (auto simp: media_ranges_def r_def)
  qed
qed

lemma media_run_append: "media_run env ctx (xs @ ys) = do { ctx \<leftarrow> media_run env ctx xs; media_run env ctx ys }"
  by (induction xs arbitrary: ctx) (auto split: bind_splits)

lemma media_bodies:
  "media_env_ok env \<Longrightarrow> media_run env ctx (map MBody ds) = Some (ctx\<lparr>md_log := md_log ctx @ map Data ds\<rparr>)"
  by (induction ds arbitrary: ctx) (simp_all add: ytdl__media_echo_cb_def media_env_ok_def note_media_def)

text \<open>A response: the request leaves, the pieces of the body come, the message ends.\<close>

definition response_ops :: "int \<times> string list \<Rightarrow> media_op list" where
  "response_ops r = MSent (fst r) # map MBody (snd r) @ [MDone]"

lemma response_arrives:
  assumes "media_env_ok env" "requested u url n r rest ctx" "0 \<le> e"
  shows "\<exists>ctx'. media_run env ctx (MSent e # map MBody ds) = Some ctx' \<and> downloading u url n [] ctx' \<and>
    map crlf_lines (ssl_writes (h_log (md_http ctx'))) = map crlf_lines (ssl_writes (h_log (md_http ctx))) @ [chunk_lines u url r] \<and>
    md_log ctx' = md_log ctx @ map Data ds \<and> md_on_message_complete ctx' = md_on_message_complete ctx \<and>
    md_last_chunk_end ctx' = md_last_chunk_end ctx"
proof -
  obtain s where s: "downloading u url n [\<lparr>job_base = s, job_cb = 0\<rparr>] ctx" "crlf_lines s = chunk_lines u url r"
    using assms(2) by (auto simp: requested_def)
  have q: "queued (md_http ctx) [\<lparr>job_base = s, job_cb = 0\<rparr>]" using s(1) by (simp add: downloading_def)
  have "s \<noteq> []" using s(2) crlf_lines_nonempty unfolding chunk_lines_def by blast
  with writable_sends[OF q _ assms(3)] obtain c where c: "http_step (md_http ctx) (Poll None (Some e)) = Some c"
    "queued c []" "ssl_writes (h_log c) = ssl_writes (h_log (md_http ctx)) @ [s]" using q by (auto simp: queued_def)
  let ?c = "ctx\<lparr>md_http := c, md_log := md_log ctx @ map Data ds\<rparr>"
  have "media_run env ctx (MSent e # map MBody ds) = Some ?c"
    using c(1) media_bodies[OF assms(1), of "ctx\<lparr>md_http := c\<rparr>" ds] by simp
  moreover have "downloading u url n [] ?c" using s(1) c(2) by (simp add: downloading_def)
  ultimately show ?thesis using c(3) s(2) by (intro exI[of _ ?c]) simp
qed

fun media_events :: "(int \<times> string list) list \<Rightarrow> media_event list" where
  "media_events [] = []"
| "media_events [r] = map Data (snd r) @ [MediaDone]"
| "media_events (r # s # rs) = map Data (snd r) @ [ChunkDone] @ media_events (s # rs)"

lemma download_run:
  assumes "media_env_ok env" "http_parser_parse_url u k False http_parser_url_init = Some (0, url)" "k \<le> length u" "n < 2 ^ 63"
    and "requested u url n r rest ctx" "length rs = Suc (length rest)" "\<forall>r \<in> set rs. 0 \<le> fst r"
  shows "\<exists>ctx'. media_run env ctx (concat (map response_ops rs)) = Some ctx' \<and> downloading u url n [] ctx' \<and>
    map crlf_lines (ssl_writes (h_log (md_http ctx'))) = map crlf_lines (ssl_writes (h_log (md_http ctx))) @ map (chunk_lines u url) (r # rest) \<and>
    md_log ctx' = md_log ctx @ media_events rs"
  using assms(5-7)
proof (induction rs arbitrary: r rest ctx)
  case (Cons x xs)
  obtain e ds where x: "x = (e, ds)" by (cases x)
  have "0 \<le> e" using Cons.prems(3) x by simp
  from response_arrives[OF assms(1) Cons.prems(1) this, of ds] obtain c where c: "media_run env ctx (MSent e # map MBody ds) = Some c" "downloading u url n [] c"
    "map crlf_lines (ssl_writes (h_log (md_http c))) = map crlf_lines (ssl_writes (h_log (md_http ctx))) @ [chunk_lines u url r]"
    "md_log c = md_log ctx @ map Data ds" "md_on_message_complete c = md_on_message_complete ctx" "md_last_chunk_end c = md_last_chunk_end ctx" by blast
  have run: "media_run env ctx (concat (map response_ops (x # xs))) = do { c \<leftarrow> media_step env c MDone; media_run env c (concat (map response_ops xs)) }"
  proof -
    have "concat (map response_ops (x # xs)) = (MSent e # map MBody ds) @ MDone # concat (map response_ops xs)" by (simp add: response_ops_def x)
    thus ?thesis using c(1) by (simp only: media_run_append bind.bind_lunit media_run.simps)
  qed
  show ?case
  proof (cases rest)
    case Nil
    have f: "md_on_message_complete c = FinalComplete" using Cons.prems(1) Nil c(5) by (simp add: requested_def)
    have "media_step env c MDone = Some (note_media MediaDone c)" using f assms(1) by (simp add: ytdl__media_chunk_final_complete_cb_def media_env_ok_def)
    moreover have "xs = []" using Cons.prems(2) Nil by simp
    ultimately show ?thesis using run c(2-4) x Nil by simp
  next
    case (Cons r2 rest2)
    then obtain l where l: "md_on_message_complete c = ChunkComplete" "l < n" "md_last_chunk_end c = of_nat l" "rest = later_ranges l n"
      using Cons.prems(1) c(5,6) by (auto simp: requested_def)
    let ?c = "note_media ChunkDone c"
    have n: "downloading u url n [] ?c" "md_on_message_complete ?c = ChunkComplete" "md_last_chunk_end ?c = of_nat l" using c(2) l by simp_all
    obtain d where d: "ytdl_dl_media_ctx_next_chunk env ?c = Some d" "requested u url n r2 rest2 d"
      "h_log (md_http d) = h_log (md_http c)" "md_log d = md_log c @ [ChunkDone]"
      using next_chunk_requests[OF assms(1-3) n l(2) assms(4)] l(4) Cons by auto
    have "md_is_chunked c" "\<not> md_pause_between_chunks c" using c(2) by (simp_all add: downloading_def)
    hence st: "media_step env c MDone = Some d" using l(1) d(1) assms(1) by (simp add: ytdl__media_chunk_complete_cb_def media_env_ok_def)
    have "length xs = Suc (length rest2)" "\<forall>r \<in> set xs. 0 \<le> fst r" using Cons.prems(2,3) Cons by simp_all
    from Cons.IH[OF d(2) this] obtain ctx' where i: "media_run env d (concat (map response_ops xs)) = Some ctx'" "downloading u url n [] ctx'"
      "map crlf_lines (ssl_writes (h_log (md_http ctx'))) = map crlf_lines (ssl_writes (h_log (md_http d))) @ map (chunk_lines u url) (r2 # rest2)"
      "md_log ctx' = md_log d @ media_events xs" by blast
    obtain y ys where "xs = y # ys" using \<open>length xs = Suc (length rest2)\<close> by (cases xs) auto
    thus ?thesis using run st i c(3,4) d(3,4) x Cons by simp
  qed
qed simp

section \<open>Redirects and errors\<close>

text \<open>
  A redirect closes the client from within the headers, but the parser goes on with what it was
  given: the body of the redirect is handed to the caller as if it were the stream.
\<close>

lemma redirect_body_delivered:
  assumes "media_env_ok env" "md_format_url ctx = Live u" "h_hostname (md_http ctx) = Live h" "h_ssl (md_http ctx) = Live ()" "h_poll (md_http ctx) = Polling"
  shows "\<exists>ctx'. media_run env ctx [MStatus 301, MField ''Location'', MValue v, MBody d] = Some ctx' \<and>
    md_format_url ctx' = Live (v @ [NUL]) \<and> h_poll (md_http ctx') = PollClosing \<and> md_log ctx' = md_log ctx @ [Data d]"
proof -
  have e: "me_mem env UrlAlloc" "me_on_data env = Some (\<lambda>ctx _. Some ctx)" using assms(1) by (auto simp: media_env_ok_def)
  have s: "strncasecmp ''Location'' ''location'' (length ''Location'') = 0" by code_simp
  have f: "ytdl__media_header_field_cb c ''Location'' = c\<lparr>md_redirect_was_location := True, md_on_header_value := True\<rparr>"
    if "md_want_redirect c" for c unfolding ytdl__media_header_field_cb_def s using that by simp
  show ?thesis using assms(2-5) e
    by (simp add: ytdl__media_status_cb_def f ytdl__media_header_value_cb_def ytdl__media_echo_cb_def
        release_def ytdl_http_client_shutdown_def note_media_def)
qed

text \<open>
  A status that is neither 200 nor a redirect makes the callback answer 1. The generated parser
  (\<open>deps/llhttp\<close>) ignores that answer, so the body of an error page reaches the caller as well.
\<close>

lemma error_body_delivered:
  assumes "media_env_ok env"
  shows "ytdl__media_status_cb ctx 403 = (ctx, 1) \<and> media_run env ctx [MStatus 403, MBody d] = Some (note_media (Data d) ctx)"
  using assms by (simp add: ytdl__media_status_cb_def ytdl__media_echo_cb_def media_env_ok_def)

text \<open>The header is compared up to the length of its name: a prefix of \<open>location\<close> counts as one.\<close>

lemma header_prefix_redirects: "md_want_redirect ctx \<Longrightarrow> md_redirect_was_location (ytdl__media_header_field_cb ctx ''L'')"
proof -
  have "strncasecmp ''L'' ''location'' 1 = 0" by code_simp
  thus "md_want_redirect ctx \<Longrightarrow> md_redirect_was_location (ytdl__media_header_field_cb ctx ''L'')"
    by (simp add: ytdl__media_header_field_cb_def)
qed

section \<open>Properties\<close>

text \<open>
  C8. A download of a stream of \<open>n\<close> bytes over an open session, each response in pieces of any size:
  the requests are exactly the ranges of \<^const>\<open>media_ranges\<close> in order, each after the response to
  the one before; the caller gets every piece in order, a notice after each response and the notice
  of the end once, after the last. The ranges cover every byte of the stream once, in order. One of
  them is empty, the last, which starts behind the stream, exactly when \<open>n\<close> is greater than the chunk
  size and one more than a multiple of it.
\<close>

theorem media_download:
  assumes "media_env_ok env" "http_parser_parse_url u k False http_parser_url_init = Some (0, url)" "k \<le> length u"
    and "downloading u url n [] ctx" "md_on_message_complete ctx = ChunkComplete" "0 < n" "n < 2 ^ 63"
    and "length rs = length (media_ranges n)" "\<forall>r \<in> set rs. 0 \<le> fst r"
  shows "(\<exists>ctx1 ctx2. ytdl__media_connected_cb env ctx = Some ctx1 \<and>
      media_run env ctx1 (concat (map response_ops rs)) = Some ctx2 \<and> downloading u url n [] ctx2 \<and>
      map crlf_lines (ssl_writes (h_log (md_http ctx2))) =
        map crlf_lines (ssl_writes (h_log (md_http ctx))) @ map (chunk_lines u url) (media_ranges n) \<and>
      md_log ctx2 = md_log ctx @ media_events rs) \<and>
    concat (map (range_bytes n) (media_ranges n)) = [0..<n] \<and>
    ([] \<in> range_bytes n ` set (media_ranges n)) = (YTDL_DL_CHUNK_SIZE < n \<and> n mod YTDL_DL_CHUNK_SIZE = 1)"
proof (intro conjI media_ranges_tile media_ranges_empty assms(6))
  obtain ctx1 r rest where c: "media_ranges n = r # rest" "ytdl__media_connected_cb env ctx = Some ctx1" "requested u url n r rest ctx1"
    "h_log (md_http ctx1) = h_log (md_http ctx)" "md_log ctx1 = md_log ctx"
    using connected_requests[OF assms(1-5,7)] by blast
  have "length rs = Suc (length rest)" using assms(8) c(1) by simp
  from download_run[OF assms(1-3,7) c(3) this assms(9)] show "\<exists>ctx1 ctx2. ytdl__media_connected_cb env ctx = Some ctx1 \<and>
      media_run env ctx1 (concat (map response_ops rs)) = Some ctx2 \<and> downloading u url n [] ctx2 \<and>
      map crlf_lines (ssl_writes (h_log (md_http ctx2))) =
        map crlf_lines (ssl_writes (h_log (md_http ctx))) @ map (chunk_lines u url) (media_ranges n) \<and>
      md_log ctx2 = md_log ctx @ media_events rs" using c by auto
qed

definition demo_media_env :: media_env where
  "demo_media_env = \<lparr>me_malloc = (\<lambda>n. Some (replicate n NUL)), me_mem = (\<lambda>_. True), me_uv_write = 0, me_uv_tcp_init = 0,
     me_inet_pton = (\<lambda>_ _. -1), me_ip_addr = 0, me_tcp_connect = 0, me_strdup = (\<lambda>_. True), me_js_call = (\<lambda>_ _. JsThrows),
     me_on_data = Some (\<lambda>ctx _. Some ctx), me_on_complete = Some Some, me_on_chunk_complete = Some Some\<rparr>"

lemma media_download_witness:
  "\<exists>ctx ctx1 ctx2. ytdl__media_connected_cb demo_media_env ctx = Some ctx1 \<and>
     media_run demo_media_env ctx1 (concat (map response_ops [(0, [''ab'', ''c'']), (3, [''d''])])) = Some ctx2 \<and>
     length (ssl_writes (h_log (md_http ctx2))) = 2 \<and> md_log ctx2 = [Data ''ab'', Data ''c'', ChunkDone, Data ''d'', MediaDone]"
proof -
  let ?id = "''aaaaaaaaaaa''" let ?m = "''https://www.youtube.com/watch?v=aaaaaaaaaaa''"
  have w: "wf_parts (watch_parts ?id)"
    by (intro watch_parts_wf) (simp add: id_char_def IS_ALPHANUM_def IS_ALPHA_iff uchar_def)
  have t: "url_text (watch_parts ?id) = ?m" by (simp add: watch_parts_text)
  have l: "length ?m = 43" by simp
  have "length (url_text (watch_parts ?id)) < 2 ^ 16" unfolding t l by simp
  from parse_url_text[OF w this, of http_parser_url_init, unfolded t l]
  obtain url where url: "http_parser_parse_url ?m 43 False http_parser_url_init = Some (0, url)" by blast
  let ?n = "131073 :: nat"
  let ?ctx = "\<lparr>md_http = demo_client, md_url = url, md_format_url = Live ?m, md_content_length = 131073, md_on_close = None,
     md_pause_between_chunks = False, md_is_chunked = True, md_want_redirect = False, md_redirect_was_location = False,
     md_last_chunk_end = 0, md_on_message_complete = ChunkComplete, md_on_header_field = False, md_on_header_value = False,
     md_stopping = False, md_log = []\<rparr>"
  have e: "media_env_ok demo_media_env" by (simp add: media_env_ok_def demo_media_env_def malloc_ok_def)
  have d: "downloading ?m url ?n [] ?ctx" by (simp add: downloading_def demo_client_def queued_def)
  have r: "media_ranges ?n = [(0, 131072), (131073, 0)]"
    by (simp add: media_ranges_def YTDL_DL_CHUNK_SIZE_def) (subst later_ranges.simps, simp add: YTDL_DL_CHUNK_SIZE_def)
  have h: "ssl_writes (h_log (md_http ?ctx)) = []" "md_log ?ctx = []" by (simp_all add: demo_client_def)
  have "\<exists>ctx1 ctx2. ytdl__media_connected_cb demo_media_env ?ctx = Some ctx1 \<and>
     media_run demo_media_env ctx1 (concat (map response_ops [(0, [''ab'', ''c'']), (3, [''d''])])) = Some ctx2 \<and> downloading ?m url ?n [] ctx2 \<and>
     map crlf_lines (ssl_writes (h_log (md_http ctx2))) =
        map crlf_lines (ssl_writes (h_log (md_http ?ctx))) @ map (chunk_lines ?m url) (media_ranges ?n) \<and>
     md_log ctx2 = md_log ?ctx @ media_events [(0, [''ab'', ''c'']), (3, [''d''])]"
    by (rule media_download[THEN conjunct1, OF e url _ d]) (simp_all add: r)
  then obtain ctx1 ctx2 where m: "ytdl__media_connected_cb demo_media_env ?ctx = Some ctx1"
    "media_run demo_media_env ctx1 (concat (map response_ops [(0, [''ab'', ''c'']), (3, [''d''])])) = Some ctx2"
    "map crlf_lines (ssl_writes (h_log (md_http ctx2))) = map (chunk_lines ?m url) (media_ranges ?n)"
    "md_log ctx2 = [Data ''ab'', Data ''c'', ChunkDone, Data ''d'', MediaDone]" unfolding h by auto
  have "length (ssl_writes (h_log (md_http ctx2))) = length (media_ranges ?n)" using arg_cong[OF m(3), of length] by (simp only: length_map)
  hence "length (ssl_writes (h_log (md_http ctx2))) = 2" by (simp add: r)
  thus ?thesis using m(1,2,4) by blast
qed

end
