(* ===== verification/Dash_Dl.thy ===== *)
theory Dash_Dl
  imports Dl Dash
begin

text \<open>
  The DASH download of \<open>src/dl.c\<close>: the manifest is collected, the connection closed and opened
  again to the host of the chosen stream, and its segments are requested one after the other.

  The functions of libxml2 and the callbacks of the caller are parameters; strings of libxml2 are
  blocks with their NUL, as in \<open>Dash\<close>.
\<close>

section \<open>State\<close>

datatype dash_body_cb = NoBody | ManifestBody | SegmentBody
datatype dash_complete_cb = NoComplete | ManifestComplete | SegmentComplete

datatype dash_event = DashData string | Manifest | SegmentDone | DashDone | DashClosed nat | DashFree "string list"

record ytdl_dl_dash_ctx =
  dd_http :: ytdl_http_client
  dd_on_body :: dash_body_cb
  dd_on_message_complete :: dash_complete_cb
  dd_manifest :: ytdl_buf
  dd_on_close :: "nat option"
  dd_dash :: ytdl_dash_ctx
  dd_manifest_path :: "string ptr"
  dd_manifest_host :: "string ptr"
  dd_manifest_path_len :: u64
  dd_manifest_host_len :: u64
  dd_host :: "string ptr"
  dd_host_len :: u64
  dd_path :: "string ptr"
  dd_path_len :: u64
  dd_is_shutdown :: bool
  dd_is_dash_init :: bool
  dd_is_video :: bool
  dd_pause_between_chunks :: bool
  dd_stopping :: bool
  dd_log :: "dash_event list"

datatype dash_alloc = DashWriteAlloc | DashCopyAlloc | DashIdleAlloc

record dash_env =
  de_malloc :: malloc
  de_realloc :: realloc
  de_mem :: "dash_alloc \<Rightarrow> bool"
  de_strdup :: "nat \<Rightarrow> bool"
  de_uv_write :: int
  de_uv_tcp_init :: int
  de_inet_pton :: "string \<Rightarrow> int \<Rightarrow> int"
  de_ip_addr :: int
  de_tcp_connect :: int
  de_xml :: libxml
  de_xmlReadMemory :: "string \<Rightarrow> xml_node option option"
  de_on_pick_filter :: pick_filter
  de_on_data :: "(ytdl_dl_dash_ctx \<Rightarrow> string \<Rightarrow> ytdl_dl_dash_ctx option) option"
  de_on_segment_complete :: "(ytdl_dl_dash_ctx \<Rightarrow> ytdl_dl_dash_ctx option) option"
  de_on_complete :: "(ytdl_dl_dash_ctx \<Rightarrow> ytdl_dl_dash_ctx option) option"
  de_on_manifest :: "(ytdl_dl_dash_ctx \<Rightarrow> ytdl_dl_dash_ctx option) option"

definition note_dash :: "dash_event \<Rightarrow> ytdl_dl_dash_ctx \<Rightarrow> ytdl_dl_dash_ctx" where
  "note_dash e ctx = ctx\<lparr>dd_log := dd_log ctx @ [e]\<rparr>"

definition dash_send :: "dash_env \<Rightarrow> ytdl_dl_dash_ctx \<Rightarrow> ytdl_buf \<Rightarrow> ytdl_dl_dash_ctx option" where
  "dash_send env ctx buf =
     do { c \<leftarrow> send (de_mem env DashWriteAlloc) (de_uv_write env) (dd_http ctx) buf; Some (ctx\<lparr>dd_http := c\<rparr>) }"

definition dash_connect :: "dash_env \<Rightarrow> ytdl_dl_dash_ctx \<Rightarrow> string ptr \<Rightarrow> ytdl_dl_dash_ctx option" where
  "dash_connect env ctx host =
     do { h \<leftarrow> use host;
          (c, _) \<leftarrow> ytdl_http_client_connect quiet True (de_inet_pton env) (de_ip_addr env) (de_tcp_connect env) (dd_http ctx) True (cstr h);
          Some (ctx\<lparr>dd_http := c\<rparr>) }"

text \<open>\<open>malloc\<close>, \<open>memcpy\<close> and the NUL behind a field of a URL.\<close>

definition field_copy :: "dash_env \<Rightarrow> string \<Rightarrow> url_field \<Rightarrow> string option" where
  "field_copy env u f =
     (if \<not> de_mem env DashCopyAlloc then None else map_option (\<lambda>s. s @ [NUL]) (slice u (unat (off f)) (unat (len f))))"

section \<open>The manifest\<close>

text \<open>The client within the context that \<open>memset\<close> clears.\<close>

definition client_0 :: "ytdl_http_client \<Rightarrow> ytdl_http_client" where
  "client_0 c = c\<lparr>h_keep_alive := False, h_keep_alive_secs := 0, h_is_tls := False, h_hostname := Null, h_ssl := Null, h_tls_ctx := Null,
     h_tls_read_buf := Null, h_queue := Null, h_poll := NoPoll, h_idle := NoIdle, h_reading := False\<rparr>"

definition ytdl_dl_dash_ctx_init :: "dash_env \<Rightarrow> ytdl_dl_dash_ctx \<Rightarrow> ytdl_dl_dash_ctx \<times> int" where
  "ytdl_dl_dash_ctx_init env ctx =
     (let ctx = ctx\<lparr>dd_on_body := NoBody, dd_on_message_complete := NoComplete,
            dd_manifest := \<lparr>b_base = None, b_len = 0, b_size = 0\<rparr>, dd_on_close := None,
            dd_dash := \<lparr>dash_doc = None, dash_a = stream_0, dash_v = stream_0\<rparr>,
            dd_manifest_path := Null, dd_manifest_host := Null, dd_manifest_path_len := 0, dd_manifest_host_len := 0,
            dd_host := Null, dd_host_len := 0, dd_path := Null, dd_path_len := 0,
            dd_is_shutdown := False, dd_is_dash_init := False, dd_is_video := False, dd_pause_between_chunks := False\<rparr>;
          (c, r) = ytdl_http_client_init (de_uv_tcp_init env) (client_0 (dd_http ctx)) in
      if r = 0 then (ctx\<lparr>dd_http := c\<rparr>, 1)
      else let ctx = ctx\<lparr>dd_http := c\<lparr>h_keep_alive := True\<rparr>, dd_on_body := ManifestBody, dd_on_message_complete := ManifestComplete,
            dd_manifest := ytdl_buf_alloc (de_malloc env) (dd_manifest ctx) 1\<rparr>
        in (ctx, if b_base (dd_manifest ctx) = None then 1 else 0))"

definition ytdl__dash_manifest_cb :: "dash_env \<Rightarrow> ytdl_dl_dash_ctx \<Rightarrow> string \<Rightarrow> ytdl_dl_dash_ctx option" where
  "ytdl__dash_manifest_cb env ctx bytes =
     do { buf \<leftarrow> append_body (de_realloc env) (dd_manifest ctx) bytes; Some (ctx\<lparr>dd_manifest := buf\<rparr>) }"

definition ytdl__dash_manifest_connected_cb :: "dash_env \<Rightarrow> ytdl_dl_dash_ctx \<Rightarrow> ytdl_dl_dash_ctx option" where
  "ytdl__dash_manifest_connected_cb env ctx =
     do { p \<leftarrow> use (dd_manifest_path ctx); h \<leftarrow> use (dd_manifest_host ctx);
          buf \<leftarrow> ytdl_net_request_generic (de_malloc env) request_0 (p, dd_manifest_path_len ctx) (h, dd_manifest_host_len ctx);
          dash_send env ctx buf }"

definition ytdl_dl_dash_ctx_connect :: "dash_env \<Rightarrow> ytdl_dl_dash_ctx \<Rightarrow> string \<Rightarrow> (ytdl_dl_dash_ctx \<times> int) option" where
  "ytdl_dl_dash_ctx_connect env ctx manifest_url =
     do { l \<leftarrow> strlen manifest_url;
          (bad, url) \<leftarrow> http_parser_parse_url manifest_url l False http_parser_url_init;
          if bad \<noteq> 0 then Some (ctx, -1)
          else do { host \<leftarrow> field_copy env manifest_url (field_data url UF_HOST);
                    path \<leftarrow> field_copy env manifest_url (field_data url UF_PATH);
                    let ctx = ctx\<lparr>dd_manifest_host_len := ucast (len (field_data url UF_HOST)), dd_manifest_host := Live host,
                      dd_manifest_path_len := ucast (len (field_data url UF_PATH)), dd_manifest_path := Live path\<rparr>;
                    ctx \<leftarrow> dash_connect env ctx (dd_manifest_host ctx);
                    Some (ctx, 0) } }"

definition ytdl__dash_manifest_complete_cb :: "ytdl_dl_dash_ctx \<Rightarrow> ytdl_dl_dash_ctx option" where
  "ytdl__dash_manifest_complete_cb ctx =
     do { c \<leftarrow> ytdl_http_client_shutdown (dd_http ctx); Some (ctx\<lparr>dd_is_shutdown := True, dd_http := c\<rparr>) }"

section \<open>The segments\<close>

definition next_segment_of :: "dash_env \<Rightarrow> ytdl_dl_dash_ctx \<Rightarrow> (ytdl_dl_dash_ctx \<times> string option) option" where
  "next_segment_of env ctx =
     do { (d, s) \<leftarrow> (if dd_is_video ctx then ytdl_dash_next_video_segment (de_xml env) (de_strdup env) (dd_dash ctx)
                     else ytdl_dash_next_audio_segment (de_xml env) (de_strdup env) (dd_dash ctx));
          Some (ctx\<lparr>dd_dash := d\<rparr>, s) }"

definition ytdl_dl_dash_ctx_next_chunk :: "dash_env \<Rightarrow> ytdl_dl_dash_ctx \<Rightarrow> ytdl_dl_dash_ctx option" where
  "ytdl_dl_dash_ctx_next_chunk env ctx =
     do { (ctx, segment) \<leftarrow> next_segment_of env ctx;
          case segment of
            Some s \<Rightarrow>
              do { p \<leftarrow> use (dd_path ctx); h \<leftarrow> use (dd_host ctx); l \<leftarrow> strlen s;
                   buf \<leftarrow> ytdl_net_request_segment (de_malloc env) request_0 (p, dd_path_len ctx) (s, of_nat l) (h, dd_host_len ctx);
                   dash_send env ctx buf }
          | None \<Rightarrow> do { f \<leftarrow> de_on_complete env; f (note_dash DashDone ctx) } }"

definition ytdl__dash_echo_cb :: "dash_env \<Rightarrow> ytdl_dl_dash_ctx \<Rightarrow> string \<Rightarrow> ytdl_dl_dash_ctx option" where
  "ytdl__dash_echo_cb env ctx bytes =
     (case de_on_data env of None \<Rightarrow> Some ctx | Some f \<Rightarrow> f (note_dash (DashData bytes) ctx) bytes)"

definition ytdl__dash_segment_complete_cb :: "dash_env \<Rightarrow> ytdl_dl_dash_ctx \<Rightarrow> ytdl_dl_dash_ctx option" where
  "ytdl__dash_segment_complete_cb env ctx =
     do { ctx \<leftarrow> (case de_on_segment_complete env of None \<Rightarrow> Some ctx | Some f \<Rightarrow> f (note_dash SegmentDone ctx));
          if dd_pause_between_chunks ctx then Some ctx else ytdl_dl_dash_ctx_next_chunk env ctx }"

definition ytdl__dash_segment_connected_cb :: "dash_env \<Rightarrow> ytdl_dl_dash_ctx \<Rightarrow> ytdl_dl_dash_ctx option" where
  "ytdl__dash_segment_connected_cb env ctx =
     ytdl_dl_dash_ctx_next_chunk env (ctx\<lparr>dd_on_body := SegmentBody, dd_on_message_complete := SegmentComplete\<rparr>)"

definition ytdl_dl_dash_load_fork :: "dash_env \<Rightarrow> ytdl_dl_dash_ctx \<Rightarrow> ytdl_dl_dash_ctx option" where
  "ytdl_dl_dash_load_fork env ctx =
     do { (d, _) \<leftarrow> ytdl_dash_get_format (de_xml env) (de_on_pick_filter env)
            (fst (ytdl_dash_ctx_init (de_xmlReadMemory env) (buf_content (dd_manifest ctx))));
          let ctx = ctx\<lparr>dd_dash := d, dd_is_dash_init := True\<rparr>;
          u \<leftarrow> ds_base_url (if dd_is_video ctx then dash_v d else dash_a d);
          l \<leftarrow> strlen u;
          (bad, url) \<leftarrow> http_parser_parse_url u l False http_parser_url_init;
          if bad \<noteq> 0 then Some ctx
          else do { host \<leftarrow> field_copy env u (field_data url UF_HOST);
                    path \<leftarrow> field_copy env u (field_data url UF_PATH);
                    let ctx = ctx\<lparr>dd_host := Live host, dd_host_len := ucast (len (field_data url UF_HOST)),
                      dd_path := Live path, dd_path_len := ucast (len (field_data url UF_PATH))\<rparr>;
                    dash_connect env ctx (dd_host ctx) } }"

text \<open>A client that is initialised again has no handlers of the parser.\<close>

definition ytdl__dash_close_cb :: "dash_env \<Rightarrow> ytdl_dl_dash_ctx \<Rightarrow> ytdl_dl_dash_ctx option" where
  "ytdl__dash_close_cb env ctx =
     (let (c, r) = ytdl_http_client_init (de_uv_tcp_init env) (dd_http ctx);
          ctx = ctx\<lparr>dd_is_shutdown := False, dd_http := c\<rparr>;
          ctx = (if r = 0 then ctx else ctx\<lparr>dd_on_body := NoBody, dd_on_message_complete := NoComplete\<rparr>) in
      do { ctx \<leftarrow> (case de_on_manifest env of None \<Rightarrow> Some ctx | Some f \<Rightarrow> f (note_dash Manifest ctx));
           ytdl_dl_dash_load_fork env ctx })"

section \<open>Closing and forking\<close>

definition ytdl__dash_close_f_cb :: "ytdl_dl_dash_ctx \<Rightarrow> ytdl_dl_dash_ctx option" where
  "ytdl__dash_close_f_cb ctx = map_option (\<lambda>cb. note_dash (DashClosed cb) ctx) (dd_on_close ctx)"

definition ytdl__dl_dash_shutdown :: "ytdl_dl_dash_ctx \<Rightarrow> ytdl_dl_dash_ctx option" where
  "ytdl__dl_dash_shutdown ctx =
     do { path \<leftarrow> release (dd_path ctx); host \<leftarrow> release (dd_host ctx);
          mhost \<leftarrow> release (dd_manifest_host ctx); mpath \<leftarrow> release (dd_manifest_path ctx);
          let ctx = ctx\<lparr>dd_stopping := False, dd_path := path, dd_host := host, dd_manifest_host := mhost, dd_manifest_path := mpath\<rparr>;
          let ctx = (if dd_is_dash_init ctx then note_dash (DashFree (ytdl_dash_ctx_free (dd_dash ctx))) ctx else ctx);
          let ctx = ctx\<lparr>dd_manifest := ytdl_buf_free (dd_manifest ctx)\<rparr>;
          if dd_is_shutdown ctx then Some ctx
          else do { c \<leftarrow> ytdl_http_client_shutdown (dd_http ctx); Some (ctx\<lparr>dd_http := c\<rparr>) } }"

definition ytdl_dl_dash_shutdown :: "dash_env \<Rightarrow> ytdl_dl_dash_ctx \<Rightarrow> nat option \<Rightarrow> ytdl_dl_dash_ctx option" where
  "ytdl_dl_dash_shutdown env ctx on_close =
     (if de_mem env DashIdleAlloc then Some (ctx\<lparr>dd_on_close := on_close, dd_stopping := True\<rparr>) else None)"

text \<open>The callbacks of the caller, which the fork gets as well, are those of the environment.\<close>

definition ptr_strdup :: "dash_env \<Rightarrow> string ptr \<Rightarrow> string ptr option" where
  "ptr_strdup env p =
     do { s \<leftarrow> use p; l \<leftarrow> strlen s;
          Some (case strdup (de_strdup env) s of Some t \<Rightarrow> Live t | None \<Rightarrow> Null) }"

definition ytdl_dl_dash_ctx_fork :: "dash_env \<Rightarrow> ytdl_dl_dash_ctx \<Rightarrow> ytdl_dl_dash_ctx \<Rightarrow> (ytdl_dl_dash_ctx \<times> int) option" where
  "ytdl_dl_dash_ctx_fork env ctx fork =
     (let fork = fork\<lparr>dd_manifest := ytdl_buf_realloc (de_realloc env) (dd_manifest fork) (b_size (dd_manifest ctx))\<rparr> in
      if b_base (dd_manifest fork) = None then Some (fork, 1)
      else do { base \<leftarrow> b_base (dd_manifest ctx);
                buf \<leftarrow> buf_write (dd_manifest fork) 0 base (unat (b_len (dd_manifest ctx)));
                path \<leftarrow> ptr_strdup env (dd_manifest_path ctx);
                host \<leftarrow> ptr_strdup env (dd_manifest_host ctx);
                Some (fork\<lparr>dd_manifest := buf\<lparr>b_len := b_len (dd_manifest ctx)\<rparr>, dd_on_close := dd_on_close ctx,
                  dd_manifest_path := path, dd_manifest_host := host,
                  dd_manifest_host_len := dd_manifest_host_len ctx, dd_manifest_path_len := dd_manifest_path_len ctx,
                  dd_is_shutdown := dd_is_shutdown ctx, dd_is_dash_init := dd_is_dash_init ctx, dd_is_video := dd_is_video ctx\<rparr>, 0) })"

section \<open>Facts\<close>

text \<open>A fork starts with the manifest of the context it is made of, in memory of its own.\<close>

lemma fork_manifest:
  assumes "realloc_ok (de_realloc env)" "buf_ok (dd_manifest ctx)" "b_base (dd_manifest ctx) = Some m"
    and "ytdl_dl_dash_ctx_fork env ctx fork = Some (fork', 0)"
  shows "buf_content (dd_manifest fork') = buf_content (dd_manifest ctx)" "buf_ok (dd_manifest fork')"
proof -
  let ?c = "dd_manifest ctx" and ?f = "ytdl_buf_realloc (de_realloc env) (dd_manifest fork) (b_size (dd_manifest ctx))"
  have ne: "b_base ?f \<noteq> None"
  proof
    assume "b_base ?f = None"
    thus False using assms(4) by (simp add: ytdl_dl_dash_ctx_fork_def)
  qed
  then obtain g where g: "b_base ?f = Some g" by auto
  hence lg: "length g = unat (b_size ?c)" using assms(1) by (auto simp: ytdl_buf_realloc_def realloc_ok_def)
  obtain buf where b: "buf_write ?f 0 m (unat (b_len ?c)) = Some buf" "dd_manifest fork' = buf\<lparr>b_len := b_len ?c\<rparr>"
    using assms(3,4) ne by (auto simp: ytdl_dl_dash_ctx_fork_def Let_def bind_eq_Some_conv)
  have lm: "length m = unat (b_size ?c)" "unat (b_len ?c) \<le> unat (b_size ?c)" using assms(2,3) by (simp_all add: buf_ok_def word_le_nat_alt)
  have w: "buf = ?f\<lparr>b_base := Some (take (unat (b_len ?c)) m @ drop (unat (b_len ?c)) g)\<rparr>"
    using b(1) g lg lm by (simp add: buf_write_def blit_def)
  show "buf_content (dd_manifest fork') = buf_content ?c" using b(2) w assms(3) lm by (simp add: buf_content_def)
  show "buf_ok (dd_manifest fork')" using b(2) w lg lm by (simp add: buf_ok_def ytdl_buf_realloc_def word_le_nat_alt)
qed

text \<open>A manifest the parser refuses, or without the chosen stream, dereferences a missing base URL.\<close>

lemma unparsed_manifest_fails:
  "de_xmlReadMemory env (buf_content (dd_manifest ctx)) = None \<Longrightarrow> ytdl_dl_dash_load_fork env ctx = None"
  by (simp add: ytdl_dl_dash_load_fork_def ytdl_dash_ctx_init_def ytdl_dash_get_format_def)

text \<open>
  A download that is shut down after its manifest came and before that connection is closed is not
  told of its end: the close of the connection goes on with the manifest that was released.
\<close>

lemma shutdown_between_connections:
  assumes "dd_is_shutdown ctx" "ytdl__dl_dash_shutdown ctx = Some ctx'" "de_on_manifest env = None" "de_xmlReadMemory env [] = None"
  shows "dd_manifest ctx' = ytdl_buf_free (dd_manifest ctx) \<and> ytdl__dash_close_cb env ctx' = None"
proof -
  have m: "dd_manifest ctx' = ytdl_buf_free (dd_manifest ctx)"
    using assms(1,2) by (auto simp: ytdl__dl_dash_shutdown_def Let_def note_dash_def bind_eq_Some_conv split: if_splits)
  hence c: "buf_content (dd_manifest ctx') = []" by (simp add: buf_content_def ytdl_buf_free_def)
  have "ytdl_dl_dash_load_fork env c = None" if "dd_manifest c = dd_manifest ctx'" for c
    using that unparsed_manifest_fails[of env c] c assms(4) by simp
  thus ?thesis using m assms(3) by (auto simp: ytdl__dash_close_cb_def Let_def split: prod.split)
qed

section \<open>Running\<close>

text \<open>What the parser, the socket and the event loop report; \<open>DSent\<close> is a writable socket with the answer of the session.\<close>

datatype dash_op = DSent int | DBody string | DDone | DClosed | DConnected

fun dash_step :: "dash_env \<Rightarrow> ytdl_dl_dash_ctx \<Rightarrow> dash_op \<Rightarrow> ytdl_dl_dash_ctx option" where
  "dash_step env ctx (DSent e) = map_option (\<lambda>c. ctx\<lparr>dd_http := c\<rparr>) (http_step (dd_http ctx) (Poll None (Some e)))"
| "dash_step env ctx (DBody d) =
     (case dd_on_body ctx of NoBody \<Rightarrow> Some ctx | ManifestBody \<Rightarrow> ytdl__dash_manifest_cb env ctx d | SegmentBody \<Rightarrow> ytdl__dash_echo_cb env ctx d)"
| "dash_step env ctx DDone =
     (case dd_on_message_complete ctx of NoComplete \<Rightarrow> Some ctx | ManifestComplete \<Rightarrow> ytdl__dash_manifest_complete_cb ctx
      | SegmentComplete \<Rightarrow> ytdl__dash_segment_complete_cb env ctx)"
| "dash_step env ctx DClosed = ytdl__dash_close_cb env ctx"
| "dash_step env ctx DConnected = ytdl__dash_segment_connected_cb env ctx"

fun dash_run :: "dash_env \<Rightarrow> ytdl_dl_dash_ctx \<Rightarrow> dash_op list \<Rightarrow> ytdl_dl_dash_ctx option" where
  "dash_run env ctx [] = Some ctx"
| "dash_run env ctx (x # xs) = do { ctx \<leftarrow> dash_step env ctx x; dash_run env ctx xs }"

lemma dash_run_append: "dash_run env ctx (xs @ ys) = do { ctx \<leftarrow> dash_run env ctx xs; dash_run env ctx ys }"
  by (induction xs arbitrary: ctx) (auto split: bind_splits)

text \<open>A manifest that came in any pieces is the text they make.\<close>

lemma manifest_collected:
  assumes "grows (de_realloc env)" "buf_ok (dd_manifest ctx)" "b_base (dd_manifest ctx) \<noteq> None" "dd_on_body ctx = ManifestBody"
    and "length (buf_content (dd_manifest ctx)) + length (concat ds) < 2 ^ 64"
  shows "\<exists>buf. dash_run env ctx (map DBody ds) = Some (ctx\<lparr>dd_manifest := buf\<rparr>) \<and>
    buf_content buf = buf_content (dd_manifest ctx) @ concat ds"
proof -
  have "dash_run env ctx (map DBody ds) = map_option (\<lambda>buf. ctx\<lparr>dd_manifest := buf\<rparr>) (append_all (de_realloc env) (dd_manifest ctx) ds)"
    using assms(4)
  proof (induction ds arbitrary: ctx)
    case (Cons d ds)
    thus ?case by (cases "append_body (de_realloc env) (dd_manifest ctx) d") (simp_all add: ytdl__dash_manifest_cb_def)
  qed simp
  thus ?thesis using append_all_content[OF assms(1-3,5)] by auto
qed

section \<open>The segments a stream has left\<close>

definition rest_segments :: "libxml \<Rightarrow> dash_stream \<Rightarrow> string list \<Rightarrow> bool" where
  "rest_segments xml s ts \<longleftrightarrow> map (\<lambda>n. xmlGetProp xml n ''media'') (segment_nodes (ds_segment_list s)) = map (\<lambda>t. Some (t @ [NUL])) ts"

definition pending :: "libxml \<Rightarrow> dash_stream \<Rightarrow> string list \<Rightarrow> bool" where
  "pending xml s ts \<longleftrightarrow>
     (if ds_segment_path s = None
      then \<exists>i us. ts = i # us \<and> ds_initial_segment s = Some (i @ [NUL]) \<and> rest_segments xml s us
      else rest_segments xml s ts)"

definition segment_ok :: "string \<Rightarrow> bool" where
  "segment_ok t \<longleftrightarrow> length t < 2 ^ 31 \<and> (\<forall>c \<in> set t. 33 \<le> uchar c)"

lemma segment_okD:
  assumes "segment_ok t"
  shows "NUL \<notin> set t" "strlen (t @ [NUL]) = Some (length t)"
    "plain_part (t @ [NUL], of_nat (length t))" "part_chars (t @ [NUL], of_nat (length t)) = t"
proof -
  show n: "NUL \<notin> set t" using assms by (auto simp: segment_ok_def uchar_def)
  show "strlen (t @ [NUL]) = Some (length t)" using strlen_block[OF n, of "[]"] by simp
  have u: "unat (of_nat (length t) :: u64) = length t" using assms unat_of_nat64[of "length t"] by (simp add: segment_ok_def)
  show p: "part_chars (t @ [NUL], of_nat (length t)) = t" by (simp add: part_chars_def u)
  show "plain_part (t @ [NUL], of_nat (length t))" using assms p by (simp add: plain_part_def segment_ok_def u)
qed

lemma next_pending:
  assumes "pending xml s (t # ts)" "segment_ok t"
  shows "\<exists>s'. next_segment xml (\<lambda>_. True) s = Some (s', Some (t @ [NUL])) \<and> pending xml s' ts"
proof (cases "ds_segment_path s")
  case None
  hence p: "ds_initial_segment s = Some (t @ [NUL])" "rest_segments xml s ts" using assms(1) by (auto simp: pending_def)
  have "strdup (\<lambda>_. True) (t @ [NUL]) = Some (t @ [NUL])" using segment_okD(2)[OF assms(2)] by (simp add: strdup_def)
  thus ?thesis using None p by (simp add: next_segment_def pending_def rest_segments_def)
next
  case (Some q)
  hence r: "map (\<lambda>n. xmlGetProp xml n ''media'') (segment_nodes (ds_segment_list s)) = map (\<lambda>t. Some (t @ [NUL])) (t # ts)"
    using assms(1) by (simp add: pending_def rest_segments_def)
  then obtain n ns where n: "segment_nodes (ds_segment_list s) = n # ns" by auto
  obtain m ms where f: "find_segment (ds_segment_list s) = m # ms"
    using find_segment_nodes[of "ds_segment_list s"] n by (cases "find_segment (ds_segment_list s)") auto
  hence "m = n" "segment_nodes ms = ns" using find_segment_nodes[of "ds_segment_list s"] n by auto
  thus ?thesis using f r n Some by (simp add: next_segment_def Let_def pending_def rest_segments_def)
qed

lemma none_pending:
  assumes "pending xml s []"
  shows "next_segment xml mem s = Some (s\<lparr>ds_segment_path := None, ds_segment_list := []\<rparr>, None)"
proof -
  obtain q where q: "ds_segment_path s = Some q" "segment_nodes (ds_segment_list s) = []"
    using assms by (auto simp: pending_def rest_segments_def split: if_splits)
  hence "find_segment (ds_segment_list s) = []" using find_segment_nodes[of "ds_segment_list s"] by simp
  thus ?thesis using q(1) by (simp add: next_segment_def)
qed

lemma next_segment_of_stream:
  "next_segment (de_xml env) (de_strdup env) (stream_of (dd_dash ctx) (dd_is_video ctx)) = Some (s, r) \<Longrightarrow>
     \<exists>d. next_segment_of env ctx = Some (ctx\<lparr>dd_dash := d\<rparr>, r) \<and> stream_of d (dd_is_video ctx) = s"
  by (auto simp: next_segment_of_def stream_of_def ytdl_dash_next_video_segment_def ytdl_dash_next_audio_segment_def)

section \<open>A stream of segments\<close>

definition dash_env_ok :: "dash_env \<Rightarrow> bool" where
  "dash_env_ok env \<longleftrightarrow> malloc_ok (de_malloc env) \<and> (\<forall>n. de_malloc env n \<noteq> None) \<and> de_mem env DashWriteAlloc \<and>
     de_strdup env = (\<lambda>_. True) \<and> de_on_data env = Some (\<lambda>ctx _. Some ctx) \<and> de_on_segment_complete env = Some Some \<and>
     de_on_complete env = Some Some"

text \<open>A context with an open session to \<open>host\<close>, nothing queued but \<open>js\<close> and the segments \<open>ts\<close> left of its stream.\<close>

definition streaming :: "dash_env \<Rightarrow> string \<Rightarrow> string \<Rightarrow> ytdl_https_write_job list \<Rightarrow> string list \<Rightarrow> ytdl_dl_dash_ctx \<Rightarrow> bool" where
  "streaming env path host js ts ctx \<longleftrightarrow>
     queued (dd_http ctx) js \<and> \<not> dd_pause_between_chunks ctx \<and>
     (\<exists>p. dd_path ctx = Live p \<and> plain_part (p, dd_path_len ctx) \<and> part_chars (p, dd_path_len ctx) = path) \<and>
     (\<exists>h. dd_host ctx = Live h \<and> plain_part (h, dd_host_len ctx) \<and> part_chars (h, dd_host_len ctx) = host) \<and>
     pending (de_xml env) (stream_of (dd_dash ctx) (dd_is_video ctx)) ts"

abbreviation segment_handlers :: "ytdl_dl_dash_ctx \<Rightarrow> bool" where
  "segment_handlers ctx \<equiv> dd_on_body ctx = SegmentBody \<and> dd_on_message_complete ctx = SegmentComplete"

lemma next_requests:
  assumes "dash_env_ok env" "streaming env path host [] (t # ts) ctx" "segment_ok t"
  shows "\<exists>ctx' s. ytdl_dl_dash_ctx_next_chunk env ctx = Some ctx' \<and> streaming env path host [\<lparr>job_base = s, job_cb = 0\<rparr>] ts ctx' \<and>
    crlf_lines s = request_lines (path @ t) host [] \<and> h_log (dd_http ctx') = h_log (dd_http ctx) \<and> dd_log ctx' = dd_log ctx \<and>
    dd_on_body ctx' = dd_on_body ctx \<and> dd_on_message_complete ctx' = dd_on_message_complete ctx"
proof -
  have e: "malloc_ok (de_malloc env)" "\<forall>n. de_malloc env n \<noteq> None" "de_mem env DashWriteAlloc" "de_strdup env = (\<lambda>_. True)"
    using assms(1) by (simp_all add: dash_env_ok_def)
  obtain p h where ph: "dd_path ctx = Live p" "plain_part (p, dd_path_len ctx)" "part_chars (p, dd_path_len ctx) = path"
    "dd_host ctx = Live h" "plain_part (h, dd_host_len ctx)" "part_chars (h, dd_host_len ctx) = host"
    using assms(2) by (auto simp: streaming_def)
  have q: "queued (dd_http ctx) []" "\<not> dd_pause_between_chunks ctx" "pending (de_xml env) (stream_of (dd_dash ctx) (dd_is_video ctx)) (t # ts)"
    using assms(2) by (simp_all add: streaming_def)
  obtain st where st: "next_segment (de_xml env) (de_strdup env) (stream_of (dd_dash ctx) (dd_is_video ctx)) = Some (st, Some (t @ [NUL]))"
    "pending (de_xml env) st ts" using next_pending[OF q(3) assms(3)] e(4) by auto
  obtain d where d: "next_segment_of env ctx = Some (ctx\<lparr>dd_dash := d\<rparr>, Some (t @ [NUL]))" "stream_of d (dd_is_video ctx) = st"
    using next_segment_of_stream[OF st(1)] by blast
  note seg = segment_okD[OF assms(3)]
  obtain buf s where b: "ytdl_net_request_segment (de_malloc env) request_0 (p, dd_path_len ctx) (t @ [NUL], of_nat (length t)) (h, dd_host_len ctx) = Some buf"
    "holds_text buf s" "crlf_lines s = request_lines (path @ t) host []"
    using segment_lines[OF e(1,2) ph(2) seg(3) ph(5), of request_0] ph(3,6) seg(4) by auto
  let ?j = "\<lparr>job_base = s, job_cb = 0\<rparr>"
  let ?c = "(dd_http ctx)\<lparr>h_queue := Live (map Live [?j])\<rparr>" let ?ctx = "ctx\<lparr>dd_dash := d, dd_http := ?c\<rparr>"
  have "send True (de_uv_write env) (dd_http ctx) buf = Some ?c"
    using send_queued[OF q(1), of "de_uv_write env" buf] holds_text_content[OF b(2)] by simp
  hence "ytdl_dl_dash_ctx_next_chunk env ctx = Some ?ctx"
    unfolding ytdl_dl_dash_ctx_next_chunk_def d(1) using ph(1,4) seg(2) b(1) e(3) by (simp add: use_def dash_send_def)
  moreover have "streaming env path host [?j] ts ?ctx" using q(1,2) ph d(2) st(2) by (simp add: streaming_def queued_def)
  ultimately show ?thesis using b(3) by (intro exI[of _ ?ctx] exI[of _ s]) simp
qed

lemma stream_ends:
  assumes "dash_env_ok env" "streaming env path host [] [] ctx"
  shows "\<exists>ctx'. ytdl_dl_dash_ctx_next_chunk env ctx = Some ctx' \<and> h_log (dd_http ctx') = h_log (dd_http ctx) \<and>
    queued (dd_http ctx') [] \<and> dd_log ctx' = dd_log ctx @ [DashDone]"
proof -
  have p: "pending (de_xml env) (stream_of (dd_dash ctx) (dd_is_video ctx)) []" "queued (dd_http ctx) []" using assms(2) by (simp_all add: streaming_def)
  obtain d where "next_segment_of env ctx = Some (ctx\<lparr>dd_dash := d\<rparr>, None)"
    using next_segment_of_stream[OF none_pending[OF p(1)]] by blast
  thus ?thesis using assms(1) p(2) by (simp add: ytdl_dl_dash_ctx_next_chunk_def dash_env_ok_def note_dash_def)
qed

lemma dash_bodies:
  "dash_env_ok env \<Longrightarrow> dd_on_body ctx = SegmentBody \<Longrightarrow>
     dash_run env ctx (map DBody ds) = Some (ctx\<lparr>dd_log := dd_log ctx @ map DashData ds\<rparr>)"
  by (induction ds arbitrary: ctx) (simp_all add: ytdl__dash_echo_cb_def dash_env_ok_def note_dash_def)

text \<open>A response: the request leaves, the pieces of the body come, the message ends.\<close>

definition segment_ops :: "int \<times> string list \<Rightarrow> dash_op list" where
  "segment_ops r = DSent (fst r) # map DBody (snd r) @ [DDone]"

definition segment_events :: "int \<times> string list \<Rightarrow> dash_event list" where
  "segment_events r = map DashData (snd r) @ [SegmentDone]"

lemma segment_arrives:
  assumes "dash_env_ok env" "streaming env path host [\<lparr>job_base = s, job_cb = 0\<rparr>] ts ctx" "segment_handlers ctx"
    and "crlf_lines s = request_lines t host ls" "0 \<le> fst r"
  shows "\<exists>ctx'. dash_run env ctx (segment_ops r) = ytdl_dl_dash_ctx_next_chunk env ctx' \<and> streaming env path host [] ts ctx' \<and>
    segment_handlers ctx' \<and> ssl_writes (h_log (dd_http ctx')) = ssl_writes (h_log (dd_http ctx)) @ [s] \<and>
    dd_log ctx' = dd_log ctx @ segment_events r"
proof -
  have q: "queued (dd_http ctx) [\<lparr>job_base = s, job_cb = 0\<rparr>]" using assms(2) by (simp add: streaming_def)
  have "s \<noteq> []" using assms(4) crlf_lines_nonempty by blast
  with writable_sends[OF q _ assms(5)] obtain c where c: "http_step (dd_http ctx) (Poll None (Some (fst r))) = Some c"
    "queued c []" "ssl_writes (h_log c) = ssl_writes (h_log (dd_http ctx)) @ [s]" using q by (auto simp: queued_def)
  let ?c = "ctx\<lparr>dd_http := c, dd_log := dd_log ctx @ map DashData (snd r)\<rparr>"
  have "dash_run env ctx (DSent (fst r) # map DBody (snd r)) = Some ?c"
    using c(1) assms(3) dash_bodies[OF assms(1), of "ctx\<lparr>dd_http := c\<rparr>" "snd r"] by simp
  moreover have "segment_ops r = (DSent (fst r) # map DBody (snd r)) @ [DDone]" by (simp add: segment_ops_def)
  ultimately have "dash_run env ctx (segment_ops r) = dash_step env ?c DDone"
    by (simp only: dash_run_append bind.bind_lunit dash_run.simps Option.bind_runit)
  also have "\<dots> = ytdl_dl_dash_ctx_next_chunk env (note_dash SegmentDone ?c)"
    using assms(1-3) by (simp add: ytdl__dash_segment_complete_cb_def dash_env_ok_def streaming_def note_dash_def)
  finally show ?thesis using assms(2,3) c(2,3)
    by (intro exI[of _ "note_dash SegmentDone ?c"]) (simp add: streaming_def note_dash_def segment_events_def)
qed

lemma stream_run:
  assumes "dash_env_ok env" "streaming env path host [\<lparr>job_base = s, job_cb = 0\<rparr>] ts ctx" "segment_handlers ctx"
    and "crlf_lines s = request_lines (path @ t) host []" "\<forall>t \<in> set ts. segment_ok t"
    and "length rs = Suc (length ts)" "\<forall>r \<in> set rs. 0 \<le> fst r"
  shows "\<exists>ctx'. dash_run env ctx (concat (map segment_ops rs)) = Some ctx' \<and> queued (dd_http ctx') [] \<and>
    map crlf_lines (ssl_writes (h_log (dd_http ctx'))) =
      map crlf_lines (ssl_writes (h_log (dd_http ctx))) @ map (\<lambda>t. request_lines (path @ t) host []) (t # ts) \<and>
    dd_log ctx' = dd_log ctx @ concat (map segment_events rs) @ [DashDone]"
  using assms(2-7)
proof (induction rs arbitrary: s t ts ctx)
  case (Cons r rs)
  have "0 \<le> fst r" using Cons.prems(6) by simp
  from segment_arrives[OF assms(1) Cons.prems(1-3) this] obtain c where c: "dash_run env ctx (segment_ops r) = ytdl_dl_dash_ctx_next_chunk env c"
    "streaming env path host [] ts c" "segment_handlers c"
    "ssl_writes (h_log (dd_http c)) = ssl_writes (h_log (dd_http ctx)) @ [s]" "dd_log c = dd_log ctx @ segment_events r" by blast
  have run: "dash_run env ctx (concat (map segment_ops (r # rs))) =
      do { d \<leftarrow> ytdl_dl_dash_ctx_next_chunk env c; dash_run env d (concat (map segment_ops rs)) }"
    using c(1) by (simp add: dash_run_append)
  show ?case
  proof (cases ts)
    case Nil
    have "rs = []" using Cons.prems(5) Nil by simp
    moreover obtain d where "ytdl_dl_dash_ctx_next_chunk env c = Some d" "h_log (dd_http d) = h_log (dd_http c)"
      "queued (dd_http d) []" "dd_log d = dd_log c @ [DashDone]" using stream_ends[OF assms(1) c(2)[unfolded Nil]] by blast
    ultimately show ?thesis using run c(4,5) Cons.prems(3) Nil by simp
  next
    case (Cons u us)
    have u: "segment_ok u" "\<forall>t \<in> set us. segment_ok t" using Cons.prems(4) Cons by simp_all
    obtain d s' where d: "ytdl_dl_dash_ctx_next_chunk env c = Some d" "streaming env path host [\<lparr>job_base = s', job_cb = 0\<rparr>] us d"
      "crlf_lines s' = request_lines (path @ u) host []" "h_log (dd_http d) = h_log (dd_http c)" "dd_log d = dd_log c"
      "segment_handlers d"
      using next_requests[OF assms(1) c(2)[unfolded Cons] u(1)] c(3) by auto
    have "length rs = Suc (length us)" "\<forall>r \<in> set rs. 0 \<le> fst r" using Cons.prems(5,6) Cons by simp_all
    from Cons.IH[OF d(2,6,3) u(2) this] show ?thesis using run c(4,5) d(1,4,5) Cons.prems(3) Cons by auto
  qed
qed simp

section \<open>The download\<close>

text \<open>
  C9. A DASH download over an open session whose stream has the segments \<open>ts\<close>, the initialisation
  first: from the moment the connection is up the segments are requested in their order below the
  path of the base URL, each after the response to the one before; the caller gets every piece of
  every response in order, a notice after each segment, and the notice of the end once, after the
  last. Nothing is left waiting.
\<close>

theorem dash_download:
  assumes "dash_env_ok env" "streaming env path host [] ts ctx" "ts \<noteq> []" "\<forall>t \<in> set ts. segment_ok t"
    and "length rs = length ts" "\<forall>r \<in> set rs. 0 \<le> fst r"
  shows "\<exists>ctx'. dash_run env ctx (DConnected # concat (map segment_ops rs)) = Some ctx' \<and> queued (dd_http ctx') [] \<and>
    map crlf_lines (ssl_writes (h_log (dd_http ctx'))) =
      map crlf_lines (ssl_writes (h_log (dd_http ctx))) @ map (\<lambda>t. request_lines (path @ t) host []) ts \<and>
    dd_log ctx' = dd_log ctx @ concat (map segment_events rs) @ [DashDone]"
proof -
  obtain t us where ts: "ts = t # us" using assms(3) by (cases ts) auto
  let ?c = "ctx\<lparr>dd_on_body := SegmentBody, dd_on_message_complete := SegmentComplete\<rparr>"
  have ok: "segment_ok t" "\<forall>t \<in> set us. segment_ok t" using assms(4) ts by simp_all
  have "streaming env path host [] (t # us) ?c" using assms(2) ts by (simp add: streaming_def)
  from next_requests[OF assms(1) this ok(1)] obtain d s where d: "ytdl_dl_dash_ctx_next_chunk env ?c = Some d"
    "streaming env path host [\<lparr>job_base = s, job_cb = 0\<rparr>] us d" "crlf_lines s = request_lines (path @ t) host []"
    "h_log (dd_http d) = h_log (dd_http ctx)" "dd_log d = dd_log ctx" "segment_handlers d" by auto
  have "length rs = Suc (length us)" using assms(5) ts by simp
  from stream_run[OF assms(1) d(2,6,3) ok(2) this assms(6)] show ?thesis
    using d(1,4,5) ts by (simp add: ytdl__dash_segment_connected_cb_def)
qed

definition demo_dash_env :: dash_env where
  "demo_dash_env = \<lparr>de_malloc = (\<lambda>n. Some (replicate n NUL)), de_realloc = (\<lambda>_ n. Some (replicate n NUL)), de_mem = (\<lambda>_. True),
     de_strdup = (\<lambda>_. True), de_uv_write = 0, de_uv_tcp_init = 0, de_inet_pton = (\<lambda>_ _. -1), de_ip_addr = 0, de_tcp_connect = 0,
     de_xml = demo_xml, de_xmlReadMemory = (\<lambda>_. None), de_on_pick_filter = ytdl_dash_get_best_representation demo_xml,
     de_on_data = Some (\<lambda>ctx _. Some ctx), de_on_segment_complete = Some Some, de_on_complete = Some Some, de_on_manifest = None\<rparr>"

lemma dash_download_witness:
  "\<exists>ctx ctx'. dash_run demo_dash_env ctx (DConnected # concat (map segment_ops [(0, [''ab'', ''c'']), (9, [''d''])])) = Some ctx' \<and>
     map hd (map crlf_lines (ssl_writes (h_log (dd_http ctx')))) = [''GET /p/i HTTP/1.1'', ''GET /p/1 HTTP/1.1''] \<and>
     dd_log ctx' = [DashData ''ab'', DashData ''c'', SegmentDone, DashData ''d'', SegmentDone, DashDone]"
proof -
  let ?s = "stream_0\<lparr>ds_initial_segment := Some (''i'' @ [NUL]), ds_segment_list := [XElement ''SegmentURL'' [(''media'', [XElement ''1'' [] []])] []]\<rparr>"
  let ?ctx = "\<lparr>dd_http = demo_client, dd_on_body = NoBody, dd_on_message_complete = NoComplete,
     dd_manifest = \<lparr>b_base = None, b_len = 0, b_size = 0\<rparr>, dd_on_close = None,
     dd_dash = \<lparr>dash_doc = None, dash_a = stream_0, dash_v = ?s\<rparr>, dd_manifest_path = Null, dd_manifest_host = Null,
     dd_manifest_path_len = 0, dd_manifest_host_len = 0, dd_host = Live (''h'' @ [NUL]), dd_host_len = 1,
     dd_path = Live (''/p/'' @ [NUL]), dd_path_len = 3, dd_is_shutdown = False, dd_is_dash_init = True, dd_is_video = True,
     dd_pause_between_chunks = False, dd_stopping = False, dd_log = []\<rparr>"
  have e: "dash_env_ok demo_dash_env" by (simp add: dash_env_ok_def demo_dash_env_def malloc_ok_def)
  have "pending demo_xml ?s [''i'', ''1'']" by (simp add: pending_def rest_segments_def segment_nodes_def stream_0_def demo_xml_def)
  hence s: "streaming demo_dash_env ''/p/'' ''h'' [] [''i'', ''1''] ?ctx"
    by (simp add: streaming_def demo_dash_env_def demo_client_def queued_def stream_of_def plain_part_def part_chars_def uchar_def)
  have "\<forall>t \<in> set [''i'', ''1'']. segment_ok t" by (simp add: segment_ok_def uchar_def)
  from dash_download[OF e s _ this, of "[(0, [''ab'', ''c'']), (9, [''d''])]"] obtain ctx' where
    m: "dash_run demo_dash_env ?ctx (DConnected # concat (map segment_ops [(0, [''ab'', ''c'']), (9, [''d''])])) = Some ctx'"
    "map crlf_lines (ssl_writes (h_log (dd_http ctx'))) = map (\<lambda>t. request_lines (''/p/'' @ t) ''h'' []) [''i'', ''1'']"
    "dd_log ctx' = concat (map segment_events [(0, [''ab'', ''c'']), (9, [''d''])]) @ [DashDone]"
    by (auto simp: demo_client_def)
  have "map hd (map crlf_lines (ssl_writes (h_log (dd_http ctx')))) = [''GET /p/i HTTP/1.1'', ''GET /p/1 HTTP/1.1'']"
    unfolding m(2) by (simp add: request_lines_def)
  moreover have "dd_log ctx' = [DashData ''ab'', DashData ''c'', SegmentDone, DashData ''d'', SegmentDone, DashDone]"
    using m(3) by (simp add: segment_events_def)
  ultimately show ?thesis using m(1) by (intro exI[of _ ?ctx] exI[of _ ctx'] conjI)
qed

end
