(* ===== verification/Sort.thy ===== *)
theory Sort
  imports Ytdl_Prelude "HOL-Library.Multiset"
begin

text \<open>
  The sort of \<open>src/cutils.c\<close>: \<open>rqsort\<close>, a quicksort with a partition in three parts, a stack of
  its own and insertion sort for short ranges, which turns to \<open>heapsortx\<close> when it goes deep.

  The array is the list of its elements and a pointer into it is the index of an element: the
  distance of a pointer from the base divided by \<open>size\<close>. The counts \<open>i\<close>, \<open>lt\<close> and \<open>gt\<close> that
  \<open>rqsort\<close> keeps beside \<open>pi\<close>, \<open>plt\<close> and \<open>pgt\<close> are their distances from \<open>ptr\<close>. That the exchange
  functions swap two elements is shown in the section on bytes. The comparison is a
  parameter, as in the code.
\<close>

section \<open>Elements\<close>

type_synonym 'a cmp_f = "'a \<Rightarrow> 'a \<Rightarrow> int"

definition cmp_at :: "'a cmp_f \<Rightarrow> 'a list \<Rightarrow> nat \<Rightarrow> nat \<Rightarrow> int option" where
  "cmp_at cmp xs i j = do { x \<leftarrow> rd xs i; y \<leftarrow> rd xs j; Some (cmp x y) }"

definition swap_at :: "'a list \<Rightarrow> nat \<Rightarrow> nat \<Rightarrow> 'a list option" where
  "swap_at xs i j = do { x \<leftarrow> rd xs i; y \<leftarrow> rd xs j; xs \<leftarrow> wr xs i y; wr xs j x }"

text \<open>\<open>swap_block\<close>: the elements of two ranges, one after the other.\<close>

fun swap_block :: "'a list \<Rightarrow> nat \<Rightarrow> nat \<Rightarrow> nat \<Rightarrow> 'a list option" where
  "swap_block xs a b 0 = Some xs"
| "swap_block xs a b (Suc n) = do { xs \<leftarrow> swap_at xs a b; swap_block xs (a + 1) (b + 1) n }"

section \<open>heapsortx\<close>

definition heap_child :: "'a cmp_f \<Rightarrow> 'a list \<Rightarrow> nat \<Rightarrow> nat \<Rightarrow> nat \<Rightarrow> nat option" where
  "heap_child cmp xs p n c =
     (if c < n - 1 then do { d \<leftarrow> cmp_at cmp xs (p + c) (p + c + 1); Some (if d \<le> 0 then c + 1 else c) } else Some c)"

lemma heap_child_bounds: "heap_child cmp xs p n c = Some c' \<Longrightarrow> c < n \<Longrightarrow> c \<le> c' \<and> c' < n \<and> (c' = c \<or> c' = c + 1)"
  by (auto simp: heap_child_def bind_eq_Some_conv split: if_splits)

function sift :: "'a cmp_f \<Rightarrow> 'a list \<Rightarrow> nat \<Rightarrow> nat \<Rightarrow> nat \<Rightarrow> 'a list option" where
  "sift cmp xs p n r =
     (if r * 2 + 1 < n
      then do { c \<leftarrow> heap_child cmp xs p n (r * 2 + 1);
                d \<leftarrow> cmp_at cmp xs (p + r) (p + c);
                if d > 0 then Some xs
                else do { xs \<leftarrow> swap_at xs (p + r) (p + c); sift cmp xs p n c } }
      else Some xs)"
  by auto
termination by (relation "measure (\<lambda>(cmp, xs, p, n, r). n - r)") (auto dest!: heap_child_bounds)

declare sift.simps [simp del]

fun heapify :: "'a cmp_f \<Rightarrow> 'a list \<Rightarrow> nat \<Rightarrow> nat \<Rightarrow> nat \<Rightarrow> 'a list option" where
  "heapify cmp xs p n 0 = Some xs"
| "heapify cmp xs p n (Suc i) = do { xs \<leftarrow> sift cmp xs p n i; heapify cmp xs p n i }"

fun drain :: "'a cmp_f \<Rightarrow> 'a list \<Rightarrow> nat \<Rightarrow> nat \<Rightarrow> 'a list option" where
  "drain cmp xs p 0 = Some xs"
| "drain cmp xs p (Suc i) =
     do { xs \<leftarrow> swap_at xs p (p + Suc i); xs \<leftarrow> sift cmp xs p (Suc i) 0; drain cmp xs p i }"

definition heapsortx :: "'a cmp_f \<Rightarrow> 'a list \<Rightarrow> nat \<Rightarrow> nat \<Rightarrow> 'a list option" where
  "heapsortx cmp xs p n =
     (if n > 1 then do { xs \<leftarrow> heapify cmp xs p n (n div 2); drain cmp xs p (n - 1) } else Some xs)"

section \<open>rqsort\<close>

definition med3 :: "'a cmp_f \<Rightarrow> 'a list \<Rightarrow> nat \<Rightarrow> nat \<Rightarrow> nat \<Rightarrow> nat option" where
  "med3 cmp xs a b c =
     do { ab \<leftarrow> cmp_at cmp xs a b; bc \<leftarrow> cmp_at cmp xs b c;
          if ab < 0
          then (if bc < 0 then Some b else do { ac \<leftarrow> cmp_at cmp xs a c; Some (if ac < 0 then c else a) })
          else (if bc > 0 then Some b else do { ac \<leftarrow> cmp_at cmp xs a c; Some (if ac < 0 then a else c) }) }"

text \<open>The two inner loops of the partition.\<close>

function scan_up :: "'a cmp_f \<Rightarrow> 'a list \<Rightarrow> nat \<Rightarrow> nat \<Rightarrow> nat \<Rightarrow> nat \<Rightarrow> ('a list \<times> nat \<times> nat) option" where
  "scan_up cmp xs ptr pi pj plt =
     (if pi < pj
      then do { c \<leftarrow> cmp_at cmp xs ptr pi;
                if c < 0 then Some (xs, pi, plt)
                else if c = 0 then do { xs \<leftarrow> swap_at xs plt pi; scan_up cmp xs ptr (pi + 1) pj (plt + 1) }
                else scan_up cmp xs ptr (pi + 1) pj plt }
      else Some (xs, pi, plt))"
  by auto
termination by (relation "measure (\<lambda>(cmp, xs, ptr, i, j, l). j - i)") auto

declare scan_up.simps [simp del]

function scan_down :: "'a cmp_f \<Rightarrow> 'a list \<Rightarrow> nat \<Rightarrow> nat \<Rightarrow> nat \<Rightarrow> nat \<Rightarrow> ('a list \<times> nat \<times> nat) option" where
  "scan_down cmp xs ptr pi pj pgt =
     (let pj = pj - 1 in
      if pi < pj
      then do { c \<leftarrow> cmp_at cmp xs ptr pj;
                if c > 0 then Some (xs, pj, pgt)
                else if c = 0 then do { xs \<leftarrow> swap_at xs (pgt - 1) pj; scan_down cmp xs ptr pi pj (pgt - 1) }
                else scan_down cmp xs ptr pi pj pgt }
      else Some (xs, pj, pgt))"
  by auto
termination by (relation "measure (\<lambda>(cmp, xs, ptr, i, j, g). j - i)") auto

declare scan_down.simps [simp del]

lemma scan_up_mono: "scan_up cmp xs ptr i j l = Some (ys, i', l') \<Longrightarrow> i \<le> i' \<and> l \<le> l' \<and> (i \<le> j \<longrightarrow> i' \<le> j)"
proof (induction cmp xs ptr i j l rule: scan_up.induct)
  case (1 cmp xs ptr i j l)
  show ?case using 1(3) by (subst (asm) scan_up.simps) (fastforce simp: bind_eq_Some_conv split: if_splits dest: 1(1,2)[simplified])
qed

lemma scan_down_mono: "scan_down cmp xs ptr i j g = Some (ys, j', g') \<Longrightarrow> j' \<le> j \<and> g' \<le> g"
proof (induction cmp xs ptr i j g rule: scan_down.induct)
  case (1 cmp xs ptr i j g)
  show ?case using 1(3) by (subst (asm) scan_down.simps) (fastforce simp: bind_eq_Some_conv Let_def split: if_splits dest: 1(1,2)[OF refl, simplified])
qed

text \<open>The scans alternate until they meet.\<close>

function scan_both :: "'a cmp_f \<Rightarrow> 'a list \<Rightarrow> nat \<Rightarrow> nat \<Rightarrow> nat \<Rightarrow> nat \<Rightarrow> nat \<Rightarrow> ('a list \<times> nat \<times> nat \<times> nat) option" where
  "scan_both cmp xs ptr pi pj plt pgt =
     do { (xs, pi, plt) \<leftarrow> scan_up cmp xs ptr pi pj plt;
          (xs, pj, pgt) \<leftarrow> scan_down cmp xs ptr pi pj pgt;
          if pi \<ge> pj then Some (xs, pi, plt, pgt)
          else do { xs \<leftarrow> swap_at xs pi pj; scan_both cmp xs ptr (pi + 1) pj plt pgt } }"
  by auto
termination by (relation "measure (\<lambda>(cmp, xs, ptr, i, j, l, g). j - i)") (auto dest!: scan_up_mono scan_down_mono)

declare scan_both.simps [simp del]

lemma scan_both_mono:
  "scan_both cmp xs ptr i j l g = Some (ys, i', l', g') \<Longrightarrow> i \<le> i' \<and> l \<le> l' \<and> (i \<le> j \<longrightarrow> i' \<le> j) \<and> g' \<le> g"
proof (induction cmp xs ptr i j l g rule: scan_both.induct)
  case (1 cmp xs ptr i j l g)
  obtain xs1 i1 l1 xs2 j2 g2 where u: "scan_up cmp xs ptr i j l = Some (xs1, i1, l1)" and d: "scan_down cmp xs1 ptr i1 j g = Some (xs2, j2, g2)"
    and r: "(if i1 \<ge> j2 then Some (xs2, i1, l1, g2) else do { xs \<leftarrow> swap_at xs2 i1 j2; scan_both cmp xs ptr (i1 + 1) j2 l1 g2 }) = Some (ys, i', l', g')"
    using 1(2) by (subst (asm) scan_both.simps) (auto simp: bind_eq_Some_conv)
  note m = scan_up_mono[OF u] scan_down_mono[OF d]
  show ?case
  proof (cases "i1 \<ge> j2")
    case False
    then obtain xs3 where "swap_at xs2 i1 j2 = Some xs3" "scan_both cmp xs3 ptr (i1 + 1) j2 l1 g2 = Some (ys, i', l', g')"
      using r by (auto simp: bind_eq_Some_conv)
    from 1(1)[OF u refl refl d refl refl False this] show ?thesis using m False by auto
  qed (use r m in auto)
qed

text \<open>One round: the pivot, the scans, and the elements equal to the pivot moved between the two parts.\<close>

definition partition3 :: "'a cmp_f \<Rightarrow> 'a list \<Rightarrow> nat \<Rightarrow> nat \<Rightarrow> ('a list \<times> nat \<times> nat) option" where
  "partition3 cmp xs ptr nmemb =
     (let m4 = nmemb div 4; top = ptr + nmemb in
      do { m \<leftarrow> med3 cmp xs (ptr + m4) (ptr + 2 * m4) (ptr + 3 * m4);
           xs \<leftarrow> swap_at xs ptr m;
           (xs, pi, plt, pgt) \<leftarrow> scan_both cmp xs ptr (ptr + 1) top (ptr + 1) top;
           let span = min (plt - ptr) (pi - plt);
           xs \<leftarrow> swap_block xs ptr (pi - span) span;
           let span2 = pgt - pi;
           let span = min (top - pgt) span2;
           xs \<leftarrow> swap_block xs pi (top - span) span;
           Some (xs, pi - plt, top - span2) })"

lemma partition3_shrinks: "partition3 cmp xs p n = Some (ys, lt, g) \<Longrightarrow> 0 < n \<Longrightarrow> lt + (p + n - g) < n \<and> p \<le> g"
  by (fastforce simp: partition3_def Let_def bind_eq_Some_conv dest: scan_both_mono)

record sort_range =
  sr_base :: nat
  sr_count :: nat
  sr_depth :: nat

definition STACK_SIZE :: nat where "STACK_SIZE = 50"

text \<open>A push on the local array, which has 50 entries; its top is the head of the list.\<close>

definition push_range :: "sort_range \<Rightarrow> sort_range list \<Rightarrow> sort_range list option" where
  "push_range r stack = (if length stack < STACK_SIZE then Some (r # stack) else None)"

function narrow :: "'a cmp_f \<Rightarrow> 'a list \<Rightarrow> sort_range list \<Rightarrow> nat \<Rightarrow> nat \<Rightarrow> nat \<Rightarrow> ('a list \<times> sort_range list \<times> nat \<times> nat) option" where
  "narrow cmp xs stack ptr nmemb depth =
     (if nmemb > 6
      then if depth + 1 > 50 then do { xs \<leftarrow> heapsortx cmp xs ptr nmemb; Some (xs, stack, ptr, 0) }
           else do { (xs, lt, pgt) \<leftarrow> partition3 cmp xs ptr nmemb;
                     if lt > ptr + nmemb - pgt
                     then do { stack \<leftarrow> push_range \<lparr>sr_base = ptr, sr_count = lt, sr_depth = depth + 1\<rparr> stack;
                               narrow cmp xs stack pgt (ptr + nmemb - pgt) (depth + 1) }
                     else do { stack \<leftarrow> push_range \<lparr>sr_base = pgt, sr_count = ptr + nmemb - pgt, sr_depth = depth + 1\<rparr> stack;
                               narrow cmp xs stack ptr lt (depth + 1) } }
      else Some (xs, stack, ptr, nmemb))"
  by auto
termination by (relation "measure (\<lambda>(cmp, xs, st, p, n, d). n)") (auto dest!: partition3_shrinks)

declare narrow.simps [simp del]

fun insert_back :: "'a cmp_f \<Rightarrow> 'a list \<Rightarrow> nat \<Rightarrow> nat \<Rightarrow> 'a list option" where
  "insert_back cmp xs ptr 0 = Some xs"
| "insert_back cmp xs ptr (Suc k) =
     do { c \<leftarrow> cmp_at cmp xs (ptr + k) (ptr + Suc k);
          if c > 0 then do { xs \<leftarrow> swap_at xs (ptr + Suc k) (ptr + k); insert_back cmp xs ptr k } else Some xs }"

function insertion :: "'a cmp_f \<Rightarrow> 'a list \<Rightarrow> nat \<Rightarrow> nat \<Rightarrow> nat \<Rightarrow> 'a list option" where
  "insertion cmp xs ptr nmemb k =
     (if k < nmemb then do { xs \<leftarrow> insert_back cmp xs ptr k; insertion cmp xs ptr nmemb (k + 1) } else Some xs)"
  by auto
termination by (relation "measure (\<lambda>(cmp, xs, p, n, k). n - k)") auto

declare insertion.simps [simp del]

abbreviation stack_work :: "sort_range list \<Rightarrow> nat" where
  "stack_work st \<equiv> sum_list (map (\<lambda>r. sr_count r + 1) st)"

lemma narrow_work: "narrow cmp xs st p n d = Some (ys, st', p', n') \<Longrightarrow> stack_work st' + n' \<le> stack_work st + n"
proof (induction cmp xs st p n d rule: narrow.induct)
  case (1 cmp xs st p n d)
  show ?case
  proof (cases "n > 6 \<and> d + 1 \<le> 50")
    case True
    then obtain xs1 lt g where q: "partition3 cmp xs p n = Some (xs1, lt, g)"
      and r: "(if lt > p + n - g
               then do { stack \<leftarrow> push_range \<lparr>sr_base = p, sr_count = lt, sr_depth = d + 1\<rparr> st; narrow cmp xs1 stack g (p + n - g) (d + 1) }
               else do { stack \<leftarrow> push_range \<lparr>sr_base = g, sr_count = p + n - g, sr_depth = d + 1\<rparr> st; narrow cmp xs1 stack p lt (d + 1) }) =
              Some (ys, st', p', n')"
      using 1(3) by (subst (asm) narrow.simps) (auto simp: bind_eq_Some_conv)
    have s: "lt + (p + n - g) < n" using partition3_shrinks[OF q] True by simp
    have c: "n > 6" "\<not> d + 1 > 50" using True by auto
    note IH = 1(1)[OF c q refl refl] 1(2)[OF c q refl refl]
    show ?thesis
    proof (cases "lt > p + n - g")
      case True
      with r IH(1)[OF True] s show ?thesis by (auto simp: bind_eq_Some_conv push_range_def split: if_splits)
    next
      case False
      with r IH(2)[OF False] s show ?thesis by (auto simp: bind_eq_Some_conv push_range_def split: if_splits)
    qed
  qed (use 1(3) in \<open>subst (asm) narrow.simps, auto simp: bind_eq_Some_conv split: if_splits\<close>)
qed

function sort_stack :: "'a cmp_f \<Rightarrow> 'a list \<Rightarrow> sort_range list \<Rightarrow> 'a list option" where
  "sort_stack cmp xs [] = Some xs"
| "sort_stack cmp xs (r # stack) =
     do { (xs, stack, ptr, nmemb) \<leftarrow> narrow cmp xs stack (sr_base r) (sr_count r) (sr_depth r);
          xs \<leftarrow> insertion cmp xs ptr nmemb 1;
          sort_stack cmp xs stack }"
  by pat_completeness auto
termination by (relation "measure (\<lambda>(cmp, xs, st). stack_work st)") (auto dest!: narrow_work)

text \<open>The array starts at \<open>base\<close>, element 0.\<close>

definition rqsort :: "'a cmp_f \<Rightarrow> 'a list \<Rightarrow> nat \<Rightarrow> nat \<Rightarrow> 'a list option" where
  "rqsort cmp xs nmemb sz =
     (if nmemb < 2 \<or> sz = 0 then Some xs else sort_stack cmp xs [\<lparr>sr_base = 0, sr_count = nmemb, sr_depth = 0\<rparr>])"

section \<open>Ranges of an array\<close>

text \<open>\<open>ys\<close> is \<open>xs\<close> with the elements of a range permuted.\<close>

definition within :: "nat \<Rightarrow> nat \<Rightarrow> 'a list \<Rightarrow> 'a list \<Rightarrow> bool" where
  "within a b xs ys \<longleftrightarrow> length ys = length xs \<and> mset ys = mset xs \<and> (\<forall>k < length xs. k < a \<or> b \<le> k \<longrightarrow> ys ! k = xs ! k)"

definition all_in :: "('a \<Rightarrow> bool) \<Rightarrow> 'a list \<Rightarrow> nat \<Rightarrow> nat \<Rightarrow> bool" where
  "all_in P xs a b \<longleftrightarrow> (\<forall>k. a \<le> k \<and> k < b \<longrightarrow> P (xs ! k))"

lemma within_refl [simp]: "within a b xs xs"
  by (simp add: within_def)

lemma within_trans: "within a b xs ys \<Longrightarrow> within a b ys zs \<Longrightarrow> within a b xs zs"
  by (simp add: within_def)

lemma within_mono: "within a b xs ys \<Longrightarrow> a' \<le> a \<Longrightarrow> b \<le> b' \<Longrightarrow> within a' b' xs ys"
  unfolding within_def by (meson le_less_trans not_le order_trans)

lemma within_length: "within a b xs ys \<Longrightarrow> length ys = length xs"
  by (simp add: within_def)

lemma within_mset: "within a b xs ys \<Longrightarrow> mset ys = mset xs"
  by (simp add: within_def)

lemma within_frame: "within a b xs ys \<Longrightarrow> k < a \<or> b \<le> k \<Longrightarrow> k < length xs \<Longrightarrow> ys ! k = xs ! k"
  by (auto simp: within_def)

lemma all_in_empty [simp]: "b \<le> a \<Longrightarrow> all_in P xs a b"
  by (auto simp: all_in_def)

lemma all_inD: "all_in P xs a b \<Longrightarrow> a \<le> k \<Longrightarrow> k < b \<Longrightarrow> P (xs ! k)"
  by (simp add: all_in_def)

lemma all_in_Suc: "all_in P xs a (Suc b) \<longleftrightarrow> (a \<le> b \<longrightarrow> P (xs ! b)) \<and> all_in P xs a b"
  unfolding all_in_def by (metis less_Suc_eq)

lemma all_in_first: "P (xs ! a) \<Longrightarrow> all_in P xs (a + 1) b \<Longrightarrow> all_in P xs a b"
  unfolding all_in_def by (metis Suc_eq_plus1 Suc_leI le_neq_implies_less)

lemma all_in_join: "all_in P xs a m \<Longrightarrow> all_in P xs m b \<Longrightarrow> all_in P xs a b"
  unfolding all_in_def by (meson not_le)

lemma all_in_weaken: "all_in P xs a b \<Longrightarrow> (\<And>x. P x \<Longrightarrow> Q x) \<Longrightarrow> a \<le> a' \<Longrightarrow> b' \<le> b \<Longrightarrow> all_in Q xs a' b'"
  by (simp add: all_in_def)

text \<open>What a permutation leaves alone keeps its elements in order, and what it permutes keeps its set of elements.\<close>

lemma all_in_frame: "within a b xs ys \<Longrightarrow> all_in P xs c d \<Longrightarrow> d \<le> a \<or> b \<le> c \<Longrightarrow> d \<le> length xs \<Longrightarrow> all_in P ys c d"
  unfolding all_in_def within_def by (metis le_trans less_le_trans)

lemma within_slice:
  assumes "within a b xs ys" "a \<le> b" "b \<le> length xs"
  shows "mset (take (b - a) (drop a ys)) = mset (take (b - a) (drop a xs))"
proof -
  have l: "length ys = length xs" using assms(1) by (simp add: within_def)
  have s: "zs = take a zs @ take (b - a) (drop a zs) @ drop b zs" for zs :: "'a list"
    using assms(2) by (metis append.assoc append_take_drop_id le_add_diff_inverse take_add)
  have "take a ys = take a xs" using assms l by (intro nth_equalityI) (auto simp: within_def)
  moreover have "drop b ys = drop b xs" using assms l by (intro nth_equalityI) (auto simp: within_def)
  ultimately have "mset (take a xs @ take (b - a) (drop a ys) @ drop b xs) = mset (take a xs @ take (b - a) (drop a xs) @ drop b xs)"
    using s[of xs] s[of ys] assms(1) by (simp add: within_def)
  thus ?thesis by simp
qed

lemma all_in_slice: "a \<le> b \<Longrightarrow> b \<le> length xs \<Longrightarrow> all_in P xs a b \<longleftrightarrow> (\<forall>x \<in> set (take (b - a) (drop a xs)). P x)"
proof -
  assume ab: "a \<le> b" "b \<le> length xs"
  have "take (b - a) (drop a xs) = map ((!) xs) [a..<b]" using ab by (intro nth_equalityI) auto
  thus ?thesis by (auto simp: all_in_def)
qed

lemma all_in_within:
  assumes "within a b xs ys" "b \<le> length xs" "all_in P xs c d" "c \<le> a" "b \<le> d" "d \<le> length xs"
  shows "all_in P ys c d"
proof -
  have w: "within c d xs ys" using within_mono[OF assms(1,4,5)] .
  show ?thesis
  proof (cases "c \<le> d")
    case True
    have "set (take (d - c) (drop c ys)) = set (take (d - c) (drop c xs))"
      using within_slice[OF w True assms(6)] by (metis set_mset_mset)
    thus ?thesis using assms(3) all_in_slice[OF True, of xs P] all_in_slice[OF True, of ys P] within_length[OF w] assms(6) by simp
  qed simp
qed

lemma swap_at_in: "i < length xs \<Longrightarrow> j < length xs \<Longrightarrow> swap_at xs i j = Some (xs[i := xs ! j, j := xs ! i])"
  by (simp add: swap_at_def)

lemma cmp_at_in [simp]: "i < length xs \<Longrightarrow> j < length xs \<Longrightarrow> cmp_at cmp xs i j = Some (cmp (xs ! i) (xs ! j))"
  by (simp add: cmp_at_def)

lemma swap_within:
  assumes "a \<le> i" "i < b" "a \<le> j" "j < b" "b \<le> length xs"
  shows "\<exists>ys. swap_at xs i j = Some ys \<and> within a b xs ys \<and> ys ! i = xs ! j \<and> ys ! j = xs ! i \<and>
    (\<forall>k < length xs. k \<noteq> i \<longrightarrow> k \<noteq> j \<longrightarrow> ys ! k = xs ! k)"
proof -
  have l: "i < length xs" "j < length xs" using assms by auto
  have "mset (xs[i := xs ! j, j := xs ! i]) = mset xs" using mset_swap[OF l(2,1)] by simp
  thus ?thesis using assms l by (auto simp: swap_at_in within_def nth_list_update)
qed

section \<open>The partition\<close>

text \<open>The three kinds of elements, seen from the pivot \<open>v\<close>.\<close>

abbreviation eq_to :: "'a cmp_f \<Rightarrow> 'a \<Rightarrow> 'a \<Rightarrow> bool" where "eq_to cmp v \<equiv> \<lambda>x. cmp v x = 0"
abbreviation below :: "'a cmp_f \<Rightarrow> 'a \<Rightarrow> 'a \<Rightarrow> bool" where "below cmp v \<equiv> \<lambda>x. cmp v x > 0"
abbreviation above :: "'a cmp_f \<Rightarrow> 'a \<Rightarrow> 'a \<Rightarrow> bool" where "above cmp v \<equiv> \<lambda>x. cmp v x < 0"

lemma scan_up_spec:
  assumes "ptr < l" "l \<le> i" "i \<le> j" "j \<le> length xs" "xs ! ptr = v"
    and "all_in (eq_to cmp v) xs (ptr + 1) l" "all_in (below cmp v) xs l i"
  shows "\<exists>ys i' l'. scan_up cmp xs ptr i j l = Some (ys, i', l') \<and> within l j xs ys \<and> l \<le> l' \<and> l' \<le> i' \<and> i \<le> i' \<and> i' \<le> j \<and>
    all_in (eq_to cmp v) ys (ptr + 1) l' \<and> all_in (below cmp v) ys l' i' \<and> (i' < j \<longrightarrow> above cmp v (ys ! i'))"
  using assms
proof (induction "j - i" arbitrary: xs i l rule: less_induct)
  case less
  note p = less.prems
  show ?case
  proof (cases "i < j")
    case False
    thus ?thesis using p by (subst scan_up.simps) auto
  next
    case ij: True
    let ?c = "cmp v (xs ! i)"
    have c: "cmp_at cmp xs ptr i = Some ?c" using p ij by auto
    have m: "j - (i + 1) < j - i" using ij by simp
    consider "?c < 0" | "?c > 0" | "?c = 0" by linarith
    thus ?thesis
    proof cases
      case 1
      thus ?thesis using p c ij by (subst scan_up.simps) auto
    next
      case 2
      have "all_in (below cmp v) xs l (i + 1)" using p(7) 2 by (simp add: all_in_Suc)
      with less.hyps[OF m, of l xs] p ij obtain ys i' l' where r: "scan_up cmp xs ptr (i + 1) j l = Some (ys, i', l')" "within l j xs ys"
        "l \<le> l'" "l' \<le> i'" "i + 1 \<le> i'" "i' \<le> j" "all_in (eq_to cmp v) ys (ptr + 1) l'" "all_in (below cmp v) ys l' i'" "i' < j \<longrightarrow> above cmp v (ys ! i')"
        by auto
      thus ?thesis using c ij 2 by (subst scan_up.simps) auto
    next
      case 3
      obtain zs where z: "swap_at xs l i = Some zs" "within l (i + 1) xs zs" "zs ! l = xs ! i" "zs ! i = xs ! l"
        "\<forall>k < length xs. k \<noteq> l \<longrightarrow> k \<noteq> i \<longrightarrow> zs ! k = xs ! k" using swap_within[of l l "i + 1" i xs] p ij by auto
      have len: "length zs = length xs" using within_length[OF z(2)] .
      have e: "all_in (eq_to cmp v) zs (ptr + 1) (l + 1)"
        using all_in_frame[OF z(2) p(6)] p z(3) 3 ij by (simp add: all_in_Suc)
      have b: "all_in (below cmp v) zs (l + 1) (i + 1)"
        unfolding all_in_def
      proof (intro allI impI)
        fix k assume k: "l + 1 \<le> k \<and> k < i + 1"
        show "cmp v (zs ! k) > 0"
        proof (cases "k = i")
          case True
          thus ?thesis using k z(4) all_inD[OF p(7), of l] by auto
        next
          case False
          hence "zs ! k = xs ! k" using z(5) k p ij by auto
          thus ?thesis using all_inD[OF p(7), of k] k False by auto
        qed
      qed
      have "zs ! ptr = v" using within_frame[OF z(2), of ptr] p ij by auto
      with less.hyps[OF m, of "l + 1" zs] p ij len e b obtain ys i' l' where r: "scan_up cmp zs ptr (i + 1) j (l + 1) = Some (ys, i', l')" "within (l + 1) j zs ys"
        "l + 1 \<le> l'" "l' \<le> i'" "i + 1 \<le> i'" "i' \<le> j" "all_in (eq_to cmp v) ys (ptr + 1) l'" "all_in (below cmp v) ys l' i'" "i' < j \<longrightarrow> above cmp v (ys ! i')"
        by auto
      have "within l j xs ys" using within_trans[OF within_mono[OF z(2)] within_mono[OF r(2)]] ij by auto
      thus ?thesis using c ij 3 z(1) r by (subst scan_up.simps) auto
    qed
  qed
qed

lemma scan_down_spec:
  assumes "ptr < i" "i \<le> j" "j \<le> g" "g \<le> hi" "hi \<le> length xs" "xs ! ptr = v"
    and "all_in (above cmp v) xs j g" "all_in (eq_to cmp v) xs g hi"
  shows "\<exists>ys j' g'. scan_down cmp xs ptr i j g = Some (ys, j', g') \<and> within (i + 1) hi xs ys \<and> i \<le> j' + 1 \<and> j' < j \<and> j' < g' \<and> g' \<le> g \<and>
    all_in (above cmp v) ys (j' + 1) g' \<and> all_in (eq_to cmp v) ys g' hi \<and> (i < j' \<longrightarrow> below cmp v (ys ! j'))"
  using assms
proof (induction j arbitrary: xs g)
  case (Suc j)
  note p = Suc.prems
  show ?case
  proof (cases "i < j")
    case False
    thus ?thesis using p by (subst scan_down.simps) (auto simp: Let_def)
  next
    case ij: True
    let ?c = "cmp v (xs ! j)"
    have c: "cmp_at cmp xs ptr j = Some ?c" using p ij by auto
    consider "?c > 0" | "?c < 0" | "?c = 0" by linarith
    thus ?thesis
    proof cases
      case 1
      thus ?thesis using p c ij by (subst scan_down.simps) (auto simp: Let_def)
    next
      case 2
      have "all_in (above cmp v) xs j g" unfolding all_in_def using p(7) 2 by (metis Suc_leI all_inD le_neq_implies_less)
      with Suc.IH[of g xs] p ij obtain ys j' g' where r: "scan_down cmp xs ptr i j g = Some (ys, j', g')" "within (i + 1) hi xs ys" "i \<le> j' + 1" "j' < j" "j' < g'" "g' \<le> g"
        "all_in (above cmp v) ys (j' + 1) g'" "all_in (eq_to cmp v) ys g' hi" "i < j' \<longrightarrow> below cmp v (ys ! j')" by auto
      thus ?thesis using c ij 2 by (subst scan_down.simps) (auto simp: Let_def)
    next
      case 3
      let ?g = "g - 1"
      have g: "j \<le> ?g" "g = Suc ?g" "?g < hi" "i + 1 \<le> ?g" "j < hi" "i + 1 \<le> j" using p ij by auto
      obtain zs where z: "swap_at xs ?g j = Some zs" "within (i + 1) hi xs zs" "zs ! ?g = xs ! j" "zs ! j = xs ! ?g"
        "\<forall>k < length xs. k \<noteq> ?g \<longrightarrow> k \<noteq> j \<longrightarrow> zs ! k = xs ! k" using swap_within[of "i + 1" ?g hi j xs] p(5) g by blast
      have len: "length zs = length xs" using within_length[OF z(2)] .
      have a: "all_in (above cmp v) zs j ?g"
        unfolding all_in_def
      proof (intro allI impI)
        fix k assume k: "j \<le> k \<and> k < ?g"
        show "cmp v (zs ! k) < 0"
        proof (cases "k = j")
          case True
          thus ?thesis using k z(4) all_inD[OF p(7), of ?g] by auto
        next
          case False
          hence "zs ! k = xs ! k" using z(5) k p by auto
          thus ?thesis using all_inD[OF p(7), of k] k False by auto
        qed
      qed
      have e: "all_in (eq_to cmp v) zs ?g hi"
        unfolding all_in_def
      proof (intro allI impI)
        fix k assume k: "?g \<le> k \<and> k < hi"
        show "cmp v (zs ! k) = 0"
        proof (cases "k = ?g")
          case False
          hence "zs ! k = xs ! k" using z(5) k p g by auto
          thus ?thesis using all_inD[OF p(8), of k] k False g by auto
        qed (use z(3) 3 in simp)
      qed
      have "zs ! ptr = v" using within_frame[OF z(2), of ptr] p ij by auto
      with Suc.IH[of ?g zs] p ij len a e g obtain ys j' g' where r: "scan_down cmp zs ptr i j ?g = Some (ys, j', g')" "within (i + 1) hi zs ys" "i \<le> j' + 1" "j' < j" "j' < g'" "g' \<le> ?g"
        "all_in (above cmp v) ys (j' + 1) g'" "all_in (eq_to cmp v) ys g' hi" "i < j' \<longrightarrow> below cmp v (ys ! j')" by auto
      have "within (i + 1) hi xs ys" using within_trans[OF z(2) r(2)] .
      thus ?thesis using c ij 3 z(1) r by (subst scan_down.simps) (auto simp: Let_def)
    qed
  qed
qed simp

lemma scan_both_spec:
  assumes "ptr < l" "l \<le> i" "i \<le> j" "j \<le> g" "g \<le> hi" "hi \<le> length xs" "xs ! ptr = v"
    and "all_in (eq_to cmp v) xs (ptr + 1) l" "all_in (below cmp v) xs l i"
    and "all_in (above cmp v) xs j g" "all_in (eq_to cmp v) xs g hi"
  shows "\<exists>ys i' l' g'. scan_both cmp xs ptr i j l g = Some (ys, i', l', g') \<and> within (ptr + 1) hi xs ys \<and>
    ptr < l' \<and> l' \<le> i' \<and> i' \<le> g' \<and> g' \<le> hi \<and> all_in (eq_to cmp v) ys (ptr + 1) l' \<and> all_in (below cmp v) ys l' i' \<and>
    all_in (above cmp v) ys i' g' \<and> all_in (eq_to cmp v) ys g' hi"
  using assms
proof (induction "j - i" arbitrary: xs i j l g rule: less_induct)
  case less
  note p = less.prems
  have jl: "j \<le> length xs" using p by auto
  obtain xs1 i1 l1 where u: "scan_up cmp xs ptr i j l = Some (xs1, i1, l1)" "within l j xs xs1" "l \<le> l1" "l1 \<le> i1" "i \<le> i1" "i1 \<le> j"
    "all_in (eq_to cmp v) xs1 (ptr + 1) l1" "all_in (below cmp v) xs1 l1 i1" "i1 < j \<longrightarrow> above cmp v (xs1 ! i1)"
    using scan_up_spec[of ptr l i j xs v cmp, OF p(1-3) jl p(7-9)] by blast
  have len1: "length xs1 = length xs" using within_length[OF u(2)] .
  have a1: "all_in (above cmp v) xs1 j g" "all_in (eq_to cmp v) xs1 g hi" using all_in_frame[OF u(2) p(10)] all_in_frame[OF u(2) p(11)] p by auto
  have v1: "xs1 ! ptr = v" using within_frame[OF u(2), of ptr] p by auto
  have pre: "ptr < i1" "g \<le> hi" "hi \<le> length xs1" using p u len1 by auto
  obtain xs2 j2 g2 where d: "scan_down cmp xs1 ptr i1 j g = Some (xs2, j2, g2)" "within (i1 + 1) hi xs1 xs2" "i1 \<le> j2 + 1" "j2 < j" "j2 < g2" "g2 \<le> g"
    "all_in (above cmp v) xs2 (j2 + 1) g2" "all_in (eq_to cmp v) xs2 g2 hi" "i1 < j2 \<longrightarrow> below cmp v (xs2 ! j2)"
    using scan_down_spec[of ptr i1 j g hi xs1 v cmp, OF pre(1) u(6) p(4) pre(2,3) v1 a1] by blast
  have len2: "length xs2 = length xs" using within_length[OF d(2)] len1 by simp
  have i1: "i1 < length xs1" if "i1 < hi" using that p len1 by auto
  have e2: "all_in (eq_to cmp v) xs2 (ptr + 1) l1" "all_in (below cmp v) xs2 l1 i1"
    using all_in_frame[OF d(2) u(7)] all_in_frame[OF d(2) u(8)] u p len1 by auto
  have w2: "within (ptr + 1) hi xs xs2"
    using within_trans[OF within_mono[OF u(2)] within_mono[OF d(2)]] p u by auto
  have at2: "xs2 ! i1 = xs1 ! i1" if "i1 < j" using within_frame[OF d(2), of i1] that p len1 by auto
  show ?case
  proof (cases "i1 \<ge> j2")
    case True
    have "all_in (above cmp v) xs2 i1 g2"
    proof (cases "i1 = j2")
      case i: True
      hence "above cmp v (xs2 ! i1)" using at2 u(9) d(4) by auto
      thus ?thesis using d(7) i by (simp add: all_in_first)
    next
      case False
      hence "i1 = j2 + 1" using True d(3) by simp
      thus ?thesis using d(7) by simp
    qed
    moreover have "scan_both cmp xs ptr i j l g = Some (xs2, i1, l1, g2)" using u(1) d(1) True by (subst scan_both.simps) simp
    moreover have "ptr < l1" "i1 \<le> g2" "g2 \<le> hi" using p u(3) True d(3-6) by auto
    ultimately show ?thesis using w2 e2 d(8) u(4) by blast
  next
    case False
    obtain zs where z: "swap_at xs2 i1 j2 = Some zs" "within i1 (j2 + 1) xs2 zs" "zs ! i1 = xs2 ! j2" "zs ! j2 = xs2 ! i1"
      using swap_within[of i1 i1 "j2 + 1" j2 xs2] False d p len2 by auto
    have len: "length zs = length xs" using within_length[OF z(2)] len2 by simp
    have b: "all_in (below cmp v) zs l1 (i1 + 1)"
      using all_in_frame[OF z(2) e2(2)] z(3) d(9) False len2 u d p by (auto simp: all_in_Suc)
    have "above cmp v (zs ! j2)" using z(4) at2 u(9) False d(4) by auto
    moreover have "all_in (above cmp v) zs (j2 + 1) g2" using all_in_frame[OF z(2) d(7)] d p len2 by auto
    ultimately have a: "all_in (above cmp v) zs j2 g2" by (rule all_in_first)
    have e: "all_in (eq_to cmp v) zs (ptr + 1) l1" "all_in (eq_to cmp v) zs g2 hi"
      using all_in_frame[OF z(2) e2(1)] all_in_frame[OF z(2) d(8)] u d p len2 by auto
    have vz: "zs ! ptr = v"
    proof -
      have "xs2 ! ptr = v" using within_frame[OF d(2), of ptr] v1 pre len1 p by auto
      thus ?thesis using within_frame[OF z(2), of ptr] pre len2 p by auto
    qed
    have m: "j2 - (i1 + 1) < j - i" using d(4) u(5) False by auto
    have q: "ptr < l1" "l1 \<le> i1 + 1" "i1 + 1 \<le> j2" "j2 \<le> g2" "g2 \<le> hi" "hi \<le> length zs" using p u False d len by auto
    from less.hyps[OF m q vz e(1) b a e(2)] obtain ys i' l' g' where r: "scan_both cmp zs ptr (i1 + 1) j2 l1 g2 = Some (ys, i', l', g')"
      "within (ptr + 1) hi zs ys" "ptr < l'" "l' \<le> i'" "i' \<le> g'" "g' \<le> hi" "all_in (eq_to cmp v) ys (ptr + 1) l'" "all_in (below cmp v) ys l' i'"
      "all_in (above cmp v) ys i' g'" "all_in (eq_to cmp v) ys g' hi" by blast
    have "scan_both cmp xs ptr i j l g = Some (ys, i', l', g')" using u(1) d(1) False z(1) r(1) by (subst scan_both.simps) simp
    moreover have "within (ptr + 1) hi xs ys"
    proof -
      have "within (ptr + 1) hi xs2 zs" using within_mono[OF z(2)] p u d by auto
      thus ?thesis using within_trans[OF within_trans[OF w2] r(2)] by blast
    qed
    ultimately show ?thesis using r by blast
  qed
qed

lemma swap_block_spec:
  assumes "a + n \<le> b" "b + n \<le> length xs"
  shows "\<exists>ys. swap_block xs a b n = Some ys \<and> within a (b + n) xs ys \<and>
    (\<forall>k < n. ys ! (a + k) = xs ! (b + k) \<and> ys ! (b + k) = xs ! (a + k)) \<and> (\<forall>k. a + n \<le> k \<and> k < b \<longrightarrow> ys ! k = xs ! k)"
  using assms
proof (induction n arbitrary: xs a b)
  case (Suc n)
  obtain zs where z: "swap_at xs a b = Some zs" "within a (b + Suc n) xs zs" "zs ! a = xs ! b" "zs ! b = xs ! a"
    "\<forall>k < length xs. k \<noteq> a \<longrightarrow> k \<noteq> b \<longrightarrow> zs ! k = xs ! k" using swap_within[of a a "b + Suc n" b xs] Suc.prems by auto
  have len: "length zs = length xs" using within_length[OF z(2)] .
  obtain ys where y: "swap_block zs (a + 1) (b + 1) n = Some ys" "within (a + 1) (b + 1 + n) zs ys"
    "\<forall>k < n. ys ! (a + 1 + k) = zs ! (b + 1 + k) \<and> ys ! (b + 1 + k) = zs ! (a + 1 + k)" "\<forall>k. a + 1 + n \<le> k \<and> k < b + 1 \<longrightarrow> ys ! k = zs ! k"
    using Suc.IH[of "a + 1" "b + 1" zs] Suc.prems len by auto
  have "ys ! (a + k) = xs ! (b + k) \<and> ys ! (b + k) = xs ! (a + k)" if k: "k < Suc n" for k
  proof (cases k)
    case 0
    have "ys ! a = zs ! a" using within_frame[OF y(2), of a] Suc.prems len by auto
    moreover have "ys ! b = zs ! b" using y(4) Suc.prems by auto
    ultimately show ?thesis using z(3,4) 0 by simp
  next
    case (Suc j)
    hence "ys ! (a + k) = zs ! (b + k) \<and> ys ! (b + k) = zs ! (a + k)" using y(3) k by auto
    moreover have "zs ! (b + k) = xs ! (b + k)" "zs ! (a + k) = xs ! (a + k)" using z(5) k Suc Suc.prems by auto
    ultimately show ?thesis by simp
  qed
  moreover have "ys ! k = xs ! k" if "a + Suc n \<le> k \<and> k < b" for k using y(4) z(5) that Suc.prems by auto
  moreover have "within a (b + Suc n) xs ys" using within_trans[OF z(2) within_mono[OF y(2)]] by auto
  ultimately show ?case using z(1) y(1) by simp
qed simp

text \<open>The shorter of two neighbouring ranges is exchanged with the end of the other: they change places.\<close>

lemma rotate_ranges:
  assumes "a \<le> m" "m \<le> b" "b \<le> length xs" "all_in P xs a m" "all_in Q xs m b" "s = min (m - a) (b - m)"
  shows "\<exists>ys. swap_block xs a (b - s) s = Some ys \<and> within a b xs ys \<and> all_in Q ys a (a + (b - m)) \<and> all_in P ys (a + (b - m)) b"
proof -
  have s: "s \<le> m - a" "s \<le> b - m" "s = m - a \<or> s = b - m" using assms(6) by auto
  obtain ys where y: "swap_block xs a (b - s) s = Some ys" "within a b xs ys"
    "\<forall>k < s. ys ! (a + k) = xs ! (b - s + k) \<and> ys ! (b - s + k) = xs ! (a + k)" "\<forall>k. a + s \<le> k \<and> k < b - s \<longrightarrow> ys ! k = xs ! k"
  proof -
    have "a + s \<le> b - s" "b - s + s = b" using assms(1,2) s by auto
    thus ?thesis using that swap_block_spec[of a s "b - s" xs] assms(3) by auto
  qed
  have "Q (ys ! k)" if k: "a \<le> k" "k < a + (b - m)" for k
  proof (cases "k < a + s")
    case True
    hence "ys ! k = xs ! (b - s + (k - a))" using y(3)[rule_format, of "k - a"] k by auto
    thus ?thesis using all_inD[OF assms(5), of "b - s + (k - a)"] True k s assms(1,2) by auto
  next
    case False
    hence "ys ! k = xs ! k" using y(4) k s assms(1,2) by auto
    thus ?thesis using all_inD[OF assms(5), of k] False k s assms(1,2) by auto
  qed
  moreover have "P (ys ! k)" if k: "a + (b - m) \<le> k" "k < b" for k
  proof (cases "k < b - s")
    case True
    hence "ys ! k = xs ! k" using y(4) k s assms(1,2) by auto
    thus ?thesis using all_inD[OF assms(4), of k] True k s assms(1,2) by auto
  next
    case False
    hence "ys ! k = xs ! (a + (k - (b - s)))" using y(3)[rule_format, of "k - (b - s)"] k s assms(1,2) by auto
    thus ?thesis using all_inD[OF assms(4), of "a + (k - (b - s))"] False k s assms(1,2) by auto
  qed
  ultimately show ?thesis using y(1,2) by (auto simp: all_in_def)
qed

lemma med3_in:
  assumes "a < length xs" "b < length xs" "c < length xs"
  shows "\<exists>m. med3 cmp xs a b c = Some m \<and> (m = a \<or> m = b \<or> m = c)"
  using assms by (simp add: med3_def)

text \<open>A round leaves the smaller elements, those equal to the pivot, and the greater elements; the middle is not empty.\<close>

definition split_at :: "'a cmp_f \<Rightarrow> 'a list \<Rightarrow> nat \<Rightarrow> nat \<Rightarrow> nat \<Rightarrow> nat \<Rightarrow> bool" where
  "split_at cmp xs a m g b \<longleftrightarrow> a \<le> m \<and> m < g \<and> g \<le> b \<and>
     (\<exists>v. all_in (below cmp v) xs a m \<and> all_in (\<lambda>x. cmp v x = 0 \<or> x = v) xs m g \<and> all_in (above cmp v) xs g b)"

lemma partition3_spec:
  assumes "6 < n" "p + n \<le> length xs"
  shows "\<exists>ys lt g. partition3 cmp xs p n = Some (ys, lt, g) \<and> within p (p + n) xs ys \<and> split_at cmp ys p (p + lt) g (p + n)"
proof -
  let ?m4 = "n div 4" let ?hi = "p + n"
  have m4: "p + 3 * ?m4 < ?hi" "p + 2 * ?m4 < ?hi" "p + ?m4 < ?hi" using assms(1) by linarith+
  then obtain m where m: "med3 cmp xs (p + ?m4) (p + 2 * ?m4) (p + 3 * ?m4) = Some m" "p \<le> m" "m < ?hi"
    using med3_in[of "p + ?m4" xs "p + 2 * ?m4" "p + 3 * ?m4" cmp] assms(2) by auto
  obtain xs1 where x1: "swap_at xs p m = Some xs1" "within p ?hi xs xs1" using swap_within[of p p ?hi m xs] m(2,3) assms by auto
  have len1: "length xs1 = length xs" using within_length[OF x1(2)] .
  define v where "v = xs1 ! p"
  obtain xs2 i l g where s: "scan_both cmp xs1 p (p + 1) ?hi (p + 1) ?hi = Some (xs2, i, l, g)" "within (p + 1) ?hi xs1 xs2"
    "p < l" "l \<le> i" "i \<le> g" "g \<le> ?hi" "all_in (eq_to cmp v) xs2 (p + 1) l" "all_in (below cmp v) xs2 l i"
    "all_in (above cmp v) xs2 i g" "all_in (eq_to cmp v) xs2 g ?hi"
    using scan_both_spec[of p "p + 1" "p + 1" ?hi ?hi ?hi xs1 v cmp] assms len1 by (auto simp: v_def)
  have len2: "length xs2 = length xs" using within_length[OF s(2)] len1 by simp
  let ?Q = "\<lambda>x. cmp v x = 0 \<or> x = v"
  have "xs2 ! p = v" using within_frame[OF s(2), of p] assms len1 by (simp add: v_def)
  moreover have "all_in ?Q xs2 (p + 1) l" using s(7) by (auto simp: all_in_def)
  ultimately have q: "all_in ?Q xs2 p l" using all_in_first[of ?Q xs2 p l] by simp
  have q2: "all_in ?Q xs2 g ?hi" using s(10) by (auto simp: all_in_def)
  have il: "i \<le> length xs2" using s(5,6) assms len2 by simp
  obtain xs3 where x3: "swap_block xs2 p (i - min (l - p) (i - l)) (min (l - p) (i - l)) = Some xs3" "within p i xs2 xs3"
    "all_in (below cmp v) xs3 p (p + (i - l))" "all_in ?Q xs3 (p + (i - l)) i"
    using rotate_ranges[OF less_imp_le[OF s(3)] s(4) il q s(8) refl] by blast
  have len3: "length xs3 = length xs" using within_length[OF x3(2)] len2 by simp
  have a3: "all_in (above cmp v) xs3 i g" "all_in ?Q xs3 g ?hi"
    using all_in_frame[OF x3(2) s(9)] all_in_frame[OF x3(2) q2] s(5,6) assms len2 by auto
  have hl: "?hi \<le> length xs3" using assms len3 by simp
  define k where "k = min (?hi - g) (g - i)"
  have k: "k = min (g - i) (?hi - g)" by (simp add: k_def)
  obtain xs4 where x4: "swap_block xs3 i (?hi - k) k = Some xs4" "within i ?hi xs3 xs4"
    "all_in ?Q xs4 i (i + (?hi - g))" "all_in (above cmp v) xs4 (i + (?hi - g)) ?hi"
    using rotate_ranges[OF s(5,6) hl a3 k] by blast
  have g: "?hi - (g - i) = i + (?hi - g)" using s(5,6) by auto
  have "partition3 cmp xs p n = Some (xs4, i - l, ?hi - (g - i))"
    unfolding partition3_def Let_def using m(1) x1(1) s(1) x3(1) x4(1)
    by (simp only: bind.bind_lunit prod.case k_def)
  moreover have "within p ?hi xs xs4"
  proof -
    have "within p ?hi xs1 xs2" "within p ?hi xs2 xs3" "within p ?hi xs3 xs4"
      using within_mono[OF s(2)] within_mono[OF x3(2)] within_mono[OF x4(2)] s(3-6) by auto
    thus ?thesis using x1(2) within_trans by blast
  qed
  moreover have "split_at cmp xs4 p (p + (i - l)) (?hi - (g - i)) ?hi"
    unfolding split_at_def g
  proof (intro conjI exI[of _ v])
    show "all_in (below cmp v) xs4 p (p + (i - l))" using all_in_frame[OF x4(2) x3(3)] s(3-6) assms len3 by auto
    have "all_in ?Q xs4 (p + (i - l)) i" using all_in_frame[OF x4(2) x3(4)] s(3-6) assms len3 by auto
    thus "all_in ?Q xs4 (p + (i - l)) (i + (?hi - g))" using all_in_join x4(3) by blast
  qed (use s(3-6) x4(4) in auto)
  ultimately show ?thesis by blast
qed

section \<open>Every step stays in its range\<close>

lemma insert_back_within:
  assumes "p + k < length xs"
  shows "\<exists>ys. insert_back cmp xs p k = Some ys \<and> within p (p + k + 1) xs ys"
  using assms
proof (induction k arbitrary: xs)
  case (Suc k)
  show ?case
  proof (cases "cmp (xs ! (p + k)) (xs ! (p + Suc k)) > 0")
    case True
    obtain zs where z: "swap_at xs (p + Suc k) (p + k) = Some zs" "within p (p + Suc k + 1) xs zs"
      using swap_within[of p "p + Suc k" "p + Suc k + 1" "p + k" xs] Suc.prems by auto
    obtain ys where y: "insert_back cmp zs p k = Some ys" "within p (p + k + 1) zs ys"
      using Suc.IH[of zs] within_length[OF z(2)] Suc.prems by auto
    have "within p (p + Suc k + 1) xs ys" using within_trans[OF z(2) within_mono[OF y(2)]] by auto
    thus ?thesis using True z(1) y(1) Suc.prems by simp
  qed (use Suc.prems in simp)
qed simp

lemma insertion_within:
  assumes "p + n \<le> length xs"
  shows "\<exists>ys. insertion cmp xs p n k = Some ys \<and> within p (p + n) xs ys"
  using assms
proof (induction "n - k" arbitrary: xs k)
  case (Suc d)
  hence k: "k < n" by simp
  obtain zs where z: "insert_back cmp xs p k = Some zs" "within p (p + k + 1) xs zs" using insert_back_within[of p k xs cmp] k Suc.prems by auto
  have "d = n - (k + 1)" using Suc.hyps(2) by simp
  with Suc.hyps(1)[of "k + 1" zs] within_length[OF z(2)] Suc.prems obtain ys where
    y: "insertion cmp zs p n (k + 1) = Some ys" "within p (p + n) zs ys" by auto
  have "within p (p + n) xs ys" using within_trans[OF within_mono[OF z(2)] y(2)] k by auto
  thus ?case using k z(1) y(1) by (subst insertion.simps) auto
qed (subst insertion.simps, simp)

lemma sift_within:
  assumes "p + n \<le> length xs" "r < n"
  shows "\<exists>ys. sift cmp xs p n r = Some ys \<and> within p (p + n) xs ys"
  using assms
proof (induction "n - r" arbitrary: xs r rule: less_induct)
  case less
  show ?case
  proof (cases "r * 2 + 1 < n")
    case True
    hence "\<exists>c. heap_child cmp xs p n (r * 2 + 1) = Some c" using less.prems(1) by (simp add: heap_child_def)
    then obtain c where c: "heap_child cmp xs p n (r * 2 + 1) = Some c" ..
    hence b: "r < c" "c < n" using heap_child_bounds[OF c True] by auto
    obtain zs where z: "swap_at xs (p + r) (p + c) = Some zs" "within p (p + n) xs zs"
      using swap_within[of p "p + r" "p + n" "p + c" xs] b less.prems by auto
    have "n - c < n - r" using b by simp
    with less.hyps[OF this, of zs] within_length[OF z(2)] b less.prems obtain ys where
      y: "sift cmp zs p n c = Some ys" "within p (p + n) zs ys" by auto
    have cm: "cmp_at cmp xs (p + r) (p + c) = Some (cmp (xs ! (p + r)) (xs ! (p + c)))" using b less.prems by simp
    show ?thesis using True c z(1) y cm within_trans[OF z(2)] by (subst sift.simps) auto
  qed (subst sift.simps, simp)
qed

lemma heapify_within:
  assumes "p + n \<le> length xs" "k \<le> n"
  shows "\<exists>ys. heapify cmp xs p n k = Some ys \<and> within p (p + n) xs ys"
  using assms
proof (induction k arbitrary: xs)
  case (Suc k)
  obtain zs where z: "sift cmp xs p n k = Some zs" "within p (p + n) xs zs" using sift_within[of p n xs k cmp] Suc.prems by auto
  then obtain ys where "heapify cmp zs p n k = Some ys" "within p (p + n) zs ys" using Suc.IH[of zs] within_length[OF z(2)] Suc.prems by auto
  thus ?case using z within_trans[OF z(2)] by auto
qed simp

lemma drain_within:
  assumes "p + i < length xs"
  shows "\<exists>ys. drain cmp xs p i = Some ys \<and> within p (p + i + 1) xs ys"
  using assms
proof (induction i arbitrary: xs)
  case (Suc i)
  obtain zs where z: "swap_at xs p (p + Suc i) = Some zs" "within p (p + Suc i + 1) xs zs"
    using swap_within[of p p "p + Suc i + 1" "p + Suc i" xs] Suc.prems by auto
  obtain ws where w: "sift cmp zs p (Suc i) 0 = Some ws" "within p (p + Suc i) zs ws"
    using sift_within[of p "Suc i" zs 0 cmp] within_length[OF z(2)] Suc.prems by auto
  obtain ys where y: "drain cmp ws p i = Some ys" "within p (p + i + 1) ws ys"
    using Suc.IH[of ws] within_length[OF z(2)] within_length[OF w(2)] Suc.prems by auto
  have "within p (p + Suc i + 1) xs ys" using within_trans[OF within_trans[OF z(2) within_mono[OF w(2)]] within_mono[OF y(2)]] by auto
  thus ?case using z(1) w(1) y(1) by simp
qed simp

lemma heapsortx_within:
  assumes "p + n \<le> length xs"
  shows "\<exists>ys. heapsortx cmp xs p n = Some ys \<and> within p (p + n) xs ys"
proof (cases "n > 1")
  case True
  obtain zs where z: "heapify cmp xs p n (n div 2) = Some zs" "within p (p + n) xs zs" using heapify_within[OF assms, of "n div 2" cmp] by auto
  obtain ys where "drain cmp zs p (n - 1) = Some ys" "within p (p + (n - 1) + 1) zs ys"
  proof -
    have "p + (n - 1) < length zs" using within_length[OF z(2)] True assms by linarith
    thus ?thesis using that drain_within[of p "n - 1" zs cmp] by blast
  qed
  thus ?thesis using True z within_trans[OF z(2)] by (auto simp: heapsortx_def)
qed (simp add: heapsortx_def)

section \<open>Sorting by an ordering\<close>

text \<open>
  What the sort relies on: the sign of the comparison says how two elements are ordered, and the
  order is transitive.
\<close>

locale ordering_cmp =
  fixes cmp :: "'a \<Rightarrow> 'a \<Rightarrow> int"
  assumes flip: "cmp x y > 0 \<longleftrightarrow> cmp y x < 0"
    and le_trans: "cmp x y \<le> 0 \<Longrightarrow> cmp y z \<le> 0 \<Longrightarrow> cmp x z \<le> 0"

definition sorted_in :: "'a cmp_f \<Rightarrow> 'a list \<Rightarrow> nat \<Rightarrow> nat \<Rightarrow> bool" where
  "sorted_in cmp xs a b \<longleftrightarrow> (\<forall>i j. a \<le> i \<and> i < j \<and> j < b \<longrightarrow> cmp (xs ! i) (xs ! j) \<le> 0)"

text \<open>Every element of the range \<open>[a, m)\<close> is at most every element of \<open>[m, b)\<close>.\<close>

definition bounded_in :: "'a cmp_f \<Rightarrow> 'a list \<Rightarrow> nat \<Rightarrow> nat \<Rightarrow> nat \<Rightarrow> bool" where
  "bounded_in cmp xs a m b \<longleftrightarrow> (\<forall>i j. a \<le> i \<and> i < m \<and> m \<le> j \<and> j < b \<longrightarrow> cmp (xs ! i) (xs ! j) \<le> 0)"

lemma sorted_in_join: "sorted_in cmp xs a m \<Longrightarrow> sorted_in cmp xs m b \<Longrightarrow> bounded_in cmp xs a m b \<Longrightarrow> sorted_in cmp xs a b"
  unfolding sorted_in_def bounded_in_def by (meson not_le)

lemma sorted_in_single [simp]: "b \<le> a + 1 \<Longrightarrow> sorted_in cmp xs a b"
  by (auto simp: sorted_in_def)

lemma sorted_in_mono: "sorted_in cmp xs a b \<Longrightarrow> a \<le> a' \<Longrightarrow> b' \<le> b \<Longrightarrow> sorted_in cmp xs a' b'"
  by (simp add: sorted_in_def)

lemma sorted_in_frame: "within a b xs ys \<Longrightarrow> sorted_in cmp xs c d \<Longrightarrow> d \<le> a \<or> b \<le> c \<Longrightarrow> d \<le> length xs \<Longrightarrow> sorted_in cmp ys c d"
  by (auto simp: sorted_in_def within_def)

text \<open>A heap from the index \<open>k\<close> on, in an array of \<open>n\<close> elements that begins at \<open>p\<close>.\<close>

definition child_of :: "nat \<Rightarrow> nat \<Rightarrow> bool" where
  "child_of r c \<longleftrightarrow> c = 2 * r + 1 \<or> c = 2 * r + 2"

definition heap_from :: "'a cmp_f \<Rightarrow> 'a list \<Rightarrow> nat \<Rightarrow> nat \<Rightarrow> nat \<Rightarrow> bool" where
  "heap_from cmp xs p n k \<longleftrightarrow> (\<forall>r c. k \<le> r \<and> child_of r c \<and> c < n \<longrightarrow> cmp (xs ! (p + c)) (xs ! (p + r)) \<le> 0)"

text \<open>A heap but for the element at \<open>r\<close>, which may be too small.\<close>

definition heap_but :: "'a cmp_f \<Rightarrow> 'a list \<Rightarrow> nat \<Rightarrow> nat \<Rightarrow> nat \<Rightarrow> nat \<Rightarrow> bool" where
  "heap_but cmp xs p n k r \<longleftrightarrow>
     (\<forall>q c. k \<le> q \<and> q \<noteq> r \<and> child_of q c \<and> c < n \<longrightarrow> cmp (xs ! (p + c)) (xs ! (p + q)) \<le> 0) \<and>
     (\<forall>q c. k \<le> q \<and> child_of q r \<and> child_of r c \<and> c < n \<longrightarrow> cmp (xs ! (p + c)) (xs ! (p + q)) \<le> 0)"

lemma child_of_parent: "child_of q c \<Longrightarrow> child_of r c \<Longrightarrow> q = r"
  by (auto simp: child_of_def)

lemma child_of_less: "child_of q c \<Longrightarrow> q < c"
  by (auto simp: child_of_def)

context ordering_cmp
begin

lemma refl_le [simp]: "cmp x x = 0"
  using flip[of x x] by auto

lemma flip_le: "\<not> cmp x y \<le> 0 \<Longrightarrow> cmp y x \<le> 0"
  using flip[of x y] by auto

lemma insert_back_sorts:
  assumes "sorted_in cmp xs p (p + k)" "sorted_in cmp xs (p + k) (p + m)" "\<forall>i j. p \<le> i \<and> i < p + k \<and> p + k < j \<and> j < p + m \<longrightarrow> cmp (xs ! i) (xs ! j) \<le> 0"
    and "k < m" "p + m \<le> length xs" "insert_back cmp xs p k = Some ys"
  shows "sorted_in cmp ys p (p + m)"
  using assms
proof (induction k arbitrary: xs)
  case (Suc k)
  note pr = Suc.prems
  show ?case
  proof (cases "cmp (xs ! (p + k)) (xs ! (p + Suc k)) > 0")
    case True
    let ?x = "xs ! (p + Suc k)" let ?y = "xs ! (p + k)"
    obtain zs where z: "swap_at xs (p + Suc k) (p + k) = Some zs" "insert_back cmp zs p k = Some ys" using pr(4-6) True by (auto simp: bind_eq_Some_conv)
    hence zs: "zs = xs[p + Suc k := ?y, p + k := ?x]" using pr(4,5) by (simp add: swap_at_in)
    have n: "zs ! (p + k) = ?x" "zs ! (p + Suc k) = ?y" "\<And>i. i \<noteq> p + k \<Longrightarrow> i \<noteq> p + Suc k \<Longrightarrow> zs ! i = xs ! i" "length zs = length xs"
      using pr(4,5) by (simp_all add: zs nth_list_update)
    have xy: "cmp ?x ?y \<le> 0" using flip True by force
    have up: "cmp ?x (zs ! j) \<le> 0" if "p + k < j" "j < p + m" for j
    proof (cases "j = p + Suc k")
      case False
      hence "zs ! j = xs ! j" using n(3) that by auto
      moreover have "cmp ?x (xs ! j) \<le> 0" using pr(2) that False unfolding sorted_in_def by auto
      ultimately show ?thesis by simp
    qed (use n(2) xy in simp)
    have s1: "sorted_in cmp zs p (p + k)" using pr(1) n(3) unfolding sorted_in_def by auto
    have s2: "sorted_in cmp zs (p + k) (p + m)"
      unfolding sorted_in_def
    proof (intro allI impI)
      fix i j assume ij: "p + k \<le> i \<and> i < j \<and> j < p + m"
      consider "i = p + k" | "i = p + Suc k" | "p + Suc k < i" using ij by linarith
      thus "cmp (zs ! i) (zs ! j) \<le> 0"
      proof cases
        case 1
        thus ?thesis using up n(1) ij by simp
      next
        case 2
        have "cmp ?y (xs ! j) \<le> 0" using pr(3) ij 2 by auto
        thus ?thesis using n(2,3) 2 ij by auto
      next
        case 3
        thus ?thesis using pr(2) n(3) ij unfolding sorted_in_def by auto
      qed
    qed
    have s3: "\<forall>i j. p \<le> i \<and> i < p + k \<and> p + k < j \<and> j < p + m \<longrightarrow> cmp (zs ! i) (zs ! j) \<le> 0"
    proof (intro allI impI)
      fix i j assume ij: "p \<le> i \<and> i < p + k \<and> p + k < j \<and> j < p + m"
      hence i: "zs ! i = xs ! i" using n(3) by auto
      show "cmp (zs ! i) (zs ! j) \<le> 0"
      proof (cases "j = p + Suc k")
        case True
        thus ?thesis using pr(1) ij i n(2) unfolding sorted_in_def by auto
      next
        case False
        thus ?thesis using pr(3) ij i n(3) by auto
      qed
    qed
    show ?thesis using Suc.IH[OF s1 s2 s3 _ _ z(2)] pr(4,5) n(4) by simp
  next
    case False
    hence y: "ys = xs" using pr(4-6) by simp
    have "bounded_in cmp xs p (p + Suc k) (p + m)"
      unfolding bounded_in_def
    proof (intro allI impI)
      fix i j assume ij: "p \<le> i \<and> i < p + Suc k \<and> p + Suc k \<le> j \<and> j < p + m"
      have "cmp (xs ! i) (xs ! (p + Suc k)) \<le> 0"
      proof (cases "i = p + k")
        case i: False
        hence "cmp (xs ! i) (xs ! (p + k)) \<le> 0" using pr(1) ij unfolding sorted_in_def by auto
        thus ?thesis using le_trans[of _ "xs ! (p + k)"] False by simp
      qed (use False in simp)
      thus "cmp (xs ! i) (xs ! j) \<le> 0" using pr(3) ij by (cases "j = p + Suc k") auto
    qed
    thus ?thesis using sorted_in_join pr(1,2) y by blast
  qed
qed simp

lemma insertion_sorts:
  assumes "sorted_in cmp xs p (p + k)" "k \<le> n" "p + n \<le> length xs" "insertion cmp xs p n k = Some ys"
  shows "sorted_in cmp ys p (p + n)"
  using assms
proof (induction "n - k" arbitrary: xs k)
  case 0
  thus ?case by (subst (asm) insertion.simps) simp
next
  case (Suc d)
  hence k: "k < n" by simp
  obtain zs where z: "insert_back cmp xs p k = Some zs" "insertion cmp zs p n (k + 1) = Some ys"
    using Suc.prems(4) k by (subst (asm) insertion.simps) (auto simp: bind_eq_Some_conv)
  have "within p (p + k + 1) xs zs" using insert_back_within[of p k xs cmp] k Suc.prems z(1) by auto
  hence l: "length zs = length xs" by (rule within_length)
  have "sorted_in cmp zs p (p + (k + 1))" using insert_back_sorts[OF Suc.prems(1) _ _ _ _ z(1), of "k + 1"] k Suc.prems by auto
  thus ?case using Suc.hyps(1)[of "k + 1" zs] Suc.hyps(2) z(2) k Suc.prems l by simp
qed

lemma heap_root:
  assumes "heap_from cmp xs p n 0" "c < n"
  shows "cmp (xs ! (p + c)) (xs ! p) \<le> 0"
  using assms(2)
proof (induction c rule: less_induct)
  case (less c)
  show ?case
  proof (cases "c = 0")
    case False
    let ?q = "(c - 1) div 2"
    have q: "child_of ?q c" "?q < c" using False by (auto simp: child_of_def)
    have "cmp (xs ! (p + c)) (xs ! (p + ?q)) \<le> 0" using assms(1) q(1) less.prems by (simp add: heap_from_def)
    moreover have "cmp (xs ! (p + ?q)) (xs ! p) \<le> 0" using less.IH[OF q(2)] q(2) less.prems by simp
    ultimately show ?thesis by (rule le_trans)
  qed simp
qed

lemma sift_heap:
  assumes "heap_but cmp xs p n k r" "k \<le> r" "r < n" "p + n \<le> length xs" "sift cmp xs p n r = Some ys"
  shows "heap_from cmp ys p n k"
  using assms
proof (induction "n - r" arbitrary: xs r rule: less_induct)
  case less
  note pr = less.prems
  have ord: "cmp (xs ! (p + c)) (xs ! (p + q)) \<le> 0" if "k \<le> q" "q \<noteq> r" "child_of q c" "c < n" for q c
    using pr(1) that by (simp add: heap_but_def)
  have par: "cmp (xs ! (p + c)) (xs ! (p + q)) \<le> 0" if "k \<le> q" "child_of q r" "child_of r c" "c < n" for q c
    using pr(1) that by (simp add: heap_but_def)
  show ?case
  proof (cases "r * 2 + 1 < n")
    case False
    hence "ys = xs" using pr(5) by (subst (asm) sift.simps) simp
    moreover have "q \<noteq> r" if "child_of q c" "c < n" for q c using that False by (auto simp: child_of_def)
    ultimately show ?thesis using ord by (simp add: heap_from_def)
  next
    case True
    obtain c where c: "heap_child cmp xs p n (r * 2 + 1) = Some c"
      and s: "(if cmp (xs ! (p + r)) (xs ! (p + c)) > 0 then Some xs else do { xs \<leftarrow> swap_at xs (p + r) (p + c); sift cmp xs p n c }) = Some ys"
    proof -
      obtain c where c: "heap_child cmp xs p n (r * 2 + 1) = Some c" using pr(5) True by (subst (asm) sift.simps) (auto simp: bind_eq_Some_conv)
      have "c < n" using heap_child_bounds[OF c True] by simp
      thus ?thesis using that c pr(3-5) True by (subst (asm) sift.simps) simp
    qed
    have b: "r < c" "c < n" "child_of r c" using heap_child_bounds[OF c True] by (auto simp: child_of_def)
    have mx: "cmp (xs ! (p + d)) (xs ! (p + c)) \<le> 0" if d: "child_of r d" "d < n" for d
    proof (cases "r * 2 + 1 < n - 1")
      case True
      let ?a = "xs ! (p + (2 * r + 1))" let ?b = "xs ! (p + (2 * r + 2))"
      have "c = (if cmp ?a ?b \<le> 0 then r * 2 + 2 else r * 2 + 1)" using c True pr(4) by (auto simp: heap_child_def mult.commute split: if_splits)
      thus ?thesis using d(1) flip_le[of ?a ?b] by (auto simp: child_of_def mult.commute)
    next
      case False
      hence "d = 2 * r + 1" "c = r * 2 + 1" using d c by (auto simp: child_of_def heap_child_def)
      thus ?thesis by (simp add: mult.commute)
    qed
    show ?thesis
    proof (cases "cmp (xs ! (p + r)) (xs ! (p + c)) > 0")
      case True
      hence "ys = xs" using s by simp
      moreover have "cmp (xs ! (p + c)) (xs ! (p + r)) \<le> 0" using flip True by force
      hence "cmp (xs ! (p + d)) (xs ! (p + r)) \<le> 0" if "child_of r d" "d < n" for d using le_trans[OF mx[OF that]] by simp
      ultimately show ?thesis using ord unfolding heap_from_def by blast
    next
      case False
      let ?zs = "xs[p + r := xs ! (p + c), p + c := xs ! (p + r)]"
      have st: "sift cmp ?zs p n c = Some ys" using s False b pr(4) by (simp add: swap_at_in)
      have at: "?zs ! (p + r) = xs ! (p + c)" "?zs ! (p + c) = xs ! (p + r)" "\<And>i. i < n \<Longrightarrow> i \<noteq> r \<Longrightarrow> i \<noteq> c \<Longrightarrow> ?zs ! (p + i) = xs ! (p + i)"
        using b pr(3,4) by (simp_all add: nth_list_update)
      have "heap_but cmp ?zs p n k c"
        unfolding heap_but_def
      proof (intro conjI allI impI)
        fix q d assume q: "k \<le> q \<and> q \<noteq> c \<and> child_of q d \<and> d < n"
        hence qn: "q < n" using child_of_less[of q d] by simp
        show "cmp (?zs ! (p + d)) (?zs ! (p + q)) \<le> 0"
        proof (cases "q = r")
          case True
          hence dr: "d \<noteq> r" using q child_of_less[of q d] by auto
          show ?thesis
          proof (cases "d = c")
            case True
            thus ?thesis using at(1,2) False \<open>q = r\<close> by simp
          next
            case dc: False
            have "?zs ! (p + d) = xs ! (p + d)" using at(3) q dr dc by simp
            thus ?thesis using at(1) mx[of d] q \<open>q = r\<close> by simp
          qed
        next
          case qr: False
          have zq: "?zs ! (p + q) = xs ! (p + q)" using at(3) qn qr q by simp
          have "d \<noteq> c" using child_of_parent[of q d r] b(3) q qr by auto
          show ?thesis
          proof (cases "d = r")
            case True
            thus ?thesis using at(1) zq par[of q c] q b by simp
          next
            case False
            have "?zs ! (p + d) = xs ! (p + d)" using at(3) q False \<open>d \<noteq> c\<close> by simp
            thus ?thesis using zq ord[of q d] q qr by simp
          qed
        qed
      next
        fix q d assume q: "k \<le> q \<and> child_of q c \<and> child_of c d \<and> d < n"
        have "q = r" using child_of_parent q b(3) by blast
        have "r < d" "c < d" using child_of_less[of c d] q b(1) by auto
        hence "?zs ! (p + d) = xs ! (p + d)" using at(3) q by simp
        thus "cmp (?zs ! (p + d)) (?zs ! (p + q)) \<le> 0" using at(1) \<open>q = r\<close> ord[of c d] q b(1) pr(2) by simp
      qed
      moreover have "n - c < n - r" "k \<le> c" using b pr(2) by auto
      ultimately show ?thesis using less.hyps[of c ?zs] st b pr(4) by simp
    qed
  qed
qed

lemma heapify_heap:
  assumes "heap_from cmp xs p n k" "k \<le> n" "p + n \<le> length xs" "heapify cmp xs p n k = Some ys"
  shows "heap_from cmp ys p n 0"
  using assms
proof (induction k arbitrary: xs)
  case (Suc k)
  obtain zs where z: "sift cmp xs p n k = Some zs" "heapify cmp zs p n k = Some ys" using Suc.prems(4) by (auto simp: bind_eq_Some_conv)
  have "q < k" if "child_of q k" for q using child_of_less[OF that] .
  hence b: "heap_but cmp xs p n k k" using Suc.prems(1) unfolding heap_but_def heap_from_def
    by (metis Suc_leI le_neq_implies_less not_le)
  have "within p (p + n) xs zs" using sift_within[of p n xs k cmp] Suc.prems z(1) by auto
  hence "length zs = length xs" by (rule within_length)
  thus ?case using Suc.IH[of zs] sift_heap[OF b _ _ _ z(1)] z(2) Suc.prems by simp
qed simp

lemma bounded_within:
  assumes "within a m xs ys" "bounded_in cmp xs a m b" "m \<le> b" "b \<le> length xs"
  shows "bounded_in cmp ys a m b"
  unfolding bounded_in_def
proof (intro allI impI)
  fix i j assume ij: "a \<le> i \<and> i < m \<and> m \<le> j \<and> j < b"
  have j: "ys ! j = xs ! j" using within_frame[OF assms(1), of j] ij assms(4) by auto
  have "all_in (\<lambda>x. cmp x (xs ! j) \<le> 0) xs a m" using assms(2) ij by (auto simp: all_in_def bounded_in_def)
  hence "all_in (\<lambda>x. cmp x (xs ! j) \<le> 0) ys a m" using all_in_within[OF assms(1)] assms(3,4) by auto
  from all_inD[OF this, of i] show "cmp (ys ! i) (ys ! j) \<le> 0" using ij j by simp
qed

lemma drain_sorts:
  assumes "heap_from cmp xs p (i + 1) 0" "sorted_in cmp xs (p + i + 1) (p + n)" "bounded_in cmp xs p (p + i + 1) (p + n)"
    and "i < n" "p + n \<le> length xs" "drain cmp xs p i = Some ys"
  shows "sorted_in cmp ys p (p + n)"
  using assms
proof (induction i arbitrary: xs)
  case 0
  hence "ys = xs" by simp
  thus ?case using sorted_in_join[of cmp xs p "p + 1" "p + n"] 0 by simp
next
  case (Suc i)
  note pr = Suc.prems
  let ?zs = "xs[p := xs ! (p + Suc i), p + Suc i := xs ! p]" let ?e = "p + Suc i"
  obtain ws where w: "sift cmp ?zs p (Suc i) 0 = Some ws" "drain cmp ws p i = Some ys"
    using pr(4-6) by (auto simp: swap_at_in bind_eq_Some_conv)
  have at: "?zs ! ?e = xs ! p" "?zs ! p = xs ! ?e" "\<And>j. j \<noteq> p \<Longrightarrow> j \<noteq> ?e \<Longrightarrow> ?zs ! j = xs ! j" using pr(4,5) by (simp_all add: nth_list_update)
  have top: "cmp (?zs ! j) (xs ! p) \<le> 0" if "p \<le> j" "j < ?e" for j
  proof (cases "j = p")
    case True
    thus ?thesis using heap_root[OF pr(1), of "Suc i"] at(2) by simp
  next
    case False
    thus ?thesis using heap_root[OF pr(1), of "j - p"] at(3)[of j] that by simp
  qed
  have over: "cmp (?zs ! j) (xs ! k) \<le> 0" if "p \<le> j" "j \<le> ?e" "?e < k" "k < p + n" for j k
  proof -
    define m where "m = (if j = p then ?e else if j = ?e then p else j)"
    have "?zs ! j = xs ! m" using at by (simp add: m_def)
    moreover have "p \<le> m" "m < p + Suc i + 1" using that by (auto simp: m_def)
    ultimately show ?thesis using pr(3) that unfolding bounded_in_def by auto
  qed
  have s: "sorted_in cmp ?zs ?e (p + n)"
    unfolding sorted_in_def
  proof (intro allI impI)
    fix j k assume jk: "?e \<le> j \<and> j < k \<and> k < p + n"
    hence k: "?zs ! k = xs ! k" using at(3) by auto
    show "cmp (?zs ! j) (?zs ! k) \<le> 0"
    proof (cases "j = ?e")
      case True
      thus ?thesis using over[of j k] k jk by simp
    next
      case False
      hence "?zs ! j = xs ! j" using at(3) jk by auto
      thus ?thesis using pr(2) k jk False unfolding sorted_in_def by auto
    qed
  qed
  have b: "bounded_in cmp ?zs p ?e (p + n)"
    unfolding bounded_in_def
  proof (intro allI impI)
    fix j k assume jk: "p \<le> j \<and> j < ?e \<and> ?e \<le> k \<and> k < p + n"
    show "cmp (?zs ! j) (?zs ! k) \<le> 0"
    proof (cases "k = ?e")
      case True
      thus ?thesis using top[of j] at(1) jk by simp
    next
      case False
      hence "?zs ! k = xs ! k" using at(3) jk by auto
      thus ?thesis using over[of j k] jk False by simp
    qed
  qed
  have "heap_but cmp ?zs p (Suc i) 0 0"
    unfolding heap_but_def
  proof (intro conjI allI impI)
    fix q c assume q: "0 \<le> q \<and> q \<noteq> 0 \<and> child_of q c \<and> c < Suc i"
    hence "q < Suc i" "c \<noteq> 0" using child_of_less[of q c] by auto
    hence "?zs ! (p + q) = xs ! (p + q)" "?zs ! (p + c) = xs ! (p + c)" using at(3) q by auto
    thus "cmp (?zs ! (p + c)) (?zs ! (p + q)) \<le> 0" using pr(1) q by (simp add: heap_from_def)
  qed (simp add: child_of_def)
  hence h: "heap_from cmp ws p (i + 1) 0" using sift_heap[OF _ _ _ _ w(1)] pr(4,5) by simp
  have wi: "within p ?e ?zs ws" using sift_within[of p "Suc i" ?zs 0 cmp] w(1) pr(4,5) by auto
  have "sorted_in cmp ws (p + i + 1) (p + n)" using sorted_in_frame[OF wi s] pr(5) by auto
  moreover have "bounded_in cmp ws p (p + i + 1) (p + n)" using bounded_within[OF wi b] pr(4,5) by auto
  moreover have "p + n \<le> length ws" using within_length[OF wi] pr(5) by simp
  ultimately show ?case using Suc.IH[OF h _ _ _ _ w(2)] pr(4) by simp
qed

lemma heapsortx_sorts:
  assumes "p + n \<le> length xs" "heapsortx cmp xs p n = Some ys"
  shows "sorted_in cmp ys p (p + n)"
proof (cases "n > 1")
  case True
  obtain zs where z: "heapify cmp xs p n (n div 2) = Some zs" "drain cmp zs p (n - 1) = Some ys"
    using assms(2) True by (auto simp: heapsortx_def bind_eq_Some_conv)
  have "heap_from cmp xs p n (n div 2)" by (auto simp: heap_from_def child_of_def)
  hence h: "heap_from cmp zs p n 0" using heapify_heap[OF _ _ assms(1) z(1)] by simp
  have "within p (p + n) xs zs" using heapify_within[OF assms(1), of "n div 2" cmp] z(1) by auto
  hence l: "length zs = length xs" by (rule within_length)
  show ?thesis
  proof (rule drain_sorts[OF _ _ _ _ _ z(2)])
    show "heap_from cmp zs p (n - 1 + 1) 0" using h True by simp
    show "bounded_in cmp zs p (p + (n - 1) + 1) (p + n)" using True by (simp add: bounded_in_def)
  qed (use True assms(1) l in auto)
qed simp

text \<open>The parts of a round are in order among each other.\<close>

lemma split_ordered:
  assumes "split_at cmp xs a m g b" "a \<le> i" "i < j" "j < b"
  shows "cmp (xs ! i) (xs ! j) \<le> 0 \<or> j < m \<or> g \<le> i"
proof -
  obtain v where v: "all_in (below cmp v) xs a m" "all_in (\<lambda>x. cmp v x = 0 \<or> x = v) xs m g" "all_in (above cmp v) xs g b"
    using assms(1) by (auto simp: split_at_def)
  have eq: "cmp v x \<le> 0 \<and> cmp x v \<le> 0" if "cmp v x = 0 \<or> x = v" for x using that flip[of x v] by auto
  have i: "cmp (xs ! i) v \<le> 0" if "i < g"
  proof (cases "i < m")
    case True
    have "cmp v (xs ! i) > 0" using all_inD[OF v(1)] assms(2) True by auto
    thus ?thesis using flip by force
  next
    case False
    thus ?thesis using all_inD[OF v(2), of i] that eq by auto
  qed
  have j: "cmp v (xs ! j) \<le> 0" if "m \<le> j"
  proof (cases "j < g")
    case True
    thus ?thesis using all_inD[OF v(2), of j] that eq by auto
  next
    case False
    thus ?thesis using all_inD[OF v(3), of j] assms(4) by auto
  qed
  show ?thesis using le_trans[OF i j] by (meson not_le)
qed

end

section \<open>The stack\<close>

text \<open>
  The ranges still to be sorted, as pairs of a base and a count. Two elements in the wrong order lie
  in the same range; the ranges do not overlap.
\<close>

definition holds :: "nat \<times> nat \<Rightarrow> nat \<Rightarrow> bool" where
  "holds r k \<longleftrightarrow> fst r \<le> k \<and> k < fst r + snd r"

definition in_order :: "'a cmp_f \<Rightarrow> nat \<Rightarrow> 'a list \<Rightarrow> (nat \<times> nat) list \<Rightarrow> bool" where
  "in_order cmp n xs rs \<longleftrightarrow> (\<forall>i j. i < j \<and> j < n \<longrightarrow> cmp (xs ! i) (xs ! j) \<le> 0 \<or> (\<exists>r \<in> set rs. holds r i \<and> holds r j))"

definition apart :: "(nat \<times> nat) list \<Rightarrow> bool" where
  "apart rs \<longleftrightarrow> sorted_wrt (\<lambda>r s. \<forall>k. \<not> (holds r k \<and> holds s k)) rs"

definition ranges_in :: "nat \<Rightarrow> (nat \<times> nat) list \<Rightarrow> bool" where
  "ranges_in n rs \<longleftrightarrow> (\<forall>r \<in> set rs. fst r + snd r \<le> n)"

lemma in_order_permute:
  assumes "in_order cmp n xs ((p, c) # rs)" "apart ((p, c) # rs)" "p + c \<le> n" "n \<le> length xs" "within p (p + c) xs ys"
  shows "in_order cmp n ys ((p, c) # rs)"
  unfolding in_order_def
proof (intro allI impI)
  fix i j assume ij: "i < j \<and> j < n"
  let ?in = "holds (p, c)"
  have w: "ys ! k = xs ! k" if "\<not> ?in k" "k < n" for k using within_frame[OF assms(5), of k] that assms(4) by (auto simp: holds_def)
  have lone: "cmp (xs ! a) (xs ! b) \<le> 0" if "a < b" "b < n" "?in a \<noteq> ?in b" for a b
    using assms(1,2) that unfolding in_order_def apart_def by auto
  show "cmp (ys ! i) (ys ! j) \<le> 0 \<or> (\<exists>r \<in> set ((p, c) # rs). holds r i \<and> holds r j)"
  proof (cases "?in i"; cases "?in j")
    assume h: "?in i" "\<not> ?in j"
    have "all_in (\<lambda>x. cmp x (xs ! j) \<le> 0) xs p (p + c)"
      unfolding all_in_def
    proof (intro allI impI)
      fix k assume "p \<le> k \<and> k < p + c"
      hence "?in k" "k < j" using h ij by (auto simp: holds_def)
      thus "cmp (xs ! k) (xs ! j) \<le> 0" using lone[of k j] h ij by simp
    qed
    hence "all_in (\<lambda>x. cmp x (xs ! j) \<le> 0) ys p (p + c)" using all_in_within[OF assms(5)] assms(3,4) by auto
    thus ?thesis using all_inD[of _ ys p "p + c" i] h w[of j] ij by (auto simp: holds_def)
  next
    assume h: "\<not> ?in i" "?in j"
    have "all_in (\<lambda>x. cmp (xs ! i) x \<le> 0) xs p (p + c)"
      unfolding all_in_def
    proof (intro allI impI)
      fix k assume "p \<le> k \<and> k < p + c"
      hence "?in k" "i < k" "k < n" using h ij assms(3) by (auto simp: holds_def)
      thus "cmp (xs ! i) (xs ! k) \<le> 0" using lone[of i k] h by simp
    qed
    hence "all_in (\<lambda>x. cmp (xs ! i) x \<le> 0) ys p (p + c)" using all_in_within[OF assms(5)] assms(3,4) by auto
    thus ?thesis using all_inD[of _ ys p "p + c" j] h w[of i] ij by (auto simp: holds_def)
  next
    assume "\<not> ?in i" "\<not> ?in j"
    thus ?thesis using assms(1) w[of i] w[of j] ij by (auto simp: in_order_def)
  qed auto
qed

lemma in_order_sorted:
  assumes "in_order cmp n xs ((p, c) # rs)" "sorted_in cmp xs p (p + c)"
  shows "in_order cmp n xs rs"
  using assms unfolding in_order_def sorted_in_def by (fastforce simp: holds_def)

lemma in_order_mono: "in_order cmp n xs rs \<Longrightarrow> set rs \<subseteq> set ss \<Longrightarrow> in_order cmp n xs ss"
  unfolding in_order_def by blast

lemma in_order_split:
  assumes "ordering_cmp cmp" "in_order cmp n xs ((p, c) # rs)" "split_at cmp xs p (p + lt) g (p + c)"
  shows "in_order cmp n xs ((p, lt) # (g, p + c - g) # rs)"
  unfolding in_order_def
proof (intro allI impI)
  fix i j assume ij: "i < j \<and> j < n"
  have g: "g \<le> p + c" using assms(3) by (simp add: split_at_def)
  show "cmp (xs ! i) (xs ! j) \<le> 0 \<or> (\<exists>r \<in> set ((p, lt) # (g, p + c - g) # rs). holds r i \<and> holds r j)"
  proof (cases "holds (p, c) i \<and> holds (p, c) j")
    case True
    hence "cmp (xs ! i) (xs ! j) \<le> 0 \<or> j < p + lt \<or> g \<le> i"
      using ordering_cmp.split_ordered[OF assms(1,3), of i j] ij by (auto simp: holds_def)
    thus ?thesis using True ij g by (auto simp: holds_def)
  qed (use assms(2) ij in \<open>auto simp: in_order_def\<close>)
qed

lemma apart_swap: "apart (r # s # rs) \<Longrightarrow> apart (s # r # rs)"
  by (auto simp: apart_def)

lemma apart_split:
  assumes "apart ((p, c) # rs)" "p + lt \<le> g" "g \<le> p + c"
  shows "apart ((p, lt) # (g, p + c - g) # rs)"
proof -
  have "holds (p, lt) k \<Longrightarrow> holds (p, c) k" "holds (g, p + c - g) k \<Longrightarrow> holds (p, c) k" for k using assms(2,3) by (auto simp: holds_def)
  thus ?thesis using assms(1,2) by (auto simp: apart_def holds_def)
qed

lemma apart_shrink: "apart ((p, c) # rs) \<Longrightarrow> apart ((p, 0) # rs)"
  by (auto simp: apart_def holds_def)

definition spans :: "sort_range list \<Rightarrow> (nat \<times> nat) list" where
  "spans st = map (\<lambda>r. (sr_base r, sr_count r)) st"

text \<open>An entry of the stack lies as deep as its place in the array: the 50 entries are enough.\<close>

fun deep :: "sort_range list \<Rightarrow> bool" where
  "deep [] \<longleftrightarrow> True"
| "deep (r # st) \<longleftrightarrow> length st \<le> sr_depth r \<and> sr_depth r \<le> 50 \<and> deep st"

text \<open>What holds while the range at \<open>p\<close> of \<open>c\<close> elements is worked on, at a depth, with a stack.\<close>

definition sorting :: "nat \<Rightarrow> 'a list \<Rightarrow> sort_range list \<Rightarrow> nat \<Rightarrow> nat \<Rightarrow> bool" where
  "sorting n xs st p c \<longleftrightarrow> n \<le> length xs \<and> deep st \<and> apart ((p, c) # spans st) \<and> ranges_in n ((p, c) # spans st)"

section \<open>The comparison of strings\<close>

lemma byte_diff_flip: "byte_diff s t = - byte_diff t s"
  by (induction s t rule: byte_diff.induct) auto

lemma byte_diff_trans:
  "byte_diff s t \<le> 0 \<Longrightarrow> byte_diff t u \<le> 0 \<Longrightarrow> NUL \<notin> set s \<Longrightarrow> NUL \<notin> set t \<Longrightarrow> byte_diff s u \<le> 0"
proof (induction s t arbitrary: u rule: byte_diff.induct)
  case 1
  thus ?case by simp
next
  case (2 d ds)
  show ?case by (cases u) simp_all
next
  case (3 c cs)
  thus ?case using uchar_0[of c] by simp
next
  case (4 c cs d ds)
  show ?case
  proof (cases u)
    case Nil
    thus ?thesis using 4 uchar_0[of d] by simp
  next
    case (Cons e es)
    show ?thesis
    proof (cases "c = d")
      case True
      thus ?thesis using 4 Cons by (auto split: if_splits)
    next
      case False
      hence "uchar c < uchar d" using 4(2) uchar_inj[of c d] by simp
      moreover have "uchar d \<le> uchar e" using 4(3) Cons by (auto split: if_splits)
      ultimately show ?thesis using Cons by auto
    qed
  qed
qed

lemma NUL_cstr: "NUL \<notin> set (cstr s)"
  by (auto simp: cstr_def dest: set_takeWhileD)

interpretation strcmp_order: ordering_cmp strcmp
proof
  fix x y z :: string
  show "(strcmp x y > 0) = (strcmp y x < 0)" using byte_diff_flip[of "cstr x" "cstr y"] by (simp add: strcmp_def)
  assume "strcmp x y \<le> 0" "strcmp y z \<le> 0"
  thus "strcmp x z \<le> 0" using byte_diff_trans[OF _ _ NUL_cstr NUL_cstr, of x y "cstr z"] by (simp add: strcmp_def)
qed

section \<open>The exchange of bytes\<close>

text \<open>
  The functions that exchange \<open>sz\<close> bytes at \<open>a\<close> and \<open>b\<close> in units of one, two, four or eight
  bytes; an access to a unit is one to all its bytes.
\<close>

fun exchange_units :: "nat \<Rightarrow> 'b list \<Rightarrow> nat \<Rightarrow> nat \<Rightarrow> nat \<Rightarrow> 'b list option" where
  "exchange_units w m a b 0 = Some m"
| "exchange_units w m a b (Suc n) =
     do { t \<leftarrow> slice m a w; u \<leftarrow> slice m b w; m \<leftarrow> blit m a u w; m \<leftarrow> blit m b t w; exchange_units w m (a + w) (b + w) n }"

fun exchange_pairs :: "'b list \<Rightarrow> nat \<Rightarrow> nat \<Rightarrow> nat \<Rightarrow> 'b list option" where
  "exchange_pairs m a b 0 = Some m"
| "exchange_pairs m a b (Suc n) =
     do { t \<leftarrow> slice m a 8; u \<leftarrow> slice m (a + 8) 8;
          x \<leftarrow> slice m b 8; m \<leftarrow> blit m a x 8;
          y \<leftarrow> slice m (b + 8) 8; m \<leftarrow> blit m (a + 8) y 8;
          m \<leftarrow> blit m b t 8; m \<leftarrow> blit m (b + 8) u 8;
          exchange_pairs m (a + 16) (b + 16) n }"

datatype exchange_f =
    exchange_bytes | exchange_one_byte | exchange_int16s | exchange_one_int16 | exchange_int32s | exchange_one_int32
  | exchange_int64s | exchange_one_int64 | exchange_int128s | exchange_one_int128

fun exchange :: "exchange_f \<Rightarrow> 'b list \<Rightarrow> nat \<Rightarrow> nat \<Rightarrow> nat \<Rightarrow> 'b list option" where
  "exchange exchange_bytes m a b sz = exchange_units 1 m a b sz"
| "exchange exchange_one_byte m a b sz = exchange_units 1 m a b 1"
| "exchange exchange_int16s m a b sz = exchange_units 2 m a b (sz div 2)"
| "exchange exchange_one_int16 m a b sz = exchange_units 2 m a b 1"
| "exchange exchange_int32s m a b sz = exchange_units 4 m a b (sz div 4)"
| "exchange exchange_one_int32 m a b sz = exchange_units 4 m a b 1"
| "exchange exchange_int64s m a b sz = exchange_units 8 m a b (sz div 8)"
| "exchange exchange_one_int64 m a b sz = exchange_units 8 m a b 1"
| "exchange exchange_int128s m a b sz = exchange_pairs m a b (sz div (8 * 2))"
| "exchange exchange_one_int128 m a b sz = exchange_pairs m a b 1"

definition exchange_for :: "u64 \<Rightarrow> u64 \<Rightarrow> exchange_f" where
  "exchange_for k sz =
     (if k = 0 then (if sz = 8 * 2 then exchange_one_int128 else exchange_int128s)
      else if k = 8 then (if sz = 8 then exchange_one_int64 else exchange_int64s)
      else if k = 4 \<or> k = 12 then (if sz = 4 then exchange_one_int32 else exchange_int32s)
      else if k = 2 \<or> k = 6 \<or> k = 10 \<or> k = 14 then (if sz = 2 then exchange_one_int16 else exchange_int16s)
      else (if sz = 1 then exchange_one_byte else exchange_bytes))"

definition exchange_func :: "u64 \<Rightarrow> u64 \<Rightarrow> exchange_f" where
  "exchange_func base sz = exchange_for ((base OR sz) AND 15) sz"

text \<open>Two blocks change places.\<close>

definition swapped :: "'b list \<Rightarrow> nat \<Rightarrow> nat \<Rightarrow> nat \<Rightarrow> 'b list \<Rightarrow> bool" where
  "swapped m a b n m' \<longleftrightarrow> length m' = length m \<and> (\<forall>k < n. m' ! (a + k) = m ! (b + k) \<and> m' ! (b + k) = m ! (a + k)) \<and>
     (\<forall>k < length m. \<not> (a \<le> k \<and> k < a + n) \<and> \<not> (b \<le> k \<and> k < b + n) \<longrightarrow> m' ! k = m ! k)"

definition blocks_ok :: "'b list \<Rightarrow> nat \<Rightarrow> nat \<Rightarrow> nat \<Rightarrow> bool" where
  "blocks_ok m a b n \<longleftrightarrow> a + n \<le> length m \<and> b + n \<le> length m \<and> (a = b \<or> a + n \<le> b \<or> b + n \<le> a)"

lemma blit_nth:
  assumes "blit m a u w = Some m'"
  shows "length m' = length m" "k < length m \<Longrightarrow> m' ! k = (if a \<le> k \<and> k < a + w then u ! (k - a) else m ! k)"
  using assms by (auto simp: blit_def nth_append min_def split: if_splits)

lemma slice_reads: "a + w \<le> length m \<Longrightarrow> \<exists>u. slice m a w = Some u \<and> length u = w \<and> (\<forall>k < w. u ! k = m ! (a + k))"
  by (simp add: slice_def)

lemma blit_writes: "length u = w \<Longrightarrow> a + w \<le> length m \<Longrightarrow> \<exists>m'. blit m a u w = Some m'"
  by (simp add: blit_def)

lemma unit_swapped:
  assumes "blocks_ok m a b w"
  shows "\<exists>m'. (do { t \<leftarrow> slice m a w; u \<leftarrow> slice m b w; m \<leftarrow> blit m a u w; blit m b t w }) = Some m' \<and> swapped m a b w m'"
proof -
  have l: "a + w \<le> length m" "b + w \<le> length m" using assms by (auto simp: blocks_ok_def)
  obtain t u where t: "slice m a w = Some t" "length t = w" "\<forall>k < w. t ! k = m ! (a + k)"
    and u: "slice m b w = Some u" "length u = w" "\<forall>k < w. u ! k = m ! (b + k)" using slice_reads[OF l(1)] slice_reads[OF l(2)] by blast
  obtain m1 where m1: "blit m a u w = Some m1" using blit_writes[OF u(2) l(1)] by blast
  note n1 = blit_nth[OF m1]
  obtain m2 where m2: "blit m1 b t w = Some m2" using blit_writes[OF t(2), of b m1] l n1(1) by auto
  note n2 = blit_nth[OF m2]
  have "swapped m a b w m2"
    using assms l n1(1) n2(1) t(3) u(3) by (auto simp: swapped_def blocks_ok_def n1(2) n2(2))
  thus ?thesis using t(1) u(1) m1 m2 by simp
qed

lemma swapped_join:
  assumes "swapped m a b w m1" "swapped m1 (a + w) (b + w) n m2" "blocks_ok m a b (w + n)"
  shows "swapped m a b (w + n) m2"
  unfolding swapped_def
proof (intro conjI allI impI)
  show "length m2 = length m" using assms(1,2) by (simp add: swapped_def)
next
  fix k assume k: "k < w + n"
  have l: "a + (w + n) \<le> length m" "b + (w + n) \<le> length m" "a = b \<or> a + (w + n) \<le> b \<or> b + (w + n) \<le> a" "length m1 = length m"
    using assms(1,3) by (auto simp: blocks_ok_def swapped_def)
  have "m2 ! (a + k) = m ! (b + k) \<and> m2 ! (b + k) = m ! (a + k)"
  proof (cases "k < w")
    case True
    have "m2 ! (a + k) = m1 ! (a + k)" "m2 ! (b + k) = m1 ! (b + k)" using assms(2) True l by (auto simp: swapped_def)
    thus ?thesis using assms(1) True by (simp add: swapped_def)
  next
    case False
    let ?j = "k - w"
    have j: "?j < n" "a + w + ?j = a + k" "b + w + ?j = b + k" using False k by auto
    have "m2 ! (a + k) = m1 ! (b + k)" "m2 ! (b + k) = m1 ! (a + k)" using assms(2) j unfolding swapped_def by metis+
    moreover have "m1 ! (a + k) = m ! (a + k)" "m1 ! (b + k) = m ! (b + k)" using assms(1) False k l by (auto simp: swapped_def)
    ultimately show ?thesis by simp
  qed
  thus "m2 ! (a + k) = m ! (b + k)" "m2 ! (b + k) = m ! (a + k)" by auto
next
  fix k assume "k < length m" "\<not> (a \<le> k \<and> k < a + (w + n)) \<and> \<not> (b \<le> k \<and> k < b + (w + n))"
  thus "m2 ! k = m ! k" using assms(1,2) by (auto simp: swapped_def)
qed

lemma swapped_0 [simp]: "swapped m a b 0 m"
  by (simp add: swapped_def)

lemma blocks_ok_parts:
  assumes "blocks_ok m a b (w + n)" "swapped m a b w m1"
  shows "blocks_ok m a b w" "blocks_ok m1 (a + w) (b + w) n"
  using assms by (auto simp: blocks_ok_def swapped_def)

lemma exchange_units_swaps:
  assumes "blocks_ok m a b (w * n)"
  shows "\<exists>m'. exchange_units w m a b n = Some m' \<and> swapped m a b (w * n) m'"
  using assms
proof (induction n arbitrary: m a b)
  case (Suc n)
  have k: "blocks_ok m a b (w + w * n)" using Suc.prems by simp
  have "blocks_ok m a b w" using k by (auto simp: blocks_ok_def)
  then obtain m1 where m1: "(do { t \<leftarrow> slice m a w; u \<leftarrow> slice m b w; m \<leftarrow> blit m a u w; blit m b t w }) = Some m1" "swapped m a b w m1"
    using unit_swapped by blast
  obtain m2 where m2: "exchange_units w m1 (a + w) (b + w) n = Some m2" "swapped m1 (a + w) (b + w) (w * n) m2"
    using Suc.IH blocks_ok_parts(2)[OF k m1(2)] by blast
  have "exchange_units w m a b (Suc n) = Some m2" using m1(1) m2(1) by (auto simp: bind_eq_Some_conv)
  thus ?case using swapped_join[OF m1(2) m2(2) k] by simp
qed simp

lemma pair_swapped:
  assumes "blocks_ok m a b 16"
  shows "\<exists>m'. (do { t \<leftarrow> slice m a 8; u \<leftarrow> slice m (a + 8) 8; x \<leftarrow> slice m b 8; m \<leftarrow> blit m a x 8;
      y \<leftarrow> slice m (b + 8) 8; m \<leftarrow> blit m (a + 8) y 8; m \<leftarrow> blit m b t 8; blit m (b + 8) u 8 }) = Some m' \<and> swapped m a b 16 m'"
proof -
  have l: "a + 8 \<le> length m" "a + 8 + 8 \<le> length m" "b + 8 \<le> length m" "b + 8 + 8 \<le> length m"
    and ab: "a = b \<or> a + 16 \<le> b \<or> b + 16 \<le> a" using assms by (auto simp: blocks_ok_def)
  obtain t where t: "slice m a 8 = Some t" "length t = 8" "\<forall>k < 8. t ! k = m ! (a + k)" using slice_reads[OF l(1)] by blast
  obtain u where u: "slice m (a + 8) 8 = Some u" "length u = 8" "\<forall>k < 8. u ! k = m ! (a + 8 + k)" using slice_reads[OF l(2)] by blast
  obtain x where x: "slice m b 8 = Some x" "length x = 8" "\<forall>k < 8. x ! k = m ! (b + k)" using slice_reads[OF l(3)] by blast
  obtain m1 where m1: "blit m a x 8 = Some m1" using blit_writes[OF x(2) l(1)] by blast
  note n1 = blit_nth[OF m1]
  obtain y where y: "slice m1 (b + 8) 8 = Some y" "length y = 8" "\<forall>k < 8. y ! k = m1 ! (b + 8 + k)"
    using slice_reads[of "b + 8" 8 m1] l(4) n1(1) by auto
  obtain m2 where m2: "blit m1 (a + 8) y 8 = Some m2" using blit_writes[OF y(2), of "a + 8" m1] l n1(1) by auto
  note n2 = blit_nth[OF m2]
  obtain m3 where m3: "blit m2 b t 8 = Some m3" using blit_writes[OF t(2), of b m2] l n1(1) n2(1) by auto
  note n3 = blit_nth[OF m3]
  obtain m4 where m4: "blit m3 (b + 8) u 8 = Some m4" using blit_writes[OF u(2), of "b + 8" m3] l n1(1) n2(1) n3(1) by auto
  note n4 = blit_nth[OF m4]
  have len: "length m1 = length m" "length m2 = length m" "length m3 = length m" "length m4 = length m" using n1(1) n2(1) n3(1) n4(1) by simp_all
  have y': "y ! k = m ! (b + 8 + k)" if "k < 8" for k using y(3) n1(2)[of "b + 8 + k"] that ab l by auto
  have at: "m4 ! k = (if b + 8 \<le> k \<and> k < b + 16 then u ! (k - (b + 8)) else if b \<le> k \<and> k < b + 8 then t ! (k - b)
      else if a + 8 \<le> k \<and> k < a + 16 then y ! (k - (a + 8)) else if a \<le> k \<and> k < a + 8 then x ! (k - a) else m ! k)" if "k < length m" for k
    using that len by (simp add: n1(2) n2(2) n3(2) n4(2))
  have "m4 ! (a + k) = m ! (b + k) \<and> m4 ! (b + k) = m ! (a + k)" if k: "k < 16" for k
  proof (cases "k < 8")
    case True
    thus ?thesis using at[of "a + k"] at[of "b + k"] k ab l t(3) u(3) x(3) by auto
  next
    case False
    then obtain j where "k = 8 + j" "j < 8" using k by (metis add_diff_inverse_nat less_diff_conv2 not_le numeral_Bit0)
    thus ?thesis using at[of "a + k"] at[of "b + k"] k ab l t(3) u(3) y' by (auto simp: add.assoc)
  qed
  moreover have "m4 ! k = m ! k" if "k < length m" "\<not> (a \<le> k \<and> k < a + 16)" "\<not> (b \<le> k \<and> k < b + 16)" for k
    using at[OF that(1)] that(2,3) by auto
  ultimately have "swapped m a b 16 m4" using len by (simp add: swapped_def)
  thus ?thesis using t(1) u(1) x(1) m1 y(1) m2 m3 m4 by simp
qed

lemma exchange_pairs_swaps:
  assumes "blocks_ok m a b (16 * n)"
  shows "\<exists>m'. exchange_pairs m a b n = Some m' \<and> swapped m a b (16 * n) m'"
  using assms
proof (induction n arbitrary: m a b)
  case (Suc n)
  have k: "blocks_ok m a b (16 + 16 * n)" using Suc.prems by simp
  have "blocks_ok m a b 16" using k by (auto simp: blocks_ok_def)
  from pair_swapped[OF this] obtain m1 where m1: "(do { t \<leftarrow> slice m a 8; u \<leftarrow> slice m (a + 8) 8; x \<leftarrow> slice m b 8; m \<leftarrow> blit m a x 8;
      y \<leftarrow> slice m (b + 8) 8; m \<leftarrow> blit m (a + 8) y 8; m \<leftarrow> blit m b t 8; blit m (b + 8) u 8 }) = Some m1" "swapped m a b 16 m1" by blast
  obtain m2 where m2: "exchange_pairs m1 (a + 16) (b + 16) n = Some m2" "swapped m1 (a + 16) (b + 16) (16 * n) m2"
    using Suc.IH blocks_ok_parts(2)[OF k m1(2)] by blast
  have "exchange_pairs m a b (Suc n) = Some m2" using m1(1) m2(1) by (auto simp: bind_eq_Some_conv)
  thus ?case using swapped_join[OF m1(2) m2(2) k] by simp
qed simp

fun unit_of :: "exchange_f \<Rightarrow> nat" where
  "unit_of exchange_bytes = 1" | "unit_of exchange_one_byte = 1"
| "unit_of exchange_int16s = 2" | "unit_of exchange_one_int16 = 2"
| "unit_of exchange_int32s = 4" | "unit_of exchange_one_int32 = 4"
| "unit_of exchange_int64s = 8" | "unit_of exchange_one_int64 = 8"
| "unit_of exchange_int128s = 16" | "unit_of exchange_one_int128 = 16"

fun single_unit :: "exchange_f \<Rightarrow> bool" where
  "single_unit exchange_one_byte = True" | "single_unit exchange_one_int16 = True" | "single_unit exchange_one_int32 = True"
| "single_unit exchange_one_int64 = True" | "single_unit exchange_one_int128 = True" | "single_unit _ = False"

lemma exchange_swaps:
  assumes "blocks_ok m a b n" "unit_of f dvd n" "single_unit f \<longrightarrow> n = unit_of f"
  shows "\<exists>m'. exchange f m a b n = Some m' \<and> swapped m a b n m'"
proof -
  have d: "w * (n div w) = n" if "w dvd n" for w using that by simp
  show ?thesis
    using assms exchange_units_swaps[of m a b "unit_of f" "n div unit_of f"] exchange_pairs_swaps[of m a b "n div 16"]
      exchange_units_swaps[of m a b "unit_of f" 1] exchange_pairs_swaps[of m a b 1]
    by (cases f) (auto simp: d)
qed

lemma low_bits_or:
  fixes x y :: u64
  shows "2 ^ j dvd unat (x OR y) \<longleftrightarrow> 2 ^ j dvd unat x \<and> 2 ^ j dvd unat y"
proof -
  have t: "2 ^ j dvd unat z \<longleftrightarrow> take_bit j z = 0" for z :: u64
    by (metis dvd_eq_mod_eq_0 take_bit_eq_mod unat_eq_0 unsigned_take_bit_eq)
  show ?thesis unfolding t by (simp add: take_bit_or or_eq_0_iff)
qed

lemma low_bits_and:
  fixes x :: u64
  assumes "2 ^ j dvd unat (x AND 15)" "j \<le> 4"
  shows "2 ^ j dvd unat x"
proof -
  have t: "2 ^ j dvd unat z \<longleftrightarrow> take_bit j z = 0" for z :: u64
    by (metis dvd_eq_mod_eq_0 take_bit_eq_mod unat_eq_0 unsigned_take_bit_eq)
  have "x AND 15 = take_bit 4 x" by (simp add: take_bit_eq_mask mask_eq_exp_minus_1)
  thus ?thesis using assms unfolding t by (simp add: min_def)
qed

lemma exchange_for_unit:
  assumes "k = 0 \<longrightarrow> 16 dvd n" "k = 8 \<longrightarrow> 8 dvd n" "k = 4 \<or> k = 12 \<longrightarrow> 4 dvd n" "k = 2 \<or> k = 6 \<or> k = 10 \<or> k = 14 \<longrightarrow> 2 dvd n"
  shows "unit_of (exchange_for k sz) dvd n" "single_unit (exchange_for k sz) \<longrightarrow> unat sz = unit_of (exchange_for k sz)"
  using assms by (simp_all add: exchange_for_def)

lemma exchange_func_unit:
  "unit_of (exchange_func base sz) dvd unat sz" "unit_of (exchange_func base sz) dvd unat base"
  "single_unit (exchange_func base sz) \<longrightarrow> unat sz = unit_of (exchange_func base sz)"
proof -
  define k where "k = (base OR sz) AND 15"
  have l: "2 ^ j dvd unat sz \<and> 2 ^ j dvd unat base" if "2 ^ j dvd unat k" "j \<le> 4" for j
    using low_bits_and[OF that[unfolded k_def]] low_bits_or by blast
  have h: "(k = 0 \<longrightarrow> 16 dvd n) \<and> (k = 8 \<longrightarrow> 8 dvd n) \<and> (k = 4 \<or> k = 12 \<longrightarrow> 4 dvd n) \<and> (k = 2 \<or> k = 6 \<or> k = 10 \<or> k = 14 \<longrightarrow> 2 dvd n)"
    if "n = unat sz \<or> n = unat base" for n using that l[of 4] l[of 3] l[of 2] l[of 1] by auto
  note sz = h[OF disjI1[OF refl]] and base = h[OF disjI2[OF refl]]
  have e: "exchange_func base sz = exchange_for k sz" by (simp add: exchange_func_def k_def)
  show "unit_of (exchange_func base sz) dvd unat sz" unfolding e using exchange_for_unit(1)[of k "unat sz" sz] sz by blast
  show "unit_of (exchange_func base sz) dvd unat base" unfolding e using exchange_for_unit(1)[of k "unat base" sz] base by blast
  show "single_unit (exchange_func base sz) \<longrightarrow> unat sz = unit_of (exchange_func base sz)"
    unfolding e using exchange_for_unit(2)[of k "unat sz" sz] sz by blast
qed

lemma block_func_unit:
  "unit_of (exchange_func base (sz OR 128)) dvd unat sz" "\<not> single_unit (exchange_func base (sz OR 128))"
proof -
  let ?f = "exchange_func base (sz OR 128)"
  have "unit_of ?f \<in> {2 ^ 0, 2 ^ 1, 2 ^ 2, 2 ^ 3, 2 ^ 4}" by (cases ?f) simp_all
  then obtain j where j: "unit_of ?f = 2 ^ j" by blast
  show "unit_of ?f dvd unat sz" using exchange_func_unit(1)[of base "sz OR 128"] low_bits_or[of j sz 128] by (simp only: j)
  have b: "(sz OR 128) AND 128 = 128" by simp
  have "sz OR 128 \<noteq> c" if "c AND 128 = 0" for c using b that by auto
  hence "sz OR 128 \<noteq> 1" "sz OR 128 \<noteq> 2" "sz OR 128 \<noteq> 4" "sz OR 128 \<noteq> 8" "sz OR 128 \<noteq> 16" by simp_all
  thus "\<not> single_unit ?f" unfolding exchange_func_def exchange_for_def by simp
qed

text \<open>The array in memory: the bytes of its elements, one after the other.\<close>

lemma concat_nth_uniform:
  assumes "\<forall>x \<in> set xs. length x = s" "i < length xs" "k < s"
  shows "concat xs ! (i * s + k) = xs ! i ! k"
  using assms
proof (induction xs arbitrary: i)
  case (Cons x xs)
  thus ?case by (cases i) (auto simp: nth_append add.assoc)
qed simp

lemma length_concat_uniform: "\<forall>x \<in> set xs. length x = s \<Longrightarrow> length (concat xs) = length xs * s"
  by (induction xs) auto

lemma block_index: "0 < (s :: nat) \<Longrightarrow> (a * s \<le> q \<and> q < a * s + n * s) = (a \<le> q div s \<and> q div s < a + n)"
  by (metis add_mult_distrib div_less_iff_less_mult less_eq_div_iff_mult_less_eq)

lemma swapped_concat:
  assumes "\<forall>x \<in> set xs. length x = s" "0 < s" "swapped xs a b n ys" "swapped (concat xs) (a * s) (b * s) (n * s) m'"
    and "a + n \<le> length xs" "b + n \<le> length xs"
  shows "m' = concat ys"
proof -
  have ly: "length ys = length xs" using assms(3) by (simp add: swapped_def)
  have el: "ys ! e = (if a \<le> e \<and> e < a + n then xs ! (b + (e - a)) else if b \<le> e \<and> e < b + n then xs ! (a + (e - b)) else xs ! e)"
    if "e < length xs" for e using assms(3) that unfolding swapped_def by (metis le_add_diff_inverse less_diff_conv2 add.commute)
  have ux: "length (xs ! e) = s" if "e < length xs" for e using assms(1) that by simp
  have "length (ys ! e) = s" if "e < length xs" for e
    unfolding el[OF that] using assms(5,6) by (auto simp del: add_diff_assoc add_diff_assoc2 intro!: ux that)
  hence "\<forall>y \<in> set ys. length y = s" using ly by (auto simp: in_set_conv_nth)
  hence lc: "length (concat ys) = length xs * s" using length_concat_uniform ly by metis
  show ?thesis
  proof (intro nth_equalityI)
    have "length m' = length xs * s" using assms(4) length_concat_uniform[OF assms(1)] by (simp add: swapped_def)
    thus "length m' = length (concat ys)" using lc by simp
    fix q assume "q < length m'"
    hence q: "q < length xs * s" using \<open>length m' = length xs * s\<close> by simp
    define e k where "e = q div s" and "k = q mod s"
    have ek: "q = e * s + k" "k < s" "e < length xs" using assms(2) q by (auto simp: e_def k_def div_less_iff_less_mult)
    have rhs: "concat ys ! q = ys ! e ! k" using concat_nth_uniform[of ys s e k] \<open>\<forall>y \<in> set ys. length y = s\<close> ek ly by simp
    have in_a: "(a * s \<le> q \<and> q < a * s + n * s) = (a \<le> e \<and> e < a + n)" unfolding e_def using block_index[OF assms(2)] .
    have in_b: "(b * s \<le> q \<and> q < b * s + n * s) = (b \<le> e \<and> e < b + n)" unfolding e_def using block_index[OF assms(2)] .
    have pos: "c * s + (q - d * s) = (c + (e - d)) * s + k" if "d \<le> e" for c d
    proof -
      obtain f where "e = d + f" using \<open>d \<le> e\<close> le_Suc_ex by blast
      thus ?thesis by (simp add: ek(1) algebra_simps)
    qed
    consider "a \<le> e \<and> e < a + n" | "\<not> (a \<le> e \<and> e < a + n)" "b \<le> e \<and> e < b + n" | "\<not> (a \<le> e \<and> e < a + n)" "\<not> (b \<le> e \<and> e < b + n)" by blast
    thus "m' ! q = concat ys ! q"
    proof cases
      case 1
      have "q - a * s < n * s" using 1 in_a by auto
      hence "m' ! (a * s + (q - a * s)) = concat xs ! (b * s + (q - a * s))" using assms(4) unfolding swapped_def by blast
      also have "\<dots> = xs ! (b + (e - a)) ! k" unfolding pos[OF conjunct1[OF 1]] by (intro concat_nth_uniform[OF assms(1) _ ek(2)]) (use 1 assms(6) in auto)
      finally show ?thesis using rhs el[OF ek(3)] 1 in_a by auto
    next
      case 2
      have "q - b * s < n * s" using 2 in_b by auto
      hence "m' ! (b * s + (q - b * s)) = concat xs ! (a * s + (q - b * s))" using assms(4) unfolding swapped_def by blast
      also have "\<dots> = xs ! (a + (e - b)) ! k" unfolding pos[OF conjunct1[OF 2(2)]] by (intro concat_nth_uniform[OF assms(1) _ ek(2)]) (use 2 assms(5) in auto)
      finally show ?thesis using rhs el[OF ek(3)] 2 in_b by auto
    next
      case 3
      have "q < length (concat xs)" using q length_concat_uniform[OF assms(1)] by simp
      moreover have "\<not> (a * s \<le> q \<and> q < a * s + n * s) \<and> \<not> (b * s \<le> q \<and> q < b * s + n * s)" using 3 unfolding in_a in_b by simp
      ultimately have "m' ! q = concat xs ! q" using assms(4) unfolding swapped_def by blast
      also have "\<dots> = xs ! e ! k" using concat_nth_uniform[OF assms(1) ek(3,2)] ek(1) by simp
      finally show ?thesis using rhs el[OF ek(3)] 3 by simp
    qed
  qed
qed

text \<open>The exchange function the sort chooses swaps two elements, and the one for blocks swaps two ranges of elements.\<close>

lemma exchange_elements:
  assumes "\<forall>x \<in> set xs. length x = unat sz" "0 < sz" "i < length xs" "j < length xs"
  shows "exchange (exchange_func base sz) (concat xs) (i * unat sz) (j * unat sz) (unat sz) = map_option concat (swap_at xs i j)"
proof -
  let ?s = "unat sz" let ?ys = "xs[i := xs ! j, j := xs ! i]"
  have s: "0 < ?s" using assms(2) by (simp add: word_gt_0 unat_gt_0)
  have r: "(k + 1) * ?s \<le> length (concat xs)" if "k < length xs" for k
    unfolding length_concat_uniform[OF assms(1)] using that mult_le_mono1[of "k + 1" "length xs" ?s] by simp
  have "i * ?s + ?s \<le> j * ?s" if "i < j" using that mult_le_mono1[of "i + 1" j ?s] by simp
  moreover have "j * ?s + ?s \<le> i * ?s" if "j < i" using that mult_le_mono1[of "j + 1" i ?s] by simp
  ultimately have "blocks_ok (concat xs) (i * ?s) (j * ?s) ?s" using r[OF assms(3)] r[OF assms(4)] by (cases i j rule: linorder_cases) (auto simp: blocks_ok_def add.commute)
  then obtain m' where m: "exchange (exchange_func base sz) (concat xs) (i * ?s) (j * ?s) ?s = Some m'" "swapped (concat xs) (i * ?s) (j * ?s) ?s m'"
    using exchange_swaps exchange_func_unit(1,3)[of base sz] by blast
  have sw: "swapped xs i j 1 ?ys" using assms(3,4) by (auto simp: swapped_def nth_list_update)
  have "m' = concat ?ys" using swapped_concat[OF assms(1) s sw] m(2) assms(3,4) by simp
  thus ?thesis using m(1) assms(3,4) by (simp add: swap_at_in)
qed

lemma exchange_blocks:
  assumes "\<forall>x \<in> set xs. length x = unat sz" "0 < sz" "a + n \<le> b" "b + n \<le> length xs"
  shows "exchange (exchange_func base (sz OR 128)) (concat xs) (a * unat sz) (b * unat sz) (n * unat sz) = map_option concat (swap_block xs a b n)"
proof -
  let ?s = "unat sz"
  have s: "0 < ?s" using assms(2) by (simp add: word_gt_0 unat_gt_0)
  have "(a + n) * ?s \<le> b * ?s" "(b + n) * ?s \<le> length xs * ?s" using assms(3,4) mult_le_mono1 by blast+
  hence "blocks_ok (concat xs) (a * ?s) (b * ?s) (n * ?s)" by (simp add: blocks_ok_def length_concat_uniform[OF assms(1)] add_mult_distrib)
  moreover have "unit_of (exchange_func base (sz OR 128)) dvd n * ?s" using block_func_unit(1) by simp
  ultimately obtain m' where m: "exchange (exchange_func base (sz OR 128)) (concat xs) (a * ?s) (b * ?s) (n * ?s) = Some m'"
    "swapped (concat xs) (a * ?s) (b * ?s) (n * ?s) m'" using exchange_swaps block_func_unit(2) by blast
  obtain ys where y: "swap_block xs a b n = Some ys" "within a (b + n) xs ys"
    "\<forall>k < n. ys ! (a + k) = xs ! (b + k) \<and> ys ! (b + k) = xs ! (a + k)" "\<forall>k. a + n \<le> k \<and> k < b \<longrightarrow> ys ! k = xs ! k"
    using swap_block_spec[OF assms(3,4)] by blast
  have "swapped xs a b n ys"
    unfolding swapped_def
  proof (intro conjI allI impI)
    fix k assume "k < length xs" "\<not> (a \<le> k \<and> k < a + n) \<and> \<not> (b \<le> k \<and> k < b + n)"
    thus "ys ! k = xs ! k" using within_frame[OF y(2), of k] y(4) by (cases "a + n \<le> k \<and> k < b") auto
  qed (use y(2,3) within_length in auto)
  hence "m' = concat ys" using swapped_concat[OF assms(1) s _ m(2)] assms(3,4) by simp
  thus ?thesis using m(1) y(1) by simp
qed

lemma sorting_within: "sorting n xs st p c \<Longrightarrow> within a b xs ys \<Longrightarrow> sorting n ys st p c"
  by (simp add: sorting_def within_length)

lemma sorting_range: "sorting n xs st p c \<Longrightarrow> p + c \<le> n \<and> n \<le> length xs"
  by (simp add: sorting_def ranges_in_def)

lemma push_in: "length st \<le> d \<Longrightarrow> d < 50 \<Longrightarrow> push_range r st = Some (r # st)"
  by (simp add: push_range_def STACK_SIZE_def)

lemma sorting_push:
  assumes "sorting n xs st p c" "p + lt \<le> g" "g \<le> p + c" "length st \<le> d" "d < 50"
  shows "sorting n xs (\<lparr>sr_base = p, sr_count = lt, sr_depth = d + 1\<rparr> # st) g (p + c - g)"
    "sorting n xs (\<lparr>sr_base = g, sr_count = p + c - g, sr_depth = d + 1\<rparr> # st) p lt"
  using assms apart_split[of p c "spans st" lt g] apart_swap[of "(p, lt)" "(g, p + c - g)" "spans st"]
  by (auto simp: sorting_def spans_def ranges_in_def)

text \<open>
  The loop that narrows a range: for any comparison it ends within the range and the stack does not
  overflow; for an ordering, what is still out of order lies in a range still to be sorted.
\<close>

lemma narrow_spec:
  assumes "sorting n xs st p c" "length st \<le> d" "d \<le> 50"
  shows "\<exists>ys st' p' c'. narrow cmp xs st p c d = Some (ys, st', p', c') \<and> within p (p + c) xs ys \<and> sorting n ys st' p' c' \<and>
    (ordering_cmp cmp \<longrightarrow> in_order cmp n xs ((p, c) # spans st) \<longrightarrow> in_order cmp n ys ((p', c') # spans st'))"
  using assms
proof (induction c arbitrary: xs st p d rule: less_induct)
  case (less c)
  note pr = less.prems
  have r: "p + c \<le> n" "n \<le> length xs" using sorting_range[OF pr(1)] by auto
  have a: "apart ((p, c) # spans st)" using pr(1) by (simp add: sorting_def)
  consider "c \<le> 6" | "6 < c" "d = 50" | "6 < c" "d < 50" using pr(3) by linarith
  thus ?case
  proof cases
    case 1
    thus ?thesis using pr(1) by (subst narrow.simps) auto
  next
    case 2
    obtain ys where y: "heapsortx cmp xs p c = Some ys" "within p (p + c) xs ys" using heapsortx_within[of p c xs cmp] r by auto
    have "sorting n ys st p 0" using pr(1) apart_shrink within_length[OF y(2)] by (auto simp: sorting_def ranges_in_def)
    moreover have "in_order cmp n ys ((p, 0) # spans st)" if o: "ordering_cmp cmp" "in_order cmp n xs ((p, c) # spans st)"
    proof -
      have "sorted_in cmp ys p (p + c)" using ordering_cmp.heapsortx_sorts[OF o(1) _ y(1)] r by simp
      hence "in_order cmp n ys (spans st)" using in_order_sorted in_order_permute[OF o(2) a r y(2)] by blast
      thus ?thesis by (rule in_order_mono) auto
    qed
    moreover have "narrow cmp xs st p c d = Some (ys, st, p, 0)" using 2 y(1) by (subst narrow.simps) simp
    ultimately show ?thesis using y(2) by blast
  next
    case 3
    obtain zs lt g where z: "partition3 cmp xs p c = Some (zs, lt, g)" "within p (p + c) xs zs" "split_at cmp zs p (p + lt) g (p + c)"
      using partition3_spec[OF 3(1), of p xs cmp] r by auto
    have b: "p + lt \<le> g" "g \<le> p + c" "lt < c" "p + c - g < c" using z(3) by (auto simp: split_at_def)
    have s: "sorting n zs st p c" using sorting_within[OF pr(1) z(2)] .
    note push = sorting_push[OF s b(1,2) pr(2) 3(2)]
    have o: "in_order cmp n zs ((p, lt) # (g, p + c - g) # spans st)" if "ordering_cmp cmp" "in_order cmp n xs ((p, c) # spans st)"
      using in_order_split[OF that(1) in_order_permute[OF that(2) a r z(2)] z(3)] .
    show ?thesis
    proof (cases "lt > p + c - g")
      case True
      let ?st = "\<lparr>sr_base = p, sr_count = lt, sr_depth = d + 1\<rparr> # st"
      have "length ?st \<le> d + 1" "d + 1 \<le> 50" using pr(2) 3(2) by auto
      from less.IH[OF b(4) push(1) this] obtain ys st' p' c' where y: "narrow cmp zs ?st g (p + c - g) (d + 1) = Some (ys, st', p', c')"
        "within g (g + (p + c - g)) zs ys" "sorting n ys st' p' c'"
        "ordering_cmp cmp \<longrightarrow> in_order cmp n zs ((g, p + c - g) # spans ?st) \<longrightarrow> in_order cmp n ys ((p', c') # spans st')" by blast
      have "narrow cmp xs st p c d = Some (ys, st', p', c')"
        using 3 z(1) True y(1) push_in[OF pr(2) 3(2)] by (subst narrow.simps) simp
      moreover have "within p (p + c) xs ys" using within_trans[OF z(2) within_mono[OF y(2)]] b by auto
      moreover have "in_order cmp n zs ((g, p + c - g) # spans ?st)" if "ordering_cmp cmp" "in_order cmp n xs ((p, c) # spans st)"
        by (rule in_order_mono[OF o[OF that]]) (auto simp: spans_def)
      ultimately show ?thesis using y(3,4) by blast
    next
      case False
      let ?st = "\<lparr>sr_base = g, sr_count = p + c - g, sr_depth = d + 1\<rparr> # st"
      have "length ?st \<le> d + 1" "d + 1 \<le> 50" using pr(2) 3(2) by auto
      from less.IH[OF b(3) push(2) this] obtain ys st' p' c' where y: "narrow cmp zs ?st p lt (d + 1) = Some (ys, st', p', c')"
        "within p (p + lt) zs ys" "sorting n ys st' p' c'"
        "ordering_cmp cmp \<longrightarrow> in_order cmp n zs ((p, lt) # spans ?st) \<longrightarrow> in_order cmp n ys ((p', c') # spans st')" by blast
      have "narrow cmp xs st p c d = Some (ys, st', p', c')"
        using 3 z(1) False y(1) push_in[OF pr(2) 3(2)] by (subst narrow.simps) simp
      moreover have "within p (p + c) xs ys" using within_trans[OF z(2) within_mono[OF y(2)]] b by auto
      moreover have "in_order cmp n zs ((p, lt) # spans ?st)" if "ordering_cmp cmp" "in_order cmp n xs ((p, c) # spans st)"
        using o[OF that] by (simp add: spans_def)
      ultimately show ?thesis using y(3,4) by blast
    qed
  qed
qed

lemma sort_stack_spec:
  assumes "n \<le> length xs" "deep st" "apart (spans st)" "ranges_in n (spans st)"
  shows "\<exists>ys. sort_stack cmp xs st = Some ys \<and> within 0 n xs ys \<and>
    (ordering_cmp cmp \<longrightarrow> in_order cmp n xs (spans st) \<longrightarrow> in_order cmp n ys [])"
  using assms
proof (induction "stack_work st" arbitrary: xs st rule: less_induct)
  case less
  note pr = less.prems
  show ?case
  proof (cases st)
    case Nil
    thus ?thesis by (simp add: spans_def)
  next
    case (Cons r rs)
    let ?p = "sr_base r" let ?c = "sr_count r"
    have sp: "spans st = (?p, ?c) # spans rs" by (simp add: Cons spans_def)
    have s: "sorting n xs rs ?p ?c" "length rs \<le> sr_depth r" "sr_depth r \<le> 50"
      using pr sp by (simp_all add: sorting_def Cons)
    obtain zs st' p c where z: "narrow cmp xs rs ?p ?c (sr_depth r) = Some (zs, st', p, c)" "within ?p (?p + ?c) xs zs" "sorting n zs st' p c"
      "ordering_cmp cmp \<longrightarrow> in_order cmp n xs ((?p, ?c) # spans rs) \<longrightarrow> in_order cmp n zs ((p, c) # spans st')"
      using narrow_spec[OF s, of cmp] by blast
    have rg: "p + c \<le> n" "n \<le> length zs" using sorting_range[OF z(3)] by auto
    obtain ws where w: "insertion cmp zs p c 1 = Some ws" "within p (p + c) zs ws" using insertion_within[of p c zs cmp 1] rg by auto
    have o: "in_order cmp n ws (spans st')" if oc: "ordering_cmp cmp" "in_order cmp n xs (spans st)"
    proof -
      have "apart ((p, c) # spans st')" using z(3) by (simp add: sorting_def)
      with z(4) oc sp have i: "in_order cmp n ws ((p, c) # spans st')" using in_order_permute[OF _ _ rg w(2)] by simp
      have "sorted_in cmp ws p (p + c)"
      proof (cases "c = 0")
        case False
        show ?thesis using ordering_cmp.insertion_sorts[OF oc(1) _ _ _ w(1)] False rg by simp
      qed simp
      thus ?thesis using in_order_sorted i by blast
    qed
    have "stack_work st' < stack_work st" using narrow_work[OF z(1)] Cons by simp
    moreover have "n \<le> length ws" "deep st'" "apart (spans st')" "ranges_in n (spans st')"
      using z(3) within_length[OF w(2)] by (auto simp: sorting_def apart_def ranges_in_def)
    ultimately obtain ys where y: "sort_stack cmp ws st' = Some ys" "within 0 n ws ys"
      "ordering_cmp cmp \<longrightarrow> in_order cmp n ws (spans st') \<longrightarrow> in_order cmp n ys []" using less.hyps[of st' ws] by blast
    have "sort_stack cmp xs st = Some ys" using z(1) w(1) y(1) by (simp add: Cons)
    moreover have "within 0 n xs ys"
    proof -
      have "within 0 n xs zs" "within 0 n zs ws" using within_mono[OF z(2)] within_mono[OF w(2)] rg sorting_range[OF s(1)] by auto
      thus ?thesis using y(2) within_trans by blast
    qed
    ultimately show ?thesis using o y(3) by blast
  qed
qed

lemma rqsort_spec:
  assumes "n \<le> length xs"
  shows "\<exists>ys. rqsort cmp xs n sz = Some ys \<and> within 0 n xs ys \<and> (ordering_cmp cmp \<longrightarrow> 0 < sz \<longrightarrow> sorted_in cmp ys 0 n)"
proof (cases "n < 2 \<or> sz = 0")
  case True
  thus ?thesis by (auto simp: rqsort_def)
next
  case False
  let ?st = "[\<lparr>sr_base = 0, sr_count = n, sr_depth = 0\<rparr>]"
  have "in_order cmp n xs (spans ?st)" by (auto simp: in_order_def spans_def holds_def)
  moreover have "deep ?st" "apart (spans ?st)" "ranges_in n (spans ?st)" by (simp_all add: spans_def apart_def ranges_in_def)
  ultimately obtain ys where "sort_stack cmp xs ?st = Some ys" "within 0 n xs ys" "ordering_cmp cmp \<longrightarrow> in_order cmp n ys []"
    using sort_stack_spec[OF assms, of ?st cmp] by blast
  thus ?thesis using False by (auto simp: rqsort_def in_order_def sorted_in_def)
qed

section \<open>Properties\<close>

text \<open>
  C38. The sort of any array with any comparison, also one that contradicts itself, comes to an end:
  it never reads or writes outside the first \<open>n\<close> elements, its stack of 50 entries does not
  overflow, and what it leaves is a permutation of the array with the elements behind untouched.
\<close>

theorem rqsort_terminates:
  assumes "n \<le> length xs"
  shows "\<exists>ys. rqsort cmp xs n sz = Some ys \<and> mset ys = mset xs \<and> drop n ys = drop n xs"
proof -
  obtain ys where y: "rqsort cmp xs n sz = Some ys" "within 0 n xs ys" using rqsort_spec[OF assms] by blast
  have "drop n ys = drop n xs" using y(2) within_length[OF y(2)] by (intro nth_equalityI) (auto simp: within_def)
  thus ?thesis using y within_mset by blast
qed

lemma rqsort_terminates_witness:
  "\<exists>ys. rqsort (\<lambda>x y. 1) [3, 1, 2, 5, 4, 9, 8, 7, 6 :: int] 8 4 = Some ys \<and> mset ys = mset [3, 1, 2, 5, 4, 9, 8, 7, 6] \<and> drop 8 ys = [6]"
  using rqsort_terminates[of 8 "[3, 1, 2, 5, 4, 9, 8, 7, 6 :: int]" "\<lambda>x y. 1" 4] by simp

text \<open>
  C13. If the sign of the comparison orders the elements, whatever ties it has, the sort leaves
  the array in that order, every element once.
\<close>

theorem rqsort_sorts:
  assumes "\<forall>x y. (cmp x y > 0) = (cmp y x < 0)" "\<forall>x y z. cmp x y \<le> 0 \<longrightarrow> cmp y z \<le> 0 \<longrightarrow> cmp x z \<le> 0" "0 < sz"
  shows "\<exists>ys. rqsort cmp xs (length xs) sz = Some ys \<and> mset ys = mset xs \<and> sorted_wrt (\<lambda>x y. cmp x y \<le> 0) ys"
proof -
  have "ordering_cmp cmp" using assms(1,2) by unfold_locales blast+
  then obtain ys where y: "rqsort cmp xs (length xs) sz = Some ys" "within 0 (length xs) xs ys" "sorted_in cmp ys 0 (length xs)"
    using rqsort_spec[of "length xs" xs cmp sz] assms(3) by blast
  hence "sorted_wrt (\<lambda>x y. cmp x y \<le> 0) ys" using within_length[OF y(2)] by (simp add: sorted_wrt_iff_nth_less sorted_in_def)
  thus ?thesis using y(1) within_mset[OF y(2)] by blast
qed

lemma rqsort_sorts_witness:
  "rqsort (\<lambda>x y. x - y) [3, 1, 2, 5, 4, 9, 8, 7 :: int] 8 4 = Some [1, 2, 3, 4, 5, 7, 8, 9]"
proof -
  let ?xs = "[3, 1, 2, 5, 4, 9, 8, 7 :: int]"
  obtain ys where y: "rqsort (\<lambda>x y. x - y) ?xs 8 4 = Some ys" "mset ys = mset ?xs" "sorted_wrt (\<lambda>x y. x - y \<le> 0) ys"
  proof -
    have "length ?xs = 8" by simp
    from rqsort_sorts[of "\<lambda>x y. x - y" 4 ?xs, unfolded this] show ?thesis using that by auto
  qed
  have "sorted ys" using y(3) by (simp add: sorted_wrt_iff_nth_less sorted_iff_nth_mono_less)
  hence "ys = sort ?xs" using properties_for_sort[of ys ?xs] y(2) by simp
  thus ?thesis using y(1) by simp
qed

end
