(* ===== verification/Cutils_Bits.thy ===== *)
theory Cutils_Bits
  imports Cutils
begin

text \<open>
  The small functions of \<open>include/ytdl/cutils.h\<close>: extrema, counts of zero bits, access to integers
  that are not aligned, and the exchange of their bytes. The machine is little-endian; a pointer
  is a block and an offset.
\<close>

section \<open>Extrema\<close>

definition max_int :: "int \<Rightarrow> int \<Rightarrow> int" where "max_int a b = (if a > b then a else b)"
definition min_int :: "int \<Rightarrow> int \<Rightarrow> int" where "min_int a b = (if a < b then a else b)"
definition max_uint32 :: "u32 \<Rightarrow> u32 \<Rightarrow> u32" where "max_uint32 a b = (if a > b then a else b)"
definition min_uint32 :: "u32 \<Rightarrow> u32 \<Rightarrow> u32" where "min_uint32 a b = (if a < b then a else b)"
definition max_int64 :: "int \<Rightarrow> int \<Rightarrow> int" where "max_int64 a b = (if a > b then a else b)"
definition min_int64 :: "int \<Rightarrow> int \<Rightarrow> int" where "min_int64 a b = (if a < b then a else b)"

lemma extrema:
  "max_int a b = max a b" "min_int a b = min a b" "max_int64 a b = max a b" "min_int64 a b = min a b"
  "max_uint32 x y = max x y" "min_uint32 x y = min x y"
  by (auto simp: max_int_def min_int_def max_int64_def min_int64_def max_uint32_def min_uint32_def)

section \<open>Zero bits\<close>

text \<open>The zero bits above the highest and below the lowest bit that is set; undefined for 0.\<close>

fun leading_zeros :: "nat \<Rightarrow> 'a::len word \<Rightarrow> nat" where
  "leading_zeros 0 w = 0"
| "leading_zeros (Suc n) w = (if bit w n then 0 else Suc (leading_zeros n w))"

fun trailing_zeros :: "nat \<Rightarrow> 'a::len word \<Rightarrow> nat" where
  "trailing_zeros 0 w = 0"
| "trailing_zeros (Suc n) w = (if bit w 0 then 0 else Suc (trailing_zeros n (drop_bit 1 w)))"

definition clz32 :: "u32 \<Rightarrow> int option" where "clz32 a = (if a = 0 then None else Some (int (leading_zeros 32 a)))"
definition clz64 :: "u64 \<Rightarrow> int option" where "clz64 a = (if a = 0 then None else Some (int (leading_zeros 64 a)))"
definition ctz32 :: "u32 \<Rightarrow> int option" where "ctz32 a = (if a = 0 then None else Some (int (trailing_zeros 32 a)))"
definition ctz64 :: "u64 \<Rightarrow> int option" where "ctz64 a = (if a = 0 then None else Some (int (trailing_zeros 64 a)))"

lemma leading_zeros_spec:
  "(\<forall>k < n. n - leading_zeros n w \<le> k \<longrightarrow> \<not> bit w k) \<and> leading_zeros n w \<le> n \<and> (leading_zeros n w < n \<longrightarrow> bit w (n - 1 - leading_zeros n w))"
proof (induction n)
  case (Suc n)
  thus ?case by (auto simp: less_Suc_eq)
qed simp

lemma trailing_zeros_spec:
  "(\<forall>k < trailing_zeros n w. \<not> bit w k) \<and> trailing_zeros n w \<le> n \<and> (trailing_zeros n w < n \<longrightarrow> bit w (trailing_zeros n w))"
proof (induction n arbitrary: w)
  case (Suc n)
  have "\<not> bit w k" if "\<not> bit w 0" "k < Suc (trailing_zeros n (drop_bit 1 w))" for k
    using that Suc[of "drop_bit 1 w"] by (cases k) (auto simp: bit_drop_bit_eq)
  thus ?case using Suc[of "drop_bit 1 w"] by (auto simp: bit_drop_bit_eq)
qed simp

text \<open>The counts are the places of the highest and the lowest bit.\<close>

lemma leading_zeros_bit:
  fixes w :: "'a::len word"
  assumes "w \<noteq> 0"
  shows "leading_zeros LENGTH('a) w < LENGTH('a) \<and> bit w (LENGTH('a) - 1 - leading_zeros LENGTH('a) w) \<and>
    (\<forall>k. LENGTH('a) - 1 - leading_zeros LENGTH('a) w < k \<longrightarrow> \<not> bit w k)"
proof -
  let ?z = "leading_zeros LENGTH('a) w"
  note s = leading_zeros_spec[of "LENGTH('a)" w]
  have h: "\<not> bit w k" if "LENGTH('a) \<le> k" for k using that bit_imp_le_length[of w k] by auto
  have "?z \<noteq> LENGTH('a)"
  proof
    assume "?z = LENGTH('a)"
    hence "\<not> bit w k" for k using s h by (cases "k < LENGTH('a)") auto
    hence "w = 0" by (intro bit_word_eqI) simp
    thus False using assms by simp
  qed
  hence z: "?z < LENGTH('a)" using s by simp
  have "\<not> bit w k" if "LENGTH('a) - 1 - ?z < k" for k using s h that z by (cases "k < LENGTH('a)") auto
  thus ?thesis using s z by simp
qed

lemma trailing_zeros_bit:
  fixes w :: "'a::len word"
  assumes "w \<noteq> 0"
  shows "trailing_zeros LENGTH('a) w < LENGTH('a) \<and> bit w (trailing_zeros LENGTH('a) w) \<and> (\<forall>k < trailing_zeros LENGTH('a) w. \<not> bit w k)"
proof -
  note s = trailing_zeros_spec[of "LENGTH('a)" w]
  have "trailing_zeros LENGTH('a) w \<noteq> LENGTH('a)"
  proof
    assume "trailing_zeros LENGTH('a) w = LENGTH('a)"
    hence "w = 0" using s by (intro bit_word_eqI) simp
    thus False using assms by simp
  qed
  thus ?thesis using s by simp
qed

section \<open>Access to unaligned integers\<close>

definition get_u64 :: "string \<Rightarrow> nat \<Rightarrow> u64 option" where
  "get_u64 tab p = map_option (\<lambda>s. of_nat (le_val s)) (slice tab p 8)"

definition get_i64 :: "string \<Rightarrow> nat \<Rightarrow> int option" where
  "get_i64 tab p = map_option sint (get_u64 tab p)"

definition put_u64 :: "string \<Rightarrow> nat \<Rightarrow> u64 \<Rightarrow> string option" where
  "put_u64 tab p val = blit tab p (le_bytes 8 (unat val)) 8"

definition get_u32 :: "string \<Rightarrow> nat \<Rightarrow> u32 option" where
  "get_u32 tab p = map_option (\<lambda>s. of_nat (le_val s)) (slice tab p 4)"

definition get_i32 :: "string \<Rightarrow> nat \<Rightarrow> int option" where
  "get_i32 tab p = map_option sint (get_u32 tab p)"

definition put_u32 :: "string \<Rightarrow> nat \<Rightarrow> u32 \<Rightarrow> string option" where
  "put_u32 tab p val = blit tab p (le_bytes 4 (unat val)) 4"

text \<open>The shorter integers are widened: with zeros, or with the sign.\<close>

definition get_u16 :: "string \<Rightarrow> nat \<Rightarrow> u32 option" where
  "get_u16 tab p = map_option (\<lambda>s. ucast (of_nat (le_val s) :: u16)) (slice tab p 2)"

definition get_i16 :: "string \<Rightarrow> nat \<Rightarrow> int option" where
  "get_i16 tab p = map_option (\<lambda>s. sint (of_nat (le_val s) :: u16)) (slice tab p 2)"

definition put_u16 :: "string \<Rightarrow> nat \<Rightarrow> u16 \<Rightarrow> string option" where
  "put_u16 tab p val = blit tab p (le_bytes 2 (unat val)) 2"

definition get_u8 :: "string \<Rightarrow> nat \<Rightarrow> u32 option" where
  "get_u8 tab p = map_option of_char (rd tab p)"

definition get_i8 :: "string \<Rightarrow> nat \<Rightarrow> int option" where
  "get_i8 tab p = map_option (\<lambda>c. sint (of_char c :: u8)) (rd tab p)"

definition put_u8 :: "string \<Rightarrow> nat \<Rightarrow> u8 \<Rightarrow> string option" where
  "put_u8 tab p val = wr tab p (char_of (unat val))"

lemma slice_blit: "blit tab p s n = Some tab' \<Longrightarrow> length s = n \<Longrightarrow> slice tab' p n = Some s"
  by (auto simp: blit_def slice_def split: if_splits)

lemma le_val_word: "le_val (le_bytes 8 (unat (v :: u64))) = unat v" "le_val (le_bytes 4 (unat (w :: u32))) = unat w"
  "le_val (le_bytes 2 (unat (x :: u16))) = unat x"
  using unsigned_less[of v, where ?'a = nat] unsigned_less[of w, where ?'a = nat] unsigned_less[of x, where ?'a = nat]
  by (simp_all add: le_val_bytes)

lemma get_put:
  "put_u64 tab p v = Some t \<Longrightarrow> get_u64 t p = Some v \<and> get_i64 t p = Some (sint v)"
  "put_u32 tab p w = Some t \<Longrightarrow> get_u32 t p = Some w \<and> get_i32 t p = Some (sint w)"
  "put_u16 tab p x = Some t \<Longrightarrow> get_u16 t p = Some (ucast x) \<and> get_i16 t p = Some (sint x)"
  "put_u8 tab p y = Some t \<Longrightarrow> get_u8 t p = Some (ucast y) \<and> get_i8 t p = Some (sint y)"
proof -
  show "put_u64 tab p v = Some t \<Longrightarrow> get_u64 t p = Some v \<and> get_i64 t p = Some (sint v)"
    unfolding put_u64_def by (drule slice_blit) (simp_all add: get_u64_def get_i64_def le_val_word)
  show "put_u32 tab p w = Some t \<Longrightarrow> get_u32 t p = Some w \<and> get_i32 t p = Some (sint w)"
    unfolding put_u32_def by (drule slice_blit) (simp_all add: get_u32_def get_i32_def le_val_word)
  show "put_u16 tab p x = Some t \<Longrightarrow> get_u16 t p = Some (ucast x) \<and> get_i16 t p = Some (sint x)"
    unfolding put_u16_def by (drule slice_blit) (simp_all add: get_u16_def get_i16_def le_val_word)
  have c: "unat y < 256" using unsigned_less[of y, where ?'a = nat] by simp
  have u: "(of_char d :: 'b::len word) = of_nat (uchar d)" for d by (simp add: uchar_def of_nat_of_char)
  have "(of_char (char_of (unat y) :: char) :: u8) = y" "(of_char (char_of (unat y) :: char) :: u32) = ucast y"
    unfolding u using c by (simp_all add: unsigned_ucast_eq)
  thus "put_u8 tab p y = Some t \<Longrightarrow> get_u8 t p = Some (ucast y) \<and> get_i8 t p = Some (sint y)"
    by (auto simp: put_u8_def get_u8_def get_i8_def dest!: wr_SomeD)
qed

section \<open>The exchange of bytes\<close>

text \<open>The shifts of \<open>bswap16\<close> are those of \<open>int\<close>, cut to 16 bits by the result.\<close>

definition bswap16 :: "u16 \<Rightarrow> u16" where
  "bswap16 x = drop_bit 8 x OR push_bit 8 x"

definition bswap32 :: "u32 \<Rightarrow> u32" where
  "bswap32 v = drop_bit 24 (v AND 0xff000000) OR drop_bit 8 (v AND 0x00ff0000) OR
     push_bit 8 (v AND 0x0000ff00) OR push_bit 24 (v AND 0x000000ff)"

definition bswap64 :: "u64 \<Rightarrow> u64" where
  "bswap64 v =
     drop_bit (7 * 8) (v AND push_bit (7 * 8) 0xff) OR drop_bit (5 * 8) (v AND push_bit (6 * 8) 0xff) OR
     drop_bit (3 * 8) (v AND push_bit (5 * 8) 0xff) OR drop_bit (1 * 8) (v AND push_bit (4 * 8) 0xff) OR
     push_bit (1 * 8) (v AND push_bit (3 * 8) 0xff) OR push_bit (3 * 8) (v AND push_bit (2 * 8) 0xff) OR
     push_bit (5 * 8) (v AND push_bit (1 * 8) 0xff) OR push_bit (7 * 8) (v AND push_bit (0 * 8) 0xff)"

lemma mask_byte: "(0xff :: 'a::len word) = mask 8"
  by (simp add: mask_eq_exp_minus_1)

lemma bswap16_bit: "n < 16 \<Longrightarrow> bit (bswap16 v) n = bit v ((n + 8) mod 16)"
  by (cases "n < 8") (auto simp: bswap16_def bit_simps mod_if add.commute dest: bit_imp_le_length)

lemma bswap32_bit:
  assumes "n < 32"
  shows "bit (bswap32 v) n = bit v (if n < 8 then n + 24 else if n < 16 then n + 8 else if n < 24 then n - 8 else n - 24)"
proof -
  have m: "(0xff000000 :: u32) = push_bit 24 (mask 8)" "(0x00ff0000 :: u32) = push_bit 16 (mask 8)"
    "(0x0000ff00 :: u32) = push_bit 8 (mask 8)" "(0x000000ff :: u32) = mask 8" by (simp_all add: mask_eq_exp_minus_1 push_bit_eq_mult)
  consider "n < 8" | "8 \<le> n" "n < 16" | "16 \<le> n" "n < 24" | "24 \<le> n" by linarith
  thus ?thesis unfolding bswap32_def m using assms by cases (auto simp: bit_simps add.commute)
qed

lemma bswap32_involution: "bswap32 (bswap32 v) = v"
  by (rule bit_word_eqI) (auto simp: bswap32_bit)

lemma bswap16_involution: "bswap16 (bswap16 v) = v"
  by (rule bit_word_eqI) (auto simp: bswap16_bit mod_if)

text \<open>Byte \<open>k\<close> of the exchanged number is byte \<open>7 - k\<close> of the number.\<close>

lemma bswap64_bit:
  assumes "n < 64"
  shows "bit (bswap64 v) n = bit v
    (if n < 8 then n + 56 else if n < 16 then n + 40 else if n < 24 then n + 24 else if n < 32 then n + 8
     else if n < 40 then n - 8 else if n < 48 then n - 24 else if n < 56 then n - 40 else n - 56)"
proof -
  consider "n < 8" | "8 \<le> n" "n < 16" | "16 \<le> n" "n < 24" | "24 \<le> n" "n < 32" | "32 \<le> n" "n < 40" | "40 \<le> n" "n < 48"
    | "48 \<le> n" "n < 56" | "56 \<le> n" by linarith
  thus ?thesis unfolding bswap64_def mask_byte using assms by cases (auto simp: bit_simps add.commute)
qed

lemma bswap64_involution: "bswap64 (bswap64 v) = v"
  by (rule bit_word_eqI) (auto simp: bswap64_bit)

end
