(* ===== verification/Mux.thy ===== *)
theory Mux
  imports Http "HOL-Library.Sublist"
begin

text \<open>
  \<open>src/mux.c\<close>: the audio file and the video file are copied, packet by packet, into one output.

  The functions of FFmpeg are a parameter: what each call answers for an input, a packet or the
  output. An input is its streams and the packets it still gives, an output the streams it has and
  what was written to it. A pointer to one is \<open>Null\<close>, \<open>Live\<close> or \<open>Freed\<close>.
\<close>

section \<open>Inputs and outputs\<close>

datatype ytdl_mux_loglevel = YTDL_MUX_LOG_QUIET | YTDL_MUX_LOG_ERRORS | YTDL_MUX_LOG_VERBOSE

datatype media_type = AVMEDIA_TYPE_VIDEO | AVMEDIA_TYPE_AUDIO | AVMEDIA_TYPE_OTHER

record av_codecpar =
  codec_type :: media_type
  codec_tag :: nat
  codec_data :: string

record av_packet =
  stream_index :: nat
  pts :: int
  packet_data :: string

record av_input =
  in_streams :: "av_codecpar list"
  in_packets :: "av_packet list"

record av_output =
  out_streams :: "av_codecpar option list"
  out_open :: bool
  out_header :: bool
  out_packets :: "av_packet list"
  out_trailer :: bool

text \<open>What is printed to the standard error.\<close>

datatype mux_message =
    NoOutputContext | CannotOpenInput string | NoStreamInfo string | NoAudioStreamAlloc | NoAudioParameters | AudioNotFound
  | NoVideoStreamAlloc | NoVideoParameters | VideoNotFound | DumpFormat | CannotOpenOutput | HeaderError | PacketError | TrailerError
  | ErrorOccurred int

text \<open>\<open>mx_file\<close> is the output as it was when its context was freed.\<close>

record mux_state =
  mx_a :: "av_input ptr"
  mx_v :: "av_input ptr"
  mx_o :: "av_output ptr"
  mx_file :: "av_output option"
  mx_messages :: "mux_message list"

text \<open>
  \<open>ff_rescale\<close> is the change of the time base of a packet from a stream of the input to the stream
  \<open>idx\<close> of the output; \<open>ff_compare\<close> compares a time of the first stream of the output with one of the
  second. \<open>ff_write\<close> may depend on what the output holds.
\<close>

record ffmpeg =
  ff_output :: bool
  ff_open :: "string \<Rightarrow> int \<times> av_input"
  ff_find :: "av_input \<Rightarrow> int"
  ff_new_stream :: "nat \<Rightarrow> bool"
  ff_copy :: "av_codecpar \<Rightarrow> int"
  ff_nofile :: bool
  ff_avio_open :: bool
  ff_header :: int
  ff_rescale :: "nat \<Rightarrow> nat \<Rightarrow> av_packet \<Rightarrow> av_packet"
  ff_compare :: "int \<Rightarrow> int \<Rightarrow> int"
  ff_write :: "av_output \<Rightarrow> av_packet \<Rightarrow> int"
  ff_write_trailer :: int
  AVERROR_UNKNOWN :: int
  AVERROR_EOF :: int

definition complain :: "mux_message \<Rightarrow> mux_state \<Rightarrow> mux_state" where
  "complain m s = s\<lparr>mx_messages := mx_messages s @ [m]\<rparr>"

definition unless_quiet :: "ytdl_mux_loglevel \<Rightarrow> mux_message \<Rightarrow> mux_state \<Rightarrow> mux_state" where
  "unless_quiet level m s = (if level \<noteq> YTDL_MUX_LOG_QUIET then complain m s else s)"

section \<open>Packets\<close>

text \<open>
  One packet of an input: the input without it, the output, the time \<open>next_pts\<close> and the answer, 0 when
  the stream is at its end or cannot be written. The error of the write is the last part.
\<close>

definition ytdl__mux_write_frame ::
    "ffmpeg \<Rightarrow> av_input \<Rightarrow> av_output \<Rightarrow> int \<Rightarrow> int \<Rightarrow> nat \<Rightarrow> (av_input \<times> av_output \<times> int \<times> bool \<times> bool) option" where
  "ytdl__mux_write_frame ff fmt_ctx out next_pts video_st idx =
     (case in_packets fmt_ctx of
        [] \<Rightarrow> Some (fmt_ctx, out, next_pts, False, False)
      | p # ps \<Rightarrow>
          let fmt_ctx = fmt_ctx\<lparr>in_packets := ps\<rparr> in
          if stream_index p \<ge> length (in_streams fmt_ctx) then None
          else if int (stream_index p) \<noteq> video_st then Some (fmt_ctx, out, next_pts, True, False)
          else if idx \<ge> length (out_streams out) then None
          else
            let q = ff_rescale ff (stream_index p) idx (p\<lparr>stream_index := idx\<rparr>); next_pts = pts q in
            if ff_write ff out q < 0 then Some (fmt_ctx, out, next_pts, False, True)
            else Some (fmt_ctx, out\<lparr>out_packets := out_packets out @ [q]\<rparr>, next_pts, True, False))"

lemma write_frame_consumes:
  "ytdl__mux_write_frame ff i out t st idx = Some (i', out', t', go, err) \<Longrightarrow>
     length (in_packets i') \<le> length (in_packets i) \<and> (go \<longrightarrow> length (in_packets i') < length (in_packets i)) \<and> (go \<longrightarrow> \<not> err)"
  by (auto simp: ytdl__mux_write_frame_def Let_def split: list.splits if_splits)

record mux_times =
  next_a_pts :: int
  next_v_pts :: int

text \<open>The loop over both inputs, on the inputs, the output and the messages.\<close>

function mux_loop ::
    "ffmpeg \<Rightarrow> ytdl_mux_loglevel \<Rightarrow> int \<Rightarrow> int \<Rightarrow> bool \<Rightarrow> bool \<Rightarrow> mux_times \<Rightarrow> av_input \<Rightarrow> av_input \<Rightarrow> av_output \<Rightarrow> mux_message list \<Rightarrow>
      (av_input \<times> av_input \<times> av_output \<times> mux_message list) option" where
  "mux_loop ff level audio_st video_st encode_audio encode_video t a v out ms =
     (if encode_audio \<or> encode_video
      then if encode_audio \<and> (\<not> encode_video \<or> ff_compare ff (next_a_pts t) (next_v_pts t) \<le> 0)
        then do { (a, out, n, go, err) \<leftarrow> ytdl__mux_write_frame ff a out (next_a_pts t) audio_st 0;
                  mux_loop ff level audio_st video_st go encode_video (t\<lparr>next_a_pts := n\<rparr>) a v out
                    (if err \<and> level \<noteq> YTDL_MUX_LOG_QUIET then ms @ [PacketError] else ms) }
        else do { (v, out, n, go, err) \<leftarrow> ytdl__mux_write_frame ff v out (next_v_pts t) video_st 1;
                  mux_loop ff level audio_st video_st encode_audio go (t\<lparr>next_v_pts := n\<rparr>) a v out
                    (if err \<and> level \<noteq> YTDL_MUX_LOG_QUIET then ms @ [PacketError] else ms) }
      else Some (a, v, out, ms))"
  by auto
termination
  by (relation "measure (\<lambda>(ff, level, as, vs, ea, ev, t, a, v, out, ms).
        length (in_packets a) + length (in_packets v) + (if ea then 1 else 0) + (if ev then 1 else 0))")
    (auto dest!: write_frame_consumes)

declare mux_loop.simps [simp del]

section \<open>Files\<close>

text \<open>The first stream of a type.\<close>

fun first_stream :: "media_type \<Rightarrow> av_codecpar list \<Rightarrow> nat \<Rightarrow> nat option" where
  "first_stream k [] i = None"
| "first_stream k (c # cs) i = (if codec_type c = k then Some i else first_stream k cs (i + 1))"

text \<open>\<open>avformat_close_input\<close> sets the pointer to \<open>NULL\<close>, \<open>avformat_free_context\<close> leaves it.\<close>

definition close_input :: "'a ptr \<Rightarrow> 'a ptr option" where
  "close_input p = (case p of Freed \<Rightarrow> None | _ \<Rightarrow> Some Null)"

definition exit_1 :: "ffmpeg \<Rightarrow> ytdl_mux_loglevel \<Rightarrow> mux_state \<Rightarrow> int \<Rightarrow> (mux_state \<times> int) option" where
  "exit_1 ff level s ret =
     (if ret < 0 \<and> ret \<noteq> AVERROR_EOF ff then Some (unless_quiet level (ErrorOccurred ret) s, ret) else Some (s, 0))"

definition exit_2 :: "ffmpeg \<Rightarrow> ytdl_mux_loglevel \<Rightarrow> mux_state \<Rightarrow> int \<Rightarrow> (mux_state \<times> int) option" where
  "exit_2 ff level s ret =
     do { a \<leftarrow> close_input (mx_a s); out \<leftarrow> release (mx_o s);
          exit_1 ff level (s\<lparr>mx_a := a, mx_o := out, mx_file := use (mx_o s)\<rparr>) ret }"

definition exit_3 :: "ffmpeg \<Rightarrow> ytdl_mux_loglevel \<Rightarrow> mux_state \<Rightarrow> int \<Rightarrow> (mux_state \<times> int) option" where
  "exit_3 ff level s ret =
     do { out \<leftarrow> use (mx_o s);
          let s = (if ff_nofile ff then s else s\<lparr>mx_o := Live (out\<lparr>out_open := False\<rparr>)\<rparr>);
          v \<leftarrow> close_input (mx_v s);
          exit_2 ff level (s\<lparr>mx_v := v\<rparr>) ret }"

text \<open>
  The stream of a type is given to the output: the state, the input, the index of the stream (-1 for
  none), whether it went well, and \<open>ret\<close>. The tag is cleared in the input, for audio only.
\<close>

definition add_stream ::
    "ffmpeg \<Rightarrow> ytdl_mux_loglevel \<Rightarrow> media_type \<Rightarrow> mux_message \<Rightarrow> mux_message \<Rightarrow> av_input \<Rightarrow> int \<Rightarrow> mux_state \<Rightarrow>
      (mux_state \<times> av_input \<times> int \<times> bool \<times> int) option" where
  "add_stream ff level k no_alloc no_copy fmt_ctx ret s =
     (case first_stream k (in_streams fmt_ctx) 0 of
        None \<Rightarrow> Some (s, fmt_ctx, -1, True, ret)
      | Some i \<Rightarrow>
          do { out \<leftarrow> use (mx_o s);
               if \<not> ff_new_stream ff (length (out_streams out))
               then Some (unless_quiet level no_alloc s, fmt_ctx, int i, False, AVERROR_UNKNOWN ff)
               else
                 let c = in_streams fmt_ctx ! i;
                     c = (if k = AVMEDIA_TYPE_AUDIO then c\<lparr>codec_tag := 0\<rparr> else c);
                     fmt_ctx = fmt_ctx\<lparr>in_streams := (in_streams fmt_ctx)[i := c]\<rparr>;
                     ret = ff_copy ff c;
                     added = (\<lambda>p. s\<lparr>mx_o := Live (out\<lparr>out_streams := out_streams out @ [p]\<rparr>)\<rparr>) in
                 if ret < 0 then Some (unless_quiet level no_copy (added None), fmt_ctx, int i, False, ret)
                 else Some (added (Some c), fmt_ctx, int i, True, ret) })"

text \<open>From the header to the trailer; the answer of \<open>avio_open\<close> is not looked at: \<open>ret\<close> is that of the last copy.\<close>

definition mux_packets :: "ffmpeg \<Rightarrow> ytdl_mux_loglevel \<Rightarrow> int \<Rightarrow> int \<Rightarrow> mux_state \<Rightarrow> int \<Rightarrow> (mux_state \<times> int) option" where
  "mux_packets ff level audio_st video_st s ret =
     do { out \<leftarrow> use (mx_o s);
          let out = (if ff_nofile ff then out else out\<lparr>out_open := ff_avio_open ff\<rparr>);
          let s = s\<lparr>mx_o := Live out\<rparr>;
          if \<not> ff_nofile ff \<and> ret < 0 then exit_3 ff level (complain CannotOpenOutput s) ret
          else if ff_header ff < 0 then exit_3 ff level (complain HeaderError s) (ff_header ff)
          else do { a \<leftarrow> use (mx_a s); v \<leftarrow> use (mx_v s);
                    (a, v, out, ms) \<leftarrow> mux_loop ff level audio_st video_st True True \<lparr>next_a_pts = 0, next_v_pts = 0\<rparr> a v
                      (out\<lparr>out_header := True\<rparr>) (mx_messages s);
                    let ret = ff_write_trailer ff;
                    let s = s\<lparr>mx_a := Live a, mx_v := Live v, mx_o := Live (out\<lparr>out_trailer := (ret \<ge> 0)\<rparr>), mx_messages := ms\<rparr>;
                    exit_3 ff level (if ret < 0 then complain TrailerError s else s) ret } }"

definition mux_video :: "ffmpeg \<Rightarrow> ytdl_mux_loglevel \<Rightarrow> string \<Rightarrow> int \<Rightarrow> mux_state \<Rightarrow> (mux_state \<times> int) option" where
  "mux_video ff level video_path audio_st s =
     (let (ret, v) = ff_open ff video_path in
      if ret < 0 then exit_2 ff level (unless_quiet level (CannotOpenInput video_path) s) ret
      else let s = s\<lparr>mx_v := Live v\<rparr>; ret = ff_find ff v in
        if ret < 0 then exit_3 ff level (unless_quiet level (NoStreamInfo video_path) s) ret
        else do { (s, v, video_st, ok, ret) \<leftarrow> add_stream ff level AVMEDIA_TYPE_VIDEO NoVideoStreamAlloc NoVideoParameters v ret s;
                  let s = s\<lparr>mx_v := Live v\<rparr>;
                  if \<not> ok then exit_3 ff level s ret
                  else if video_st = -1 then exit_3 ff level (unless_quiet level VideoNotFound s) (AVERROR_UNKNOWN ff)
                  else mux_packets ff level audio_st video_st (if level = YTDL_MUX_LOG_VERBOSE then complain DumpFormat s else s) ret })"

definition ytdl_mux_files :: "ffmpeg \<Rightarrow> string \<Rightarrow> string \<Rightarrow> ytdl_mux_loglevel \<Rightarrow> (mux_state \<times> int) option" where
  "ytdl_mux_files ff audio_path video_path level =
     (let s = \<lparr>mx_a = Null, mx_v = Null, mx_o = Null, mx_file = None, mx_messages = []\<rparr> in
      if \<not> ff_output ff then exit_1 ff level (unless_quiet level NoOutputContext s) (AVERROR_UNKNOWN ff)
      else
        let s = s\<lparr>mx_o := Live \<lparr>out_streams = [], out_open = False, out_header = False, out_packets = [], out_trailer = False\<rparr>\<rparr>;
            (ret, a) = ff_open ff audio_path in
        if ret < 0 then exit_1 ff level (unless_quiet level (CannotOpenInput audio_path) s) ret
        else let s = s\<lparr>mx_a := Live a\<rparr>; ret = ff_find ff a in
          if ret < 0 then exit_2 ff level (unless_quiet level (NoStreamInfo audio_path) s) ret
          else do { (s, a, audio_st, ok, ret) \<leftarrow> add_stream ff level AVMEDIA_TYPE_AUDIO NoAudioStreamAlloc NoAudioParameters a ret s;
                    let s = s\<lparr>mx_a := Live a\<rparr>;
                    if \<not> ok then exit_2 ff level s ret
                    else if audio_st = -1 then exit_2 ff level (unless_quiet level AudioNotFound s) (AVERROR_UNKNOWN ff)
                    else mux_video ff level video_path audio_st s })"

section \<open>The packets of the output\<close>

definition packets_ok :: "av_input \<Rightarrow> bool" where
  "packets_ok i \<longleftrightarrow> (\<forall>p \<in> set (in_packets i). stream_index p < length (in_streams i))"

definition write_ok :: "ffmpeg \<Rightarrow> bool" where
  "write_ok ff \<longleftrightarrow> (\<forall>out p. ff_write ff out p \<ge> 0)"

text \<open>The packets of the stream \<open>st\<close>, as they are given to the stream \<open>idx\<close> of the output.\<close>

definition selected :: "ffmpeg \<Rightarrow> int \<Rightarrow> nat \<Rightarrow> av_input \<Rightarrow> av_packet list" where
  "selected ff st idx i =
     map (\<lambda>p. ff_rescale ff (stream_index p) idx (p\<lparr>stream_index := idx\<rparr>)) (filter (\<lambda>p. int (stream_index p) = st) (in_packets i))"

lemma write_frame_spec:
  assumes "packets_ok i" "idx < length (out_streams out)"
  obtains i' ws t' go err where
    "ytdl__mux_write_frame ff i out t st idx = Some (i', out\<lparr>out_packets := out_packets out @ ws\<rparr>, t', go, err)"
    "packets_ok i'" "go \<Longrightarrow> selected ff st idx i = ws @ selected ff st idx i'" "\<not> go \<Longrightarrow> ws = []"
    "\<not> go \<Longrightarrow> write_ok ff \<Longrightarrow> selected ff st idx i = []"
proof (cases "in_packets i")
  case Nil
  then show ?thesis using assms that [of i "[]" t False False]
    by (simp add: ytdl__mux_write_frame_def selected_def)
next
  case (Cons p ps)
  let ?i = "i\<lparr>in_packets := ps\<rparr>" and ?q = "ff_rescale ff (stream_index p) idx (p\<lparr>stream_index := idx\<rparr>)"
  have ok: "packets_ok ?i" and l: "stream_index p < length (in_streams i)" using assms(1) Cons by (simp_all add: packets_ok_def)
  note [simp] = ytdl__mux_write_frame_def selected_def Cons Let_def
  consider "int (stream_index p) \<noteq> st" | "int (stream_index p) = st" "ff_write ff out ?q < 0" | "int (stream_index p) = st" "ff_write ff out ?q \<ge> 0"
    by linarith
  then show ?thesis
  proof cases
    case 1
    then show ?thesis using assms(2) ok l that [of ?i "[]" t True False] by simp
  next
    case 2
    then have "\<not> write_ok ff" unfolding write_ok_def by (metis not_le)
    with 2 show ?thesis using assms(2) ok l that [of ?i "[]" "pts ?q" False True] by simp
  next
    case 3
    then show ?thesis using assms(2) ok l that [of ?i "[?q]" "pts ?q" True False] by auto
  qed
qed

lemma append_in_shuffles_leftI: "zs \<in> shuffles xs ys \<Longrightarrow> ws @ zs \<in> shuffles (ws @ xs) ys"
  by (induction ws) (auto intro: Cons_in_shuffles_leftI)

lemma append_in_shuffles_rightI: "zs \<in> shuffles xs ys \<Longrightarrow> ws @ zs \<in> shuffles xs (ws @ ys)"
  by (induction ws) (auto intro: Cons_in_shuffles_rightI)

text \<open>What a loop may have written: prefixes of both streams, shuffled, and all of them when every write succeeds.\<close>

definition interleaves :: "bool \<Rightarrow> 'a list \<Rightarrow> 'a list \<Rightarrow> 'a list \<Rightarrow> bool" where
  "interleaves all as vs qs \<longleftrightarrow>
     (\<exists>xs ys. prefix xs as \<and> prefix ys vs \<and> qs \<in> shuffles xs ys \<and> (all \<longrightarrow> xs = as \<and> ys = vs))"

lemma interleaves_Nil: "(all \<Longrightarrow> as = [] \<and> vs = []) \<Longrightarrow> interleaves all as vs []"
  unfolding interleaves_def by (rule exI [of _ "[]"], rule exI [of _ "[]"]) auto

lemma interleaves_left: "interleaves all as vs qs \<Longrightarrow> interleaves all (ws @ as) vs (ws @ qs)"
  unfolding interleaves_def by (metis append_in_shuffles_leftI same_prefix_prefix)

lemma interleaves_right: "interleaves all as vs qs \<Longrightarrow> interleaves all as (ws @ vs) (ws @ qs)"
  unfolding interleaves_def by (metis append_in_shuffles_rightI same_prefix_prefix)

lemma interleaves_stop_left: "interleaves all [] vs qs \<Longrightarrow> (all \<Longrightarrow> as = []) \<Longrightarrow> interleaves all as vs qs"
  unfolding interleaves_def by (metis Nil_prefix prefix_bot.bot_unique)

lemma interleaves_stop_right: "interleaves all as [] qs \<Longrightarrow> (all \<Longrightarrow> vs = []) \<Longrightarrow> interleaves all as vs qs"
  unfolding interleaves_def by (metis Nil_prefix prefix_bot.bot_unique)

lemma mux_loop_spec:
  assumes "packets_ok a" "packets_ok v" "length (out_streams out) = 2"
  shows "\<exists>a' v' qs ms'. mux_loop ff level audio_st video_st ea ev t a v out ms =
           Some (a', v', out\<lparr>out_packets := out_packets out @ qs\<rparr>, ms') \<and>
         interleaves (write_ok ff) (if ea then selected ff audio_st 0 a else []) (if ev then selected ff video_st 1 v else []) qs"
  using assms
proof (induction ff level audio_st video_st ea ev t a v out ms rule: mux_loop.induct)
  case (1 ff level audio_st video_st ea ev t a v out ms)
  let ?sa = "selected ff audio_st 0" and ?sv = "selected ff video_st 1"
  consider "\<not> (ea \<or> ev)" | "ea \<or> ev" "ea \<and> (\<not> ev \<or> ff_compare ff (next_a_pts t) (next_v_pts t) \<le> 0)"
    | "ea \<or> ev" "\<not> (ea \<and> (\<not> ev \<or> ff_compare ff (next_a_pts t) (next_v_pts t) \<le> 0))" by blast
  then show ?case
  proof cases
    case 1
    then show ?thesis by (auto simp: mux_loop.simps [of ff] intro!: interleaves_Nil exI [of _ "[]"])
  next
    case 2
    have "0 < length (out_streams out)" using "1.prems"(3) by simp
    with "1.prems"(1) obtain i ws n go err where w: "ytdl__mux_write_frame ff a out (next_a_pts t) audio_st 0 =
          Some (i, out\<lparr>out_packets := out_packets out @ ws\<rparr>, n, go, err)" "packets_ok i"
        "go \<Longrightarrow> ?sa a = ws @ ?sa i" "\<not> go \<Longrightarrow> ws = []" "\<not> go \<Longrightarrow> write_ok ff \<Longrightarrow> ?sa a = []"
      by (rule write_frame_spec [where ff = ff and t = "next_a_pts t" and st = audio_st]) blast
    have step: "mux_loop ff level audio_st video_st ea ev t a v out ms =
          mux_loop ff level audio_st video_st go ev (t\<lparr>next_a_pts := n\<rparr>) i v (out\<lparr>out_packets := out_packets out @ ws\<rparr>)
            (if err \<and> level \<noteq> YTDL_MUX_LOG_QUIET then ms @ [PacketError] else ms)"
      by (subst mux_loop.simps) (use 2 w(1) in simp)
    obtain a' v' qs ms' where r: "mux_loop ff level audio_st video_st ea ev t a v out ms =
          Some (a', v', out\<lparr>out_packets := (out_packets out @ ws) @ qs\<rparr>, ms')"
        "interleaves (write_ok ff) (if go then ?sa i else []) (if ev then ?sv v else []) qs"
      using "1.IH"(1) [OF 2 w(1) refl refl refl refl w(2) "1.prems"(2)] "1.prems"(3) unfolding step by auto
    have "interleaves (write_ok ff) (?sa a) (if ev then ?sv v else []) (ws @ qs)"
      using r(2) w(3-5) by (cases go) (auto intro: interleaves_left interleaves_stop_left)
    with r(1) 2 show ?thesis by (auto intro!: exI [of _ "ws @ qs"])
  next
    case 3
    have "1 < length (out_streams out)" using "1.prems"(3) by simp
    with "1.prems"(2) obtain i ws n go err where w: "ytdl__mux_write_frame ff v out (next_v_pts t) video_st 1 =
          Some (i, out\<lparr>out_packets := out_packets out @ ws\<rparr>, n, go, err)" "packets_ok i"
        "go \<Longrightarrow> ?sv v = ws @ ?sv i" "\<not> go \<Longrightarrow> ws = []" "\<not> go \<Longrightarrow> write_ok ff \<Longrightarrow> ?sv v = []"
      by (rule write_frame_spec [where ff = ff and t = "next_v_pts t" and st = video_st]) blast
    have step: "mux_loop ff level audio_st video_st ea ev t a v out ms =
          mux_loop ff level audio_st video_st ea go (t\<lparr>next_v_pts := n\<rparr>) a i (out\<lparr>out_packets := out_packets out @ ws\<rparr>)
            (if err \<and> level \<noteq> YTDL_MUX_LOG_QUIET then ms @ [PacketError] else ms)"
      by (subst mux_loop.simps) (simp only: if_P [OF 3(1)] if_not_P [OF 3(2)] w(1) bind.bind_lunit prod.case)
    obtain a' v' qs ms' where r: "mux_loop ff level audio_st video_st ea ev t a v out ms =
          Some (a', v', out\<lparr>out_packets := (out_packets out @ ws) @ qs\<rparr>, ms')"
        "interleaves (write_ok ff) (if ea then ?sa a else []) (if go then ?sv i else []) qs"
      using "1.IH"(2) [OF 3 w(1) refl refl refl refl "1.prems"(1) w(2)] "1.prems"(3) unfolding step by auto
    have "interleaves (write_ok ff) (if ea then ?sa a else []) (?sv v) (ws @ qs)"
      using r(2) w(3-5) by (cases go) (auto intro: interleaves_right interleaves_stop_right)
    with r(1) 3 show ?thesis by (auto intro!: exI [of _ "ws @ qs"])
  qed
qed

section \<open>What is left behind\<close>

definition mux_closed :: "mux_state \<Rightarrow> bool" where
  "mux_closed s \<longleftrightarrow> mx_a s = Null \<and> mx_v s = Null \<and> mx_o s \<in> {Null, Freed}"

text \<open>The call comes to an end, with every context closed and with 0 or an error code.\<close>

definition mux_ends :: "(mux_state \<times> int) option \<Rightarrow> bool" where
  "mux_ends x \<longleftrightarrow> (case x of None \<Rightarrow> False | Some (s, r) \<Rightarrow> mux_closed s \<and> r \<le> 0)"

lemma complain_sel [simp]:
  "mx_a (complain m s) = mx_a s" "mx_v (complain m s) = mx_v s" "mx_o (complain m s) = mx_o s" "mx_file (complain m s) = mx_file s"
  by (simp_all add: complain_def)

lemma unless_quiet_sel [simp]:
  "mx_a (unless_quiet l m s) = mx_a s" "mx_v (unless_quiet l m s) = mx_v s" "mx_o (unless_quiet l m s) = mx_o s"
  "mx_file (unless_quiet l m s) = mx_file s"
  by (simp_all add: unless_quiet_def)

lemma exit_1_ends: "mux_closed s \<Longrightarrow> mux_ends (exit_1 ff l s r)"
  by (simp add: mux_ends_def exit_1_def mux_closed_def)

lemma exit_2_ends: "mx_a s \<noteq> Freed \<Longrightarrow> mx_v s = Null \<Longrightarrow> mx_o s \<noteq> Freed \<Longrightarrow> mux_ends (exit_2 ff l s r)"
  by (cases "mx_a s"; cases "mx_o s")
    (auto simp: exit_2_def close_input_def release_def mux_closed_def intro!: exit_1_ends)

lemma exit_3_ends: "mx_a s \<noteq> Freed \<Longrightarrow> mx_v s \<noteq> Freed \<Longrightarrow> mx_o s = Live out \<Longrightarrow> mux_ends (exit_3 ff l s r)"
  by (cases "mx_v s") (auto simp: exit_3_def close_input_def use_def intro!: exit_2_ends)

lemmas exits_end = exit_2_ends exit_3_ends

lemma first_stream_lt: "first_stream k cs n = Some i \<Longrightarrow> n \<le> i \<and> i < n + length cs"
  by (induction k cs n rule: first_stream.induct) (auto split: if_splits)

text \<open>What \<open>add_stream\<close> leaves: a stream more in the output when it found one, and everything else as it was.\<close>

lemma add_stream_spec:
  assumes "mx_o s = Live out"
  obtains s' i' idx ok ret' ps where
    "add_stream ff l k m n i ret s = Some (s', i', idx, ok, ret')"
    "mx_a s' = mx_a s" "mx_v s' = mx_v s" "mx_o s' = Live (out\<lparr>out_streams := out_streams out @ ps\<rparr>)"
    "in_packets i' = in_packets i" "length (in_streams i') = length (in_streams i)"
    "ok \<Longrightarrow> idx \<noteq> -1 \<Longrightarrow> length ps = 1"
proof (cases "first_stream k (in_streams i) 0")
  case None
  with assms that [of s i "-1" True ret "[]"] show ?thesis by (simp add: add_stream_def)
next
  case (Some j)
  let ?c = "in_streams i ! j"
  let ?c' = "if k = AVMEDIA_TYPE_AUDIO then ?c\<lparr>codec_tag := 0\<rparr> else ?c"
  let ?i = "i\<lparr>in_streams := (in_streams i)[j := ?c']\<rparr>"
  let ?s = "\<lambda>p. s\<lparr>mx_o := Live (out\<lparr>out_streams := out_streams out @ [p]\<rparr>)\<rparr>"
  note [simp] = add_stream_def Some assms use_def Let_def
  consider "\<not> ff_new_stream ff (length (out_streams out))"
    | "ff_new_stream ff (length (out_streams out))" "ff_copy ff ?c' < 0"
    | "ff_new_stream ff (length (out_streams out))" "\<not> ff_copy ff ?c' < 0" by blast
  then show ?thesis
  proof cases
    case 1
    then show ?thesis using that [of "unless_quiet l m s" i "int j" False "AVERROR_UNKNOWN ff" "[]"] by simp
  next
    case 2
    then show ?thesis using that [of "unless_quiet l n (?s None)" ?i "int j" False "ff_copy ff ?c'" "[None]"] by simp
  next
    case 3
    then show ?thesis using that [of "?s (Some ?c')" ?i "int j" True "ff_copy ff ?c'" "[Some ?c']"] by simp
  qed
qed

lemma mux_packets_ends:
  assumes "mx_a s = Live a" "mx_v s = Live v" "mx_o s = Live out" "packets_ok a" "packets_ok v" "length (out_streams out) = 2"
  shows "mux_ends (mux_packets ff l i j s ret)"
proof -
  let ?o = "if ff_nofile ff then out else out\<lparr>out_open := ff_avio_open ff\<rparr>"
  let ?o' = "?o\<lparr>out_header := True\<rparr>"
  have "length (out_streams ?o') = 2" using assms(6) by simp
  with assms obtain a' v' qs ms' where
    "mux_loop ff l i j True True \<lparr>next_a_pts = 0, next_v_pts = 0\<rparr> a v ?o' (mx_messages s) =
       Some (a', v', ?o'\<lparr>out_packets := out_packets ?o' @ qs\<rparr>, ms')"
    using mux_loop_spec [of a v ?o' ff l i j True True "\<lparr>next_a_pts = 0, next_v_pts = 0\<rparr>" "mx_messages s"] by blast
  with assms(1-3) show ?thesis
    unfolding mux_packets_def by (auto simp: use_def Let_def intro!: exit_3_ends)
qed

lemma mux_video_ends:
  assumes "mx_a s = Live a" "mx_v s = Null" "mx_o s = Live out" "packets_ok a" "length (out_streams out) = 1"
    "packets_ok (snd (ff_open ff path))"
  shows "mux_ends (mux_video ff l path i s)"
proof -
  obtain r v where o: "ff_open ff path = (r, v)" by force
  obtain s' v' j ok ret ps where a: "add_stream ff l AVMEDIA_TYPE_VIDEO NoVideoStreamAlloc NoVideoParameters v (ff_find ff v) (s\<lparr>mx_v := Live v\<rparr>) =
        Some (s', v', j, ok, ret)"
      "mx_a s' = Live a" "mx_o s' = Live (out\<lparr>out_streams := out_streams out @ ps\<rparr>)"
      "in_packets v' = in_packets v" "length (in_streams v') = length (in_streams v)" "ok \<Longrightarrow> j \<noteq> -1 \<Longrightarrow> length ps = 1"
    by (rule add_stream_spec [of "s\<lparr>mx_v := Live v\<rparr>" out ff l AVMEDIA_TYPE_VIDEO NoVideoStreamAlloc NoVideoParameters v "ff_find ff v"])
      (use assms(1,3) in auto)
  have "packets_ok v'" using assms(6) o a(4,5) by (simp add: packets_ok_def)
  then show ?thesis
    using assms o a unfolding mux_video_def
    by (auto simp: Let_def intro!: exits_end mux_packets_ends)
qed

lemma mux_files_closed:
  assumes "\<And>path. packets_ok (snd (ff_open ff path))"
  shows "\<exists>s r. ytdl_mux_files ff audio_path video_path level = Some (s, r) \<and> r \<le> 0 \<and> mx_a s = Null \<and> mx_v s = Null \<and>
     (if ff_output ff \<and> fst (ff_open ff audio_path) < 0 then (\<exists>out. mx_o s = Live out) else mx_o s \<in> {Null, Freed})"
proof -
  let ?s = "\<lparr>mx_a = Null, mx_v = Null, mx_o = Live \<lparr>out_streams = [], out_open = False, out_header = False, out_packets = [], out_trailer = False\<rparr>,
      mx_file = None, mx_messages = []\<rparr>"
  let ?x = "ytdl_mux_files ff audio_path video_path level"
  obtain r a where o: "ff_open ff audio_path = (r, a)" by force
  show ?thesis
  proof (cases "ff_output ff \<and> r < 0")
    case True
    then show ?thesis by (simp add: ytdl_mux_files_def Let_def exit_1_def o)
  next
    case False
    obtain s' a' i ok ret ps where a: "add_stream ff level AVMEDIA_TYPE_AUDIO NoAudioStreamAlloc NoAudioParameters a (ff_find ff a) (?s\<lparr>mx_a := Live a\<rparr>) =
          Some (s', a', i, ok, ret)"
        "mx_v s' = Null" "mx_o s' = Live \<lparr>out_streams = ps, out_open = False, out_header = False, out_packets = [], out_trailer = False\<rparr>"
        "in_packets a' = in_packets a" "length (in_streams a') = length (in_streams a)" "ok \<Longrightarrow> i \<noteq> -1 \<Longrightarrow> length ps = 1"
      by (rule add_stream_spec [of "?s\<lparr>mx_a := Live a\<rparr>" _ ff level AVMEDIA_TYPE_AUDIO NoAudioStreamAlloc NoAudioParameters a "ff_find ff a"])
        auto
    have "packets_ok a'" using assms [of audio_path] o a(4,5) by (simp add: packets_ok_def)
    then have "mux_ends ?x"
      using a False assms unfolding ytdl_mux_files_def
      by (auto simp: Let_def o mux_closed_def intro!: exit_1_ends exits_end mux_video_ends)
    with False o show ?thesis by (auto simp: mux_ends_def mux_closed_def split: option.splits)
  qed
qed

lemma mux_files_total:
  "(\<And>path. packets_ok (snd (ff_open ff path))) \<Longrightarrow> \<exists>s r. ytdl_mux_files ff audio_path video_path level = Some (s, r)"
  using mux_files_closed by blast

text \<open>
  C39. Muxing always comes to an end, whatever the calls of FFmpeg answer: no context is closed twice or
  used after it was closed, no stream that is not there is written to, the answer is 0 or an error code,
  and both inputs and the output are closed; only when the audio file cannot be opened is the context of
  the output left behind, still allocated.
\<close>

theorem mux_files_ends:
  assumes "\<And>path. packets_ok (snd (ff_open ff path))"
  shows "\<exists>s r. ytdl_mux_files ff audio_path video_path level = Some (s, r) \<and> r \<le> 0 \<and> mx_a s = Null \<and> mx_v s = Null \<and>
     (if ff_output ff \<and> fst (ff_open ff audio_path) < 0 then (\<exists>out. mx_o s = Live out) else mx_o s \<in> {Null, Freed})"
  using assms by (rule mux_files_closed)

section \<open>What is written\<close>

text \<open>The input that a path gives, and the number of its stream of the type \<open>k\<close>.\<close>

definition has_stream :: "ffmpeg \<Rightarrow> string \<Rightarrow> media_type \<Rightarrow> av_input \<Rightarrow> nat \<Rightarrow> bool" where
  "has_stream ff path k i j \<longleftrightarrow>
     fst (ff_open ff path) \<ge> 0 \<and> snd (ff_open ff path) = i \<and> ff_find ff i \<ge> 0 \<and> packets_ok i \<and> first_stream k (in_streams i) 0 = Some j"

text \<open>The output can be made, has both streams, and its header and trailer are written. A packet may fail.\<close>

definition output_works :: "ffmpeg \<Rightarrow> bool" where
  "output_works ff \<longleftrightarrow>
     ff_output ff \<and> ff_new_stream ff 0 \<and> ff_new_stream ff 1 \<and> (\<forall>c. ff_copy ff c \<ge> 0) \<and> ff_header ff \<ge> 0 \<and> ff_write_trailer ff \<ge> 0"

lemma add_stream_ok:
  assumes "first_stream k (in_streams i) 0 = Some j" "mx_o s = Live out" "ff_new_stream ff (length (out_streams out))"
    "\<And>c. ff_copy ff c \<ge> 0" "c = (if k = AVMEDIA_TYPE_AUDIO then (in_streams i ! j)\<lparr>codec_tag := 0\<rparr> else in_streams i ! j)"
  shows "add_stream ff l k m n i ret s =
    Some (s\<lparr>mx_o := Live (out\<lparr>out_streams := out_streams out @ [Some c]\<rparr>)\<rparr>, i\<lparr>in_streams := (in_streams i)[j := c]\<rparr>, int j, True, ff_copy ff c)"
  using assms(1-3) assms(4) [of c] by (simp add: add_stream_def use_def Let_def not_less flip: assms(5))

lemma exit_3_ok:
  assumes "mx_a s = Live a" "mx_v s = Live v" "mx_o s = Live out" "ret \<ge> 0"
  shows "exit_3 ff l s ret =
    Some (s\<lparr>mx_a := Null, mx_v := Null, mx_o := Freed, mx_file := Some (if ff_nofile ff then out else out\<lparr>out_open := False\<rparr>)\<rparr>, 0)"
  using assms by (simp add: exit_3_def exit_2_def exit_1_def use_def close_input_def release_def Let_def)

lemma selected_streams: "selected ff st idx (i\<lparr>in_streams := cs\<rparr>) = selected ff st idx i"
  by (simp add: selected_def)

lemma mux_packets_ok:
  assumes "mx_a s = Live a" "mx_v s = Live v" "mx_o s = Live out" "packets_ok a" "packets_ok v" "length (out_streams out) = 2"
    "out_packets out = []" "ret \<ge> 0" "ff_header ff \<ge> 0" "ff_write_trailer ff \<ge> 0"
  shows "\<exists>s' o'. mux_packets ff l i j s ret = Some (s', 0) \<and> mx_file s' = Some o' \<and> out_streams o' = out_streams out \<and> out_header o' \<and>
     out_trailer o' \<and> interleaves (write_ok ff) (selected ff i 0 a) (selected ff j 1 v) (out_packets o')"
proof -
  let ?o = "if ff_nofile ff then out else out\<lparr>out_open := ff_avio_open ff\<rparr>"
  let ?o' = "?o\<lparr>out_header := True\<rparr>"
  have "length (out_streams ?o') = 2" "out_packets ?o' = []" using assms(6,7) by simp_all
  with assms(4,5) obtain a' v' qs ms' where
    "mux_loop ff l i j True True \<lparr>next_a_pts = 0, next_v_pts = 0\<rparr> a v ?o' (mx_messages s) =
       Some (a', v', ?o'\<lparr>out_packets := qs\<rparr>, ms')"
    "interleaves (write_ok ff) (selected ff i 0 a) (selected ff j 1 v) qs"
    using mux_loop_spec [of a v ?o' ff l i j True True "\<lparr>next_a_pts = 0, next_v_pts = 0\<rparr>" "mx_messages s"] by auto
  with assms show ?thesis
    unfolding mux_packets_def by (auto simp: use_def Let_def exit_3_ok not_less)
qed

text \<open>
  C12. When the audio file has an audio stream and the video file a video stream, both streams come into the
  output, the audio first and without its tag, between a header and a trailer, and the answer is 0. The
  packets of the output are those of the first audio stream and of the first video stream, in the time base
  of the output, shuffled: those of one stream stay in their order. If every packet can be written none of
  them is missing; if one cannot be, its stream ends there, and the answer is 0 all the same.
\<close>

theorem mux_files_interleaves:
  assumes "output_works ff" "has_stream ff audio_path AVMEDIA_TYPE_AUDIO a i" "has_stream ff video_path AVMEDIA_TYPE_VIDEO v j"
  shows "\<exists>s out. ytdl_mux_files ff audio_path video_path level = Some (s, 0) \<and> mx_file s = Some out \<and>
     out_streams out = [Some ((in_streams a ! i)\<lparr>codec_tag := 0\<rparr>), Some (in_streams v ! j)] \<and> out_header out \<and> out_trailer out \<and>
     interleaves (write_ok ff) (selected ff (int i) 0 a) (selected ff (int j) 1 v) (out_packets out)"
proof -
  let ?ca = "(in_streams a ! i)\<lparr>codec_tag := 0\<rparr>" and ?cv = "in_streams v ! j"
  let ?a = "a\<lparr>in_streams := (in_streams a)[i := ?ca]\<rparr>" and ?v = "v\<lparr>in_streams := (in_streams v)[j := ?cv]\<rparr>"
  let ?o = "\<lparr>out_streams = [Some ?ca, Some ?cv], out_open = False, out_header = False, out_packets = [], out_trailer = False\<rparr>"
  let ?s = "\<lambda>ms. \<lparr>mx_a = Live ?a, mx_v = Live ?v, mx_o = Live ?o, mx_file = None, mx_messages = ms\<rparr>"
  obtain ra rv where o: "ff_open ff audio_path = (ra, a)" "ff_open ff video_path = (rv, v)" "ra \<ge> 0" "rv \<ge> 0"
    using assms(2,3) by (cases "ff_open ff audio_path"; cases "ff_open ff video_path") (auto simp: has_stream_def)
  have f: "ff_find ff a \<ge> 0" "ff_find ff v \<ge> 0" "first_stream AVMEDIA_TYPE_AUDIO (in_streams a) 0 = Some i"
      "first_stream AVMEDIA_TYPE_VIDEO (in_streams v) 0 = Some j"
    using assms(2,3) by (simp_all add: has_stream_def)
  have w: "ff_output ff" "ff_new_stream ff 0" "ff_new_stream ff (Suc 0)" "\<And>c. ff_copy ff c \<ge> 0" "ff_header ff \<ge> 0" "ff_write_trailer ff \<ge> 0"
    using assms(1) by (simp_all add: output_works_def)
  have "packets_ok ?a" "packets_ok ?v" using assms(2,3) by (simp_all add: has_stream_def packets_ok_def)
  then have p: "\<exists>s' o'. mux_packets ff level (int i) (int j) (?s ms) (ff_copy ff ?cv) = Some (s', 0) \<and> mx_file s' = Some o' \<and>
      out_streams o' = out_streams ?o \<and> out_header o' \<and> out_trailer o' \<and>
      interleaves (write_ok ff) (selected ff (int i) 0 a) (selected ff (int j) 1 v) (out_packets o')" for ms
    using mux_packets_ok [of "?s ms" ?a ?v ?o "ff_copy ff ?cv" ff level "int i" "int j"] w by (simp add: selected_streams)
  have "\<exists>ms. ytdl_mux_files ff audio_path video_path level = mux_packets ff level (int i) (int j) (?s ms) (ff_copy ff ?cv)"
    unfolding ytdl_mux_files_def mux_video_def
    using o f w by (auto simp: Let_def not_less add_stream_ok [OF f(3)] add_stream_ok [OF f(4)] complain_def)
  with p show ?thesis by (metis av_output.select_convs(1))
qed

section \<open>An example\<close>

definition sample_packet :: "nat \<Rightarrow> int \<Rightarrow> av_packet" where
  "sample_packet i t = \<lparr>stream_index = i, pts = t, packet_data = ''''\<rparr>"

definition sample_audio :: av_input where
  "sample_audio = \<lparr>in_streams = [\<lparr>codec_type = AVMEDIA_TYPE_OTHER, codec_tag = 3, codec_data = ''''\<rparr>, \<lparr>codec_type = AVMEDIA_TYPE_AUDIO, codec_tag = 5, codec_data = ''a''\<rparr>],
     in_packets = [sample_packet 1 0, sample_packet 0 1, sample_packet 1 2]\<rparr>"

definition sample_video :: av_input where
  "sample_video = \<lparr>in_streams = [\<lparr>codec_type = AVMEDIA_TYPE_VIDEO, codec_tag = 7, codec_data = ''v''\<rparr>], in_packets = [sample_packet 0 1]\<rparr>"

text \<open>A video file of one packet, and a file of two streams of which the second is audio, with two packets.\<close>

definition sample_ff :: ffmpeg where
  "sample_ff = \<lparr>ff_output = True, ff_open = (\<lambda>path. (0, if path = ''v'' then sample_video else sample_audio)), ff_find = (\<lambda>i. 0),
     ff_new_stream = (\<lambda>n. True), ff_copy = (\<lambda>c. 0), ff_nofile = False, ff_avio_open = True, ff_header = 0,
     ff_rescale = (\<lambda>st idx p. p), ff_compare = (\<lambda>s t. s - t), ff_write = (\<lambda>out p. 0), ff_write_trailer = 0,
     AVERROR_UNKNOWN = -1, AVERROR_EOF = -2\<rparr>"

lemmas sample_defs = sample_ff_def sample_audio_def sample_video_def sample_packet_def

lemma sample_streams:
  "output_works sample_ff" "has_stream sample_ff ''a'' AVMEDIA_TYPE_AUDIO sample_audio 1"
  "has_stream sample_ff ''v'' AVMEDIA_TYPE_VIDEO sample_video 0" "packets_ok (snd (ff_open sample_ff path))"
  by (simp_all add: output_works_def has_stream_def packets_ok_def sample_defs)

text \<open>The audio goes on until the last packet written is ahead of the video; the streams are numbered anew.\<close>

lemma mux_sample:
  "map_option (\<lambda>(s, r). (map_option out_packets (mx_file s), mx_messages s, r)) (ytdl_mux_files sample_ff ''a'' ''v'' YTDL_MUX_LOG_QUIET) =
     Some (Some [sample_packet 0 0, sample_packet 0 2, sample_packet 1 1], [], 0)"
  by code_simp

text \<open>A packet that cannot be written ends its stream: the rest is lost, and the answer is that of a success.\<close>

lemma mux_loses_packets:
  "map_option (\<lambda>(s, r). (map_option out_packets (mx_file s), r))
       (ytdl_mux_files (sample_ff\<lparr>ff_write := (\<lambda>out p. if stream_index p = 0 then -3 else 0)\<rparr>) ''a'' ''v'' YTDL_MUX_LOG_QUIET) =
     Some (Some [sample_packet 1 1], 0)"
  by code_simp

text \<open>An output that cannot be opened is not noticed either.\<close>

lemma mux_ignores_avio_open:
  "map_option (\<lambda>(s, r). (mx_messages s, r)) (ytdl_mux_files (sample_ff\<lparr>ff_avio_open := False\<rparr>) ''a'' ''v'' YTDL_MUX_LOG_ERRORS) = Some ([], 0)"
  by code_simp

text \<open>And an input at its end is a success without any output.\<close>

lemma mux_eof:
  "map_option (\<lambda>(s, r). (mx_file s, r)) (ytdl_mux_files (sample_ff\<lparr>ff_open := (\<lambda>path. (-2, sample_audio))\<rparr>) ''a'' ''v'' YTDL_MUX_LOG_ERRORS) =
     Some (None, 0)"
  by code_simp

theorem mux_files_ends_witness:
  "\<exists>s r. ytdl_mux_files sample_ff ''a'' ''v'' YTDL_MUX_LOG_QUIET = Some (s, r) \<and> r \<le> 0 \<and> mx_a s = Null \<and> mx_v s = Null \<and>
     mx_o s \<in> {Null, Freed}"
  using mux_files_ends [of sample_ff "''a''" "''v''" YTDL_MUX_LOG_QUIET, OF sample_streams(4)]
  by (simp add: sample_defs)

theorem mux_files_interleaves_witness:
  "\<exists>s out. ytdl_mux_files sample_ff ''a'' ''v'' YTDL_MUX_LOG_QUIET = Some (s, 0) \<and> mx_file s = Some out \<and>
     interleaves True [sample_packet 0 0, sample_packet 0 2] [sample_packet 1 1] (out_packets out)"
proof -
  have "write_ok sample_ff" "selected sample_ff 1 0 sample_audio = [sample_packet 0 0, sample_packet 0 2]"
    "selected sample_ff 0 1 sample_video = [sample_packet 1 1]"
    by (simp_all add: write_ok_def selected_def sample_defs)
  with mux_files_interleaves [OF sample_streams(1-3), of YTDL_MUX_LOG_QUIET] show ?thesis by auto
qed

end
