(* ===== verification/Cli.thy ===== *)
theory Cli
  imports Media Dash_Dl Mux
begin

text \<open>
  \<open>src/cli.c\<close> and \<open>include/ytdl/cli.h\<close>: the options, the videos of the command line with the files their
  streams are collected in, and \<open>main\<close>.

  The contexts of the downloads, the queue and the muxer are those of \<open>Media\<close>, \<open>Dash_Dl\<close>, \<open>Dl\<close> and
  \<open>Mux\<close>. A text of this theory has no NUL, but for the blocks that come from there. \<open>None\<close> is
  undefined behaviour, \<open>Inl\<close> an early end of the program.
\<close>

section \<open>State\<close>

datatype ytdl_cli_log_level = YTDL_LOG_LEVEL_NONE | YTDL_LOG_LEVEL_INFO | YTDL_LOG_LEVEL_VERBOSE

record ytdl_cli_options =
  o_templ :: string
  v_intr_templ :: string
  a_intr_templ :: string
  log_formats :: bool
  is_debug :: bool
  debug_log_fd :: bool
  log_level :: ytdl_cli_log_level

datatype stream = AudioStream | VideoStream

fun other :: "stream \<Rightarrow> stream" where
  "other AudioStream = VideoStream"
| "other VideoStream = AudioStream"

text \<open>What exists twice, for the audio and for the video, is a function of the stream.\<close>

record ytdl_cli_video =
  cv_opts :: ytdl_cli_options
  cv_id :: string
  cv_o_path :: "string option"
  cv_fd :: "stream \<Rightarrow> int"
  cv_path :: "stream \<Rightarrow> string option"
  cv_is_done :: "stream \<Rightarrow> bool"
  cv_count :: "stream \<Rightarrow> int"
  cv_count_total :: "stream \<Rightarrow> int"

text \<open>\<open>is_done\<close> and \<open>count\<close> point to fields of the video, and are those of the same stream.\<close>

record ytdl_cli_ctx =
  cx_fd :: int
  cx_is_done :: stream
  cx_count :: stream

datatype cli_file = Stdout | Stderr | DebugLog

datatype cli_exit = UsageShown | OutOfMemory | NoDebugLog | CacheUnreadable | InvalidUrl string

text \<open>\<open>Muxed\<close> has what both paths hold when the muxer reads them, and what it writes and answers.\<close>

datatype cli_event =
    Put cli_file string
  | Muxed "string option" "string option" string ytdl_mux_loglevel "av_output option" int
  | FreeDownload stream

text \<open>
  A video in the middle of its download: its structure, the two \<open>ytdl_cli_ctx_t\<close>, the open descriptors
  with the path of each, the files, and what has happened.
\<close>

record cli_state =
  cs_video :: "ytdl_cli_video ptr"
  cs_ctx :: "stream \<Rightarrow> ytdl_cli_ctx ptr"
  cs_open :: "int \<rightharpoonup> string"
  cs_files :: "string \<rightharpoonup> string"
  cs_log :: "cli_event list"

datatype cli_alloc = VideoAlloc | DashAlloc | ForkAlloc | MediaAlloc stream | CtxAlloc stream | TitleAlloc | OutPathAlloc | TempPathAlloc stream

text \<open>
  The environment: the allocations; \<open>write\<close>, by how many bytes it takes; \<open>mkstemp\<close>, by its descriptor and
  path; \<open>snprintf\<close> with the template of the caller; what \<open>printf\<close> makes of a null pointer, of a percentage
  and of a rating; the calls of FFmpeg on given files; and what a block holds that was not cleared.
\<close>

record cli_env =
  ce_mem :: "cli_alloc \<Rightarrow> bool"
  ce_write :: "int \<Rightarrow> string \<Rightarrow> nat"
  ce_mkstemp :: "stream \<Rightarrow> string \<Rightarrow> int \<times> string"
  ce_snprintf :: "string \<Rightarrow> string list \<Rightarrow> u64 \<Rightarrow> string"
  ce_null :: "string option"
  ce_percent :: "int \<Rightarrow> int \<Rightarrow> string"
  ce_rating :: "u64 \<Rightarrow> string"
  ce_ffmpeg :: "(string \<rightharpoonup> string) \<Rightarrow> ffmpeg"
  ce_array_ok :: bool
  ce_calloc_ok :: "nat \<Rightarrow> bool"
  ce_function_text :: "jsval \<Rightarrow> string option"
  ce_chunk_null :: "stream \<Rightarrow> bool"
  ce_media :: ytdl_dl_media_ctx
  ce_dash :: ytdl_dl_dash_ctx
  ce_media_env :: media_env
  ce_dash_env :: dash_env

definition cli_log :: "cli_event \<Rightarrow> cli_state \<Rightarrow> cli_state" where
  "cli_log e s = s\<lparr>cs_log := cs_log s @ [e]\<rparr>"

text \<open>\<open>write\<close> to a descriptor; its answer is never looked at.\<close>

definition write_fd :: "cli_env \<Rightarrow> int \<Rightarrow> string \<Rightarrow> cli_state \<Rightarrow> cli_state" where
  "write_fd env fd buf s =
     (case cs_open s fd of
        None \<Rightarrow> s
      | Some path \<Rightarrow> s\<lparr>cs_files := (cs_files s)(path \<mapsto> (case cs_files s path of None \<Rightarrow> [] | Some d \<Rightarrow> d) @ take (ce_write env fd buf) buf)\<rparr>)"

definition set_video :: "ytdl_cli_video \<Rightarrow> cli_state \<Rightarrow> cli_state" where
  "set_video v s = s\<lparr>cs_video := Live v\<rparr>"

text \<open>The rest of the program, unless it has come to an early end.\<close>

fun and_then :: "('e + 'a) option \<Rightarrow> ('a \<Rightarrow> ('e + 'b) option) \<Rightarrow> ('e + 'b) option" where
  "and_then None f = None"
| "and_then (Some (Inl e)) f = Some (Inl e)"
| "and_then (Some (Inr a)) f = f a"

lemma and_then_Inr: "and_then x f = Some (Inr b) \<longleftrightarrow> (\<exists>a. x = Some (Inr a) \<and> f a = Some (Inr b))"
  by (cases x; cases "the x") auto

section \<open>The streams of a video\<close>

text \<open>The constant \<open>YTDL_MUX_LOG_QUIET\<close> is compared with a level of the program; both enumerations begin with 0.\<close>

definition ytdl__mux_and_free :: "cli_env \<Rightarrow> cli_state \<Rightarrow> cli_state option" where
  "ytdl__mux_and_free env s =
     do { video \<leftarrow> use (cs_video s);
          let s = (if log_level (cv_opts video) \<noteq> YTDL_LOG_LEVEL_NONE then cli_log (Put Stdout [LF]) s else s);
          audio_path \<leftarrow> cv_path video AudioStream;
          video_path \<leftarrow> cv_path video VideoStream;
          o_path \<leftarrow> cv_o_path video;
          let level = (if log_level (cv_opts video) = YTDL_LOG_LEVEL_NONE then YTDL_MUX_LOG_ERRORS else YTDL_MUX_LOG_VERBOSE);
          (m, r) \<leftarrow> ytdl_mux_files (ce_ffmpeg env (cs_files s)) audio_path video_path level;
          let s = cli_log (Muxed (cs_files s audio_path) (cs_files s video_path) o_path level (mx_file m) r) s;
          let s = (if is_debug (cv_opts video) then s else s\<lparr>cs_files := (cs_files s)(audio_path := None, video_path := None)\<rparr>);
          Some (s\<lparr>cs_video := Freed\<rparr>) }"

definition mux_if_done :: "cli_env \<Rightarrow> ytdl_cli_video \<Rightarrow> cli_state \<Rightarrow> cli_state option" where
  "mux_if_done env video s =
     (if cv_is_done video AudioStream \<and> cv_is_done video VideoStream then ytdl__mux_and_free env s else Some s)"

text \<open>The stream of a DASH context.\<close>

definition dash_stream_of :: "ytdl_dl_dash_ctx \<Rightarrow> stream" where
  "dash_stream_of ctx = (if dd_is_video ctx then VideoStream else AudioStream)"


definition ytdl__media_complete :: "cli_env \<Rightarrow> ytdl_dl_media_ctx \<Rightarrow> stream \<Rightarrow> cli_state \<Rightarrow> (ytdl_dl_media_ctx \<times> cli_state) option" where
  "ytdl__media_complete env ctx data s =
     do { media \<leftarrow> use (cs_ctx s data);
          video \<leftarrow> use (cs_video s);
          let video = video\<lparr>cv_is_done := (cv_is_done video)(cx_is_done media := True)\<rparr>;
          let s = (set_video video s)\<lparr>cs_open := (cs_open s)(cx_fd media := None)\<rparr>;
          s \<leftarrow> mux_if_done env video s;
          p \<leftarrow> release (cs_ctx s data);
          ctx \<leftarrow> ytdl_dl_media_shutdown (ce_media_env env) ctx (Some 0);
          Some (ctx, s\<lparr>cs_ctx := (cs_ctx s)(data := p)\<rparr>) }"


text \<open>
  The line of the progress, written unless the program is quiet; the sum of the two counters must fit in
  an \<open>int\<close>, and \<open>whole\<close> is the sum they are compared with.
\<close>

definition progress_line :: "cli_env \<Rightarrow> string \<Rightarrow> int \<Rightarrow> int \<Rightarrow> string \<Rightarrow> cli_event" where
  "progress_line env ident n whole line_end =
     Put Stdout (''[info] '' @ cstr ident @ '': '' @ ce_percent env n whole @ '' % downloaded'' @ line_end)"

definition show_progress :: "cli_env \<Rightarrow> ytdl_cli_video \<Rightarrow> int option \<Rightarrow> string \<Rightarrow> cli_state \<Rightarrow> cli_state option" where
  "show_progress env video whole line_end s =
     (if log_level (cv_opts video) = YTDL_LOG_LEVEL_NONE then Some s
      else do { n \<leftarrow> int_add (cv_count video AudioStream) (cv_count video VideoStream);
                whole \<leftarrow> whole;
                Some (cli_log (progress_line env (cv_id video) n whole line_end) s) })"


text \<open>\<open>*count += len\<close> is computed in 64 bits and cut to an \<open>int\<close>.\<close>

definition ytdl__media_pipe :: "cli_env \<Rightarrow> stream \<Rightarrow> string \<Rightarrow> cli_state \<Rightarrow> cli_state option" where
  "ytdl__media_pipe env data buf s =
     do { media \<leftarrow> use (cs_ctx s data);
          video \<leftarrow> use (cs_video s);
          let n = sint (word_of_int (cv_count video (cx_count media) + int (length buf)) :: 32 word);
          let video = video\<lparr>cv_count := (cv_count video)(cx_count media := n)\<rparr>;
          s \<leftarrow> show_progress env video (int_add (cv_count_total video AudioStream) (cv_count_total video VideoStream)) [CR] (set_video video s);
          Some (write_fd env (cx_fd media) buf s) }"


section \<open>A video is found\<close>

definition printf_s :: "cli_env \<Rightarrow> string option \<Rightarrow> string option" where
  "printf_s env p = (case p of None \<Rightarrow> ce_null env | Some m \<Rightarrow> Some (cstr m))"

definition sdec :: "int \<Rightarrow> string" where
  "sdec n = (if n < 0 then ''-'' @ dec (nat (- n)) else dec (nat n))"

text \<open>Lines that begin alike, each with its end.\<close>

definition tagged :: "string \<Rightarrow> string list \<Rightarrow> string" where
  "tagged tag ls = concat (map (\<lambda>l. tag @ l @ [LF]) ls)"

definition log_file :: "ytdl_cli_options \<Rightarrow> cli_file" where
  "log_file opts = (if debug_log_fd opts then DebugLog else Stdout)"

definition four :: "int list \<Rightarrow> string option" where
  "four xs =
     (case xs of
        a # b # c # d # _ \<Rightarrow> Some (''{ '' @ sdec a @ '', '' @ sdec b @ '', '' @ sdec c @ '', '' @ sdec d @ '' }'')
      | _ \<Rightarrow> None)"

definition actions_text :: "cli_env \<Rightarrow> ytdl_sig_actions \<Rightarrow> string option" where
  "actions_text env a =
     do { xs \<leftarrow> four (sa_actions a); args \<leftarrow> four (sa_actions_arg a);
          f \<leftarrow> printf_s env (ce_function_text env (sa_func a));
          Some (tagged ''[debug] '' [''Actions '' @ xs, ''Action Args '' @ args, ''Sig Function''] @ f @ [LF, LF]) }"

definition format_text :: "cli_env \<Rightarrow> nat \<Rightarrow> ytdl_info_format \<Rightarrow> string option" where
  "format_text env i f =
     do { mime \<leftarrow> printf_s env (f_mime_type f);
          v \<leftarrow> (if has_flag f YTDL_INFO_FORMAT_HAS_VID
               then do { q \<leftarrow> printf_s env (f_quality f); l \<leftarrow> printf_s env (f_quality_label f);
                         Some [''Dimensions: '' @ sdec (f_width f) @ '' x '' @ sdec (f_height f), ''Quality: '' @ q @ '', '' @ l,
                               ''FPS: '' @ sdec (f_fps f)] }
               else Some []);
          let a = (if has_flag f YTDL_INFO_FORMAT_HAS_AUD
               then [''Audio Channels: '' @ sdec (f_audio_channels f),
                     ''Audio Quality: '' @ (if f_audio_quality f = YTLD_INFO_AUDIO_QUALITY_LOW then ''low'' else ''medium'')]
               else []);
          Some (tagged ''[info] '' ([''Index: '' @ dec i, ''Itag: '' @ sdec (f_itag f), ''MIME type: '' @ mime,
               ''Size: '' @ sdec (f_content_length f) @ '' bytes'', ''Duration: '' @ sdec (f_approx_duration_ms f) @ '' ms'',
               ''Bitrate: '' @ sdec (f_bitrate f), ''Average Bitrate: '' @ sdec (f_average_bitrate f)] @ v @ a) @ [LF]) }"

text \<open>The loop over \<open>formats_size\<close> entries, which are completed on the way.\<close>

fun list_formats :: "cli_env \<Rightarrow> ytdl_info_format option list \<Rightarrow> nat \<Rightarrow> nat \<Rightarrow> (ytdl_info_format option list \<times> string) option" where
  "list_formats env fs i 0 = Some (fs, [])"
| "list_formats env fs i (Suc n) =
     (case rd fs i of
        Some (Some f) \<Rightarrow>
          do { f \<leftarrow> ytdl_info_format_populate f;
               t \<leftarrow> format_text env i f;
               (fs, ts) \<leftarrow> list_formats env (fs[i := Some f]) (Suc i) n;
               Some (fs, t @ ts) }
      | _ \<Rightarrow> None)"

definition formats_of :: "ytdl_info_ctx \<Rightarrow> ytdl_info_format option list" where
  "formats_of info = (case i_formats info of None \<Rightarrow> [] | Some fs \<Rightarrow> fs)"

definition log_all_formats :: "cli_env \<Rightarrow> ytdl_dl_video \<Rightarrow> cli_state \<Rightarrow> (ytdl_dl_video \<times> cli_state) option" where
  "log_all_formats env vid s =
     (let head = ''[info] '' @ cstr (v_id vid) @ '': ''; info = v_info vid in
      do { (fs, t) \<leftarrow> list_formats env (formats_of info) 0 (i_formats_size info);
           let t = head @ ''Formats'' @ [LF] @ t @ (if i_dash_manifest_url info = None then [] else head @ ''Has Dash Manifest'' @ [LF, LF]);
           Some (vid\<lparr>v_info := info\<lparr>i_formats := map_option (\<lambda>_. fs) (i_formats info)\<rparr>\<rparr>, cli_log (Put Stdout t) s) })"

definition video_text :: "cli_env \<Rightarrow> ytdl_dl_video \<Rightarrow> string option" where
  "video_text env vid =
     (let info = v_info vid in
      do { title \<leftarrow> printf_s env (i_title info); secs \<leftarrow> printf_s env (i_length_seconds info);
           channel \<leftarrow> printf_s env (i_channel_id info); views \<leftarrow> printf_s env (i_view_count info);
           author \<leftarrow> printf_s env (i_author info); descr \<leftarrow> printf_s env (i_short_description info);
           Some ([LF] @ tagged ''[debug] '' [cstr (v_id vid) @ '': Video Info'', ''Title: '' @ title, ''Length: '' @ secs @ '' seconds'',
             ''Channel ID: '' @ channel, ''Rating: '' @ ce_rating env (i_average_rating info), ''Views: '' @ views, ''Author: '' @ author,
             ''Description:''] @ descr @ [LF, LF]) })"

text \<open>Two values, each on a line of its own between empty ones.\<close>

definition pair_text :: "string \<Rightarrow> string \<Rightarrow> string \<Rightarrow> string \<Rightarrow> string" where
  "pair_text ident what v a =
     [LF] @ ''[debug] '' @ ident @ '': Video '' @ what @ '': '' @ v @ [LF, LF] @ ''[debug] '' @ ident @ '': Audio '' @ what @ '': '' @ a @ [LF, LF]"

text \<open>The name of the output: the template with the fields, of the title without its slashes.\<close>

definition output_path :: "cli_env \<Rightarrow> ytdl_cli_options \<Rightarrow> ytdl_dl_video \<Rightarrow> string option" where
  "output_path env opts vid =
     (let info = v_info vid in
      do { title \<leftarrow> i_title info;
           title \<leftarrow> strdup (\<lambda>_. ce_mem env TitleAlloc) title;
           title \<leftarrow> ytdl_sanitize_filename_inplace title;
           secs \<leftarrow> printf_s env (i_length_seconds info); channel \<leftarrow> printf_s env (i_channel_id info);
           views \<leftarrow> printf_s env (i_view_count info); author \<leftarrow> printf_s env (i_author info);
           if ce_mem env OutPathAlloc
           then Some (ce_snprintf env (o_templ opts) [cstr (v_id vid), cstr title, secs, channel, views, author] (i_average_rating info))
           else None })"

section \<open>The downloads\<close>

datatype started = NotStarted | DashStarted ytdl_dl_dash_ctx | MediaStarted ytdl_dl_media_ctx ytdl_dl_media_ctx

text \<open>\<open>strdup\<close> of a template and \<open>mkstemp\<close>; neither is checked.\<close>

definition open_temp :: "cli_env \<Rightarrow> stream \<Rightarrow> string \<Rightarrow> ytdl_cli_video \<Rightarrow> cli_state \<Rightarrow> (ytdl_cli_video \<times> cli_state) option" where
  "open_temp env k templ video s =
     (if \<not> ce_mem env (TempPathAlloc k) then None
      else let (fd, path) = ce_mkstemp env k templ in
        Some (video\<lparr>cv_path := (cv_path video)(k := Some path), cv_fd := (cv_fd video)(k := fd)\<rparr>,
              if fd < 0 then s else s\<lparr>cs_open := (cs_open s)(fd \<mapsto> path), cs_files := (cs_files s)(path \<mapsto> [])\<rparr>))"

definition start_dash ::
    "cli_env \<Rightarrow> ytdl_cli_options \<Rightarrow> string \<Rightarrow> ytdl_dl_video \<Rightarrow> ytdl_cli_video \<Rightarrow> cli_state \<Rightarrow>
      (cli_exit + ytdl_dl_video \<times> cli_state \<times> started) option" where
  "start_dash env opts url vid video s =
     do { (video, s) \<leftarrow> open_temp env VideoStream (v_intr_templ opts) video s;
          (video, s) \<leftarrow> open_temp env AudioStream (a_intr_templ opts) video s;
          v \<leftarrow> cv_path video VideoStream; a \<leftarrow> cv_path video AudioStream;
          let ident = cstr (v_id vid);
          let s = (if log_level opts = YTDL_LOG_LEVEL_VERBOSE then cli_log (Put (log_file opts) (pair_text ident ''Temp Path'' v a)) s else s);
          let s = (if log_level opts = YTDL_LOG_LEVEL_NONE then s
                   else cli_log (Put Stdout (tagged ''[info] '' [ident @ '': Using dash manifest''])) s);
          let s = (if log_level opts = YTDL_LOG_LEVEL_VERBOSE
                   then cli_log (Put (log_file opts) (tagged ''[debug] '' [ident @ '': Manifest URL: '' @ cstr url])) s else s);
          if \<not> ce_mem env DashAlloc then Some (Inl OutOfMemory)
          else do { (dash, _) \<leftarrow> ytdl_dl_dash_ctx_connect (ce_dash_env env) (fst (ytdl_dl_dash_ctx_init (ce_dash_env env) (ce_dash env))) url;
                    Some (Inr (vid, set_video video s, DashStarted dash)) } }"

definition format_at :: "ytdl_info_ctx \<Rightarrow> nat \<Rightarrow> ytdl_info_format option" where
  "format_at info i = (case rd (formats_of info) i of Some (Some f) \<Rightarrow> Some f | _ \<Rightarrow> None)"

definition put_format :: "nat \<Rightarrow> ytdl_info_format \<Rightarrow> ytdl_info_ctx \<Rightarrow> ytdl_info_ctx" where
  "put_format i f info = info\<lparr>i_formats := map_option (\<lambda>fs. fs[i := Some f]) (i_formats info)\<rparr>"

text \<open>A format with its URL, which is kept in it.\<close>

definition format_url_at :: "cli_env \<Rightarrow> ytdl_info_ctx \<Rightarrow> nat \<Rightarrow> (ytdl_info_ctx \<times> string) option" where
  "format_url_at env info i =
     do { f \<leftarrow> format_at info i;
          (f, url) \<leftarrow> ytdl_info_get_format_url2 (me_strdup (ce_media_env env)) (me_js_call (ce_media_env env)) info f;
          url \<leftarrow> printf_s env url;
          Some (put_format i f info, url) }"

text \<open>
  One of the two media downloads. The block of the second \<open>ytdl_cli_ctx_t\<close> is not checked: the test
  looks at the first.
\<close>

definition start_stream ::
    "cli_env \<Rightarrow> stream \<Rightarrow> string \<Rightarrow> nat \<Rightarrow> ytdl_info_ctx \<Rightarrow> ytdl_cli_video \<Rightarrow> cli_state \<Rightarrow>
      (cli_exit + ytdl_info_ctx \<times> ytdl_cli_video \<times> cli_state \<times> ytdl_dl_media_ctx) option" where
  "start_stream env k templ i info video s =
     (if \<not> ce_mem env (MediaAlloc k) then Some (Inl OutOfMemory)
      else if \<not> ce_mem env (CtxAlloc k) then (case k of VideoStream \<Rightarrow> Some (Inl OutOfMemory) | AudioStream \<Rightarrow> None)
      else do { f \<leftarrow> format_at info i;
                (m, f, _) \<leftarrow> ytdl_dl_media_ctx_init (ce_media_env env) (ce_media env) f info;
                (video, s) \<leftarrow> open_temp env k templ video s;
                let s = s\<lparr>cs_ctx := (cs_ctx s)(k := Live \<lparr>cx_fd = cv_fd video k, cx_is_done = k, cx_count = k\<rparr>)\<rparr>;
                (m, _) \<leftarrow> ytdl_dl_media_ctx_connect (ce_media_env env) m;
                Some (Inr (put_format i f info, video, s, m)) })"

definition start_media ::
    "cli_env \<Rightarrow> ytdl_cli_options \<Rightarrow> ytdl_dl_video \<Rightarrow> ytdl_cli_video \<Rightarrow> cli_state \<Rightarrow>
      (cli_exit + ytdl_dl_video \<times> cli_state \<times> started) option" where
  "start_media env opts vid video s =
     do { (info, i) \<leftarrow> ytdl_info_get_best_video_format (v_info vid);
          v \<leftarrow> format_at info i;
          (info, j) \<leftarrow> ytdl_info_get_best_audio_format info;
          a \<leftarrow> format_at info j;
          let ident = cstr (v_id vid);
          (info, s) \<leftarrow> (if log_level opts = YTDL_LOG_LEVEL_VERBOSE
               then do { (info, u) \<leftarrow> format_url_at env info i; (info, w) \<leftarrow> format_url_at env info j;
                         Some (info, cli_log (Put (log_file opts) (pair_text ident ''Format'' u w)) s) }
               else Some (info, s));
          v \<leftarrow> format_at info i; a \<leftarrow> format_at info j;
          let cut = (\<lambda>n. sint (word_of_int n :: 32 word));
          let video = video\<lparr>cv_count_total := (cv_count_total video)(VideoStream := cut (f_content_length v), AudioStream := cut (f_content_length a))\<rparr>;
          and_then (start_stream env VideoStream (v_intr_templ opts) i info video s) (\<lambda>(info, video, s, vm).
            and_then (start_stream env AudioStream (a_intr_templ opts) j info video s) (\<lambda>(info, video, s, am).
              do { vp \<leftarrow> cv_path video VideoStream; ap \<leftarrow> cv_path video AudioStream;
                   let s = (if log_level opts = YTDL_LOG_LEVEL_VERBOSE
                            then cli_log (Put (log_file opts) (pair_text ident ''Temp Path'' vp ap)) s else s);
                   Some (Inr (vid\<lparr>v_info := info\<rparr>, set_video video s, MediaStarted vm am)) })) }"

definition start_download ::
    "cli_env \<Rightarrow> ytdl_cli_options \<Rightarrow> ytdl_dl_video \<Rightarrow> cli_state \<Rightarrow> (cli_exit + ytdl_dl_video \<times> cli_state \<times> started) option" where
  "start_download env opts vid s =
     do { path \<leftarrow> output_path env opts vid;
          let video = \<lparr>cv_opts = opts, cv_id = v_id vid, cv_o_path = Some path, cv_fd = (\<lambda>_. 0), cv_path = (\<lambda>_. None),
                cv_is_done = (\<lambda>_. False), cv_count = (\<lambda>_. 0), cv_count_total = (\<lambda>_. 0)\<rparr>;
          case i_dash_manifest_url (v_info vid) of
            Some url \<Rightarrow> start_dash env opts url vid video s
          | None \<Rightarrow> start_media env opts vid video s }"

text \<open>The answer of \<open>ytdl_info_extract_formats\<close> is not looked at, nor is the playability status.\<close>

definition ytdl__info_complete ::
    "cli_env \<Rightarrow> ytdl_cli_options \<Rightarrow> ytdl_dl_video \<Rightarrow> cli_state \<Rightarrow> (cli_exit + ytdl_dl_video \<times> cli_state \<times> started) option" where
  "ytdl__info_complete env opts vid s =
     (let info = ytdl_info_extract_video_details (fst (ytdl_info_extract_formats (ce_array_ok env) (ce_calloc_ok env) (v_info vid)));
          vid = vid\<lparr>v_info := info\<rparr> in
      do { s \<leftarrow> (if debug_log_fd opts
                then do { a \<leftarrow> i_sig_actions info; t \<leftarrow> actions_text env a; Some (cli_log (Put DebugLog t) s) }
                else Some s);
           if log_formats opts then do { (vid, s) \<leftarrow> log_all_formats env vid s; Some (Inr (vid, s, NotStarted)) }
           else do {
             s \<leftarrow> (if log_level opts = YTDL_LOG_LEVEL_VERBOSE
                  then do { t \<leftarrow> video_text env vid; Some (cli_log (Put (log_file opts) t) s) } else Some s);
             let s = (if log_level opts = YTDL_LOG_LEVEL_NONE then s
                      else cli_log (Put Stdout (tagged ''[info] '' [cstr (v_id vid) @ '': Downloading media''])) s);
             if \<not> ce_mem env VideoAlloc then Some (Inl OutOfMemory)
             else start_download env opts vid s } })"

text \<open>After the last video: the players are saved, and the downloader stops. The file may not open, which is not checked.\<close>

definition ytdl__info_complete_final ::
    "cli_env \<Rightarrow> dl_env \<Rightarrow> bool \<Rightarrow> ytdl_cli_options \<Rightarrow> ytdl_dl_ctx \<Rightarrow> ytdl_dl_video \<Rightarrow> cli_state \<Rightarrow>
      (cli_exit + ytdl_dl_ctx \<times> ytdl_dl_video \<times> cli_state \<times> started \<times> string) option" where
  "ytdl__info_complete_final env dl opens opts ctx vid s =
     and_then (ytdl__info_complete env opts vid s) (\<lambda>(vid, s, st).
       if \<not> opens then None
       else do { fd \<leftarrow> ytdl_dl_player_cache_save_file ctx [];
                 ctx \<leftarrow> ytdl_dl_shutdown dl ctx;
                 Some (Inr (ctx, vid, s, st, fd)) })"

section \<open>The program\<close>

text \<open>\<open>getopt_long\<close> gives the options with their arguments; \<open>opens\<close> says which files can be written.\<close>

definition opts_0 :: ytdl_cli_options where
  "opts_0 = \<lparr>o_templ = ''%2$s-%1$s.mkv'', v_intr_templ = ''video.XXXXXX'', a_intr_templ = ''audio.XXXXXX'',
     log_formats = False, is_debug = False, debug_log_fd = False, log_level = YTDL_LOG_LEVEL_INFO\<rparr>"

fun parse_options :: "(string \<Rightarrow> bool) \<Rightarrow> ytdl_cli_options \<Rightarrow> (char \<times> string) list \<Rightarrow> cli_exit + ytdl_cli_options" where
  "parse_options opens opts [] = Inr opts"
| "parse_options opens opts ((c, arg) # os) =
     (if c = CHR ''L'' then parse_options opens (opts\<lparr>log_formats := True\<rparr>) os
      else if c = CHR ''q'' then parse_options opens (opts\<lparr>log_level := YTDL_LOG_LEVEL_NONE\<rparr>) os
      else if c = CHR ''v'' then parse_options opens (opts\<lparr>log_level := YTDL_LOG_LEVEL_VERBOSE\<rparr>) os
      else if c = CHR ''o'' then parse_options opens (opts\<lparr>o_templ := arg\<rparr>) os
      else if c = CHR ''D'' then (if opens arg then parse_options opens (opts\<lparr>is_debug := True, debug_log_fd := True\<rparr>) os else Inl NoDebugLog)
      else Inl UsageShown)"

datatype cache_file = Cache string | NoCache | CacheRefused

text \<open>The video of one argument is asked for; \<open>cb\<close> is 0 for \<open>ytdl__info_complete\<close> and 1 for the final one.\<close>

definition ask_for :: "dl_env \<Rightarrow> nat \<Rightarrow> string \<Rightarrow> string \<times> ytdl_dl_ctx \<Rightarrow> (cli_exit + string \<times> ytdl_dl_ctx) option" where
  "ask_for dl cb arg x =
     (let (ident, ctx) = x in
      do { (r, vid) \<leftarrow> ytdl_net_get_id_from_url (arg @ [NUL]) (length arg);
           if r \<noteq> 0 then Some (Inl (InvalidUrl arg))
           else let ident = (case vid of None \<Rightarrow> ident | Some v \<Rightarrow> v @ [NUL]) in
             do { (ctx, _) \<leftarrow> ytdl_dl_get_info dl ctx ident cb; Some (Inr (ident, ctx)) } })"

fun ask_all :: "dl_env \<Rightarrow> string list \<Rightarrow> string \<times> ytdl_dl_ctx \<Rightarrow> (cli_exit + string \<times> ytdl_dl_ctx) option" where
  "ask_all dl [] x = Some (Inr x)"
| "ask_all dl (arg # as) x =
     and_then (ask_for dl 0 arg x) (ask_all dl as)"

text \<open>
  Up to \<open>uv_run\<close>: the options and the context that the loop then serves. \<open>argv\<close> is as \<open>getopt_long\<close>
  leaves it, \<open>ident\<close> and \<open>ctx\<close> what the variables hold at first. The answers of the initialisation, of
  the loader and of the requests are not looked at.
\<close>

definition main ::
    "(string \<Rightarrow> bool) \<Rightarrow> dl_env \<Rightarrow> int \<Rightarrow> (string \<Rightarrow> int \<Rightarrow> int) \<Rightarrow> int \<Rightarrow> int \<Rightarrow> cache_file \<Rightarrow> string list \<Rightarrow> (char \<times> string) list \<Rightarrow> nat \<Rightarrow>
      string \<Rightarrow> ytdl_dl_ctx \<Rightarrow> (cli_exit + ytdl_cli_options \<times> ytdl_dl_ctx) option" where
  "main opens dl uv_tcp_init uv_inet_pton uv_ip_addr uv_tcp_connect cache argv given optind ident ctx =
     (if length argv < 2 then Some (Inl UsageShown)
      else case parse_options opens opts_0 given of
        Inl e \<Rightarrow> Some (Inl e)
      | Inr opts \<Rightarrow>
          let ctx = fst (ytdl_dl_ctx_init dl uv_tcp_init ctx) in
          if cache = CacheRefused then Some (Inl CacheUnreadable)
          else do { ctx \<leftarrow> (case cache of Cache fd \<Rightarrow> map_option fst (ytdl_dl_player_cache_load_file dl ctx fd) | _ \<Rightarrow> Some ctx);
                    and_then (and_then (ask_all dl (drop optind (butlast argv)) (ident, ctx)) (ask_for dl 1 (last argv))) (\<lambda>(_, ctx).
                      do { (ctx, _) \<leftarrow> ytdl_dl_ctx_connect uv_inet_pton uv_ip_addr uv_tcp_connect ctx; Some (Inr (opts, ctx)) }) })"

text \<open>The reader of the debug log: what is parsed is also written, with the end of a line.\<close>

definition ytdl__http_client_read_log ::
    "http_callbacks \<Rightarrow> (ytdl_http_client \<Rightarrow> string \<Rightarrow> (ytdl_http_client \<times> int \<times> bool) option) \<Rightarrow>
     ytdl_http_client \<Rightarrow> string \<Rightarrow> cli_event list \<Rightarrow> (ytdl_http_client \<times> cli_event list) option" where
  "ytdl__http_client_read_log cbs llhttp_execute c bytes es =
     do { c \<leftarrow> ytdl_http_client_parse_read cbs llhttp_execute c bytes;
          Some (c, es @ [Put DebugLog bytes, Put DebugLog [LF]]) }"

section \<open>Both downloads\<close>

text \<open>
  What the contexts of the two streams report, in any order of the streams. A media context comes from
  \<open>malloc\<close>, and neither \<open>ytdl_dl_media_ctx_init\<close> nor the caller sets its \<open>on_chunk_complete\<close>:
  \<open>ce_chunk_null\<close> says whether the block has a null pointer there, and any other one is called.
\<close>

fun cli_media_step ::
    "cli_env \<Rightarrow> stream \<Rightarrow> media_event \<Rightarrow> (stream \<Rightarrow> ytdl_dl_media_ctx) \<times> cli_state \<Rightarrow> ((stream \<Rightarrow> ytdl_dl_media_ctx) \<times> cli_state) option" where
  "cli_media_step env k (Data buf) (m, s) = map_option (Pair m) (ytdl__media_pipe env k buf s)"
| "cli_media_step env k ChunkDone (m, s) = (if ce_chunk_null env k then Some (m, s) else None)"
| "cli_media_step env k MediaDone (m, s) = do { (c, s) \<leftarrow> ytdl__media_complete env (m k) k s; Some (m(k := c), s) }"
| "cli_media_step env k (MediaClosed cb) (m, s) = Some (m, cli_log (FreeDownload k) s)"


fun cli_run :: "(stream \<Rightarrow> 'e \<Rightarrow> 's \<Rightarrow> 's option) \<Rightarrow> (stream \<times> 'e) list \<Rightarrow> 's \<Rightarrow> 's option" where
  "cli_run step [] s = Some s"
| "cli_run step ((k, e) # es) s = do { s \<leftarrow> step k e s; cli_run step es s }"

section \<open>Two streams and one end\<close>

text \<open>
  The contract of the handlers: what comes in of a stream that is not at its end is kept, as long as the
  counters have room; the end of the first stream changes nothing else; the end of the second gives the
  result.
\<close>

locale two_streams =
  fixes step :: "stream \<Rightarrow> 'e \<Rightarrow> 's \<Rightarrow> 's option"
    and fin :: 'e
    and bytes :: "'e \<Rightarrow> string"
    and cost :: "'e \<Rightarrow> nat"
    and plain :: "stream \<Rightarrow> 'e \<Rightarrow> bool"
    and room :: nat
    and holds :: "(stream \<Rightarrow> string) \<Rightarrow> (stream \<Rightarrow> nat) \<Rightarrow> (stream \<Rightarrow> bool) \<Rightarrow> 's \<Rightarrow> bool"
    and result :: "(stream \<Rightarrow> string) \<Rightarrow> 's \<Rightarrow> bool"
  assumes more: "plain k e \<Longrightarrow> holds c n d s \<Longrightarrow> \<not> d k \<Longrightarrow> n AudioStream + n VideoStream + cost e \<le> room \<Longrightarrow>
      \<exists>s'. step k e s = Some s' \<and> holds (c(k := c k @ bytes e)) (n(k := n k + cost e)) d s'"
    and first: "holds c n d s \<Longrightarrow> \<not> d k \<Longrightarrow> \<not> d (other k) \<Longrightarrow> \<exists>s'. step k fin s = Some s' \<and> holds c n (d(k := True)) s'"
    and second: "holds c n d s \<Longrightarrow> \<not> d k \<Longrightarrow> d (other k) \<Longrightarrow> \<exists>s'. step k fin s = Some s' \<and> result c s'"
begin

definition stream_bytes :: "'e list \<Rightarrow> string" where
  "stream_bytes es = concat (map bytes es)"

text \<open>What a stream still reports: nothing when it is at its end, and its end last.\<close>

definition reports :: "bool \<Rightarrow> 'e list \<Rightarrow> 'e list" where
  "reports at_end es = (if at_end then [] else es @ [fin])"

lemma run_ends:
  assumes "evs \<in> shuffles (map (Pair AudioStream) (reports (d AudioStream) as)) (map (Pair VideoStream) (reports (d VideoStream) vs))"
    and "holds c n d s" "list_all (plain AudioStream) as" "list_all (plain VideoStream) vs" "\<not> (d AudioStream \<and> d VideoStream)"
    and "d AudioStream \<Longrightarrow> as = []" "d VideoStream \<Longrightarrow> vs = []"
    and "n AudioStream + n VideoStream + sum_list (map cost as) + sum_list (map cost vs) \<le> room"
  shows "\<exists>s'. cli_run step evs s = Some s' \<and>
    result (c(AudioStream := c AudioStream @ stream_bytes as, VideoStream := c VideoStream @ stream_bytes vs)) s'"
  using assms
proof (induction evs arbitrary: as vs c n d s)
  case Nil
  then show ?case by (auto simp: reports_def split: if_splits)
next
  case (Cons ev evs)
  note [simp] = reports_def stream_bytes_def
  consider (audio) a as' where "\<not> d AudioStream" "as = a # as'" "ev = (AudioStream, a)"
      "evs \<in> shuffles (map (Pair AudioStream) (reports (d AudioStream) as')) (map (Pair VideoStream) (reports (d VideoStream) vs))"
    | (audio_end) "\<not> d AudioStream" "as = []" "ev = (AudioStream, fin)" "evs = map (Pair VideoStream) (reports (d VideoStream) vs)"
    | (video) v vs' where "\<not> d VideoStream" "vs = v # vs'" "ev = (VideoStream, v)"
      "evs \<in> shuffles (map (Pair AudioStream) (reports (d AudioStream) as)) (map (Pair VideoStream) (reports (d VideoStream) vs'))"
    | (video_end) "\<not> d VideoStream" "vs = []" "ev = (VideoStream, fin)" "evs = map (Pair AudioStream) (reports (d AudioStream) as)"
    using Cons.prems(1) by (cases as; cases vs) (auto simp: Cons_in_shuffles_iff split: if_splits)
  then show ?case
  proof cases
    case audio
    obtain s' where s: "step AudioStream a s = Some s'" "holds (c(AudioStream := c AudioStream @ bytes a)) (n(AudioStream := n AudioStream + cost a)) d s'"
      using more [of AudioStream a c n d s] Cons.prems audio by auto
    have c: "(c(AudioStream := c AudioStream @ bytes a)) (AudioStream := (c(AudioStream := c AudioStream @ bytes a)) AudioStream @ stream_bytes as',
        VideoStream := (c(AudioStream := c AudioStream @ bytes a)) VideoStream @ stream_bytes vs) =
        c(AudioStream := c AudioStream @ stream_bytes as, VideoStream := c VideoStream @ stream_bytes vs)"
      by (rule ext) (simp add: audio)
    have "\<exists>s''. cli_run step evs s' = Some s'' \<and>
        result (c(AudioStream := c AudioStream @ stream_bytes as, VideoStream := c VideoStream @ stream_bytes vs)) s''"
      unfolding c [symmetric] by (rule Cons.IH [OF audio(4) s(2)]) (use Cons.prems audio in simp_all)
    with s(1) show ?thesis unfolding audio(3) cli_run.simps by (simp only: bind.bind_lunit)
  next
    case video
    obtain s' where s: "step VideoStream v s = Some s'" "holds (c(VideoStream := c VideoStream @ bytes v)) (n(VideoStream := n VideoStream + cost v)) d s'"
      using more [of VideoStream v c n d s] Cons.prems video by auto
    have c: "(c(VideoStream := c VideoStream @ bytes v)) (AudioStream := (c(VideoStream := c VideoStream @ bytes v)) AudioStream @ stream_bytes as,
        VideoStream := (c(VideoStream := c VideoStream @ bytes v)) VideoStream @ stream_bytes vs') =
        c(AudioStream := c AudioStream @ stream_bytes as, VideoStream := c VideoStream @ stream_bytes vs)"
      by (rule ext) (simp add: video)
    have "\<exists>s''. cli_run step evs s' = Some s'' \<and>
        result (c(AudioStream := c AudioStream @ stream_bytes as, VideoStream := c VideoStream @ stream_bytes vs)) s''"
      unfolding c [symmetric] by (rule Cons.IH [OF video(4) s(2)]) (use Cons.prems video in simp_all)
    with s(1) show ?thesis unfolding video(3) cli_run.simps by (simp only: bind.bind_lunit)
  next
    case audio_end
    show ?thesis
    proof (cases "d VideoStream")
      case True
      then show ?thesis using second [of c n d s AudioStream] Cons.prems(2,7) audio_end by auto
    next
      case False
      obtain s' where s: "step AudioStream fin s = Some s'" "holds c n (d(AudioStream := True)) s'"
        using first [of c n d s AudioStream] Cons.prems(2) audio_end False by auto
      have "\<exists>s''. cli_run step evs s' = Some s'' \<and>
          result (c(AudioStream := c AudioStream @ stream_bytes as, VideoStream := c VideoStream @ stream_bytes vs)) s''"
        by (rule Cons.IH [where d = "d(AudioStream := True)" and c = c, OF _ s(2)]) (use Cons.prems audio_end False in simp_all)
      with s(1) show ?thesis unfolding audio_end(3) cli_run.simps by (simp only: bind.bind_lunit)
    qed
  next
    case video_end
    show ?thesis
    proof (cases "d AudioStream")
      case True
      then show ?thesis using second [of c n d s VideoStream] Cons.prems(2,6) video_end by auto
    next
      case False
      obtain s' where s: "step VideoStream fin s = Some s'" "holds c n (d(VideoStream := True)) s'"
        using first [of c n d s VideoStream] Cons.prems(2) video_end False by auto
      have "\<exists>s''. cli_run step evs s' = Some s'' \<and>
          result (c(AudioStream := c AudioStream @ stream_bytes as, VideoStream := c VideoStream @ stream_bytes vs)) s''"
        by (rule Cons.IH [where d = "d(VideoStream := True)" and c = c, OF _ s(2)]) (use Cons.prems video_end False in simp_all)
      with s(1) show ?thesis unfolding video_end(3) cli_run.simps by (simp only: bind.bind_lunit)
    qed
  qed
qed

lemma both_end:
  assumes "evs \<in> shuffles (map (Pair AudioStream) (as @ [fin])) (map (Pair VideoStream) (vs @ [fin]))"
    and "holds (\<lambda>_. []) (\<lambda>_. 0) (\<lambda>_. False) s" "list_all (plain AudioStream) as" "list_all (plain VideoStream) vs"
    and "sum_list (map cost as) + sum_list (map cost vs) \<le> room"
  shows "\<exists>s'. cli_run step evs s = Some s' \<and> result ((\<lambda>_. [])(AudioStream := stream_bytes as, VideoStream := stream_bytes vs)) s'"
  using run_ends [of evs "\<lambda>_. False" as vs "\<lambda>_. []" "\<lambda>_. 0" s] assms by (simp add: reports_def)

end

section \<open>What is collected\<close>

definition is_muxed :: "cli_event \<Rightarrow> bool" where
  "is_muxed e = (case e of Muxed _ _ _ _ _ _ \<Rightarrow> True | _ \<Rightarrow> False)"

definition muxes :: "cli_state \<Rightarrow> cli_event list" where
  "muxes s = filter is_muxed (cs_log s)"

text \<open>Every \<open>write\<close> takes all it is given, the idle handles can be made, and the inputs of the muxer are well formed.\<close>

definition cli_env_ok :: "cli_env \<Rightarrow> bool" where
  "cli_env_ok env \<longleftrightarrow>
     (\<forall>fd buf. ce_write env fd buf \<ge> length buf) \<and> me_mem (ce_media_env env) MediaIdleAlloc \<and> de_mem (ce_dash_env env) DashIdleAlloc \<and>
     (\<forall>files path. packets_ok (snd (ff_open (ce_ffmpeg env files) path)))"

text \<open>The video has a name for its output, and two files of its own.\<close>

definition temps_ok :: "ytdl_cli_video \<Rightarrow> bool" where
  "temps_ok v \<longleftrightarrow> cv_o_path v \<noteq> None \<and> cv_path v AudioStream \<noteq> None \<and> cv_path v VideoStream \<noteq> None \<and>
     cv_path v AudioStream \<noteq> cv_path v VideoStream \<and> cv_fd v AudioStream \<noteq> cv_fd v VideoStream"

text \<open>
  In the middle of a download: what came in of each stream is in its file, the counters are those of the
  streams, the streams at their end are marked, a stream that is not has its descriptor, and nothing was muxed.
\<close>

definition collects :: "cli_env \<Rightarrow> ytdl_cli_video \<Rightarrow> (stream \<Rightarrow> string) \<Rightarrow> (stream \<Rightarrow> nat) \<Rightarrow> (stream \<Rightarrow> bool) \<Rightarrow> cli_state \<Rightarrow> bool" where
  "collects env v c n d s \<longleftrightarrow>
     cli_env_ok env \<and> temps_ok v \<and> cs_video s = Live (v\<lparr>cv_is_done := d, cv_count := (\<lambda>k. int (n k))\<rparr>) \<and>
     (\<forall>k. \<not> d k \<longrightarrow> cs_open s (cv_fd v k) = cv_path v k) \<and> (\<forall>k. cs_files s (the (cv_path v k)) = Some (c k)) \<and>
     muxes s = []"

definition mux_level :: "ytdl_cli_video \<Rightarrow> ytdl_mux_loglevel" where
  "mux_level v = (if log_level (cv_opts v) = YTDL_LOG_LEVEL_NONE then YTDL_MUX_LOG_ERRORS else YTDL_MUX_LOG_VERBOSE)"

text \<open>At the end: the muxer ran once, on files that hold what came in, and the video is gone.\<close>

definition muxed :: "cli_env \<Rightarrow> ytdl_cli_video \<Rightarrow> (stream \<Rightarrow> string) \<Rightarrow> cli_state \<Rightarrow> bool" where
  "muxed env v c s \<longleftrightarrow> cs_video s = Freed \<and>
     (\<exists>files m r. files (the (cv_path v AudioStream)) = Some (c AudioStream) \<and> files (the (cv_path v VideoStream)) = Some (c VideoStream) \<and>
        ytdl_mux_files (ce_ffmpeg env files) (the (cv_path v AudioStream)) (the (cv_path v VideoStream)) (mux_level v) = Some (m, r) \<and>
        muxes s = [Muxed (Some (c AudioStream)) (Some (c VideoStream)) (the (cv_o_path v)) (mux_level v) (mx_file m) r]) \<and>
     (\<not> is_debug (cv_opts v) \<longrightarrow> (\<forall>k. cs_files s (the (cv_path v k)) = None))"

lemma stream_all: "(\<forall>k. P k) \<longleftrightarrow> P AudioStream \<and> P VideoStream"
  using stream.exhaust by metis

lemma cli_log_sel [simp]:
  "cs_video (cli_log e s) = cs_video s" "cs_ctx (cli_log e s) = cs_ctx s" "cs_open (cli_log e s) = cs_open s"
  "cs_files (cli_log e s) = cs_files s" "muxes (cli_log e s) = muxes s @ (if is_muxed e then [e] else [])"
  by (simp_all add: cli_log_def muxes_def)

lemma set_video_sel [simp]:
  "cs_video (set_video v s) = Live v" "cs_ctx (set_video v s) = cs_ctx s" "cs_open (set_video v s) = cs_open s"
  "cs_files (set_video v s) = cs_files s" "muxes (set_video v s) = muxes s"
  by (simp_all add: set_video_def muxes_def)

lemma muxes_upd [simp]:
  "muxes (s\<lparr>cs_open := a\<rparr>) = muxes s" "muxes (s\<lparr>cs_files := b\<rparr>) = muxes s" "muxes (s\<lparr>cs_video := w\<rparr>) = muxes s" "muxes (s\<lparr>cs_ctx := x\<rparr>) = muxes s"
  by (simp_all add: muxes_def)

lemma is_muxed_Put [simp]: "\<not> is_muxed (Put f t)"
  by (simp add: is_muxed_def)

lemma write_fd_sel [simp]: "cs_video (write_fd env fd b s) = cs_video s" "cs_ctx (write_fd env fd b s) = cs_ctx s"
    "cs_open (write_fd env fd b s) = cs_open s" "muxes (write_fd env fd b s) = muxes s"
  by (simp_all add: write_fd_def split: option.split)

lemma collects_video: "collects env v c n d s \<Longrightarrow> cs_video s = Live (v\<lparr>cv_is_done := d, cv_count := (\<lambda>k. int (n k))\<rparr>)"
  by (simp add: collects_def)

lemma collects_log: "collects env v c n d s \<Longrightarrow> \<not> is_muxed e \<Longrightarrow> collects env v c n d (cli_log e s)"
  by (simp add: collects_def)

lemma collects_count:
  "collects env v c n d s \<Longrightarrow>
    collects env v c (n(k := m)) d (set_video (v\<lparr>cv_is_done := d, cv_count := (\<lambda>k. int (n k))(k := int m)\<rparr>) s)"
  by (auto simp: collects_def fun_eq_iff)

lemma collects_write:
  assumes "collects env v c n d s" "\<not> d k"
  shows "collects env v (c(k := c k @ buf)) n d (write_fd env (cv_fd v k) buf s)"
proof -
  have t: "take (ce_write env fd buf) buf = buf" for fd using assms(1) by (simp add: collects_def cli_env_ok_def)
  obtain p where o: "cs_open s (cv_fd v k) = cv_path v k" "cv_path v k = Some p" "cs_files s p = Some (c k)"
    using assms by (cases k) (auto simp: collects_def temps_ok_def stream_all)
  have ne: "the (cv_path v j) \<noteq> the (cv_path v k)" if "j \<noteq> k" for j
    using assms(1) that by (cases j; cases k) (auto simp: collects_def temps_ok_def)
  have "cs_files (write_fd env (cv_fd v k) buf s) = (cs_files s)(the (cv_path v k) \<mapsto> c k @ buf)"
    using o by (simp add: write_fd_def t)
  then show ?thesis using assms(1) ne by (auto simp: collects_def)
qed

lemma muxed_once:
  assumes "collects env v c n d s"
  shows "\<exists>s'. ytdl__mux_and_free env s = Some s' \<and> muxed env v c s' \<and> cs_open s' = cs_open s \<and> cs_ctx s' = cs_ctx s"
proof -
  obtain ap vp op where p: "cv_path v AudioStream = Some ap" "cv_path v VideoStream = Some vp" "cv_o_path v = Some op"
    using assms by (auto simp: collects_def temps_ok_def)
  have f: "cs_files s ap = Some (c AudioStream)" "cs_files s vp = Some (c VideoStream)" "muxes s = []"
    using assms p by (auto simp: collects_def stream_all)
  let ?ff = "ce_ffmpeg env (cs_files s)"
  have "\<And>path. packets_ok (snd (ff_open ?ff path))" using assms by (simp add: collects_def cli_env_ok_def)
  from mux_files_total [OF this] obtain m r where "ytdl_mux_files ?ff ap vp (mux_level v) = Some (m, r)" by blast
  note r = this
  let ?e = "Muxed (Some (c AudioStream)) (Some (c VideoStream)) op (mux_level v) (mx_file m) r"
  have "\<exists>s'. ytdl__mux_and_free env s = Some s' \<and> cs_video s' = Freed \<and> muxes s' = [?e] \<and> cs_open s' = cs_open s \<and> cs_ctx s' = cs_ctx s \<and>
      (\<not> is_debug (cv_opts v) \<longrightarrow> cs_files s' ap = None \<and> cs_files s' vp = None)"
    using p f r by (cases "is_debug (cv_opts v)"; cases "log_level (cv_opts v)")
      (simp_all add: ytdl__mux_and_free_def collects_video [OF assms] use_def mux_level_def is_muxed_def Let_def)
  then show ?thesis using p f(1,2) r unfolding muxed_def stream_all by (auto 4 4)
qed

text \<open>The end of a stream, up to the release of its descriptor.\<close>

lemma first_done:
  assumes "collects env v c n d s" "\<not> d k" "\<not> d (other k)"
    and "\<And>j. j \<noteq> k \<Longrightarrow> cs_open s' (cv_fd v j) = cs_open s (cv_fd v j)" "cs_files s' = cs_files s" "muxes s' = muxes s"
    and "w = v\<lparr>cv_count := (\<lambda>k. int (n k)), cv_is_done := d(k := True)\<rparr>" "cs_video s' = Live w"
  shows "mux_if_done env w s' = Some s'" "collects env v c n (d(k := True)) s'"
proof -
  have w: "w = v\<lparr>cv_is_done := d(k := True), cv_count := (\<lambda>k. int (n k))\<rparr>" using assms(7) by simp
  show "mux_if_done env w s' = Some s'" using assms(2,3) by (cases k) (simp_all add: w mux_if_done_def)
  show "collects env v c n (d(k := True)) s'" using assms(1-6,8) by (cases k) (auto simp: w collects_def stream_all)
qed

lemma second_done:
  assumes "collects env v c n d s" "\<not> d k" "d (other k)" "cs_files s' = cs_files s" "muxes s' = muxes s"
    and "w = v\<lparr>cv_count := (\<lambda>k. int (n k)), cv_is_done := d(k := True)\<rparr>" "cs_video s' = Live w"
  shows "\<exists>s''. mux_if_done env w s' = Some s'' \<and> muxed env v c s'' \<and> cs_open s'' = cs_open s' \<and> cs_ctx s'' = cs_ctx s'"
proof -
  have "(d(k := True)) j" for j using assms(3) by (cases j; cases k) auto
  then have "d(k := True) = (\<lambda>_. True)" by (intro ext) simp
  then have w: "w = v\<lparr>cv_is_done := (\<lambda>_. True), cv_count := (\<lambda>k. int (n k))\<rparr>" using assms(6) by simp
  have "collects env v c n (\<lambda>_. True) s'" using assms(1-5,7) by (auto simp: collects_def w)
  moreover have "cv_is_done w AudioStream \<and> cv_is_done w VideoStream" by (simp add: w)
  ultimately show ?thesis using muxed_once by (auto simp: mux_if_done_def)
qed

section \<open>Media downloads\<close>

definition media_collects ::
    "cli_env \<Rightarrow> ytdl_cli_video \<Rightarrow> (stream \<Rightarrow> string) \<Rightarrow> (stream \<Rightarrow> nat) \<Rightarrow> (stream \<Rightarrow> bool) \<Rightarrow> (stream \<Rightarrow> ytdl_dl_media_ctx) \<times> cli_state \<Rightarrow> bool" where
  "media_collects env v c n d = (\<lambda>(m, s). collects env v c n d s \<and>
     (log_level (cv_opts v) \<noteq> YTDL_LOG_LEVEL_NONE \<longrightarrow> int_add (cv_count_total v AudioStream) (cv_count_total v VideoStream) \<noteq> None) \<and>
     (\<forall>k. if d k then cs_ctx s k = Freed \<and> cs_open s (cv_fd v k) = None \<and> md_stopping (m k)
          else cs_ctx s k = Live \<lparr>cx_fd = cv_fd v k, cx_is_done = k, cx_count = k\<rparr>))"

definition media_muxed :: "cli_env \<Rightarrow> ytdl_cli_video \<Rightarrow> (stream \<Rightarrow> string) \<Rightarrow> (stream \<Rightarrow> ytdl_dl_media_ctx) \<times> cli_state \<Rightarrow> bool" where
  "media_muxed env v c = (\<lambda>(m, s). muxed env v c s \<and> (\<forall>k. cs_ctx s k = Freed \<and> cs_open s (cv_fd v k) = None \<and> md_stopping (m k)))"

definition media_bytes :: "media_event \<Rightarrow> string" where
  "media_bytes e = (case e of Data buf \<Rightarrow> buf | _ \<Rightarrow> [])"

definition media_plain :: "cli_env \<Rightarrow> stream \<Rightarrow> media_event \<Rightarrow> bool" where
  "media_plain env k e = (case e of Data buf \<Rightarrow> True | ChunkDone \<Rightarrow> ce_chunk_null env k | _ \<Rightarrow> False)"

text \<open>The most an \<open>int\<close> counts.\<close>

definition counter_max :: nat where "counter_max = 2 ^ 31 - 1"

lemma counter_cut: "n \<le> counter_max \<Longrightarrow> sint (word_of_int (int n) :: 32 word) = int n"
  by (simp add: counter_max_def signed_of_nat signed_take_bit_int_eq_self)

lemma counter_add: "a + b \<le> counter_max \<Longrightarrow> int_add (int a) (int b) = Some (int a + int b)"
  by (auto simp: counter_max_def int_add_def int32_def)

text \<open>A counter goes up, and the progress is shown.\<close>

lemma counted:
  assumes "collects env v c n d s" "(n(k := m)) AudioStream + (n(k := m)) VideoStream \<le> counter_max"
    and "log_level (cv_opts v) \<noteq> YTDL_LOG_LEVEL_NONE \<Longrightarrow> whole \<noteq> None"
    and w: "w = v\<lparr>cv_is_done := d, cv_count := (\<lambda>k. int (n k))(k := int m)\<rparr>"
  shows "\<exists>s'. show_progress env w whole e (set_video w s) = Some s' \<and> collects env v c (n(k := m)) d s' \<and> cs_ctx s' = cs_ctx s \<and> cs_open s' = cs_open s"
proof -
  have c: "collects env v c (n(k := m)) d (set_video w s)" unfolding w by (rule collects_count [OF assms(1)])
  show ?thesis
  proof (cases "log_level (cv_opts v) = YTDL_LOG_LEVEL_NONE")
    case True
    with c show ?thesis by (simp add: show_progress_def w)
  next
    case False
    have "int_add (cv_count w AudioStream) (cv_count w VideoStream) \<noteq> None"
      using counter_add [OF assms(2)] by (cases k) (simp_all add: w)
    moreover have "collects env v c (n(k := m)) d (cli_log (progress_line env (cv_id w) N W e) (set_video w s))" for N W
      by (rule collects_log [OF c]) (simp add: progress_line_def)
    ultimately show ?thesis using False assms(3) by (auto simp: show_progress_def w)
  qed
qed

lemma media_pipe_collects:
  assumes "media_collects env v c n d (m, s)" "\<not> d k" "n AudioStream + n VideoStream + length buf \<le> counter_max"
  shows "\<exists>s'. ytdl__media_pipe env k buf s = Some s' \<and> media_collects env v (c(k := c k @ buf)) (n(k := n k + length buf)) d (m, s')"
proof -
  let ?n = "n(k := n k + length buf)"
  let ?v = "v\<lparr>cv_is_done := d, cv_count := (\<lambda>k. int (n k))(k := int (n k + length buf))\<rparr>"
  have c: "collects env v c n d s" using assms(1) by (simp add: media_collects_def)
  have x: "cs_ctx s k = Live \<lparr>cx_fd = cv_fd v k, cx_is_done = k, cx_count = k\<rparr>" using assms(1,2) by (auto simp: media_collects_def)
  have le: "n k + length buf \<le> counter_max" "?n AudioStream + ?n VideoStream \<le> counter_max" using assms(3) by (cases k; simp)+
  have cut: "sint (word_of_int (int (n k) + int (length buf)) :: 32 word) = int (n k + length buf)"
    using counter_cut [OF le(1)] by simp
  obtain t where t: "show_progress env ?v (int_add (cv_count_total v AudioStream) (cv_count_total v VideoStream)) [CR] (set_video ?v s) = Some t"
      "collects env v c ?n d t" "cs_ctx t = cs_ctx s" "cs_open t = cs_open s"
    using counted [OF c le(2), of "int_add (cv_count_total v AudioStream) (cv_count_total v VideoStream)" ?v "[CR]"] assms(1)
    by (auto simp: media_collects_def)
  have "ytdl__media_pipe env k buf s = Some (write_fd env (cv_fd v k) buf t)"
    using x t(1) cut by (simp add: ytdl__media_pipe_def collects_video [OF c] use_def Let_def)
  with collects_write [OF t(2) assms(2), of buf] t(3,4) assms(1) show ?thesis by (auto simp: media_collects_def)
qed

lemma media_first:
  assumes "media_collects env v c n d x" "\<not> d k" "\<not> d (other k)"
  shows "\<exists>x'. cli_media_step env k MediaDone x = Some x' \<and> media_collects env v c n (d(k := True)) x'"
proof -
  obtain m s where x: "x = (m, s)" by force
  have c: "collects env v c n d s" and e: "me_mem (ce_media_env env) MediaIdleAlloc" and t: "temps_ok v"
    using assms(1) by (auto simp: x media_collects_def collects_def cli_env_ok_def)
  have l: "cs_ctx s k = Live \<lparr>cx_fd = cv_fd v k, cx_is_done = k, cx_count = k\<rparr>" using assms(1,2) by (auto simp: x media_collects_def)
  let ?w = "v\<lparr>cv_count := (\<lambda>k. int (n k)), cv_is_done := d(k := True)\<rparr>"
  let ?s = "(set_video ?w s)\<lparr>cs_open := (cs_open s)(cv_fd v k := None)\<rparr>"
  have ne: "cv_fd v j \<noteq> cv_fd v k" if "j \<noteq> k" for j using t that by (cases j; cases k) (auto simp: temps_ok_def)
  have "mux_if_done env ?w ?s = Some ?s" "collects env v c n (d(k := True)) ?s" using ne by (intro first_done [OF c assms(2,3)]; simp add: set_video_def)+
  then show ?thesis using assms(1,2) l e ne
    by (auto simp: x ytdl__media_complete_def collects_video [OF c] use_def release_def ytdl_dl_media_shutdown_def Let_def
      media_collects_def collects_def)
qed

lemma media_second:
  assumes "media_collects env v c n d x" "\<not> d k" "d (other k)"
  shows "\<exists>x'. cli_media_step env k MediaDone x = Some x' \<and> media_muxed env v c x'"
proof -
  obtain m s where x: "x = (m, s)" by force
  have c: "collects env v c n d s" and e: "me_mem (ce_media_env env) MediaIdleAlloc"
    using assms(1) by (auto simp: x media_collects_def collects_def cli_env_ok_def)
  have l: "cs_ctx s k = Live \<lparr>cx_fd = cv_fd v k, cx_is_done = k, cx_count = k\<rparr>"
      "cs_ctx s (other k) = Freed" "cs_open s (cv_fd v (other k)) = None" "md_stopping (m (other k))"
    using assms by (auto simp: x media_collects_def)
  let ?w = "v\<lparr>cv_count := (\<lambda>k. int (n k)), cv_is_done := d(k := True)\<rparr>"
  let ?s = "(set_video ?w s)\<lparr>cs_open := (cs_open s)(cv_fd v k := None)\<rparr>"
  obtain s'' where s: "mux_if_done env ?w ?s = Some s''" "muxed env v c s''" "cs_open s'' = cs_open ?s" "cs_ctx s'' = cs_ctx ?s"
    using second_done [OF c assms(2,3), of ?s ?w] by (auto simp: set_video_def)
  show ?thesis using s l e
    by (cases k) (auto simp: x ytdl__media_complete_def collects_video [OF c] use_def release_def ytdl_dl_media_shutdown_def Let_def
      media_muxed_def muxed_def stream_all)
qed

interpretation media_pair: two_streams "cli_media_step env" MediaDone media_bytes "\<lambda>e. length (media_bytes e)" "media_plain env" counter_max
    "media_collects env v" "media_muxed env v" for env v
proof
  fix e c n d k and x :: "(stream \<Rightarrow> ytdl_dl_media_ctx) \<times> cli_state"
  assume "media_plain env k e" "media_collects env v c n d x" "\<not> d k" "n AudioStream + n VideoStream + length (media_bytes e) \<le> counter_max"
  then show "\<exists>x'. cli_media_step env k e x = Some x' \<and>
      media_collects env v (c(k := c k @ media_bytes e)) (n(k := n k + length (media_bytes e))) d x'"
    using media_pipe_collects [of env v c n d "fst x" "snd x" k "media_bytes e"]
    by (cases x; cases e) (auto simp: media_plain_def media_bytes_def media_collects_def)
qed (fact media_first, fact media_second)

section \<open>DASH downloads\<close>



definition dash_bytes :: "dash_event \<Rightarrow> string" where
  "dash_bytes e = (case e of DashData buf \<Rightarrow> buf | _ \<Rightarrow> [])"

definition dash_cost :: "dash_event \<Rightarrow> nat" where
  "dash_cost e = (case e of SegmentDone \<Rightarrow> 1 | _ \<Rightarrow> 0)"

definition dash_plain :: "dash_event \<Rightarrow> bool" where
  "dash_plain e = (case e of DashData buf \<Rightarrow> True | SegmentDone \<Rightarrow> True | _ \<Rightarrow> False)"


lemma dash_stream_of_closing [simp]: "dash_stream_of (ctx\<lparr>dd_on_close := cb, dd_stopping := b\<rparr>) = dash_stream_of ctx"
  by (simp add: dash_stream_of_def)




section \<open>From the video to the muxer\<close>

definition templ_of :: "ytdl_cli_options \<Rightarrow> stream \<Rightarrow> string" where
  "templ_of opts k = (case k of AudioStream \<Rightarrow> a_intr_templ opts | VideoStream \<Rightarrow> v_intr_templ opts)"

definition temp_path :: "cli_env \<Rightarrow> ytdl_cli_options \<Rightarrow> stream \<Rightarrow> string" where
  "temp_path env opts k = snd (ce_mkstemp env k (templ_of opts k))"

definition temp_fd :: "cli_env \<Rightarrow> ytdl_cli_options \<Rightarrow> stream \<Rightarrow> int" where
  "temp_fd env opts k = fst (ce_mkstemp env k (templ_of opts k))"

text \<open>\<open>mkstemp\<close> makes both files, and they are two.\<close>

definition temp_files_ok :: "cli_env \<Rightarrow> ytdl_cli_options \<Rightarrow> bool" where
  "temp_files_ok env opts \<longleftrightarrow> temp_fd env opts AudioStream \<ge> 0 \<and> temp_fd env opts VideoStream \<ge> 0 \<and>
     temp_fd env opts AudioStream \<noteq> temp_fd env opts VideoStream \<and> temp_path env opts AudioStream \<noteq> temp_path env opts VideoStream"

definition totals_fit :: "cli_state \<Rightarrow> bool" where
  "totals_fit s =
     (case cs_video s of Live v \<Rightarrow> int_add (cv_count_total v AudioStream) (cv_count_total v VideoStream) \<noteq> None | _ \<Rightarrow> True)"

text \<open>The video as the handlers find it at first.\<close>

definition fresh_video :: "cli_env \<Rightarrow> ytdl_cli_options \<Rightarrow> ytdl_cli_video \<Rightarrow> cli_state \<Rightarrow> bool" where
  "fresh_video env opts v s \<longleftrightarrow> cv_opts v = opts \<and> cv_o_path v \<noteq> None \<and> (\<forall>k. cv_path v k = Some (temp_path env opts k)) \<and>
     (\<forall>k. cv_fd v k = temp_fd env opts k) \<and> cv_is_done v = (\<lambda>_. False) \<and> cv_count v = (\<lambda>_. 0) \<and> cs_video s = Live v \<and>
     (\<forall>k. cs_open s (temp_fd env opts k) = Some (temp_path env opts k)) \<and> (\<forall>k. cs_files s (temp_path env opts k) = Some []) \<and> muxes s = []"

lemma fresh_collects:
  assumes "fresh_video env opts v s" "cli_env_ok env" "temp_files_ok env opts"
  shows "collects env v (\<lambda>_. []) (\<lambda>_. 0) (\<lambda>_. False) s"
  using assms by (simp add: fresh_video_def temp_files_ok_def collects_def temps_ok_def)

lemma open_temp_spec:
  "open_temp env k (templ_of opts k) v s = Some (v', s') \<Longrightarrow> temp_fd env opts k \<ge> 0 \<Longrightarrow>
     v' = v\<lparr>cv_path := (cv_path v)(k := Some (temp_path env opts k)), cv_fd := (cv_fd v)(k := temp_fd env opts k)\<rparr> \<and>
     s' = s\<lparr>cs_open := (cs_open s)(temp_fd env opts k \<mapsto> temp_path env opts k), cs_files := (cs_files s)(temp_path env opts k \<mapsto> [])\<rparr>"
  by (auto simp: open_temp_def temp_fd_def temp_path_def not_less split: if_splits prod.splits)


lemma start_stream_spec:
  assumes "start_stream env k (templ_of opts k) i info v s = Some (Inr (info', v', s', m))" "temp_fd env opts k \<ge> 0"
  shows "v' = v\<lparr>cv_path := (cv_path v)(k := Some (temp_path env opts k)), cv_fd := (cv_fd v)(k := temp_fd env opts k)\<rparr> \<and>
     s' = s\<lparr>cs_open := (cs_open s)(temp_fd env opts k \<mapsto> temp_path env opts k), cs_files := (cs_files s)(temp_path env opts k \<mapsto> []),
       cs_ctx := (cs_ctx s)(k := Live \<lparr>cx_fd = temp_fd env opts k, cx_is_done = k, cx_count = k\<rparr>)\<rparr>"
proof -
  obtain s1 where "open_temp env k (templ_of opts k) v s = Some (v', s1)"
      "s' = s1\<lparr>cs_ctx := (cs_ctx s1)(k := Live \<lparr>cx_fd = cv_fd v' k, cx_is_done = k, cx_count = k\<rparr>)\<rparr>"
    using assms(1) by (auto simp: start_stream_def bind_eq_Some_conv split: if_splits stream.splits)
  with open_temp_spec [OF this(1) assms(2)] show ?thesis by simp
qed

lemma start_media_streams:
  assumes "start_media env opts vid v s = Some (Inr (vid', s', MediaStarted vm am))"
  obtains i info0 ct s0 info1 v1 s1 j info2 v2 s2 where
    "start_stream env VideoStream (v_intr_templ opts) i info0 (v\<lparr>cv_count_total := ct\<rparr>) s0 = Some (Inr (info1, v1, s1, vm))"
    "start_stream env AudioStream (a_intr_templ opts) j info1 v1 s1 = Some (Inr (info2, v2, s2, am))"
    "muxes s0 = muxes s" "cs_video s' = Live v2" "cs_open s' = cs_open s2" "cs_files s' = cs_files s2" "muxes s' = muxes s2"
    "cs_ctx s' = cs_ctx s2"
  using assms unfolding start_media_def
  by (auto simp: bind_eq_Some_conv and_then_Inr Let_def split: if_splits)

lemma start_media_spec:
  assumes "start_media env opts vid v s = Some (Inr (vid', s', MediaStarted vm am))" "temp_files_ok env opts" "muxes s = []"
    and "cv_opts v = opts" "cv_o_path v \<noteq> None" "cv_is_done v = (\<lambda>_. False)" "cv_count v = (\<lambda>_. 0)"
  shows "\<exists>v'. fresh_video env opts v' s' \<and> (\<forall>k. cs_ctx s' k = Live \<lparr>cx_fd = temp_fd env opts k, cx_is_done = k, cx_count = k\<rparr>)"
proof -
  have t: "v_intr_templ opts = templ_of opts VideoStream" "a_intr_templ opts = templ_of opts AudioStream" by (simp_all add: templ_of_def)
  obtain i info0 ct s0 info1 v1 s1 j info2 v2 s2 where
    o: "start_stream env VideoStream (templ_of opts VideoStream) i info0 (v\<lparr>cv_count_total := ct\<rparr>) s0 = Some (Inr (info1, v1, s1, vm))"
       "start_stream env AudioStream (templ_of opts AudioStream) j info1 v1 s1 = Some (Inr (info2, v2, s2, am))"
    and s: "muxes s0 = muxes s" "cs_video s' = Live v2" "cs_open s' = cs_open s2" "cs_files s' = cs_files s2" "muxes s' = muxes s2"
      "cs_ctx s' = cs_ctx s2"
    by (rule start_media_streams [OF assms(1), unfolded t])
  show ?thesis
    using start_stream_spec [OF o(1)] start_stream_spec [OF o(2)] s assms(2-)
    by (intro exI [of _ v2]) (auto simp: fresh_video_def temp_files_ok_def stream_all)
qed

lemma info_complete_downloads:
  assumes "ytdl__info_complete env opts vid s = Some (Inr (vid', s', st))" "muxes s = []" "st \<noteq> NotStarted"
  obtains vid0 s0 where "muxes s0 = []" "start_download env opts vid0 s0 = Some (Inr (vid', s', st))"
  using assms unfolding ytdl__info_complete_def
  by (auto simp: bind_eq_Some_conv Let_def split: if_splits) (rule that [rotated], assumption, simp)+

lemma start_dash_kind: "start_dash env opts url vid v s = Some (Inr (vid', s', st)) \<Longrightarrow> \<exists>d. st = DashStarted d"
  by (auto simp: start_dash_def bind_eq_Some_conv Let_def split: if_splits)


lemma start_download_video:
  assumes "start_download env opts vid s = Some (Inr (vid', s', st))"
  obtains v where "cv_opts v = opts" "cv_o_path v \<noteq> None" "cv_is_done v = (\<lambda>_. False)" "cv_count v = (\<lambda>_. 0)"
    "(\<exists>url. start_dash env opts url vid v s = Some (Inr (vid', s', st))) \<or> start_media env opts vid v s = Some (Inr (vid', s', st))"
proof -
  from assms obtain path where "(case i_dash_manifest_url (v_info vid) of
      Some url \<Rightarrow> start_dash env opts url vid \<lparr>cv_opts = opts, cv_id = v_id vid, cv_o_path = Some path, cv_fd = (\<lambda>_. 0),
        cv_path = (\<lambda>_. None), cv_is_done = (\<lambda>_. False), cv_count = (\<lambda>_. 0), cv_count_total = (\<lambda>_. 0)\<rparr> s
    | None \<Rightarrow> start_media env opts vid \<lparr>cv_opts = opts, cv_id = v_id vid, cv_o_path = Some path, cv_fd = (\<lambda>_. 0),
        cv_path = (\<lambda>_. None), cv_is_done = (\<lambda>_. False), cv_count = (\<lambda>_. 0), cv_count_total = (\<lambda>_. 0)\<rparr> s) = Some (Inr (vid', s', st))"
    unfolding start_download_def by (auto simp only: bind_eq_Some_conv Let_def)
  then show ?thesis by (intro that) (auto split: option.splits)
qed


lemma media_started:
  assumes "ytdl__info_complete env opts vid s = Some (Inr (vid', s', MediaStarted vm am))" "muxes s = []" "temp_files_ok env opts"
  obtains v where "fresh_video env opts v s'" "\<And>k. cs_ctx s' k = Live \<lparr>cx_fd = temp_fd env opts k, cx_is_done = k, cx_count = k\<rparr>"
proof -
  obtain vid0 s0 where d: "muxes s0 = []" "start_download env opts vid0 s0 = Some (Inr (vid', s', MediaStarted vm am))"
    by (rule info_complete_downloads [OF assms(1,2)]) auto
  obtain v where v: "cv_opts v = opts" "cv_o_path v \<noteq> None" "cv_is_done v = (\<lambda>_. False)" "cv_count v = (\<lambda>_. 0)"
    "(\<exists>url. start_dash env opts url vid0 v s0 = Some (Inr (vid', s', MediaStarted vm am))) \<or>
       start_media env opts vid0 v s0 = Some (Inr (vid', s', MediaStarted vm am))"
    by (rule start_download_video [OF d(2)])
  then have "start_media env opts vid0 v s0 = Some (Inr (vid', s', MediaStarted vm am))" using start_dash_kind by blast
  from start_media_spec [OF this assms(3) d(1) v(1-4)] show ?thesis using that by blast
qed

definition mux_level_of :: "ytdl_cli_options \<Rightarrow> ytdl_mux_loglevel" where
  "mux_level_of opts = (if log_level opts = YTDL_LOG_LEVEL_NONE then YTDL_MUX_LOG_ERRORS else YTDL_MUX_LOG_VERBOSE)"

text \<open>
  The muxer ran once, on two files that hold \<open>audio\<close> and \<open>video\<close>, and the structure of the video is
  freed; unless there is a debug log, the files are gone too.
\<close>

definition muxed_once_with :: "cli_env \<Rightarrow> ytdl_cli_options \<Rightarrow> string \<Rightarrow> string \<Rightarrow> cli_state \<Rightarrow> bool" where
  "muxed_once_with env opts audio video s \<longleftrightarrow> cs_video s = Freed \<and>
     (\<exists>files m r o_path. files (temp_path env opts AudioStream) = Some audio \<and> files (temp_path env opts VideoStream) = Some video \<and>
        ytdl_mux_files (ce_ffmpeg env files) (temp_path env opts AudioStream) (temp_path env opts VideoStream) (mux_level_of opts) = Some (m, r) \<and>
        muxes s = [Muxed (Some audio) (Some video) o_path (mux_level_of opts) (mx_file m) r]) \<and>
     (is_debug opts \<or> (\<forall>k. cs_files s (temp_path env opts k) = None))"

lemma muxed_fresh:
  "fresh_video env opts v s0 \<Longrightarrow> muxed env v c s \<Longrightarrow> muxed_once_with env opts (c AudioStream) (c VideoStream) s"
  unfolding muxed_def muxed_once_with_def fresh_video_def mux_level_def mux_level_of_def by auto

definition both :: "'a \<Rightarrow> 'a \<Rightarrow> stream \<Rightarrow> 'a" where
  "both a v k = (case k of AudioStream \<Rightarrow> a | VideoStream \<Rightarrow> v)"

text \<open>The bytes of a stream, from what each response brought.\<close>

definition stream_text :: "(int \<times> string list) list \<Rightarrow> string" where
  "stream_text rs = concat (concat (map snd rs))"

lemma media_event_simps [simp]:
  "media_bytes (Data b) = b" "media_bytes ChunkDone = []" "media_plain env k (Data b)" "media_plain env k ChunkDone = ce_chunk_null env k"
  "concat (map media_bytes (map Data ds)) = concat ds" "list_all (media_plain env k) (map Data ds)"
  by (simp_all add: media_bytes_def media_plain_def comp_def list_all_iff)

lemma media_events_plain:
  "rs \<noteq> [] \<Longrightarrow> \<exists>es. media_events rs = es @ [MediaDone] \<and> (length rs = 1 \<or> ce_chunk_null env k \<longrightarrow> list_all (media_plain env k) es) \<and>
     concat (map media_bytes es) = stream_text rs"
proof (induction rs rule: media_events.induct)
  case (2 r)
  then show ?case by (intro exI [of _ "map Data (snd r)"]) (simp add: stream_text_def del: map_map)
next
  case (3 r s rs)
  then obtain es where "media_events (s # rs) = es @ [MediaDone]" "ce_chunk_null env k \<longrightarrow> list_all (media_plain env k) es"
    "concat (map media_bytes es) = stream_text (s # rs)" by auto
  then show ?case by (intro exI [of _ "map Data (snd r) @ [ChunkDone] @ es"]) (simp add: stream_text_def del: map_map)
qed simp

lemma media_events_chunk: "1 < length rs \<Longrightarrow> ChunkDone \<in> set (media_events rs)"
  by (induction rs rule: media_events.induct) simp_all

text \<open>The pointer nobody stores is called when the first range of a stream is complete.\<close>

lemma chunk_callback_unset: "\<not> ce_chunk_null env k \<Longrightarrow> cli_media_step env k ChunkDone x = None"
  by (cases x) simp

lemma cli_run_stuck: "(k, e) \<in> set evs \<Longrightarrow> (\<And>x. step k e x = None) \<Longrightarrow> cli_run step evs s = None"
proof (induction evs arbitrary: s)
  case (Cons ev evs)
  then show ?case by (cases ev; cases "step (fst ev) (snd ev) s") auto
qed simp

lemma media_chunk_stuck:
  assumes "evs \<in> shuffles (map (Pair AudioStream) (media_events ra)) (map (Pair VideoStream) (media_events rv))"
    and "1 < length ra \<and> \<not> ce_chunk_null env AudioStream \<or> 1 < length rv \<and> \<not> ce_chunk_null env VideoStream"
  shows "cli_run (cli_media_step env) evs x = None"
proof -
  obtain k where k: "(k, ChunkDone) \<in> set evs" "\<not> ce_chunk_null env k"
    using assms(2) media_events_chunk [of ra] media_events_chunk [of rv] unfolding set_shuffles [OF assms(1)] by auto
  from k(1) show ?thesis by (rule cli_run_stuck) (rule chunk_callback_unset [OF k(2)])
qed

text \<open>
  C10. A video without a DASH manifest, once its two media downloads are started, whatever the order in
  which the pieces of both streams come in. Neither the caller nor \<open>ytdl_dl_media_ctx_init\<close> stores the
  pointer that is called at the end of each range but the last, so the run is undefined behaviour exactly
  when a stream has more than one range and the memory \<open>malloc\<close> gave for its context has no null pointer
  there. Otherwise the muxer runs exactly once, after the end of the second
  stream, and both of its input files then hold exactly the bytes of their stream in order; the video
  and both contexts of its streams are freed once, their descriptors closed, the temporary files removed
  unless there is a debug log, and both downloads told to stop. This holds when writes are complete, the
  idle handles can be allocated, FFmpeg's packets are well formed, the temporary files differ, the bytes of
  both streams fit in an \<open>int\<close>, and so do their announced lengths unless nothing is logged.
\<close>

theorem media_video_muxed:
  assumes "cli_env_ok env" "temp_files_ok env opts" "muxes s0 = []"
    and "ytdl__info_complete env opts vid s0 = Some (Inr (vid', s, MediaStarted vm am))"
    and "log_level opts \<noteq> YTDL_LOG_LEVEL_NONE \<longrightarrow> totals_fit s"
    and "evs \<in> shuffles (map (Pair AudioStream) (media_events ra)) (map (Pair VideoStream) (media_events rv))"
    and "ra \<noteq> []" "rv \<noteq> []" "length (stream_text ra) + length (stream_text rv) < 2 ^ 31"
  shows "if (length ra = 1 \<or> ce_chunk_null env AudioStream) \<and> (length rv = 1 \<or> ce_chunk_null env VideoStream)
    then \<exists>m s'. cli_run (cli_media_step env) evs (both am vm, s) = Some (m, s') \<and>
      muxed_once_with env opts (stream_text ra) (stream_text rv) s' \<and>
      (\<forall>k. cs_ctx s' k = Freed \<and> cs_open s' (temp_fd env opts k) = None \<and> md_stopping (m k))
    else cli_run (cli_media_step env) evs (both am vm, s) = None"
proof (cases "(length ra = 1 \<or> ce_chunk_null env AudioStream) \<and> (length rv = 1 \<or> ce_chunk_null env VideoStream)")
  case True
  then obtain as vs where e: "media_events ra = as @ [MediaDone]" "list_all (media_plain env AudioStream) as" "concat (map media_bytes as) = stream_text ra"
      "media_events rv = vs @ [MediaDone]" "list_all (media_plain env VideoStream) vs" "concat (map media_bytes vs) = stream_text rv"
    using media_events_plain [OF assms(7), of env AudioStream] media_events_plain [OF assms(8), of env VideoStream] by blast
  obtain v where v: "fresh_video env opts v s" "\<And>k. cs_ctx s k = Live \<lparr>cx_fd = temp_fd env opts k, cx_is_done = k, cx_count = k\<rparr>"
    using media_started [OF assms(4,3,2)] by blast
  have "media_collects env v (\<lambda>_. []) (\<lambda>_. 0) (\<lambda>_. False) (both am vm, s)"
    using fresh_collects [OF v(1) assms(1,2)] v assms(5) by (auto simp: media_collects_def fresh_video_def totals_fit_def)
  moreover have "sum_list (map (\<lambda>e. length (media_bytes e)) es) = length (concat (map media_bytes es))" for es
    by (simp add: length_concat comp_def)
  ultimately obtain x where x: "cli_run (cli_media_step env) evs (both am vm, s) = Some x"
      "media_muxed env v ((\<lambda>_. [])(AudioStream := stream_text ra, VideoStream := stream_text rv)) x"
    using media_pair.both_end [OF assms(6)[unfolded e(1,4)], of env v "(both am vm, s)"] assms(9) e
    by (auto simp: media_pair.stream_bytes_def counter_max_def)
  then have "\<exists>m s'. cli_run (cli_media_step env) evs (both am vm, s) = Some (m, s') \<and>
      muxed_once_with env opts (stream_text ra) (stream_text rv) s' \<and>
      (\<forall>k. cs_ctx s' k = Freed \<and> cs_open s' (temp_fd env opts k) = None \<and> md_stopping (m k))"
    using muxed_fresh [OF v(1)] v(1) by (cases x) (fastforce simp: media_muxed_def fresh_video_def)
  then show ?thesis using True by simp
next
  case False
  have "1 < length rs" if "rs \<noteq> []" "length rs \<noteq> 1" for rs :: "(int \<times> string list) list" using that by (cases rs) auto
  then show ?thesis using False media_chunk_stuck [OF assms(6)] assms(7,8) by auto
qed

lemma dash_event_simps [simp]:
  "dash_bytes (DashData b) = b" "dash_bytes SegmentDone = []" "dash_cost SegmentDone = 1" "dash_plain (DashData b)" "dash_plain SegmentDone"
  "concat (map dash_bytes (map DashData ds)) = concat ds" "sum_list (map dash_cost (map DashData ds)) = 0" "list_all dash_plain (map DashData ds)"
  by (simp_all add: dash_bytes_def dash_plain_def dash_cost_def comp_def list_all_iff)





section \<open>The program asks for its videos\<close>

definition waiting :: "ytdl_dl_ctx \<Rightarrow> ytdl_dl_video ptr list \<Rightarrow> u64 \<Rightarrow> bool" where
  "waiting ctx ps n \<longleftrightarrow> dl_queue ctx = \<lparr>q_videos = Live ps, q_len = n, q_size = 1\<rparr> \<and> dl_status ctx = 0"

lemma init_waiting:
  assumes "env_ok dl"
  shows "waiting (fst (ytdl_dl_ctx_init dl 0 ctx)) [Null] 0"
proof -
  obtain m where "en_malloc dl (Suc 0) = Some m" using env_okD(2) [OF assms] by blast
  with env_okD(4) [OF assms, of QueueAlloc] show ?thesis
    by (auto simp: ytdl_dl_ctx_init_def Let_def ytdl_buf_alloc_def ytdl_http_client_init_def ytdl_tcp_client_init_def waiting_def)
qed

lemma wake_waiting: "dl_status ctx = 0 \<Longrightarrow> ytdl__dl_wake dl ctx = Some ctx"
  by (simp add: ytdl__dl_wake_def)

lemma first_waits:
  assumes "env_ok dl" "waiting ctx [Null] 0" "length ident = YTDL_ID_SIZE"
  shows "\<exists>ctx' w. ytdl_dl_get_info dl ctx ident cb = Some (ctx', 0) \<and> waiting ctx' [Live w] 1 \<and> v_id w = ident \<and> v_on_complete w = cb"
proof -
  obtain v where v: "en_video dl = Some v" using env_okD(5) [OF assms(1)] by blast
  have s: "slice ident 0 YTDL_ID_SIZE = Some ident" using assms(3) by (simp add: slice_def)
  obtain m where m: "en_malloc dl (Suc 0) = Some m" using env_okD(2) [OF assms(1)] by blast
  show ?thesis using assms(2) v s m
    by (auto simp: ytdl_dl_get_info_def waiting_def Let_def put_video_def use_def wake_waiting set_videos_def set_len_def ytdl_buf_alloc_def)
qed

lemma second_overflows:
  assumes "env_ok dl" "waiting ctx [p] 1"
  shows "ytdl_dl_get_info dl ctx ident cb = None"
proof -
  have "grow_queue dl (dl_queue ctx) = Some (dl_queue ctx)"
    using assms(2) env_okD(4) [OF assms(1), of QueueAlloc] by (simp add: waiting_def grow_queue_def Let_def)
  with assms(2) show ?thesis by (auto simp: waiting_def ytdl_dl_get_info_def Let_def put_video_def use_def set_len_def bind_eq_None_conv)
qed

lemma take_id_length: "take_id m p = Some (r, Some vid) \<Longrightarrow> length vid = YTDL_ID_LEN"
  by (auto simp: take_id_def slice_def split: option.splits if_splits)

lemma query_scan_length: "query_scan m p n = Some (r, Some vid) \<Longrightarrow> length vid = YTDL_ID_LEN"
  by (induction m p n rule: query_scan.induct) (auto split: option.splits if_splits dest: take_id_length)

lemma get_id_length: "ytdl_net_get_id_from_url m n = Some (r, Some vid) \<Longrightarrow> length vid = YTDL_ID_LEN"
  by (auto simp: ytdl_net_get_id_from_url_def query_id_def path_id_def slice_def Let_def split: option.splits if_splits prod.splits
    dest: take_id_length query_scan_length)

definition names_video :: "string \<Rightarrow> string \<Rightarrow> bool" where
  "names_video arg vid \<longleftrightarrow> ytdl_net_get_id_from_url (arg @ [NUL]) (length arg) = Some (0, Some vid)"

lemma ask_first:
  assumes "env_ok dl" "waiting ctx [Null] 0" "names_video arg vid"
  shows "\<exists>ctx' w. ask_for dl cb arg (ident, ctx) = Some (Inr (vid @ [NUL], ctx')) \<and> waiting ctx' [Live w] 1 \<and>
    v_id w = vid @ [NUL] \<and> v_on_complete w = cb"
proof -
  have "length (vid @ [NUL]) = YTDL_ID_SIZE" using get_id_length assms(3) by (simp add: names_video_def YTDL_ID_SIZE_def YTDL_ID_LEN_def)
  from first_waits [OF assms(1,2) this, of cb] assms(3) show ?thesis by (auto simp: ask_for_def names_video_def)
qed

lemma ask_second: "env_ok dl \<Longrightarrow> waiting ctx [p] 1 \<Longrightarrow> names_video arg vid \<Longrightarrow> ask_for dl cb arg (ident, ctx) = None"
  by (simp add: ask_for_def names_video_def second_overflows bind_eq_None_conv)

lemma connect_queue:
  "\<exists>c r. ytdl_dl_ctx_connect pton ip tc ctx = Some (ctx\<lparr>dl_http := c\<rparr>, r) \<and> h_is_tls c \<and> h_hostname c = Live ''www.youtube.com''"
  by (auto simp: ytdl_dl_ctx_connect_def ytdl_http_client_connect_def ytdl_tcp_client_connect_def ytdl__tcp_client_connect_def Let_def)

text \<open>
  C40. Called with options and the address of one video, the program puts exactly that video into the
  queue, with the identifier of its address and the callback that also saves the players and stops the
  downloader, and connects to the host of the watch pages over TLS.
\<close>

theorem main_one_video:
  assumes "env_ok dl" "parse_options opens opts_0 given = Inr opts" "2 \<le> length argv" "optind = length argv - 1"
    and "names_video (last argv) vid"
  shows "\<exists>ctx' w. main opens dl 0 pton ip tc NoCache argv given optind ident ctx = Some (Inr (opts, ctx')) \<and>
    q_videos (dl_queue ctx') = Live [Live w] \<and> q_len (dl_queue ctx') = 1 \<and> v_id w = vid @ [NUL] \<and> v_on_complete w = 1 \<and>
    h_is_tls (dl_http ctx') \<and> h_hostname (dl_http ctx') = Live ''www.youtube.com''"
proof -
  let ?ctx = "fst (ytdl_dl_ctx_init dl 0 ctx)"
  obtain c w where c: "ask_for dl 1 (last argv) (ident, ?ctx) = Some (Inr (vid @ [NUL], c))" "waiting c [Live w] 1"
      "v_id w = vid @ [NUL]" "v_on_complete w = 1"
    using ask_first [OF assms(1) init_waiting [OF assms(1)] assms(5)] by blast
  obtain h r where h: "ytdl_dl_ctx_connect pton ip tc c = Some (c\<lparr>dl_http := h\<rparr>, r)" "h_is_tls h" "h_hostname h = Live ''www.youtube.com''"
    using connect_queue by blast
  show ?thesis using assms(2-4) c h by (auto simp: main_def Let_def waiting_def)
qed

text \<open>With the addresses of two videos or more, the second is written behind the array of the queue.\<close>

lemma main_two_videos:
  assumes "env_ok dl" "parse_options opens opts_0 given = Inr opts" "optind + 1 < length argv" "\<forall>arg \<in> set argv. \<exists>vid. names_video arg vid"
  shows "main opens dl 0 pton ip tc NoCache argv given optind ident ctx = None"
proof -
  let ?ctx = "fst (ytdl_dl_ctx_init dl 0 ctx)"
  obtain arg as where a: "drop optind (butlast argv) = arg # as"
    using assms(3) by (cases "drop optind (butlast argv)") auto
  then have s: "set (arg # as) \<subseteq> set argv" by (metis dual_order.trans in_set_butlastD set_drop_subset subsetI)
  obtain vid where v: "names_video arg vid" using assms(4) s by auto
  obtain c w where c: "ask_for dl 0 arg (ident, ?ctx) = Some (Inr (vid @ [NUL], c))" "waiting c [Live w] 1"
    using ask_first [OF assms(1) init_waiting [OF assms(1)] v] by blast
  have n: "ask_for dl cb x (ident', c) = None" if "x \<in> set argv" for cb x ident'
    using ask_second [OF assms(1) c(2)] assms(4) that by blast
  have "last argv \<in> set argv" using assms(3) by (intro last_in_set) auto
  then have "and_then (ask_all dl as (vid @ [NUL], c)) (ask_for dl 1 (last argv)) = None" using n s by (cases as) auto
  then show ?thesis using assms(2,3) a c(1) by (auto simp: main_def Let_def)
qed

section \<open>What goes wrong\<close>

text \<open>Two streams of 1.2 GB: the sum of their lengths is not an \<open>int\<close>, and the first byte is undefined behaviour.\<close>

lemma totals_overflow:
  assumes "cs_video s = Live v" "log_level (cv_opts v) \<noteq> YTDL_LOG_LEVEL_NONE"
    and "cv_count_total v AudioStream = 1200000000" "cv_count_total v VideoStream = 1200000000"
  shows "ytdl__media_pipe env k buf s = None"
proof -
  have "int_add 1200000000 1200000000 = None" by (simp add: int_add_def int32_def)
  with assms show ?thesis by (cases "cs_ctx s k") (auto simp: ytdl__media_pipe_def use_def Let_def show_progress_def bind_eq_None_conv)
qed

text \<open>A page without the details of a video, as that of a private one, ends in \<open>strdup (NULL)\<close>.\<close>

lemma no_title_fails: "i_title (v_info vid) = None \<Longrightarrow> start_download env opts vid s = None"
  by (simp add: start_download_def output_path_def Let_def)

text \<open>When the second small block cannot be allocated, it is used nevertheless.\<close>

lemma unchecked_block: "ce_mem env (MediaAlloc AudioStream) \<Longrightarrow> \<not> ce_mem env (CtxAlloc AudioStream) \<Longrightarrow>
    start_stream env AudioStream templ i info v s = None"
  by (simp add: start_stream_def)

text \<open>The answer of the muxer is not looked at: when it fails the downloaded files are removed all the same.\<close>

lemma failed_mux_removes:
  assumes "cs_video s = Live v" "\<not> is_debug (cv_opts v)" "cv_path v AudioStream = Some ap" "cv_path v VideoStream = Some vp" "cv_o_path v \<noteq> None"
    and "\<And>level. ytdl_mux_files (ce_ffmpeg env (cs_files s)) ap vp level = Some (m, r)" "r < 0"
  shows "\<exists>s'. ytdl__mux_and_free env s = Some s' \<and> cs_files s' ap = None \<and> cs_files s' vp = None"
  using assms by (auto simp: ytdl__mux_and_free_def use_def Let_def)

text \<open>A write that takes less than it is given loses the rest.\<close>

lemma short_write_lost:
  "cs_open s fd = Some path \<Longrightarrow> cs_files s path = Some d \<Longrightarrow> ce_write env fd buf = n \<Longrightarrow>
     cs_files (write_fd env fd buf s) path = Some (d @ take n buf)"
  by (simp add: write_fd_def)

text \<open>The file of the players is written without a check that it could be opened.\<close>

lemma unwritable_cache:
  "ytdl__info_complete env opts vid s = Some (Inr r) \<Longrightarrow> ytdl__info_complete_final env dl False opts ctx vid s = None"
  by (cases r) (simp add: ytdl__info_complete_final_def)

section \<open>An example\<close>

definition sample_format :: "string \<Rightarrow> string \<Rightarrow> (string \<times> json) list \<Rightarrow> json" where
  "sample_format url n kvs = JObj ([(''url'', JStr url), (''contentLength'', JStr n), (''mimeType'', JStr ''m'')] @ kvs)"

definition sample_response :: "(string \<times> json) list \<Rightarrow> json" where
  "sample_response kvs = JObj
     [(''videoDetails'', JObj [(''title'', JStr ''a/b''), (''lengthSeconds'', JStr ''1''), (''channelId'', JStr ''c''),
         (''viewCount'', JStr ''2''), (''author'', JStr ''d''), (''shortDescription'', JStr ''e'')]),
      (''streamingData'', JObj ([(''formats'', JArr []), (''adaptiveFormats'', JArr
         [sample_format ''https://h/v?x'' ''3'' [(''width'', JUint 4)],
          sample_format ''https://h/a?y'' ''2'' [(''bitrate'', JUint 128), (''audioChannels'', JUint 2), (''audioQuality'', JStr ''AUDIO_QUALITY_LOW'')]])] @ kvs))]"

definition sample_vid :: "(string \<times> json) list \<Rightarrow> ytdl_dl_video" where
  "sample_vid kvs = \<lparr>v_id = ''aaaaaaaaaaa'' @ [NUL], v_info = ytdl_info_ctx_init\<lparr>i_player_response := Some (sample_response kvs), i_sig_actions := Some demo_actions\<rparr>,
     v_response = request_0, v_on_complete = 0\<rparr>"

definition sample_media :: ytdl_dl_media_ctx where
  "sample_media = \<lparr>md_http = demo_client, md_url = http_parser_url_init, md_format_url = Null, md_content_length = 0, md_on_close = None,
     md_pause_between_chunks = False, md_is_chunked = True, md_want_redirect = False, md_redirect_was_location = False,
     md_last_chunk_end = 0, md_on_message_complete = ChunkComplete, md_on_header_field = False, md_on_header_value = False,
     md_stopping = False, md_log = []\<rparr>"

definition sample_dash :: ytdl_dl_dash_ctx where
  "sample_dash = \<lparr>dd_http = demo_client, dd_on_body = NoBody, dd_on_message_complete = NoComplete,
     dd_manifest = \<lparr>b_base = Some ''x'', b_len = 1, b_size = 1\<rparr>, dd_on_close = None,
     dd_dash = \<lparr>dash_doc = None, dash_a = stream_0, dash_v = stream_0\<rparr>, dd_manifest_path = Live (''/m'' @ [NUL]),
     dd_manifest_host = Live (''h'' @ [NUL]), dd_manifest_path_len = 2, dd_manifest_host_len = 1, dd_host = Null, dd_host_len = 0,
     dd_path = Null, dd_path_len = 0, dd_is_shutdown = False, dd_is_dash_init = False, dd_is_video = False,
     dd_pause_between_chunks = False, dd_stopping = False, dd_log = []\<rparr>"

definition sample_env :: cli_env where
  "sample_env = \<lparr>ce_mem = (\<lambda>_. True), ce_write = (\<lambda>_ buf. length buf),
     ce_mkstemp = (\<lambda>k _. case k of AudioStream \<Rightarrow> (4, ''audio.1'') | VideoStream \<Rightarrow> (3, ''video.1'')),
     ce_snprintf = (\<lambda>_ args _. concat args), ce_null = Some ''(null)'', ce_percent = (\<lambda>_ _. ''1''), ce_rating = (\<lambda>_. ''0''),
     ce_ffmpeg = (\<lambda>files. sample_ff\<lparr>ff_open := (\<lambda>path. (0, if path = ''video.1'' then sample_video else sample_audio))\<rparr>),
     ce_array_ok = True, ce_calloc_ok = (\<lambda>_. True), ce_function_text = (\<lambda>_. None), ce_chunk_null = (\<lambda>k. k = VideoStream),
     ce_media = sample_media, ce_dash = sample_dash, ce_media_env = demo_media_env,
     ce_dash_env = demo_dash_env\<lparr>de_xmlReadMemory := (\<lambda>_. Some (Some demo_mpd))\<rparr>\<rparr>"

definition sample_state :: cli_state where
  "sample_state = \<lparr>cs_video = Null, cs_ctx = (\<lambda>_. Null), cs_open = Map.empty, cs_files = Map.empty, cs_log = []\<rparr>"

lemma sample_env_ok: "cli_env_ok sample_env" "temp_files_ok sample_env opts_0" "muxes sample_state = []"
  by (simp_all add: cli_env_ok_def temp_files_ok_def temp_fd_def temp_path_def sample_env_def sample_defs packets_ok_def demo_media_env_def
    demo_dash_env_def sample_state_def muxes_def)

lemma sample_media_starts:
  "\<exists>vid' s vm am. ytdl__info_complete sample_env opts_0 (sample_vid []) sample_state = Some (Inr (vid', s, MediaStarted vm am)) \<and> totals_fit s"
proof -
  have "(case ytdl__info_complete sample_env opts_0 (sample_vid []) sample_state of
      Some (Inr (vid', s, MediaStarted vm am)) \<Rightarrow> totals_fit s | _ \<Rightarrow> False)"
    by code_simp
  then show ?thesis by (auto split: option.splits sum.splits started.splits) (metis started.exhaust)+
qed



theorem media_video_muxed_witness:
  "\<exists>vid' s vm am m s'. ytdl__info_complete sample_env opts_0 (sample_vid []) sample_state = Some (Inr (vid', s, MediaStarted vm am)) \<and>
     cli_run (cli_media_step sample_env)
       [(VideoStream, Data ''ab''), (AudioStream, Data ''x''), (VideoStream, ChunkDone), (VideoStream, Data ''c''), (VideoStream, MediaDone),
        (AudioStream, Data ''y''), (AudioStream, MediaDone)] (both am vm, s) = Some (m, s') \<and>
     muxed_once_with sample_env opts_0 ''xy'' ''abc'' s' \<and> cs_files s' ''video.1'' = None \<and>
     cli_run (cli_media_step sample_env)
       [(VideoStream, Data ''ab''), (AudioStream, Data ''x''), (VideoStream, MediaDone), (AudioStream, ChunkDone), (AudioStream, Data ''y''),
        (AudioStream, MediaDone)] (both am vm, s) = None"
proof -
  obtain vid' s vm am where s: "ytdl__info_complete sample_env opts_0 (sample_vid []) sample_state = Some (Inr (vid', s, MediaStarted vm am))" "totals_fit s"
    using sample_media_starts by blast
  have n: "ce_chunk_null sample_env = (\<lambda>k. k = VideoStream)" by (simp add: sample_env_def)
  let ?evs = "[(VideoStream, Data ''ab''), (AudioStream, Data ''x''), (VideoStream, ChunkDone), (VideoStream, Data ''c''), (VideoStream, MediaDone),
        (AudioStream, Data ''y''), (AudioStream, MediaDone)]"
  let ?bad = "[(VideoStream, Data ''ab''), (AudioStream, Data ''x''), (VideoStream, MediaDone), (AudioStream, ChunkDone), (AudioStream, Data ''y''),
        (AudioStream, MediaDone)]"
  have "?evs \<in> shuffles (map (Pair AudioStream) (media_events [(0, [''x'', ''y''])])) (map (Pair VideoStream) (media_events [(0, [''ab'']), (0, [''c''])]))"
    by (simp add: Cons_in_shuffles_iff)
  from media_video_muxed [OF sample_env_ok s(1) _ this] s(2) obtain m s' where
    r: "cli_run (cli_media_step sample_env) ?evs (both am vm, s) = Some (m, s')" "muxed_once_with sample_env opts_0 ''xy'' ''abc'' s'"
    by (auto simp: stream_text_def n)
  moreover from this(2) have "cs_files s' ''video.1'' = None"
    unfolding muxed_once_with_def by (auto simp: stream_all opts_0_def temp_path_def sample_env_def)
  moreover have "?bad \<in> shuffles (map (Pair AudioStream) (media_events [(0, [''x'']), (0, [''y''])])) (map (Pair VideoStream) (media_events [(0, [''ab''])]))"
    by (simp add: Cons_in_shuffles_iff)
  from media_video_muxed [OF sample_env_ok s(1) _ this] s(2) have "cli_run (cli_media_step sample_env) ?bad (both am vm, s) = None"
    by (simp add: stream_text_def n)
  ultimately show ?thesis using s(1) by blast
qed


theorem main_one_video_witness:
  "\<exists>opts ctx' w. main (\<lambda>_. True) demo_env 0 (\<lambda>_ _. -1) 0 0 NoCache [''ytdl'', ''-q'', ''https://www.youtube.com/watch?v=aaaaaaaaaaa''] [(CHR ''q'', [])] 2
       [] (undefined\<lparr>dl_log := []\<rparr>) = Some (Inr (opts, ctx')) \<and>
     q_videos (dl_queue ctx') = Live [Live w] \<and> v_id w = ''aaaaaaaaaaa'' @ [NUL]"
proof -
  have "names_video ''https://www.youtube.com/watch?v=aaaaaaaaaaa'' ''aaaaaaaaaaa''" unfolding names_video_def by code_simp
  then show ?thesis
    using main_one_video [OF demo_env_ok, of "\<lambda>_. True" "[(CHR ''q'', [])]" "opts_0\<lparr>log_level := YTDL_LOG_LEVEL_NONE\<rparr>"
      "[''ytdl'', ''-q'', ''https://www.youtube.com/watch?v=aaaaaaaaaaa'']" 2 "''aaaaaaaaaaa''" "\<lambda>_ _. -1" 0 0 "[]" "undefined\<lparr>dl_log := []\<rparr>"]
    by auto
qed

end
