(* ===== verification/Regexc.thy ===== *)
theory Regexc
  imports Ytdl_Prelude
begin

text \<open>
  \<open>src/regexc.c\<close>: the tool of the build that compiles the regular expressions of \<open>src/sig.c\<close> and prints
  their bytecode as arrays of C. The compiler of libregexp is a parameter: its bytecode, or its error.
\<close>

section \<open>The file\<close>

record ytdl_regex_def =
  var_name :: string
  regex_text :: string
  regex_len :: nat
  regex_flags :: int

definition HEX :: string where "HEX = ''0123456789abcdef''"

text \<open>\<open>0x%02x\<close>.\<close>

definition hex_byte :: "char \<Rightarrow> string" where
  "hex_byte c = ''0x'' @ [HEX ! (of_char c div 16), HEX ! (of_char c mod 16)]"

text \<open>What stands behind the byte \<open>i\<close> of \<open>n\<close>: fifteen are on a line.\<close>

definition hex_end :: "nat \<Rightarrow> nat \<Rightarrow> string" where
  "hex_end n i = (if i + 1 = n then [] else if (i + 1) mod 15 = 0 then '','' @ [LF] @ ''    '' else '','')"

fun print_bytes :: "nat \<Rightarrow> nat \<Rightarrow> string \<Rightarrow> string" where
  "print_bytes n i [] = []"
| "print_bytes n i (c # cs) = hex_byte c @ hex_end n i @ print_bytes n (i + 1) cs"

definition print_array :: "string \<Rightarrow> string \<Rightarrow> string" where
  "print_array name code =
     ''const unsigned char '' @ name @ ''[] = {'' @ [LF] @ ''    '' @ print_bytes (length code) 0 code @ [LF] @ ''};'' @ [LF, LF]"

datatype compiled = Bytecode string | CompileError string

text \<open>The file as far as it is written, and the error that is printed, if there is one.\<close>

fun compile_all :: "(string \<Rightarrow> nat \<Rightarrow> int \<Rightarrow> compiled) \<Rightarrow> ytdl_regex_def list \<Rightarrow> string \<times> string option" where
  "compile_all lre_compile [] = ([], None)"
| "compile_all lre_compile (d # ds) =
     (case lre_compile (regex_text d) (regex_len d) (regex_flags d) of
        CompileError e \<Rightarrow> ([], Some (''Error: '' @ e @ [LF]))
      | Bytecode code \<Rightarrow> let (t, e) = compile_all lre_compile ds in (print_array (var_name d) code @ t, e))"

definition REGEXC_HEAD :: string where
  "REGEXC_HEAD = ''/* Compiled RegExp bytecodes */'' @ [LF] @ ''/* Generated file - do not edit */'' @ [LF, LF]"

text \<open>
  The status, what is printed and the file, if one is opened. \<open>opens\<close> says whether it can be: nobody
  checks it, and a stream that is \<open>NULL\<close> is undefined.
\<close>

definition regexc_main ::
    "(string \<Rightarrow> nat \<Rightarrow> int \<Rightarrow> compiled) \<Rightarrow> bool \<Rightarrow> ytdl_regex_def list \<Rightarrow> string list \<Rightarrow> (int \<times> string \<times> string option) option" where
  "regexc_main lre_compile opens regex_defs argv =
     (case argv of
        [] \<Rightarrow> None
      | [prog] \<Rightarrow> Some (1, ''Usage: '' @ prog @ '' [OUTFILE]'' @ [LF], None)
      | _ \<Rightarrow>
          if \<not> opens then None
          else let (t, e) = compile_all lre_compile regex_defs in
            (case e of
               None \<Rightarrow> Some (0, [], Some (REGEXC_HEAD @ t))
             | Some e \<Rightarrow> Some (1, e, Some (REGEXC_HEAD @ t))))"

section \<open>The arrays hold the bytecode\<close>

text \<open>The bytes of the constants in a text.\<close>

definition hex_value :: "char \<Rightarrow> nat" where
  "hex_value c = (if uchar c \<ge> 97 then uchar c - 87 else uchar c - 48)"

fun read_bytes :: "string \<Rightarrow> string" where
  "read_bytes (a # x # h # l # cs) =
     (if a = CHR ''0'' \<and> x = CHR ''x'' then char_of (16 * hex_value h + hex_value l) # read_bytes cs else read_bytes (x # h # l # cs))"
| "read_bytes cs = []"

lemma hex_digit: "n < 16 \<Longrightarrow> hex_value (HEX ! n) = n"
proof -
  have "\<forall>n \<in> set [0..<16]. hex_value (HEX ! n) = n" by code_simp
  then show "n < 16 \<Longrightarrow> hex_value (HEX ! n) = n" by simp
qed

lemma read_hex_byte: "read_bytes (hex_byte c @ cs) = c # read_bytes cs"
proof -
  have "of_char c < (256 :: nat)" by simp
  then have d: "of_char c div 16 < (16 :: nat)" by (simp add: less_mult_imp_div_less)
  have "char_of (16 * hex_value (HEX ! (of_char c div 16)) + hex_value (HEX ! (of_char c mod 16))) = c"
    using hex_digit [OF d] hex_digit [of "of_char c mod 16"] by simp
  then show ?thesis by (simp add: hex_byte_def)
qed

lemma read_skip: "c \<noteq> CHR ''0'' \<Longrightarrow> read_bytes (c # cs) = read_bytes cs"
  by (cases cs rule: read_bytes.cases) auto

lemma read_hex_end: "read_bytes (hex_end n i @ cs) = read_bytes cs"
  by (simp add: hex_end_def read_skip)

lemma read_print_bytes: "read_bytes (print_bytes n i code @ cs) = code @ read_bytes cs"
  by (induction n i code rule: print_bytes.induct) (simp_all add: read_hex_byte read_hex_end)

text \<open>
  What is printed of an array between its braces reads as the bytecode of its expression: the arrays
  \<open>src/sig.c\<close> is compiled with are what the compiler made.
\<close>

lemma array_holds_code:
  "\<exists>body. print_array name code = ''const unsigned char '' @ name @ ''[] = {'' @ body @ ''};'' @ [LF, LF] \<and> read_bytes body = code"
proof -
  let ?body = "[LF] @ ''    '' @ print_bytes (length code) 0 code @ [LF]"
  have "read_bytes ?body = code" using read_print_bytes [of "length code" 0 code "[LF]"] by (simp add: read_skip)
  then show ?thesis by (intro exI [of _ ?body]) (simp add: print_array_def)
qed

text \<open>An error ends the file in the middle, and the status says so.\<close>

lemma regexc_error:
  "lre_compile (regex_text d) (regex_len d) (regex_flags d) = CompileError e \<Longrightarrow>
     regexc_main lre_compile True (d # ds) [prog, file] = Some (1, ''Error: '' @ e @ [LF], Some REGEXC_HEAD)"
  by (simp add: regexc_main_def)

text \<open>The file is written to without a check that it could be opened.\<close>

lemma regexc_unopened: "regexc_main lre_compile False ds [prog, file] = None"
  by (simp add: regexc_main_def)

end
