(* ===== verification/Spec2Isabelle.thy ===== *)
theory Spec2Isabelle
  imports Url_Parser Hashmap Buffer Net Cutils Sig Json Info Cipher Dash Http Dl Media Dash_Dl Sort Cutils_Bits Mux Cli Regexc
begin

text \<open>
  A model of libytdl, a C library that finds the streams of a video page and downloads them.

  \<^bold>\<open>Parts.\<close> The downloader (\<open>Dl\<close>) keeps a queue of videos over a client of HTTP (\<open>Http\<close>)
  and serves one at a time; the array of the queue never grows beyond one entry, so that a video has to be
  asked for after the one before was handed over. Of each the watch page is requested (\<open>Net\<close>), collected (\<open>Buffer\<close>), scraped
  and read (\<open>Info\<close>, over \<open>Cutils\<close> and \<open>Json\<close>); the player it names is requested, scraped for the
  actions that decipher a signature (\<open>Sig\<close>) and kept in a map by its path (\<open>Hashmap\<close>), which can be
  saved. The actions turn the cipher of a format into its URL (\<open>Cipher\<close>), which is parsed
  (\<open>Url_Parser\<close>) and requested range by range (\<open>Media\<close>). A DASH manifest gives segments instead
  (\<open>Dash\<close>), requested one by one (\<open>Dash_Dl\<close>). The program of the command line (\<open>Cli\<close>) asks for the
  videos its arguments name, collects the two streams of each in files, and has them written into one
  (\<open>Mux\<close>).

  \<^bold>\<open>Theories.\<close>
  \<^item> \<open>Ytdl_Prelude\<close>: checked memory (\<open>rd\<close>, \<open>wr\<close>, \<open>blit\<close>: \<^term>\<open>None\<close> when an access leaves its
    block), C strings, and the functions of the C library the code calls.
  \<^item> \<open>Url_Parser\<close>: \<open>src/url_parser.c\<close>, the state machine over a URL and its host and port.
  \<^item> \<open>Hashmap\<close>: \<open>src/hashmap.c\<close>, open addressing with linear probing; a refinement of finite maps.
  \<^item> \<open>Buffer\<close>: \<open>src/buffer.c\<close>, and the interface \<open>byte_sink\<close> of what collects bytes.
  \<^item> \<open>Net\<close>: \<open>src/net.c\<close>, identifiers out of URLs and the texts of the requests.
  \<^item> \<open>Cutils\<close>: \<open>src/cutils.c\<close>, strings, the search \<open>strnstr\<close>, dynamic buffers, UTF-8.
  \<^item> \<open>Sort\<close>: the sort of \<open>src/cutils.c\<close>, over elements, and its exchange functions, over bytes.
  \<^item> \<open>Cutils_Bits\<close>: the integers of \<open>include/ytdl/cutils.h\<close>.
  \<^item> \<open>Sig\<close>: \<open>src/sig.c\<close>, the scan of a player's JavaScript and the cache file of its actions.
  \<^item> \<open>Json\<close>: the accessors of \<open>yyjson.h\<close> the scrapers use, on value trees.
  \<^item> \<open>Info\<close>: \<open>src/info.c\<close>, the page, the formats and the choice among them.
  \<^item> \<open>Cipher\<close>: the deciphering of a stream URL in \<open>src/info.c\<close>.
  \<^item> \<open>Dash\<close>: \<open>src/dash.c\<close>, representations and segments of a manifest.
  \<^item> \<open>Http\<close>: \<open>src/http/net.c\<close>, \<open>src/http/tcp.c\<close> and \<open>src/http/http.c\<close>. Each callback of libuv is a
    step on the record of the client; its pointers are \<open>Null\<close>, \<open>Live\<close> or \<open>Freed\<close>, what it tells
    the other libraries is a log. What these answer is an argument of the step.
  \<^item> \<open>Dl\<close>: the queue and the player cache of \<open>src/dl.c\<close>; the callbacks of the parser are steps.
  \<^item> \<open>Media\<close>: the download of a stream in \<open>src/dl.c\<close>, redirects included.
  \<^item> \<open>Dash_Dl\<close>: the download of the segments of a manifest in \<open>src/dl.c\<close>.
  \<^item> \<open>Mux\<close>: \<open>src/mux.c\<close>, on inputs and outputs of FFmpeg that are records.
  \<^item> \<open>Cli\<close>: \<open>src/cli.c\<close>, the options, the handlers of the downloads, and \<open>main\<close> up to the event loop.
    Its state is a video with its descriptors, files and log; the handlers are run on the events that
    \<open>Media\<close> and \<open>Dash_Dl\<close> report, in any order of the two streams.
  \<^item> \<open>Regexc\<close>: \<open>src/regexc.c\<close>, the tool that prints the compiled regular expressions.

  \<^bold>\<open>Conventions.\<close> A function that can leave its memory, dereference \<open>NULL\<close>, use a released block or
  overflow an \<open>int\<close> returns an option, \<^term>\<open>None\<close> for the undefined behaviour; the error codes of
  the code are values. A \<open>size_t\<close> is a 64-bit word where it can wrap, a natural number where it is a
  position in a block. Loops are structural recursions, or \<open>function\<close>s with a measure. Two have a
  bound: \<open>tls_write\<close> takes one job of the queue in each round and starts with the length of the queue;
  \<open>players_of\<close> walks the table of the map, and starts with its size and one. The stack of \<open>rqsort\<close> has
  the 50 entries of the code, which \<open>rqsort_terminates\<close> shows to be enough.
  What a callback of the caller does is an argument, and so are the answers of every allocation.

  \<^bold>\<open>Lemmas.\<close> Each theory first relates its loops to what they compute on texts or lists
  (\<open>find_sub\<close> for \<open>strnstr\<close>, finite maps for the hash map, \<open>pct_decode\<close> for \<open>urldecode\<close>,
  \<open>js_actions\<close> for the signature actions, \<open>media_ranges\<close> for the requests of a stream, \<open>visits\<close>
  for what the queue does, \<open>shuffles\<close> for what comes from two streams), then states its properties over these. The interfaces are the locales of
  \<open>Buffer\<close> and \<open>Hashmap\<close>, interpreted on the code's operations: \<open>byte_sink\<close> on the buffers of
  \<open>Cutils\<close> and on the bodies of responses in \<open>Dl\<close>, \<open>ordering_cmp\<close> of \<open>Sort\<close> on \<open>strcmp\<close>, and
  \<open>two_streams\<close> of \<open>Cli\<close> on the handlers of both kinds of downloads. The theories \<open>Dl\<close>, \<open>Media\<close> and \<open>Dash_Dl\<close> run
  their steps over sequences of events and compose the facts of the parts below. Where the code is right
  only under a condition, the property has it as a hypothesis, or says what happens in both cases
  (\<open>urldecode\<close> with too little room, a TLS write that is refused, a media context whose
  \<open>on_chunk_complete\<close> nobody stored), and a lemma shows that the condition is needed.

  \<^bold>\<open>Not modelled.\<close> QuickJS, libregexp, libunicode, yyjson and llhttp are vendored; what the code
  calls of them is a parameter, and so are libuv, OpenSSL, libxml2, FFmpeg and \<open>getopt_long\<close>. Values of
  type \<open>double\<close> are not computed with: the statistics of \<open>src/hashmap.c\<close> are left out, the growth of
  a buffer by a factor and the texts of a rating or a percentage are arguments. Left out are the
  initialisation of OpenSSL in \<open>src/http/net.c\<close>, the dump of an object for debugging in \<open>src/sig.c\<close>,
  and in \<open>src/cutils.c\<close> the code behind \<open>#if 0\<close>.
\<close>

end
